(* ===== verification/Prelude.thy ===== *)
theory Prelude
  imports Main "HOL-Library.Word" "HOL-Library.Monad_Syntax"
begin

unbundle bit_operations_syntax

text \<open>
  Shared vocabulary of the development: the machine types of the C++ sources, byte buffers
  with checked reads and writes, and the facts about words, lists and buffers that the component
  theories build on.

  A value of type \<open>'a option\<close> is the result of code that may abort: \<open>None\<close> stands for a failed
  \<open>assert\<close> or for a read or write outside the buffer, which C++ leaves undefined.
  Code that reports an error itself returns that error as a value.
\<close>

section \<open>Machine types\<close>

type_synonym byte = "8 word"
type_synonym u8 = "8 word"
type_synonym u16 = "16 word"
type_synonym u32 = "32 word"
type_synonym u64 = "64 word"

named_theorems wire_simps \<open>reads of encoded fields and fused writes of buffers\<close>

section \<open>Words\<close>

lemma uint_sub_cases:
  fixes a b :: "'a::len word"
  shows "uint (a - b) =
    (if uint b \<le> uint a then uint a - uint b else uint a - uint b + 2 ^ LENGTH('a))"
  by (simp add: uint_sub_if_size word_size)

lemma two_power_len_split: "(2::int) ^ LENGTH('a::len) = 2 * 2 ^ (LENGTH('a) - 1)"
  by (metis len_gt_0 power_eq_if neq0_conv)

lemma mod_below_zero: "- N \<le> x \<Longrightarrow> x < 0 \<Longrightarrow> x mod N = x + N" for x N :: int
  by (metis add.commute add_less_same_cancel2 le_add_same_cancel1 mod_add_self1 mod_pos_pos_trivial
      neg_le_iff_le minus_add_cancel add_le_cancel_left add.right_inverse)

lemma diff_mod_cases:
  fixes x y N :: int
  assumes "0 \<le> x" "x < N" "0 \<le> y" "y < N"
  shows "(x - y) mod N = (if y \<le> x then x - y else x - y + N)"
  using assms by (auto simp: mod_below_zero)

definition half_range :: "'a::len word" where
  "half_range = (- 1) div 2 + 1"

lemma uint_half_range: "uint (half_range :: 'a::len word) = 2 ^ (LENGTH('a) - 1)"
proof (cases "LENGTH('a) = 1")
  case True
  then have "(2 :: 'a word) = 0"
    by transfer simp
  with True show ?thesis
    by (simp add: half_range_def)
next
  case False
  then have "2 \<le> LENGTH('a)"
    using len_gt_0 [where 'a = 'a] by linarith
  then have two: "uint (2 :: 'a word) = 2"
    by simp
  have "uint ((- 1) div 2 :: 'a word) = (2 ^ LENGTH('a) - 1) div 2"
    by (simp only: uint_div two unsigned_minus_1_eq_mask mask_eq_exp_minus_1)
  also have "\<dots> = 2 ^ (LENGTH('a) - 1) - 1"
    by (simp add: two_power_len_split [where 'a = 'a])
  finally have "uint ((- 1) div 2 :: 'a word) = 2 ^ (LENGTH('a) - 1) - 1" .
  then show ?thesis
    by (simp add: half_range_def uint_word_ariths two_power_len_split [where 'a = 'a])
qed

lemma len_power_half: "(2::int) ^ LENGTH('a::len) = 2 * uint (half_range :: 'a word)"
  by (simp only: uint_half_range two_power_len_split [where 'a = 'a])

lemma half_range_pos [simp]: "0 < uint (half_range :: 'a::len word)"
  by (simp add: uint_half_range)

lemma uint_lt_half: "uint (x :: 'a::len word) < 2 * uint (half_range :: 'a word)"
  using uint_lt2p [of x] by (simp only: len_power_half)

lemmas uint_half_bounds = uint_ge_0 uint_lt_half

lemma unat_of_nat_small: "n < 2 ^ LENGTH('a) \<Longrightarrow> unat (of_nat n :: 'a::len word) = n"
  by (simp add: unat_of_nat take_bit_nat_eq_self)

lemma bit_below: "bit w k \<Longrightarrow> w < 2 ^ n \<Longrightarrow> k < n" for w :: "'a::len word"
  by (metis bit_take_bit_iff less_mask_eq take_bit_eq_mask)

section \<open>Byte buffers\<close>

text \<open>
  A pointer into a buffer is an offset into a byte list. A read or write outside the list is
  \<open>None\<close>.
\<close>

definition rd :: "byte list \<Rightarrow> nat \<Rightarrow> byte option" where
  "rd buf i = (if i < length buf then Some (buf ! i) else None)"

definition rd_bytes :: "byte list \<Rightarrow> nat \<Rightarrow> nat \<Rightarrow> byte list option" where
  "rd_bytes buf i n = (if i + n \<le> length buf then Some (take n (drop i buf)) else None)"

definition wr :: "nat \<Rightarrow> byte list \<Rightarrow> byte list \<Rightarrow> byte list option" where
  "wr i bs buf =
     (if i + length bs \<le> length buf then Some (take i buf @ bs @ drop (i + length bs) buf) else None)"

lemma rd_append [wire_simps]: "length xs \<le> n \<Longrightarrow> rd (xs @ ys) n = rd ys (n - length xs)"
  by (auto simp: rd_def nth_append)

lemma rd_append_left: "n < length xs \<Longrightarrow> rd (xs @ ys) n = Some (xs ! n)"
  by (auto simp: rd_def nth_append)

lemma rd_Cons_0 [wire_simps]: "rd (x # xs) 0 = Some x"
  by (simp add: rd_def)

lemma rd_Cons [wire_simps]: "0 < n \<Longrightarrow> rd (x # xs) n = rd xs (n - 1)"
  by (auto simp: rd_def)

lemma rd_drop [wire_simps]: "rd (drop k xs) n = rd xs (k + n)"
  by (auto simp: rd_def)

lemma rd_take [wire_simps]: "n < k \<Longrightarrow> rd (take k xs) n = rd xs n"
  by (auto simp: rd_def)

lemma rd_bytes_append [wire_simps]:
  "length xs \<le> i \<Longrightarrow> rd_bytes (xs @ ys) i n = rd_bytes ys (i - length xs) n"
  by (auto simp: rd_bytes_def)

lemma rd_bytes_here [wire_simps]: "length xs = n \<Longrightarrow> rd_bytes (xs @ ys) 0 n = Some xs"
  by (auto simp: rd_bytes_def)

lemma rd_bytes_Cons [wire_simps]: "0 < i \<Longrightarrow> rd_bytes (x # xs) i n = rd_bytes xs (i - 1) n"
  by (cases i) (auto simp: rd_bytes_def)

lemma rd_bytes_drop [wire_simps]: "i \<le> length xs \<Longrightarrow> rd_bytes (drop i xs) k n = rd_bytes xs (i + k) n"
  by (auto simp: rd_bytes_def ac_simps)

lemma rd_bytes_take [wire_simps]: "i + n \<le> k \<Longrightarrow> rd_bytes (take k xs) i n = rd_bytes xs i n"
  by (auto simp: rd_bytes_def drop_take min_def)

lemma rd_bytes_end [wire_simps]: "length xs = n \<Longrightarrow> rd_bytes xs 0 n = Some xs"
  by (auto simp: rd_bytes_def)

lemma rd_bytes_eq_None: "rd_bytes buf i n = None \<longleftrightarrow> length buf < i + n"
  by (auto simp: rd_bytes_def)

lemma length_wr: "wr i bs buf = Some buf' \<Longrightarrow> length buf' = length buf"
  by (auto simp: wr_def split: if_splits)

lemma wr_defined [simp]: "(\<exists>buf'. wr i bs buf = Some buf') \<longleftrightarrow> i + length bs \<le> length buf"
  by (simp add: wr_def)

text \<open>Two writes next to each other are one write of the concatenation.\<close>

lemma wr_fuse_bind:
  "j = i + length as \<Longrightarrow> Option.bind (wr i as buf) (\<lambda>b. Option.bind (wr j bs b) k) =
     Option.bind (wr i (as @ bs) buf) k"
  by (auto simp: wr_def ac_simps)

lemma wr_fuse_plain:
  "j = i + length as \<Longrightarrow> Option.bind (wr i as buf) (wr j bs) = wr i (as @ bs) buf"
  by (auto simp: wr_def ac_simps)

lemma wr_nil [simp]: "i \<le> length buf \<Longrightarrow> wr i [] buf = Some buf"
  by (simp add: wr_def)

lemma wr_same_place: "wr i bs buf = Some buf' \<Longrightarrow> take (length bs) (drop i buf') = bs"
  by (auto simp: wr_def split: if_splits)

lemma wr_elsewhere:
  "wr i bs buf = Some buf' \<Longrightarrow> take i buf' = take i buf \<and>
     drop (i + length bs) buf' = drop (i + length bs) buf"
  by (auto simp: wr_def split: if_splits)

end
