(* ===== verification/SeqNum.thy ===== *)
theory SeqNum
  imports Prelude
begin

text \<open>
  Wrap-around arithmetic on sequence numbers and timestamps:
  \<^verbatim>\<open>src/rtc/base/numerics/modulo_operator.hpp\<close>,
  \<^verbatim>\<open>src/rtc/rtp_rtcp/components/wrap_around_utils.hpp\<close>,
  \<^verbatim>\<open>wrap_around_checker.hpp\<close>, \<^verbatim>\<open>num_unwrapper.hpp\<close> and
  \<^verbatim>\<open>num_unwrapper_base.hpp\<close>.
  The template parameter \<open>T\<close> is a word type; \<open>M = 0\<close> (wrap at the type's width) and \<open>M > 0\<close>
  (wrap at \<open>M\<close>, with asserted arguments) are separate definitions, as they are separate
  overloads in the source. A failed assertion is \<open>None\<close>.
\<close>

section \<open>Differences modulo the type or modulo M\<close>

definition add_mod :: "u64 \<Rightarrow> u64 \<Rightarrow> u64 \<Rightarrow> u64 option" where
  "add_mod M a b =
     (if a < M then
        (let t = M - b mod M; res = a - t
         in Some (if t > a then res + M else res))
      else None)"

definition subtract_mod :: "u64 \<Rightarrow> u64 \<Rightarrow> u64 \<Rightarrow> u64 option" where
  "subtract_mod M a b =
     (if a < M then
        (let sub = b mod M in Some (if a < sub then M - (sub - a) else a - sub))
      else None)"

definition forward_diff :: "'a::len word \<Rightarrow> 'a word \<Rightarrow> 'a word" where
  "forward_diff a b = b - a"

definition forward_diff_mod :: "'a::len word \<Rightarrow> 'a word \<Rightarrow> 'a word \<Rightarrow> 'a word option" where
  "forward_diff_mod M a b =
     (if a < M \<and> b < M then Some (if a \<le> b then b - a else M - (a - b)) else None)"

definition reverse_diff :: "'a::len word \<Rightarrow> 'a word \<Rightarrow> 'a word" where
  "reverse_diff a b = a - b"

definition reverse_diff_mod :: "'a::len word \<Rightarrow> 'a word \<Rightarrow> 'a word \<Rightarrow> 'a word option" where
  "reverse_diff_mod M a b =
     (if a < M \<and> b < M then Some (if b \<le> a then a - b else M - (b - a)) else None)"

definition min_diff :: "'a::len word \<Rightarrow> 'a word \<Rightarrow> 'a word" where
  "min_diff a b = min (forward_diff a b) (reverse_diff a b)"

definition min_diff_mod :: "'a::len word \<Rightarrow> 'a word \<Rightarrow> 'a word \<Rightarrow> 'a word option" where
  "min_diff_mod M a b = do {
     f \<leftarrow> forward_diff_mod M a b;
     r \<leftarrow> reverse_diff_mod M a b;
     Some (min f r) }"

section \<open>Ordering of wrapping numbers\<close>

text \<open>
  \<open>a - b == max_dist\<close> compares after C++'s integer promotion: types narrower than \<open>int\<close> are
  subtracted as signed integers, the others wrap.
\<close>

definition promoted_diff_is :: "'a::len word \<Rightarrow> 'a word \<Rightarrow> 'a word \<Rightarrow> bool" where
  "promoted_diff_is a b d \<longleftrightarrow>
     (if LENGTH('a) < 32 then uint a - uint b = uint d else a - b = d)"

definition ahead_or_at :: "'a::len word \<Rightarrow> 'a word \<Rightarrow> bool" where
  "ahead_or_at a b =
     (let max_dist = half_range
      in if promoted_diff_is a b max_dist then b < a else forward_diff b a < max_dist)"

definition ahead_or_at_mod :: "'a::len word \<Rightarrow> 'a word \<Rightarrow> 'a word \<Rightarrow> bool option" where
  "ahead_or_at_mod M a b = do {
     let max_dist = M div 2;
     let is_even = (M AND 1 = 0);
     at_max \<leftarrow> (if is_even then map_option (\<lambda>d. d = max_dist) (min_diff_mod M a b) else Some False);
     if at_max then Some (b < a)
     else map_option (\<lambda>d. d \<le> max_dist) (forward_diff_mod M b a) }"

definition ahead_of :: "'a::len word \<Rightarrow> 'a word \<Rightarrow> bool" where
  "ahead_of a b \<longleftrightarrow> a \<noteq> b \<and> ahead_or_at a b"

definition ahead_of_mod :: "'a::len word \<Rightarrow> 'a word \<Rightarrow> 'a word \<Rightarrow> bool option" where
  "ahead_of_mod M a b = (if a \<noteq> b then ahead_or_at_mod M a b else Some False)"

definition latest :: "'a::len word \<Rightarrow> 'a word \<Rightarrow> 'a word" where
  "latest a b = (if ahead_of a b then a else b)"

definition newer_than :: "'a::len word \<Rightarrow> 'a word \<Rightarrow> bool" where
  "newer_than a b = ahead_of a b"

definition older_than :: "'a::len word \<Rightarrow> 'a word \<Rightarrow> bool" where
  "older_than a b = ahead_of b a"

definition detect_wrap_around :: "u32 \<Rightarrow> u32 \<Rightarrow> int" where
  "detect_wrap_around prev cur =
     (if cur < prev then (if sint (forward_diff prev cur) > 0 then 1 else 0)
      else (if sint (reverse_diff prev cur) > 0 then -1 else 0))"

text \<open>The deprecated comparison of \<^verbatim>\<open>wrap_around_checker.hpp\<close>.\<close>

definition is_newer :: "'a::len word \<Rightarrow> 'a word \<Rightarrow> bool" where
  "is_newer value prev_value =
     (if promoted_diff_is value prev_value half_range then value > prev_value
      else value \<noteq> prev_value \<and> value - prev_value < half_range)"

definition latest_sequence_number :: "u16 \<Rightarrow> u16 \<Rightarrow> u16" where
  "latest_sequence_number s1 s2 = (if is_newer s1 s2 then s1 else s2)"

definition latest_timestamp :: "u32 \<Rightarrow> u32 \<Rightarrow> u32" where
  "latest_timestamp t1 t2 = (if is_newer t1 t2 then t1 else t2)"

section \<open>Unwrapping\<close>

text \<open>
  \<^verbatim>\<open>NumberUnwrapper\<close> of \<^verbatim>\<open>num_unwrapper.hpp\<close>: the state is the optional last
  unwrapped value, an \<^verbatim>\<open>int64_t\<close>. It is kept as an unbounded integer: it moves by less
  than \<open>2 ^ 31\<close> per call from a value below \<open>2 ^ 32\<close>, so it stays inside 64 bits for more than
  \<open>2 ^ 31\<close> calls.
\<close>

record unwrapper =
  last_unwrapped_value :: "int option"

definition unwrap :: "unwrapper \<Rightarrow> 'a::len word \<Rightarrow> bool \<Rightarrow> int \<times> unwrapper" where
  "unwrap u value update_last =
     (let unwrapped =
        (case last_unwrapped_value u of
           None \<Rightarrow> uint value
         | Some l \<Rightarrow>
             (let last_value = (word_of_int l :: 'a word)
              in if ahead_or_at value last_value
                 then l + uint (forward_diff last_value value)
                 else
                   (let x = l - uint (reverse_diff last_value value)
                    in if x < 0 then x + (uint (- 1 :: 'a word) + 1) else x)))
      in (unwrapped,
          if update_last then u\<lparr>last_unwrapped_value := Some unwrapped\<rparr> else u))"

fun unwrap_all :: "unwrapper \<Rightarrow> 'a::len word list \<Rightarrow> int list \<times> unwrapper" where
  "unwrap_all u [] = ([], u)"
| "unwrap_all u (v # vs) =
     (let (x, u') = unwrap u v True; (xs, u'') = unwrap_all u' vs in (x # xs, u''))"

text \<open>\<^verbatim>\<open>NumberUnwrapper\<close> of \<^verbatim>\<open>num_unwrapper_base.hpp\<close>, at \<open>M = 0\<close>.\<close>

record 'w base_unwrapper =
  last_unwrapped :: int
  last_value :: "'w option"

definition base_unwrap ::
  "('a::len word) base_unwrapper \<Rightarrow> 'a word \<Rightarrow> bool \<Rightarrow> int \<times> ('a word) base_unwrapper" where
  "base_unwrap u value disallow_negative =
     (let x = (case last_value u of
                 None \<Rightarrow> uint value
               | Some lv \<Rightarrow>
                   if ahead_or_at value lv
                   then last_unwrapped u + uint (forward_diff lv value)
                   else
                     (let y = last_unwrapped u - uint (reverse_diff lv value)
                      in if disallow_negative \<and> y < 0
                         then y + (uint (- 1 :: 'a word) + 1) else y))
      in (x, u\<lparr>last_unwrapped := x, last_value := Some value\<rparr>))"

definition base_unwrap_forward ::
  "('a::len word) base_unwrapper \<Rightarrow> 'a word \<Rightarrow> int \<times> ('a word) base_unwrapper" where
  "base_unwrap_forward u value =
     (let x = (case last_value u of
                 None \<Rightarrow> uint value
               | Some lv \<Rightarrow> last_unwrapped u + uint (forward_diff lv value))
      in (x, u\<lparr>last_unwrapped := x, last_value := Some value\<rparr>))"

definition base_unwrap_backwards ::
  "('a::len word) base_unwrapper \<Rightarrow> 'a word \<Rightarrow> int \<times> ('a word) base_unwrapper" where
  "base_unwrap_backwards u value =
     (let x = (case last_value u of
                 None \<Rightarrow> uint value
               | Some lv \<Rightarrow> last_unwrapped u - uint (reverse_diff lv value))
      in (x, u\<lparr>last_unwrapped := x, last_value := Some value\<rparr>))"

section \<open>Properties of the differences\<close>

lemma uint_forward_diff: "uint (forward_diff a b) = (uint b - uint a) mod 2 ^ LENGTH('a)"
  for a b :: "'a::len word"
  by (simp add: forward_diff_def uint_word_ariths)

lemma uint_reverse_diff: "uint (reverse_diff a b) = (uint a - uint b) mod 2 ^ LENGTH('a)"
  for a b :: "'a::len word"
  by (simp add: reverse_diff_def uint_word_ariths)

lemma reverse_diff_forward_diff: "reverse_diff a b = forward_diff b a"
  by (simp add: reverse_diff_def forward_diff_def)

text \<open>
  The comparison in linear arithmetic: \<open>a\<close> is ahead of or at \<open>b\<close> when it is at most half the
  range above \<open>b\<close>, or more than half the range below it.
\<close>

lemma uint_diff_cases:
  fixes a b :: "'a::len word"
  shows "uint (a - b) = (if uint b \<le> uint a then uint a - uint b
     else uint a - uint b + 2 * uint (half_range :: 'a word))"
  by (simp only: uint_sub_cases len_power_half)

lemma ahead_or_at_iff:
  fixes a b :: "'a::len word"
  shows "ahead_or_at a b \<longleftrightarrow>
    (if uint b \<le> uint a then uint a - uint b \<le> uint (half_range :: 'a word)
     else uint b - uint a > uint (half_range :: 'a word))"
  using uint_half_bounds [of a] uint_half_bounds [of b] half_range_pos [where 'a = 'a]
  unfolding ahead_or_at_def promoted_diff_is_def Let_def word_less_def word_uint_eq_iff
    forward_diff_def uint_diff_cases
  by (smt (verit))

lemma ahead_of_iff:
  fixes a b :: "'a::len word"
  shows "ahead_of a b \<longleftrightarrow>
    (if uint b < uint a then uint a - uint b \<le> uint (half_range :: 'a word)
     else uint b - uint a > uint (half_range :: 'a word))"
  using half_range_pos [where 'a = 'a] unfolding ahead_of_def ahead_or_at_iff word_uint_eq_iff
  by auto

lemma ahead_of_irrefl [simp]: "\<not> ahead_of a a"
  by (simp add: ahead_of_def)

lemma is_newer_iff_ahead_of: "is_newer a b = ahead_of a b"
  by (auto simp: is_newer_def ahead_of_def ahead_or_at_def forward_diff_def promoted_diff_is_def
      Let_def)

lemma ahead_of_flip: "a \<noteq> b \<Longrightarrow> ahead_of a b \<longleftrightarrow> \<not> ahead_of b a" for a b :: "'a::len word"
  unfolding ahead_of_iff word_uint_eq_iff by auto

section \<open>The comparators as orders of a window\<close>

text \<open>
  The ordered containers of the receivers are keyed by sequence numbers under
  \<^verbatim>\<open>OlderThan\<close>. Such a container needs a strict linear order on the keys it holds.
\<close>

locale key_order =
  fixes before :: "'k \<Rightarrow> 'k \<Rightarrow> bool" and keys :: "'k set"
  assumes irrefl: "\<not> before x x"
    and trans_on: "x \<in> keys \<Longrightarrow> y \<in> keys \<Longrightarrow> z \<in> keys \<Longrightarrow> before x y \<Longrightarrow> before y z \<Longrightarrow> before x z"
    and total_on: "x \<in> keys \<Longrightarrow> y \<in> keys \<Longrightarrow> x \<noteq> y \<Longrightarrow> before x y \<or> before y x"
begin

lemma asym_on: "x \<in> keys \<Longrightarrow> y \<in> keys \<Longrightarrow> before x y \<Longrightarrow> \<not> before y x"
  using trans_on irrefl by blast

lemma equiv_is_eq: "x \<in> keys \<Longrightarrow> y \<in> keys \<Longrightarrow> (\<not> before x y \<and> \<not> before y x) \<longleftrightarrow> x = y"
  using total_on irrefl by blast

end

definition seq_window :: "'a::len word \<Rightarrow> 'a word set" where
  "seq_window base = {x. forward_diff base x < half_range}"

lemma ahead_of_window:
  fixes a b base :: "'a::len word"
  assumes "a \<in> seq_window base" "b \<in> seq_window base"
  shows "ahead_of a b \<longleftrightarrow> forward_diff base b < forward_diff base a"
  using assms uint_half_bounds [of a] uint_half_bounds [of b] uint_half_bounds [of base]
  unfolding seq_window_def mem_Collect_eq ahead_of_iff word_less_def forward_diff_def uint_diff_cases
  by (smt (verit))

interpretation older: key_order older_than "seq_window base" for base :: "'a::len word"
proof
  fix x y z :: "'a word"
  show "\<not> older_than x x" by (simp add: older_than_def)
  assume win: "x \<in> seq_window base" "y \<in> seq_window base"
  then show "x \<noteq> y \<Longrightarrow> older_than x y \<or> older_than y x"
    unfolding older_than_def using ahead_of_flip by blast
  assume "z \<in> seq_window base" "older_than x y" "older_than y z"
  with win show "older_than x z"
    by (auto simp: older_than_def ahead_of_window)
qed

section \<open>Sets and loops over sequence numbers\<close>

text \<open>
  \<^verbatim>\<open>std::set\<close> ordered by \<^verbatim>\<open>OlderThan\<close>, as a list in comparator order, and the measure of the loops
  that step through sequence numbers up to a bound.
\<close>

definition set_insert :: "u16 \<Rightarrow> u16 list \<Rightarrow> u16 list" where
  "set_insert k xs =
     (let lo = takeWhile (\<lambda>x. older_than x k) xs; hi = dropWhile (\<lambda>x. older_than x k) xs
      in if hi \<noteq> [] \<and> hd hi = k then xs else lo @ k # hi)"

lemma forward_step_less: "s \<noteq> e \<Longrightarrow> unat (e - (s + 1)) < unat (e - s)" for s e :: u16
proof -
  assume "s \<noteq> e"
  then have "e - s \<noteq> 0" by simp
  then have "unat (e - s - 1) < unat (e - s)" by (simp add: measure_unat)
  then show ?thesis by (simp add: algebra_simps)
qed

section \<open>Ages\<close>

text \<open>
  A sequence number is placed by its age, its distance below the newest one. Ages do
  not wrap while they stay below the range of the counter, and the comparator is the comparison
  of ages inside a window of half the range.
\<close>

definition seq_age :: "u16 \<Rightarrow> u16 \<Rightarrow> nat" where
  "seq_age newest k = unat (newest - k)"

lemma seq_age_chain:
  "seq_age c b + seq_age b a < 65536 \<Longrightarrow> seq_age c a = seq_age c b + seq_age b a"
  using unat_add_lem [of "c - b" "b - a"] by (simp add: seq_age_def)

lemma seq_age_0 [simp]: "seq_age c a = 0 \<longleftrightarrow> c = a"
  by (simp add: seq_age_def unat_eq_zero)

lemma uint_half_u16 [simp]: "uint (half_range :: u16) = 32768"
  by (simp add: uint_half_range)

lemma older_near: "seq_age c a < 32768 \<Longrightarrow> older_than a c \<longleftrightarrow> c \<noteq> a"
  using uint_half_bounds [of a] uint_half_bounds [of c]
  unfolding seq_age_def older_than_def ahead_of_iff unat_eq_nat_uint uint_diff_cases word_uint_eq_iff
  by (auto split: if_splits)

lemma older_near_flip: "seq_age c a < 32768 \<Longrightarrow> \<not> older_than c a"
  using older_near [of c a] ahead_of_flip [of c a] by (auto simp: older_than_def)

lemma ahead_age: "ahead_of s n \<Longrightarrow> 0 < seq_age s n \<and> seq_age s n \<le> 32768"
proof -
  assume a: "ahead_of s n"
  then have "0 < seq_age s n" by (metis ahead_of_irrefl seq_age_0 neq0_conv)
  moreover have "seq_age s n \<le> 32768"
    using a uint_half_bounds [of s] uint_half_bounds [of n]
    unfolding seq_age_def ahead_of_iff unat_eq_nat_uint uint_diff_cases
    by (auto split: if_splits)
  ultimately show ?thesis ..
qed

lemma seq_age_self [simp]: "seq_age a a = 0"
  by simp

lemma older_age_limit:
  assumes "L < 32768" "seq_age s k < 32768 + L"
  shows "older_than k (s - of_nat L) \<longleftrightarrow> L < seq_age s k"
proof -
  let ?x = "s - of_nat L :: u16"
  have L: "unat (of_nat L :: u16) = L" using assms(1) by (intro unat_of_nat_small) simp
  have sx: "seq_age s ?x = L" by (simp add: seq_age_def L)
  show ?thesis
  proof (cases "L < seq_age s k")
    case True
    have "unat (s - k) = unat ((s - k) - of_nat L) + L"
      using True L by (subst unat_sub) (auto simp: seq_age_def word_le_nat_alt)
    moreover have "(s - k) - of_nat L = ?x - k" by simp
    ultimately have "seq_age ?x k = seq_age s k - L" by (simp add: seq_age_def)
    with True assms show ?thesis
      using older_near [of ?x k] sx by (cases "?x = k") simp_all
  next
    case False
    have "unat (of_nat L - (s - k)) = L - unat (s - k)"
      using False L by (subst unat_sub) (auto simp: seq_age_def word_le_nat_alt)
    moreover have "of_nat L - (s - k) = k - ?x" by simp
    ultimately have "seq_age k ?x \<le> L" by (simp add: seq_age_def)
    with False assms(1) show ?thesis using older_near_flip [of k ?x] by simp
  qed
qed

section \<open>Modular variants\<close>

lemma add_mod_correct:
  assumes "a < M"
  shows "\<exists>r. add_mod M a b = Some r \<and> unat r = (unat a + unat b) mod unat M"
proof -
  let ?m = "unat M" and ?t = "M - b mod M"
  have M: "0 < ?m" "unat a < ?m" using assms by (auto simp: word_less_nat_alt)
  have bm: "unat (b mod M) = unat b mod ?m" by (simp add: unat_mod)
  then have bl: "unat (b mod M) < ?m" using M by simp
  have t: "unat ?t = ?m - unat b mod ?m"
    using bl by (simp add: bm unat_sub word_le_nat_alt less_imp_le)
  have sum: "(unat a + unat b) mod ?m = (unat a + unat b mod ?m) mod ?m"
    by (simp add: mod_simps)
  show ?thesis
  proof (cases "?t > a")
    case True
    then have lt: "unat a + unat b mod ?m < ?m" using t bl bm by (simp add: word_less_nat_alt)
    have "a - ?t + M = a + b mod M" by simp
    moreover have "unat (a + b mod M) = unat a + unat b mod ?m"
    proof (subst unat_add_lem [THEN iffD1])
      have "unat M < 2 ^ 64" using unsigned_less [of M] by simp
      then show "unat a + unat (b mod M) < 2 ^ LENGTH(64)" using lt by (simp add: bm)
    qed (simp add: bm)
    ultimately show ?thesis using True assms lt by (simp add: add_mod_def Let_def sum)
  next
    case False
    then have le: "?t \<le> a" by simp
    then have ge: "?m \<le> unat a + unat b mod ?m"
      using t by (simp add: word_le_nat_alt)
    have "unat (a - ?t) = unat a + unat b mod ?m - ?m"
      using le t bl bm by (simp add: unat_sub)
    moreover have "(unat a + unat b mod ?m) mod ?m = unat a + unat b mod ?m - ?m"
    proof -
      have "unat a + unat b mod ?m - ?m < ?m" using M bl bm by linarith
      then show ?thesis by (simp only: le_mod_geq [OF ge] mod_less)
    qed
    ultimately show ?thesis using False assms by (simp add: add_mod_def Let_def sum)
  qed
qed

lemma unat_diff_below: "a < M \<Longrightarrow> b < M \<Longrightarrow> b < a \<Longrightarrow> unat (M - (a - b)) = unat M + unat b - unat a"
  for a b M :: "'a::len word"
  by (simp add: word_less_nat_alt word_le_nat_alt unat_sub)

lemma forward_diff_mod_correct:
  fixes a b M :: "'a::len word"
  assumes "a < M" "b < M"
  shows "\<exists>d. forward_diff_mod M a b = Some d \<and> d < M \<and> (unat a + unat d) mod unat M = unat b"
proof (cases "a \<le> b")
  case True
  then have "unat (b - a) = unat b - unat a" by (simp add: unat_sub)
  with True assms show ?thesis
    by (simp add: forward_diff_mod_def word_less_nat_alt word_le_nat_alt)
next
  case False
  then have "unat (M - (a - b)) = unat M + unat b - unat a"
    using assms by (intro unat_diff_below) auto
  with False assms show ?thesis
    by (simp add: forward_diff_mod_def word_less_nat_alt word_le_nat_alt)
qed

lemma subtract_mod_correct:
  assumes "a < M"
  shows "\<exists>r. subtract_mod M a b = Some r \<and> r < M \<and> (unat r + unat b) mod unat M = unat a"
proof -
  have M: "0 < unat M" using assms by (auto simp: word_less_nat_alt)
  then have "b mod M < M" by (simp add: word_less_nat_alt unat_mod)
  then obtain d where d: "forward_diff_mod M (b mod M) a = Some d" "d < M"
      "(unat (b mod M) + unat d) mod unat M = unat a"
    using forward_diff_mod_correct assms by blast
  moreover from d have "subtract_mod M a b = Some d"
    by (auto simp: forward_diff_mod_def subtract_mod_def Let_def not_less split: if_splits)
  ultimately show ?thesis
    by (simp add: unat_mod mod_simps add.commute)
qed

section \<open>Unwrapping recovers the unbounded sequence\<close>

lemma word_of_int_diff: "(word_of_int x :: 'a::len word) - word_of_int y = word_of_int (x - y)"
  by simp

lemma uint_word_of_int_window:
  "0 \<le> d \<Longrightarrow> d < 2 * uint (half_range :: 'a::len word) \<Longrightarrow> uint (word_of_int d :: 'a word) = d"
  by (simp add: uint_word_of_int len_power_half)

lemma ahead_or_at_sub:
  fixes a b :: "'a::len word"
  shows "ahead_or_at a b \<longleftrightarrow> uint (a - b) < uint (half_range :: 'a word) \<or>
    uint (a - b) = uint (half_range :: 'a word) \<and> uint b < uint a"
  using uint_half_bounds [of a] uint_half_bounds [of b] half_range_pos [where 'a = 'a]
  unfolding ahead_or_at_iff uint_diff_cases by (smt (verit))

lemma uint_sub_word_of_int:
  assumes "\<bar>t - l\<bar> < uint (half_range :: 'a::len word)"
  shows "uint ((word_of_int t :: 'a word) - word_of_int l) =
    (if l \<le> t then t - l else t - l + 2 * uint (half_range :: 'a word))"
proof -
  have "uint ((word_of_int t :: 'a word) - word_of_int l) = (t - l) mod (2 * uint (half_range :: 'a word))"
    by (simp only: uint_word_ariths uint_word_of_int len_power_half mod_simps)
  then show ?thesis
    using assms by (auto simp: mod_below_zero)
qed

lemma ahead_or_at_word_of_int:
  assumes "\<bar>t - l\<bar> < uint (half_range :: 'a::len word)"
  shows "ahead_or_at (word_of_int t :: 'a word) (word_of_int l) \<longleftrightarrow> l \<le> t"
  using assms by (auto simp: ahead_or_at_sub uint_sub_word_of_int)

lemma unwrap_step:
  assumes "last_unwrapped_value u = Some l" and "0 \<le> t"
    and near: "\<bar>t - l\<bar> < uint (half_range :: 'a::len word)"
  shows "fst (unwrap u (word_of_int t :: 'a word) b) = t"
  using assms uint_sub_word_of_int [OF near] uint_sub_word_of_int [of l t, where 'a = 'a]
  by (simp add: unwrap_def ahead_or_at_word_of_int [OF near] forward_diff_def reverse_diff_def
      Let_def)

fun steps_below :: "int \<Rightarrow> int list \<Rightarrow> bool" where
  "steps_below h (x # y # ys) = (\<bar>y - x\<bar> < h \<and> steps_below h (y # ys))"
| "steps_below h _ = True"

lemma unwrap_all_tail:
  assumes "last_unwrapped_value u = Some l"
    and "steps_below (uint (half_range :: 'a::len word)) (l # ts)" and "\<forall>t\<in>set ts. 0 \<le> t"
  shows "fst (unwrap_all u (map (word_of_int :: int \<Rightarrow> 'a word) ts)) = ts"
  using assms
proof (induction ts arbitrary: u l)
  case (Cons t ts)
  let ?v = "word_of_int t :: 'a word"
  have t: "fst (unwrap u ?v True) = t"
    using Cons.prems by (intro unwrap_step) auto
  then have "last_unwrapped_value (snd (unwrap u ?v True)) = Some t"
    by (simp add: unwrap_def Let_def)
  then have "fst (unwrap_all (snd (unwrap u ?v True)) (map word_of_int ts :: 'a word list)) = ts"
    using Cons.prems by (intro Cons.IH) auto
  with t show ?case
    by (simp add: case_prod_beta Let_def)
qed simp

lemma sint_word_of_int_32: "- (2 ^ 31) \<le> d \<Longrightarrow> d < 2 ^ 31 \<Longrightarrow> sint (word_of_int d :: u32) = d"
  by (simp add: sint_sbintrunc' signed_take_bit_int_eq_self)

lemma div_step_32:
  fixes p c :: int
  assumes "\<bar>c - p\<bar> < 2 ^ 31"
  shows "c div 2 ^ 32 - p div 2 ^ 32 =
    (if c mod 2 ^ 32 < p mod 2 ^ 32 then (if p < c then 1 else 0) else (if c < p then - 1 else 0))"
proof -
  define qc rc qp rp where "qc = c div 2 ^ 32" and "rc = c mod 2 ^ 32"
    and "qp = p div 2 ^ 32" and "rp = p mod 2 ^ 32"
  then have "c = 2 ^ 32 * qc + rc" "p = 2 ^ 32 * qp + rp" "0 \<le> rc" "rc < 2 ^ 32" "0 \<le> rp" "rp < 2 ^ 32"
    by (simp_all add: qc_def rc_def qp_def rp_def)
  then show ?thesis
    using assms unfolding qc_def [symmetric] rc_def [symmetric] qp_def [symmetric] rp_def [symmetric]
    by auto
qed

section \<open>Properties\<close>

text \<open>
  C27. On the keys of one half-range window \<^verbatim>\<open>OlderThan\<close> is the order of the distances from
  the window's base, hence a strict linear order: what an ordered container keyed by it needs, and
  the condition the source states as a warning.
\<close>

theorem older_than_window_order:
  fixes a b c base :: "'a::len word"
  assumes "a \<in> seq_window base" "b \<in> seq_window base" "c \<in> seq_window base"
  shows "(older_than a b \<longleftrightarrow> forward_diff base a < forward_diff base b) \<and>
    (older_than a b \<longrightarrow> older_than b c \<longrightarrow> older_than a c) \<and>
    ((\<not> older_than a b \<and> \<not> older_than b a) \<longleftrightarrow> a = b)"
  using assms older.trans_on [of a base b c] older.equiv_is_eq [of a base b]
  by (auto simp: older_than_def ahead_of_window)

theorem older_than_window_order_witness:
  "(older_than (65535::u16) 3 \<longleftrightarrow> forward_diff 65530 (65535::u16) < forward_diff 65530 3) \<and>
   older_than (65535::u16) 9 \<and> (\<not> older_than (65535::u16) 3 \<and> \<not> older_than (3::u16) 65535 \<longleftrightarrow> (65535::u16) = 3)"
proof -
  have w: "(65535::u16) \<in> seq_window 65530" "(3::u16) \<in> seq_window 65530" "(9::u16) \<in> seq_window 65530"
    by (simp_all add: seq_window_def forward_diff_def half_range_def)
  have "older_than (65535::u16) 3" "older_than (3::u16) 9"
    by (simp_all add: older_than_def ahead_of_def ahead_or_at_def promoted_diff_is_def half_range_def
        forward_diff_def)
  then show ?thesis
    using older_than_window_order [OF w] by blast
qed

text \<open>
  C28. Unwrapping: the wrapped images of any sequence of numbers whose neighbours are less than half
  the range apart come back as the sequence itself, shifted by a whole number of ranges so that it
  starts in the first one; a sequence that starts below the range is returned unchanged. (The
  sequence does not fall below the range it starts in, where the unwrapped numbers would be negative.)
\<close>

theorem unwrap_all_recovers:
  fixes ts :: "int list"
  assumes "shift = t0 div 2 ^ LENGTH('a::len) * 2 ^ LENGTH('a)" "\<forall>t\<in>set (t0 # ts). shift \<le> t"
    and "steps_below (uint (half_range :: 'a word)) (t0 # ts)"
  shows "fst (unwrap_all \<lparr>last_unwrapped_value = None\<rparr>
           (map (word_of_int :: int \<Rightarrow> 'a word) (t0 # ts))) = map (\<lambda>t. t - shift) (t0 # ts)"
proof -
  let ?u = "\<lparr>last_unwrapped_value = None\<rparr>" and ?t0 = "t0 - shift" and ?ts = "map (\<lambda>t. t - shift) ts"
  let ?v = "word_of_int ?t0 :: 'a word"
  have same: "(word_of_int (t - shift) :: 'a word) = word_of_int t" for t
  proof -
    have "t - shift = t + (- (t0 div 2 ^ LENGTH('a))) * 2 ^ LENGTH('a)"
      by (simp add: assms(1))
    then have "(t - shift) mod 2 ^ LENGTH('a) = t mod 2 ^ LENGTH('a)"
      by (simp only: mod_mult_self1)
    then show ?thesis
      by (simp only: word_of_int_eq_iff take_bit_eq_mod)
  qed
  have below: "steps_below h (map (\<lambda>t. t - shift) xs) = steps_below h xs" for h xs
    by (induction h xs rule: steps_below.induct) auto
  have small: "0 \<le> ?t0" "?t0 < 2 ^ LENGTH('a)"
    using assms(1) by (simp_all add: minus_div_mult_eq_mod)
  define v where "v = ?v"
  have v: "uint v = ?t0" using small by (simp only: v_def uint_word_of_int mod_pos_pos_trivial)
  then have "fst (unwrap ?u v True) = ?t0"
    and prev: "last_unwrapped_value (snd (unwrap ?u v True)) = Some ?t0"
    by (simp_all add: unwrap_def Let_def)
  moreover have "fst (unwrap_all (snd (unwrap ?u v True)) (map (word_of_int :: int \<Rightarrow> 'a word) ?ts)) = ?ts"
    using assms(2,3) below [of _ "t0 # ts"] by (intro unwrap_all_tail [OF prev]) simp_all
  moreover have "map (word_of_int :: int \<Rightarrow> 'a word) (t0 # ts) = v # map word_of_int ?ts"
    using same by (simp add: v_def comp_def del: wi_hom_sub)
  ultimately show ?thesis by (simp only: unwrap_all.simps case_prod_beta Let_def fst_conv list.map)
qed

theorem unwrap_all_recovers_witness:
  "fst (unwrap_all \<lparr>last_unwrapped_value = None\<rparr>
     (map (word_of_int :: int \<Rightarrow> u16) [65534, 65537, 65535, 65540])) = [65534, 65537, 65535, 65540] \<and>
   fst (unwrap_all \<lparr>last_unwrapped_value = None\<rparr> (map (word_of_int :: int \<Rightarrow> u16) [70000, 70003])) = [4464, 4467]"
  using unwrap_all_recovers [of 0 65534 "[65537, 65535, 65540]", where 'a = 16]
    unwrap_all_recovers [of 65536 70000 "[70003]", where 'a = 16] by (simp add: half_range_def)

text \<open>
  \<^verbatim>\<open>DetectWrapAround\<close> on 32-bit timestamps returns the change of the number of
  wraps: for true times less than \<open>2 ^ 31\<close> apart it is the difference of their quotients by \<open>2 ^ 32\<close>.
\<close>

theorem detect_wrap_around_counts:
  fixes p c :: int
  assumes near: "\<bar>c - p\<bar> < 2 ^ 31"
  shows "detect_wrap_around (word_of_int p) (word_of_int c) = c div 2 ^ 32 - p div 2 ^ 32"
proof -
  have L: "LENGTH(32) = 32" by simp
  have "sint ((word_of_int c :: u32) - word_of_int p) = c - p"
    and "sint ((word_of_int p :: u32) - word_of_int c) = p - c"
    using near sint_word_of_int_32 [of "c - p"] sint_word_of_int_32 [of "p - c"]
    by (simp_all only: wi_hom_sub abs_less_iff) auto
  then show ?thesis
    by (simp only: div_step_32 [OF near] detect_wrap_around_def forward_diff_def reverse_diff_def
      word_less_def uint_word_of_int L) auto
qed

theorem detect_wrap_around_counts_witness:
  "detect_wrap_around (word_of_int 4294967290) (word_of_int 4294967300) =
     4294967300 div 2 ^ 32 - 4294967290 div 2 ^ 32"
  by (rule detect_wrap_around_counts) simp

text \<open>
  \<^verbatim>\<open>Add\<close> and \<^verbatim>\<open>Subtract\<close> are addition and subtraction modulo \<open>M\<close> on all 64-bit
  operands with \<open>a < M\<close>: no intermediate wrap-around reaches the result.
\<close>

theorem add_subtract_mod_correct:
  assumes "a < M"
  shows "(\<exists>r. add_mod M a b = Some r \<and> unat r = (unat a + unat b) mod unat M) \<and>
    (\<exists>r. subtract_mod M a b = Some r \<and> r < M \<and> (unat r + unat b) mod unat M = unat a)"
  using add_mod_correct [OF assms] subtract_mod_correct [OF assms] by auto

theorem add_subtract_mod_correct_witness:
  "(\<exists>r. add_mod 4096 7 18446744073709551615 = Some r \<and>
        unat r = (unat (7::u64) + unat (18446744073709551615::u64)) mod unat (4096::u64)) \<and>
   (\<exists>r. subtract_mod 4096 7 18446744073709551615 = Some r \<and> r < 4096 \<and>
        (unat r + unat (18446744073709551615::u64)) mod unat (4096::u64) = unat (7::u64))"
proof -
  have "(7::u64) < 4096" by simp
  then show ?thesis by (rule add_subtract_mod_correct)
qed

end
