(* ===== verification/ByteIO.thy ===== *)
theory ByteIO
  imports Prelude
begin

text \<open>
  Reading and writing integers in a sequence of bytes:
  \<^verbatim>\<open>src/rtc/base/memory/byte_io_reader.hpp\<close> and \<^verbatim>\<open>byte_io_writer.hpp\<close>.
  The generic templates are loops over \<open>B\<close> bytes; the specialisations for 1, 2, 4 and 8 bytes are
  written out. The lemmas show that every specialisation is the loop and that reading undoes
  writing, including the sign extension of signed values narrower than their type.
\<close>

section \<open>ByteReader and ByteWriter, any number of bytes\<close>

definition read_big_endian :: "nat \<Rightarrow> byte list \<Rightarrow> 'a::len word" where
  "read_big_endian B data =
     fold (\<lambda>i val. val OR push_bit ((B - 1 - i) * 8) (ucast (data ! i))) [0..<B] 0"

definition read_little_endian :: "nat \<Rightarrow> byte list \<Rightarrow> 'a::len word" where
  "read_little_endian B data =
     fold (\<lambda>i val. val OR push_bit (i * 8) (ucast (data ! i))) [0..<B] 0"

definition write_big_endian :: "nat \<Rightarrow> 'a::len word \<Rightarrow> byte list" where
  "write_big_endian B val = map (\<lambda>i. ucast (drop_bit ((B - 1 - i) * 8) val)) [0..<B]"

definition write_little_endian :: "nat \<Rightarrow> 'a::len word \<Rightarrow> byte list" where
  "write_little_endian B val = map (\<lambda>i. ucast (drop_bit (i * 8) val)) [0..<B]"

text \<open>
  Signed types are read as their unsigned equivalent, sign extended when \<open>B\<close> is smaller than the
  type, and reinterpreted; a word carries both readings, so the reinterpretation is the identity.
\<close>

definition sign_extend :: "nat \<Rightarrow> 'a::len word \<Rightarrow> 'a word" where
  "sign_extend B val =
     (if (ucast (drop_bit ((B - 1) * 8) val) AND 0x80 :: byte) \<noteq> 0
      then NOT (push_bit ((B mod (LENGTH('a) div 8)) * 8) 1 - 1) OR val
      else val)"

definition reinterpret_as_signed :: "'a::len word \<Rightarrow> int" where
  "reinterpret_as_signed u =
     (let high = push_bit (LENGTH('a) - 1) 1
      in if u AND high \<noteq> 0 then uint (u AND NOT high) + (- (2 ^ (LENGTH('a) - 1))) else uint u)"

definition read_signed_big_endian :: "nat \<Rightarrow> byte list \<Rightarrow> 'a::len word" where
  "read_signed_big_endian B data =
     (let u = read_big_endian B data
      in if B < LENGTH('a) div 8 then sign_extend B u else u)"

section \<open>Specialisations\<close>

definition be16 :: "u16 \<Rightarrow> byte list" where
  "be16 val = [ucast (drop_bit 8 val), ucast val]"

definition be32 :: "u32 \<Rightarrow> byte list" where
  "be32 val = [ucast (drop_bit 24 val), ucast (drop_bit 16 val), ucast (drop_bit 8 val), ucast val]"

definition be64 :: "u64 \<Rightarrow> byte list" where
  "be64 val =
     [ucast (drop_bit 56 val), ucast (drop_bit 48 val), ucast (drop_bit 40 val), ucast (drop_bit 32 val),
      ucast (drop_bit 24 val), ucast (drop_bit 16 val), ucast (drop_bit 8 val), ucast val]"

definition be24 :: "u32 \<Rightarrow> byte list" where
  "be24 val = write_big_endian 3 val"

definition read_be16 :: "byte list \<Rightarrow> nat \<Rightarrow> u16 option" where
  "read_be16 buf i = do {
     d0 \<leftarrow> rd buf i; d1 \<leftarrow> rd buf (i + 1);
     Some (push_bit 8 (ucast d0) OR ucast d1) }"

definition read_be32 :: "byte list \<Rightarrow> nat \<Rightarrow> u32 option" where
  "read_be32 buf i = do {
     d0 \<leftarrow> rd buf i; d1 \<leftarrow> rd buf (i + 1); d2 \<leftarrow> rd buf (i + 2); d3 \<leftarrow> rd buf (i + 3);
     Some (push_bit 24 (ucast d0) OR push_bit 16 (ucast d1) OR push_bit 8 (ucast d2) OR ucast d3) }"

definition read_be64 :: "byte list \<Rightarrow> nat \<Rightarrow> u64 option" where
  "read_be64 buf i = do {
     d0 \<leftarrow> rd buf i; d1 \<leftarrow> rd buf (i + 1); d2 \<leftarrow> rd buf (i + 2); d3 \<leftarrow> rd buf (i + 3);
     d4 \<leftarrow> rd buf (i + 4); d5 \<leftarrow> rd buf (i + 5); d6 \<leftarrow> rd buf (i + 6); d7 \<leftarrow> rd buf (i + 7);
     Some (push_bit 56 (ucast d0) OR push_bit 48 (ucast d1) OR push_bit 40 (ucast d2) OR
           push_bit 32 (ucast d3) OR push_bit 24 (ucast d4) OR push_bit 16 (ucast d5) OR
           push_bit 8 (ucast d6) OR ucast d7) }"

definition read_be24 :: "byte list \<Rightarrow> nat \<Rightarrow> u32 option" where
  "read_be24 buf i = map_option (read_big_endian 3) (rd_bytes buf i 3)"

definition read_signed_be24 :: "byte list \<Rightarrow> nat \<Rightarrow> u32 option" where
  "read_signed_be24 buf i = map_option (read_signed_big_endian 3) (rd_bytes buf i 3)"

section \<open>The loops, bit by bit\<close>

lemma bit_fold_or:
  "bit (fold (\<lambda>i val. val OR f i) xs v :: 'a::len word) k \<longleftrightarrow> bit v k \<or> (\<exists>i\<in>set xs. bit (f i) k)"
  by (induction xs arbitrary: v) (auto simp: bit_simps)

lemma bit_byte_shift:
  "bit (push_bit s (ucast (d :: byte)) :: 'a::len word) k \<longleftrightarrow> k < LENGTH('a) \<and> s \<le> k \<and> bit d (k - s)"
  by (auto simp: bit_simps dest: bit_imp_le_length)

lemma bit_read_big_endian:
  "bit (read_big_endian B data :: 'a::len word) k \<longleftrightarrow>
     k < LENGTH('a) \<and> (\<exists>i<B. (B - 1 - i) * 8 \<le> k \<and> bit (data ! i) (k - (B - 1 - i) * 8))"
  unfolding read_big_endian_def bit_fold_or bit_byte_shift by auto

lemma bit_read_little_endian:
  "bit (read_little_endian B data :: 'a::len word) k \<longleftrightarrow>
     k < LENGTH('a) \<and> (\<exists>i<B. i * 8 \<le> k \<and> bit (data ! i) (k - i * 8))"
  unfolding read_little_endian_def bit_fold_or bit_byte_shift by auto

lemma length_write_big_endian [simp]: "length (write_big_endian B v) = B"
  by (simp add: write_big_endian_def)

lemma length_write_little_endian [simp]: "length (write_little_endian B v) = B"
  by (simp add: write_little_endian_def)

lemma bit_write_big_endian:
  "i < B \<Longrightarrow> bit (write_big_endian B v ! i) k \<longleftrightarrow> k < 8 \<and> bit v ((B - 1 - i) * 8 + k)"
  by (auto simp: write_big_endian_def bit_simps)

lemma bit_write_little_endian:
  "i < B \<Longrightarrow> bit (write_little_endian B v ! i) k \<longleftrightarrow> k < 8 \<and> bit v (i * 8 + k)"
  by (auto simp: write_little_endian_def bit_simps)

lemma read_write_big_endian:
  "read_big_endian B (write_big_endian B v) = take_bit (8 * B) (v :: 'a::len word)"
proof (rule bit_word_eqI)
  fix k assume k: "k < LENGTH('a)"
  have "(\<exists>i<B. (B - 1 - i) * 8 \<le> k \<and> k - (B - 1 - i) * 8 < 8) \<longleftrightarrow> k < 8 * B"
  proof
    assume "k < 8 * B"
    then have "B - 1 - k div 8 < B" "(B - 1 - (B - 1 - k div 8)) * 8 \<le> k"
        "k - (B - 1 - (B - 1 - k div 8)) * 8 < 8"
      by auto
    then show "\<exists>i<B. (B - 1 - i) * 8 \<le> k \<and> k - (B - 1 - i) * 8 < 8" by blast
  qed auto
  then show "bit (read_big_endian B (write_big_endian B v) :: 'a word) k \<longleftrightarrow> bit (take_bit (8 * B) v) k"
    using k by (auto simp: bit_read_big_endian bit_write_big_endian bit_take_bit_iff)
qed

lemma read_write_little_endian:
  "read_little_endian B (write_little_endian B v) = take_bit (8 * B) (v :: 'a::len word)"
proof (rule bit_word_eqI)
  fix k assume k: "k < LENGTH('a)"
  have "(\<exists>i<B. i * 8 \<le> k \<and> k - i * 8 < 8) \<longleftrightarrow> k < 8 * B"
  proof
    assume "k < 8 * B"
    then have "k div 8 < B" "k div 8 * 8 \<le> k" "k - k div 8 * 8 < 8" by auto
    then show "\<exists>i<B. i * 8 \<le> k \<and> k - i * 8 < 8" by blast
  qed auto
  then show "bit (read_little_endian B (write_little_endian B v) :: 'a word) k \<longleftrightarrow> bit (take_bit (8 * B) v) k"
    using k by (auto simp: bit_read_little_endian bit_write_little_endian bit_take_bit_iff)
qed

section \<open>Specialisations are the loop\<close>

lemma be16_loop: "be16 v = write_big_endian 2 v"
  by (simp add: be16_def write_big_endian_def upt_rec)

lemma be32_loop: "be32 v = write_big_endian 4 v"
  by (simp add: be32_def write_big_endian_def upt_rec)

lemma be64_loop: "be64 v = write_big_endian 8 v"
  by (simp add: be64_def write_big_endian_def upt_rec)

lemma read_be16_loop: "read_be16 buf i = map_option (read_big_endian 2) (rd_bytes buf i 2)"
  by (auto simp: read_be16_def rd_def rd_bytes_def read_big_endian_def upt_rec nth_append)

lemma nat_offsets:
  "i + 3 = Suc (Suc (Suc i))" "i + 4 = Suc (Suc (Suc (Suc i)))"
  "i + 5 = Suc (Suc (Suc (Suc (Suc i))))" "i + 6 = Suc (Suc (Suc (Suc (Suc (Suc i)))))"
  "i + 7 = Suc (Suc (Suc (Suc (Suc (Suc (Suc i))))))"
  by simp_all

lemma read_be32_loop: "read_be32 buf i = map_option (read_big_endian 4) (rd_bytes buf i 4)"
  by (auto simp: read_be32_def rd_def rd_bytes_def read_big_endian_def upt_rec nth_append nat_offsets ac_simps)

lemma read_be64_loop: "read_be64 buf i = map_option (read_big_endian 8) (rd_bytes buf i 8)"
  by (auto simp: read_be64_def rd_def rd_bytes_def read_big_endian_def upt_rec nth_append nat_offsets
      ac_simps)

lemmas read_loops = read_be16_loop read_be32_loop read_be64_loop read_be24_def read_signed_be24_def

lemma length_be [simp]:
  "length (be16 a) = 2" "length (be24 b) = 3" "length (be32 b) = 4" "length (be64 c) = 8"
  by (simp_all add: be16_def be24_def be32_def be64_def)

lemma read_append [wire_simps]:
  assumes "length xs \<le> n"
  shows "read_be16 (xs @ ys) n = read_be16 ys (n - length xs)"
    and "read_be24 (xs @ ys) n = read_be24 ys (n - length xs)"
    and "read_signed_be24 (xs @ ys) n = read_signed_be24 ys (n - length xs)"
    and "read_be32 (xs @ ys) n = read_be32 ys (n - length xs)"
    and "read_be64 (xs @ ys) n = read_be64 ys (n - length xs)"
  using assms by (simp_all add: read_loops rd_bytes_append)

lemma read_Cons [wire_simps]:
  assumes "0 < n"
  shows "read_be16 (x # xs) n = read_be16 xs (n - 1)"
    and "read_be24 (x # xs) n = read_be24 xs (n - 1)"
    and "read_signed_be24 (x # xs) n = read_signed_be24 xs (n - 1)"
    and "read_be32 (x # xs) n = read_be32 xs (n - 1)"
    and "read_be64 (x # xs) n = read_be64 xs (n - 1)"
  using assms by (simp_all add: read_loops rd_bytes_Cons)

lemma read_drop [wire_simps]:
  assumes "k \<le> length xs"
  shows "read_be16 (drop k xs) n = read_be16 xs (k + n)"
    and "read_be24 (drop k xs) n = read_be24 xs (k + n)"
    and "read_signed_be24 (drop k xs) n = read_signed_be24 xs (k + n)"
    and "read_be32 (drop k xs) n = read_be32 xs (k + n)"
    and "read_be64 (drop k xs) n = read_be64 xs (k + n)"
  using assms by (simp_all add: read_loops rd_bytes_drop)

lemma read_here [wire_simps]:
  "read_be16 (be16 a @ ys) 0 = Some a" "read_be16 (be16 a) 0 = Some a"
  "read_be32 (be32 b @ ys) 0 = Some b" "read_be32 (be32 b) 0 = Some b"
  "read_be64 (be64 c @ ys) 0 = Some c" "read_be64 (be64 c) 0 = Some c"
  by (simp_all add: read_loops rd_bytes_here rd_bytes_end)
    (simp_all add: be16_loop be32_loop be64_loop read_write_big_endian take_bit_word_eq_self)

lemma read_be24_here [wire_simps]:
  "read_be24 (be24 b @ ys) 0 = Some (take_bit 24 b)" "read_be24 (be24 b) 0 = Some (take_bit 24 b)"
  by (simp_all add: read_loops rd_bytes_here rd_bytes_end) (simp_all add: be24_def read_write_big_endian)

lemma read_None:
  "length buf < n + 2 \<Longrightarrow> read_be16 buf n = None" "length buf < n + 4 \<Longrightarrow> read_be32 buf n = None"
  "length buf < n + 8 \<Longrightarrow> read_be64 buf n = None"
  by (simp_all add: read_loops rd_bytes_eq_None)

lemma read_Some:
  "n + 2 \<le> length buf \<Longrightarrow> \<exists>v. read_be16 buf n = Some v"
  "n + 3 \<le> length buf \<Longrightarrow> \<exists>v. read_be24 buf n = Some v"
  "n + 3 \<le> length buf \<Longrightarrow> \<exists>v. read_signed_be24 buf n = Some v"
  "n + 4 \<le> length buf \<Longrightarrow> \<exists>v. read_be32 buf n = Some v"
  "n + 8 \<le> length buf \<Longrightarrow> \<exists>v. read_be64 buf n = Some v"
  by (simp_all add: read_loops rd_bytes_def)

section \<open>Signed values\<close>

lemma sign_extend_24:
  fixes v :: u32
  shows "sign_extend 3 v = (if bit v 23 then NOT (mask 24) OR v else v)"
proof -
  have m: "push_bit (3 mod (LENGTH(32) div 8) * 8) 1 - 1 = (mask 24 :: u32)"
    by (simp add: mask_eq_exp_minus_1)
  have b: "(ucast (drop_bit ((3 - 1) * 8) v) AND 0x80 :: byte) \<noteq> 0 \<longleftrightarrow> bit v 23"
    using and_exp_eq_0_iff_not_bit [of "ucast (drop_bit 16 v) :: byte" 7] by (simp add: bit_simps)
  show ?thesis
    unfolding sign_extend_def m b ..
qed

lemma narrow_sign_bits:
  fixes v :: u32
  assumes "- (2 ^ 23) \<le> sint v" "sint v < 2 ^ 23" "23 \<le> k" "k < 32"
  shows "bit v k \<longleftrightarrow> bit v 23"
proof -
  have "signed_take_bit 23 (sint v) = sint v"
    using assms by (intro signed_take_bit_int_eq_self) auto
  then have "bit (sint v) k \<longleftrightarrow> bit (sint v) 23"
    using assms(3) bit_signed_take_bit_iff [of 23 "sint v" k] by (simp add: min_def)
  with assms(3,4) show ?thesis
    by (simp add: bit_sint_iff)
qed

lemma read_signed_be24_here [wire_simps]:
  fixes v :: u32
  assumes "- (2 ^ 23) \<le> sint v" "sint v < 2 ^ 23"
  shows "read_signed_be24 (be24 v @ ys) 0 = Some v" and "read_signed_be24 (be24 v) 0 = Some v"
proof -
  have "sign_extend 3 (take_bit 24 v) = v"
  proof (rule bit_word_eqI)
    fix k assume "k < LENGTH(32)"
    moreover have "bit v k = bit v 23" if "24 \<le> k" "k < 32"
      using that assms by (intro narrow_sign_bits) auto
    ultimately show "bit (sign_extend 3 (take_bit 24 v)) k = bit v k"
      by (cases "k < 24") (auto simp: sign_extend_24 bit_simps)
  qed
  then show "read_signed_be24 (be24 v @ ys) 0 = Some v" "read_signed_be24 (be24 v) 0 = Some v"
    by (simp_all add: read_signed_be24_def rd_bytes_here rd_bytes_end read_signed_big_endian_def)
      (simp_all add: be24_def read_write_big_endian)
qed

lemma reinterpret_as_signed_sint: "reinterpret_as_signed u = sint u" for u :: "'a::len word"
proof -
  have pow: "push_bit (LENGTH('a) - 1) (1 :: 'a word) = 2 ^ (LENGTH('a) - 1)"
    by (simp add: push_bit_eq_mult)
  have bit: "u AND 2 ^ (LENGTH('a) - 1) \<noteq> 0 \<longleftrightarrow> bit u (LENGTH('a) - 1)"
    by (simp add: and_exp_eq_0_iff_not_bit)
  have "uint (u AND NOT (2 ^ (LENGTH('a) - 1))) = take_bit (LENGTH('a) - 1) (uint u)"
    by (rule bit_eqI) (use bit_imp_le_length [of u] in \<open>fastforce simp: bit_simps\<close>)
  moreover obtain n where n: "LENGTH('a) = Suc n"
    using len_gt_0 [where 'a = 'a] by (cases "LENGTH('a)") auto
  moreover have "2 ^ n * of_bool (bit u n) + take_bit n (uint u) = uint u"
    using take_bit_Suc_from_most [of n "uint u"] bintr_uint [of "Suc n" u]
    by (simp add: bit_uint_iff n)
  ultimately show ?thesis
    unfolding reinterpret_as_signed_def Let_def pow bit sint_uint
    by (cases "bit u n") (simp_all add: signed_take_bit_eq_take_bit_minus take_bit_Suc_from_most bit_uint_iff)
qed

section \<open>Properties\<close>

text \<open>
  Reading \<open>B\<close> bytes in either byte order returns exactly the low \<open>8 * B\<close> bits that were
  written, for every word type; at the widths of the specialisations this is the identity.
\<close>

theorem byte_io_roundtrip:
  "read_big_endian B (write_big_endian B v) = take_bit (8 * B) (v :: 'a::len word) \<and>
   read_little_endian B (write_little_endian B v) = take_bit (8 * B) v \<and>
   read_be16 (be16 a @ rest) 0 = Some a \<and> read_be32 (be32 b @ rest) 0 = Some b \<and>
   read_be64 (be64 c @ rest) 0 = Some c"
  by (simp add: read_write_big_endian read_write_little_endian read_here)

text \<open>
  A signed value that fits 24 bits survives \<^verbatim>\<open>ByteWriter<int32_t, 3>\<close> followed by
  \<^verbatim>\<open>ByteReader<int32_t, 3>\<close>, and the reader's reinterpretation is two's complement.
\<close>

theorem signed_be24_roundtrip:
  fixes v :: u32
  assumes "- (2 ^ 23) \<le> sint v" "sint v < 2 ^ 23"
  shows "read_signed_be24 (be24 v @ rest) 0 = Some v \<and> reinterpret_as_signed v = sint v"
  using assms by (simp add: read_signed_be24_here reinterpret_as_signed_sint)

theorem signed_be24_roundtrip_witness:
  "read_signed_be24 (be24 (- 5) @ [7]) 0 = Some (- 5) \<and> reinterpret_as_signed (- 5 :: u32) = sint (- 5 :: u32)"
  by (rule signed_be24_roundtrip) simp_all

end
