(* ===== verification/RtcpBase.thy ===== *)
theory RtcpBase
  imports ByteIO
begin

text \<open>
  The RTCP packet base: \<^verbatim>\<open>src/rtc/rtp_rtcp/rtcp/packets/common_header.cpp\<close>,
  \<^verbatim>\<open>rtcp_packet.cpp\<close>, \<^verbatim>\<open>rtpfb.cpp\<close> and \<^verbatim>\<open>psfb.cpp\<close>, and the contract every
  packet class keeps: what it packs is its wire image, and its wire image parses back to it.

  Parsers return an \<open>'a option option\<close>: \<open>None\<close> is a read outside the buffer or a failed assertion,
  \<open>Some None\<close> is the source's \<^verbatim>\<open>return false\<close>, \<open>Some (Some p)\<close> the parsed object.
  The fields of an object whose parse was refused are not modelled.
\<close>

abbreviation reject :: "'a option option" where "reject \<equiv> Some None"
abbreviation accept :: "'a \<Rightarrow> 'a option option" where "accept x \<equiv> Some (Some x)"

section \<open>CommonHeader\<close>

text \<open>
  The payload pointer is the rest of the buffer from the payload on, so a read past the payload but
  inside the buffer is a read of the following bytes, as in the source.
\<close>

record common_header =
  packet_type :: u8
  count_or_fmt :: u8
  padding_size :: u8
  payload_size :: nat
  payload :: "byte list"

definition kFixedHeaderSize :: nat where "kFixedHeaderSize = 4"

definition common_header_parse :: "byte list \<Rightarrow> nat \<Rightarrow> common_header option option" where
  "common_header_parse buffer sz =
     (if sz < kFixedHeaderSize then reject
      else do {
        b0 \<leftarrow> rd buffer 0;
        if drop_bit 6 b0 \<noteq> 2 then reject
        else do {
          let has_padding = (b0 AND 0x20 \<noteq> 0);
          b1 \<leftarrow> rd buffer 1;
          words \<leftarrow> read_be16 buffer 2;
          let psize = unat words * 4;
          if sz < kFixedHeaderSize + psize then reject
          else do {
            let h = \<lparr>packet_type = b1, count_or_fmt = b0 AND 0x1F, padding_size = 0,
                     payload_size = psize, payload = drop kFixedHeaderSize buffer\<rparr>;
            if \<not> has_padding then accept h
            else if psize = 0 then reject
            else do {
              pad \<leftarrow> rd (payload h) (psize - 1);
              if pad = 0 then reject
              else if unat pad > psize then reject
              else accept (h\<lparr>padding_size := pad, payload_size := psize - unat pad\<rparr>) } } } })"

definition ch_packet_size :: "common_header \<Rightarrow> nat" where
  "ch_packet_size h = kFixedHeaderSize + payload_size h + unat (padding_size h)"

definition next_packet :: "common_header \<Rightarrow> byte list" where
  "next_packet h = drop (payload_size h + unat (padding_size h)) (payload h)"

text \<open>How a receiver uses a packet class: parse the common header, then the packet.\<close>

definition parse_received ::
  "(common_header \<Rightarrow> 'p option option) \<Rightarrow> byte list \<Rightarrow> nat \<Rightarrow> 'p option option" where
  "parse_received parse buffer sz = do {
     header \<leftarrow> common_header_parse buffer sz;
     (case header of None \<Rightarrow> reject | Some h \<Rightarrow> parse h) }"

section \<open>RtcpPacket: packing into a buffer\<close>

text \<open>
  \<open>pk_ready\<close> records the packets handed to the \<^verbatim>\<open>PacketReadyCallback\<close>, in order; the flag
  passed to the operations says whether there is a callback.
\<close>

record pack_state =
  pk_buffer :: "byte list"
  pk_index :: nat
  pk_ready :: "byte list list"

definition on_buffer_full :: "bool \<Rightarrow> pack_state \<Rightarrow> bool \<times> pack_state" where
  "on_buffer_full callback s =
     (if pk_index s = 0 then (False, s)
      else if \<not> callback then (False, s)
      else (True, s\<lparr>pk_ready := pk_ready s @ [take (pk_index s) (pk_buffer s)], pk_index := 0\<rparr>))"

text \<open>The loop every \<^verbatim>\<open>PackInto\<close> starts with; it returns whether the packet now fits.\<close>

function make_room :: "nat \<Rightarrow> nat \<Rightarrow> bool \<Rightarrow> pack_state \<Rightarrow> bool \<times> pack_state" where
  "make_room sz max_size callback s =
     (if pk_index s + sz > max_size then
        (case on_buffer_full callback s of
           (False, s') \<Rightarrow> (False, s')
         | (True, s') \<Rightarrow> make_room sz max_size callback s')
      else (True, s))"
  by pat_completeness auto
termination
  by (relation "measure (\<lambda>(sz, max_size, callback, s). pk_index s)")
    (auto simp: on_buffer_full_def split: if_splits)

declare make_room.simps [simp del]

definition put_at :: "nat \<Rightarrow> byte list \<Rightarrow> pack_state \<Rightarrow> pack_state option" where
  "put_at off bs s = map_option (\<lambda>b. s\<lparr>pk_buffer := b\<rparr>) (wr (pk_index s + off) bs (pk_buffer s))"

definition advance :: "nat \<Rightarrow> pack_state \<Rightarrow> pack_state" where
  "advance n s = s\<lparr>pk_index := pk_index s + n\<rparr>"

text \<open>The closing \<^verbatim>\<open>assert(*index == index_end)\<close> of the packers.\<close>

definition assert_index :: "nat \<Rightarrow> pack_state \<Rightarrow> (bool \<times> pack_state) option" where
  "assert_index index_end s = (if pk_index s = index_end then Some (True, s) else None)"

definition packet_size_without_common_header :: "nat \<Rightarrow> nat option" where
  "packet_size_without_common_header sz =
     (if sz > 0 \<and> sz mod 4 = 0 then Some (sz - 4) else None)"

definition pack_common_header ::
  "nat \<Rightarrow> u8 \<Rightarrow> nat \<Rightarrow> bool \<Rightarrow> pack_state \<Rightarrow> pack_state option" where
  "pack_common_header count_or_format ptype psize padding s =
     (if psize \<le> 0xFFFF \<and> count_or_format \<le> 0x1F then do {
        let padding_bit = (if padding then 0x20 else 0);
        let words = (of_nat (psize div 4) :: u64);
        s1 \<leftarrow> put_at 0 [0x80 OR padding_bit OR of_nat count_or_format] s;
        s2 \<leftarrow> put_at 1 [ptype] s1;
        s3 \<leftarrow> put_at 2 [ucast (drop_bit 8 words AND 0xFF)] s2;
        s4 \<leftarrow> put_at 3 [ucast (words AND 0xFF)] s3;
        Some (advance 4 s4) }
      else None)"

text \<open>\<^verbatim>\<open>Build(max_size, callback)\<close>: pack into a local buffer of the largest IP packet size.\<close>

definition kIpPacketSize :: nat where "kIpPacketSize = 1500"

definition build ::
  "(nat \<Rightarrow> bool \<Rightarrow> pack_state \<Rightarrow> (bool \<times> pack_state) option) \<Rightarrow> nat \<Rightarrow> bool \<Rightarrow> byte list \<Rightarrow>
   (bool \<times> byte list list) option" where
  "build pack_into max_size callback stack_buffer =
     (if max_size \<le> kIpPacketSize then do {
        (ok, s) \<leftarrow> pack_into max_size callback
                    \<lparr>pk_buffer = stack_buffer, pk_index = 0, pk_ready = []\<rparr>;
        if \<not> ok then Some (False, pk_ready s)
        else (case on_buffer_full callback s of (ok', s') \<Rightarrow> Some (ok', pk_ready s')) }
      else None)"

section \<open>Rtpfb and Psfb: the common feedback fields\<close>

definition kCommonFeedbackSize :: nat where "kCommonFeedbackSize = 8"

definition rtpfb_parse_common_feedback :: "byte list \<Rightarrow> nat \<Rightarrow> (u32 \<times> u32) option option" where
  "rtpfb_parse_common_feedback buffer sz =
     (if sz < kCommonFeedbackSize then reject
      else do { s \<leftarrow> read_be32 buffer 0; m \<leftarrow> read_be32 buffer 4; accept (s, m) })"

definition rtpfb_pack_common_feedback_into ::
  "u32 \<Rightarrow> u32 \<Rightarrow> nat \<Rightarrow> pack_state \<Rightarrow> (bool \<times> pack_state) option" where
  "rtpfb_pack_common_feedback_into sender media sz s =
     (if sz < kCommonFeedbackSize then Some (False, s)
      else do {
        s1 \<leftarrow> put_at 0 (be32 sender) s;
        s2 \<leftarrow> put_at 4 (be32 media) s1;
        Some (True, s2) })"

definition psfb_parse_common_feedback :: "byte list \<Rightarrow> (u32 \<times> u32) option" where
  "psfb_parse_common_feedback p =
     do { s \<leftarrow> read_be32 p 0; m \<leftarrow> read_be32 p 4; Some (s, m) }"

definition psfb_pack_common_feedback :: "u32 \<Rightarrow> u32 \<Rightarrow> pack_state \<Rightarrow> pack_state option" where
  "psfb_pack_common_feedback sender media s = do {
     s1 \<leftarrow> put_at 0 (be32 sender) s;
     put_at 4 (be32 media) s1 }"

section \<open>Writing at the index\<close>

lemma put_at_fuse [wire_simps]:
  "j = i + length as \<Longrightarrow>
     Option.bind (put_at i as s) (\<lambda>t. Option.bind (put_at j bs t) k) = Option.bind (put_at i (as @ bs) s) k"
  by (auto simp: put_at_def wr_def ac_simps bind_map_option)

lemma put_at_fuse_end [wire_simps]:
  "j = i + length as \<Longrightarrow> Option.bind (put_at i as s) (put_at j bs) = put_at i (as @ bs) s"
  by (auto simp: put_at_def wr_def ac_simps)

lemma put_at_advance [wire_simps]: "put_at i bs (advance n s) = map_option (advance n) (put_at (n + i) bs s)"
  by (auto simp: put_at_def advance_def wr_def ac_simps)

lemma advance_advance [wire_simps]: "advance m (advance n s) = advance (n + m) s"
  by (simp add: advance_def ac_simps)

lemma advance_simps [simp]:
  "pk_index (advance n s) = pk_index s + n" "pk_buffer (advance n s) = pk_buffer s"
  "pk_ready (advance n s) = pk_ready s"
  by (simp_all add: advance_def)

lemma put_at_index: "put_at i bs s = Some t \<Longrightarrow> pk_index t = pk_index s \<and> pk_ready t = pk_ready s
    \<and> length (pk_buffer t) = length (pk_buffer s)"
  by (auto simp: put_at_def length_wr)

definition header_bytes :: "nat \<Rightarrow> u8 \<Rightarrow> nat \<Rightarrow> byte list" where
  "header_bytes count ptype psize = [0x80 OR of_nat count, ptype] @ be16 (of_nat (psize div 4))"

lemma length_header_bytes [simp]: "length (header_bytes c t n) = 4"
  by (simp add: header_bytes_def)

lemma be16_of_words:
  "[ucast (drop_bit 8 (of_nat n :: u64) AND 0xFF), ucast ((of_nat n :: u64) AND 0xFF)] = be16 (of_nat n)"
proof -
  have ff: "(0xFF :: u64) = mask 8" by (simp add: mask_eq_exp_minus_1)
  show ?thesis
    unfolding be16_def list.inject ff by (auto intro!: bit_word_eqI simp: bit_simps)
qed

lemma pack_common_header_bytes [wire_simps]:
  "psize \<le> 0xFFFF \<Longrightarrow> c \<le> 0x1F \<Longrightarrow>
     pack_common_header c t psize False s = map_option (advance 4) (put_at 0 (header_bytes c t psize) s)"
  by (simp add: pack_common_header_def header_bytes_def wire_simps map_conv_bind_option Let_def comp_def
      flip: be16_of_words)

section \<open>Making room\<close>

lemma make_room_fits [simp]: "pk_index s + n \<le> max_size \<Longrightarrow> make_room n max_size cb s = (True, s)"
  by (simp add: make_room.simps)

lemma make_room_empty: "pk_index s = 0 \<Longrightarrow> max_size < n \<Longrightarrow> make_room n max_size cb s = (False, s)"
  by (simp add: make_room.simps [of n] on_buffer_full_def)

lemma make_room_flush:
  assumes "0 < pk_index s" "max_size < pk_index s + n"
  shows "make_room n max_size cb s =
    (if cb then (n \<le> max_size, s\<lparr>pk_ready := pk_ready s @ [take (pk_index s) (pk_buffer s)], pk_index := 0\<rparr>)
     else (False, s))"
  using assms by (cases "n \<le> max_size")
    (auto simp: make_room.simps [of n _ _ s] on_buffer_full_def make_room_empty)

lemma make_room_cases:
  obtains "pk_index s + n \<le> max_size" "make_room n max_size cb s = (True, s)"
  | "pk_index s = 0" "max_size < n" "make_room n max_size cb s = (False, s)"
  | "0 < pk_index s" "max_size < pk_index s + n" "\<not> cb" "make_room n max_size cb s = (False, s)"
  | "0 < pk_index s" "max_size < pk_index s + n" cb
      "make_room n max_size cb s =
        (n \<le> max_size, s\<lparr>pk_ready := pk_ready s @ [take (pk_index s) (pk_buffer s)], pk_index := 0\<rparr>)"
  using make_room_fits [of s n max_size cb] make_room_empty [of s max_size n cb]
    make_room_flush [of s max_size n cb]
  by (metis add_cancel_left_left gr_zeroI linorder_not_less)

section \<open>The contract of a packet class\<close>

text \<open>What packing a wire image does: make room, write it at the index, move the index past it.\<close>

definition pack_wire :: "byte list \<Rightarrow> nat \<Rightarrow> bool \<Rightarrow> pack_state \<Rightarrow> (bool \<times> pack_state) option" where
  "pack_wire bs max_size cb s =
     (case make_room (length bs) max_size cb s of
        (False, s') \<Rightarrow> Some (False, s')
      | (True, s') \<Rightarrow> map_option (\<lambda>t. (True, advance (length bs) t)) (put_at 0 bs s'))"

lemma pack_wire_safe:
  assumes "max_size \<le> length (pk_buffer s)" "pk_index s \<le> max_size"
  shows "\<exists>ok t. pack_wire bs max_size cb s = Some (ok, t) \<and> pk_index t \<le> max_size \<and>
    length (pk_buffer t) = length (pk_buffer s)"
  using assms
  by (cases rule: make_room_cases [of s "length bs" max_size cb])
    (auto simp: pack_wire_def put_at_def wr_def advance_def split: bool.splits)

lemma pack_wire_fresh:
  assumes "length bs \<le> max_size" "max_size \<le> length buf"
  shows "pack_wire bs max_size cb \<lparr>pk_buffer = buf, pk_index = 0, pk_ready = r\<rparr> =
    Some (True, \<lparr>pk_buffer = bs @ drop (length bs) buf, pk_index = length bs, pk_ready = r\<rparr>)"
  using assms by (simp add: pack_wire_def put_at_def wr_def advance_def)

text \<open>
  The wire image of a packet and what parsing makes of it. \<open>decoded\<close> is what the receiver sees:
  the identity, except for fields that the format rounds.
\<close>

locale rtcp_image =
  fixes valid :: "'p \<Rightarrow> bool" and packet_size :: "'p \<Rightarrow> nat" and wire :: "'p \<Rightarrow> byte list"
    and parse :: "common_header \<Rightarrow> 'p option option" and decoded :: "'p \<Rightarrow> 'p"
  assumes length_wire: "valid p \<Longrightarrow> length (wire p) = packet_size p"
    and parse_of_wire: "valid p \<Longrightarrow>
      \<exists>h. common_header_parse (wire p @ rest) (length (wire p @ rest)) = accept h \<and>
          ch_packet_size h = packet_size p \<and> next_packet h = rest \<and> parse h = accept (decoded p)"
    and not_empty: "valid p \<Longrightarrow> 0 < packet_size p"
begin

lemma received:
  "valid p \<Longrightarrow> parse_received parse (wire p @ rest) (length (wire p @ rest)) = accept (decoded p)"
  using parse_of_wire [of p rest] by (auto simp: parse_received_def)

end

text \<open>The packer of a class: whatever the state of the buffer, it packs the wire image.\<close>

locale rtcp_codec = rtcp_image valid packet_size wire parse decoded
  for valid :: "'p \<Rightarrow> bool" and packet_size :: "'p \<Rightarrow> nat" and wire :: "'p \<Rightarrow> byte list"
    and pack_into :: "'p \<Rightarrow> nat \<Rightarrow> bool \<Rightarrow> pack_state \<Rightarrow> (bool \<times> pack_state) option"
    and parse :: "common_header \<Rightarrow> 'p option option" and decoded :: "'p \<Rightarrow> 'p" +
  assumes pack_is_wire: "valid p \<Longrightarrow> pack_into p max_size cb s = pack_wire (wire p) max_size cb s"
begin

text \<open>Packing into a large enough empty buffer, then parsing what was written.\<close>

lemma roundtrip:
  assumes "valid p" "packet_size p \<le> max_size" "max_size \<le> length buf"
  shows "\<exists>t h. pack_into p max_size cb \<lparr>pk_buffer = buf, pk_index = 0, pk_ready = []\<rparr> = Some (True, t) \<and>
    pk_index t = packet_size p \<and> pk_ready t = [] \<and>
    common_header_parse (take (pk_index t) (pk_buffer t)) (packet_size p) = accept h \<and>
    parse h = accept (decoded p)"
proof -
  obtain h where h: "common_header_parse (wire p) (length (wire p)) = accept h" "parse h = accept (decoded p)"
    using parse_of_wire [OF assms(1), of "[]"] by auto
  then show ?thesis
    using assms by (simp add: pack_is_wire pack_wire_fresh length_wire)
qed

lemma pack_safe:
  assumes "valid p" "max_size \<le> length (pk_buffer s)" "pk_index s \<le> max_size"
  shows "\<exists>ok t. pack_into p max_size cb s = Some (ok, t) \<and> pk_index t \<le> max_size \<and>
    length (pk_buffer t) = length (pk_buffer s)"
  using assms by (simp add: pack_is_wire pack_wire_safe)

lemma build_wire:
  assumes "valid p" "packet_size p \<le> max_size" "max_size \<le> kIpPacketSize" "length stack = kIpPacketSize"
  shows "build (pack_into p) max_size True stack = Some (True, [wire p])"
  using assms length_wire [OF assms(1)] not_empty [OF assms(1)]
  by (auto simp: build_def pack_is_wire pack_wire_fresh on_buffer_full_def)

end

section \<open>Parsing a packed header\<close>

lemma header_first_byte:
  assumes "c \<le> 0x1F"
  shows "drop_bit 6 (0x80 OR of_nat c :: u8) = 2" "(0x80 OR of_nat c :: u8) AND 0x20 = 0"
    "(0x80 OR of_nat c :: u8) AND 0x1F = of_nat c"
proof -
  have "\<forall>c \<in> set [0..<32]. drop_bit 6 (0x80 OR of_nat c :: u8) = 2 \<and>
      (0x80 OR of_nat c :: u8) AND 0x20 = 0 \<and> (0x80 OR of_nat c :: u8) AND 0x1F = of_nat c"
    by (simp add: upt_rec)
  then show "drop_bit 6 (0x80 OR of_nat c :: u8) = 2" "(0x80 OR of_nat c :: u8) AND 0x20 = 0"
    "(0x80 OR of_nat c :: u8) AND 0x1F = of_nat c"
    using assms by auto
qed

lemma parse_header_bytes:
  assumes "c \<le> 0x1F" "n mod 4 = 0" "n \<le> 0x3FFFC" "length body = n"
    "sz = 4 + n + k" "k = length rest"
  shows "common_header_parse (header_bytes c t n @ body @ rest) sz =
    accept \<lparr>packet_type = t, count_or_fmt = of_nat c, padding_size = 0, payload_size = n,
            payload = body @ rest\<rparr>"
proof -
  have "unat (of_nat (n div 4) :: u16) * 4 = n"
    using assms(2,3) by (simp add: unat_of_nat take_bit_eq_mod) (auto elim!: dvdE simp: mod_eq_0_iff_dvd)
  then show ?thesis
    using assms header_first_byte [OF assms(1)]
    by (simp add: common_header_parse_def header_bytes_def kFixedHeaderSize_def wire_simps Let_def)
qed

lemma wire_parseI:
  assumes "w = header_bytes c t n @ body" "c \<le> 0x1F" "n mod 4 = 0" "n \<le> 0x3FFFC"
    "length body = n" "sz = 4 + n"
    and "parse \<lparr>packet_type = t, count_or_fmt = of_nat c, padding_size = 0, payload_size = n,
            payload = body @ rest\<rparr> = accept q"
  shows "\<exists>h. common_header_parse (w @ rest) (length (w @ rest)) = accept h \<and>
    ch_packet_size h = sz \<and> next_packet h = rest \<and> parse h = accept q"
  using assms parse_header_bytes [OF assms(2-5), of "length (w @ rest)" "length rest" rest t]
  by (simp add: ch_packet_size_def next_packet_def kFixedHeaderSize_def)

section \<open>Item lists\<close>

text \<open>
  The loops over the items of a packet: each writes one item at the index and moves the index, or
  reads one item and moves the read pointer by the item's size.
\<close>

fun put_items :: "('i \<Rightarrow> byte list) \<Rightarrow> 'i list \<Rightarrow> pack_state \<Rightarrow> pack_state option" where
  "put_items f [] s = Some s"
| "put_items f (x # xs) s = do {
     s' \<leftarrow> put_at 0 (f x) s;
     put_items f xs (advance (length (f x)) s') }"

fun parse_items :: "nat \<Rightarrow> (byte list \<Rightarrow> 'i option) \<Rightarrow> nat \<Rightarrow> byte list \<Rightarrow> 'i list option" where
  "parse_items w dec 0 bs = Some []"
| "parse_items w dec (Suc n) bs = do {
     x \<leftarrow> dec bs;
     xs \<leftarrow> parse_items w dec n (drop w bs);
     Some (x # xs) }"

lemma put_items_fuse [wire_simps]:
  "n = length as \<Longrightarrow> Option.bind (put_at 0 as s) (\<lambda>t. put_items f xs (advance n t)) =
     map_option (advance (n + length (concat (map f xs)))) (put_at 0 (as @ concat (map f xs)) s)"
proof (induction xs arbitrary: as n s)
  case Nil
  then show ?case by (simp add: map_conv_bind_option comp_def)
next
  case (Cons x xs)
  have "Option.bind (put_at 0 as s) (\<lambda>t. put_items f (x # xs) (advance n t)) =
      Option.bind (put_at 0 (as @ f x) s) (\<lambda>t. put_items f xs (advance (n + length (f x)) t))"
    using Cons.prems by (simp add: wire_simps bind_map_option comp_def)
  also have "\<dots> = map_option (advance (n + length (concat (map f (x # xs)))))
      (put_at 0 (as @ concat (map f (x # xs))) s)"
    using Cons.prems by (subst Cons.IH) (simp_all add: ac_simps)
  finally show ?case .
qed

lemma put_items_fuse_bind [wire_simps]:
  "n = length as \<Longrightarrow> Option.bind (put_at 0 as s) (\<lambda>t. Option.bind (put_items f xs (advance n t)) k) =
     Option.bind (put_at 0 (as @ concat (map f xs)) s)
       (\<lambda>t. k (advance (n + length (concat (map f xs))) t))"
  using put_items_fuse [of n as s f xs] by (simp add: bind_map_option comp_def flip: Option.bind_assoc)

lemma parse_items_concat [wire_simps]:
  assumes "\<And>x rest. x \<in> set xs \<Longrightarrow> dec (f x @ rest) = Some x" "\<And>x. x \<in> set xs \<Longrightarrow> length (f x) = w"
    and "n = length xs"
  shows "parse_items w dec n (concat (map f xs) @ rest) = Some xs"
  using assms by (induction xs arbitrary: n) auto

lemma parse_items_total:
  assumes "\<And>bs. w \<le> length bs \<Longrightarrow> \<exists>x. dec bs = Some x" "n * w \<le> length bs"
  shows "\<exists>xs. parse_items w dec n bs = Some xs \<and> length xs = n"
  using assms(2)
proof (induction n arbitrary: bs)
  case (Suc n)
  then obtain x where "dec bs = Some x" using assms(1) [of bs] by auto
  moreover obtain xs where "parse_items w dec n (drop w bs) = Some xs" "length xs = n"
    using Suc.IH [of "drop w bs"] Suc.prems by (auto simp: le_diff_conv2)
  ultimately show ?case by simp
qed simp

lemma length_concat_map_const: "(\<And>x. x \<in> set xs \<Longrightarrow> length (f x) = w) \<Longrightarrow> length (concat (map f xs)) = length xs * w"
  by (induction xs) auto

text \<open>Every accepted header describes a payload that lies inside the buffer.\<close>

lemma common_header_parse_total:
  assumes "sz \<le> length buf"
  obtains "common_header_parse buf sz = reject"
  | h where "common_header_parse buf sz = accept h" "payload h = drop 4 buf"
      "payload_size h + unat (padding_size h) \<le> length (payload h)" "ch_packet_size h \<le> sz"
proof -
  consider "sz < 4" | "4 \<le> sz" by linarith
  then show ?thesis
  proof cases
    case 1
    then show ?thesis by (intro that(1)) (simp add: common_header_parse_def kFixedHeaderSize_def)
  next
    case 2
    then obtain b0 b1 w where b: "rd buf 0 = Some b0" "rd buf 1 = Some b1" "read_be16 buf 2 = Some w"
      using assms read_Some(1) [of 2 buf] by (force simp: rd_def)
    show ?thesis
    proof (cases "sz < 4 + unat w * 4 \<or> drop_bit 6 b0 \<noteq> 2 \<or> (b0 AND 0x20 \<noteq> 0 \<and> unat w = 0)")
      case True
      then show ?thesis
        using 2 b by (intro that(1)) (auto simp: common_header_parse_def kFixedHeaderSize_def Let_def)
    next
      case False
      then have len: "4 + unat w * 4 \<le> length buf" using assms by linarith
      show ?thesis
      proof (cases "b0 AND 0x20 = 0")
        case True
        with False 2 b len show ?thesis
          by (intro that(2)) (auto simp: common_header_parse_def kFixedHeaderSize_def Let_def ch_packet_size_def)
      next
        case pad: False
        with False len have "unat w * 4 - 1 < length (drop 4 buf)" by auto
        then obtain q where q: "rd (drop 4 buf) (unat w * 4 - 1) = Some q"
          unfolding rd_def by simp
        show ?thesis
        proof (cases "q = 0 \<or> unat q > unat w * 4")
          case True
          with False pad 2 b q show ?thesis
            by (intro that(1)) (auto simp: common_header_parse_def kFixedHeaderSize_def Let_def)
        next
          case ok: False
          with False pad 2 b q len show ?thesis
            by (intro that(2)) (auto simp: common_header_parse_def kFixedHeaderSize_def Let_def ch_packet_size_def)
        qed
      qed
    qed
  qed
qed

text \<open>A step that runs on the state a write returns may use that the write kept the index.\<close>

lemma bind_put_at_cong:
  assumes "\<And>t. pk_index t = pk_index s \<Longrightarrow> f t = g t"
  shows "Option.bind (put_at i bs s) f = Option.bind (put_at i bs s) g"
  using assms by (cases "put_at i bs s") (auto dest: put_at_index)

lemma assert_index_fuse [wire_simps]:
  "e = pk_index s + n \<Longrightarrow> Option.bind (put_at i bs s) (\<lambda>t. assert_index e (advance n t)) =
     Option.bind (put_at i bs s) (\<lambda>t. Some (True, advance n t))"
  by (intro bind_put_at_cong) (simp add: assert_index_def)

lemma rtpfb_pack_fuse [wire_simps]:
  assumes "n = length as" "\<And>t. pk_index t = pk_index s \<Longrightarrow> 8 \<le> f t"
  shows "Option.bind (put_at 0 as s)
      (\<lambda>t. Option.bind (rtpfb_pack_common_feedback_into a b (f t) (advance n t)) k) =
    Option.bind (put_at 0 (as @ be32 a @ be32 b) s) (\<lambda>t. k (True, advance n t))"
proof -
  have "Option.bind (put_at 0 as s)
      (\<lambda>t. Option.bind (rtpfb_pack_common_feedback_into a b (f t) (advance n t)) k) =
    Option.bind (put_at 0 as s) (\<lambda>t. Option.bind (put_at 0 (be32 a) (advance n t))
      (\<lambda>t. Option.bind (put_at 4 (be32 b) t) (\<lambda>t. k (True, t))))"
    using assms(2)
    by (intro bind_put_at_cong) (simp add: rtpfb_pack_common_feedback_into_def kCommonFeedbackSize_def not_less [symmetric])
  then show ?thesis
    using assms(1) by (simp add: wire_simps bind_map_option comp_def)
qed

lemma pack_wireI:
  assumes "length bs = n"
    and "\<And>s. body s = Option.bind (put_at 0 bs s) (\<lambda>t. Some (True, advance n t))"
  shows "(case make_room n max_size cb s of (False, s) \<Rightarrow> Some (False, s) | (True, s) \<Rightarrow> body s) =
    pack_wire bs max_size cb s"
  using assms by (auto simp: pack_wire_def map_conv_bind_option comp_def split: prod.splits bool.splits)

lemmas pack_simps = bind_map_option map_conv_bind_option comp_def Let_def

section \<open>Parsers of received packets\<close>

text \<open>
  The contract of a parser: on a header whose payload lies inside the buffer it reads only inside
  the buffer and runs into no assertion. Received bytes go through \<open>CommonHeader::Parse\<close> first,
  which establishes that, so a parser with this contract is safe on every input.
\<close>

locale safe_parser =
  fixes parse :: "common_header \<Rightarrow> 'p option option"
  assumes parse_inside: "payload_size h \<le> length (payload h) \<Longrightarrow> parse h \<noteq> None"
begin

lemma received_safe:
  assumes "sz \<le> length buffer"
  shows "parse_received parse buffer sz \<noteq> None"
proof (cases rule: common_header_parse_total [OF assms])
  case (2 h)
  then show ?thesis using parse_inside [of h] by (simp add: parse_received_def)
qed (simp add: parse_received_def)

end

text \<open>Reads inside the buffer, as values: with these a parser runs by rewriting on an unknown buffer.\<close>

definition val16 :: "byte list \<Rightarrow> nat \<Rightarrow> u16" where "val16 buf n = the (read_be16 buf n)"
definition val24 :: "byte list \<Rightarrow> nat \<Rightarrow> u32" where "val24 buf n = the (read_be24 buf n)"
definition signed_val24 :: "byte list \<Rightarrow> nat \<Rightarrow> u32" where "signed_val24 buf n = the (read_signed_be24 buf n)"
definition val32 :: "byte list \<Rightarrow> nat \<Rightarrow> u32" where "val32 buf n = the (read_be32 buf n)"
definition val64 :: "byte list \<Rightarrow> nat \<Rightarrow> u64" where "val64 buf n = the (read_be64 buf n)"

lemma read_inside:
  "n + 2 \<le> length buf \<Longrightarrow> read_be16 buf n = Some (val16 buf n)"
  "n + 3 \<le> length buf \<Longrightarrow> read_be24 buf n = Some (val24 buf n)"
  "n + 3 \<le> length buf \<Longrightarrow> read_signed_be24 buf n = Some (signed_val24 buf n)"
  "n + 4 \<le> length buf \<Longrightarrow> read_be32 buf n = Some (val32 buf n)"
  "n + 8 \<le> length buf \<Longrightarrow> read_be64 buf n = Some (val64 buf n)"
  "n < length buf \<Longrightarrow> rd buf n = Some (buf ! n)"
  "n + k \<le> length buf \<Longrightarrow> rd_bytes buf n k = Some (take k (drop n buf))"
  using read_Some [of n buf]
  by (auto simp: rd_def rd_bytes_def val16_def val24_def signed_val24_def val32_def val64_def)

end
