(* ===== verification/RtcpReports.thy ===== *)
theory RtcpReports
  imports RtcpBase
begin

text \<open>
  Sender and receiver reports: \<^verbatim>\<open>src/rtc/rtp_rtcp/rtcp/packets/report_block.cpp\<close>,
  \<^verbatim>\<open>sender_report.cpp\<close>, \<^verbatim>\<open>receiver_report.cpp\<close>, and the NTP time they carry
  (\<^verbatim>\<open>src/rtc/base/time/ntp_time.cpp\<close>). The wire images state the RFC 3550 layout; the
  interpretations show that the packers produce them and the parsers invert them.
\<close>

section \<open>NtpTime\<close>

record ntp_time =
  ntp_value :: u64

definition ntp_set :: "u32 \<Rightarrow> u32 \<Rightarrow> ntp_time" where
  "ntp_set seconds fractions = \<lparr>ntp_value = ucast seconds * 0x100000000 + ucast fractions\<rparr>"

definition ntp_seconds :: "ntp_time \<Rightarrow> u32" where
  "ntp_seconds t = ucast (ntp_value t div 0x100000000)"

definition ntp_fractions :: "ntp_time \<Rightarrow> u32" where
  "ntp_fractions t = ucast (ntp_value t mod 0x100000000)"

section \<open>ReportBlock\<close>

record report_block =
  source_ssrc :: u32
  fraction_lost :: u8
  cumulative_packet_lost :: u32
  extended_highest_seq_num :: u32
  jitter :: u32
  last_sr_ntp_timestamp :: u32
  delay_since_last_sr :: u32

definition empty_report_block :: report_block where
  "empty_report_block =
     \<lparr>source_ssrc = 0, fraction_lost = 0, cumulative_packet_lost = 0, extended_highest_seq_num = 0,
      jitter = 0, last_sr_ntp_timestamp = 0, delay_since_last_sr = 0\<rparr>"

definition kFixedReportBlockSize :: nat where "kFixedReportBlockSize = 24"

definition report_block_pack_into :: "report_block \<Rightarrow> nat \<Rightarrow> pack_state \<Rightarrow> (bool \<times> pack_state) option" where
  "report_block_pack_into b sz s =
     (if sz < kFixedReportBlockSize then Some (False, s)
      else do {
        s \<leftarrow> put_at 0 (be32 (source_ssrc b)) s;
        s \<leftarrow> put_at 4 [fraction_lost b] s;
        s \<leftarrow> put_at 5 (be24 (cumulative_packet_lost b)) s;
        s \<leftarrow> put_at 8 (be32 (extended_highest_seq_num b)) s;
        s \<leftarrow> put_at 12 (be32 (jitter b)) s;
        s \<leftarrow> put_at 16 (be32 (last_sr_ntp_timestamp b)) s;
        s \<leftarrow> put_at 20 (be32 (delay_since_last_sr b)) s;
        Some (True, s) })"

definition report_block_parse :: "byte list \<Rightarrow> nat \<Rightarrow> report_block option option" where
  "report_block_parse buffer sz =
     (if sz < kFixedReportBlockSize then reject
      else do {
        ssrc \<leftarrow> read_be32 buffer 0;
        frac \<leftarrow> rd buffer 4;
        cum \<leftarrow> read_signed_be24 buffer 5;
        ext \<leftarrow> read_be32 buffer 8;
        jit \<leftarrow> read_be32 buffer 12;
        lsr \<leftarrow> read_be32 buffer 16;
        dlsr \<leftarrow> read_be32 buffer 20;
        accept \<lparr>source_ssrc = ssrc, fraction_lost = frac, cumulative_packet_lost = cum,
                extended_highest_seq_num = ext, jitter = jit, last_sr_ntp_timestamp = lsr,
                delay_since_last_sr = dlsr\<rparr> })"

definition set_cumulative_packet_lost :: "u32 \<Rightarrow> report_block \<Rightarrow> bool \<times> report_block" where
  "set_cumulative_packet_lost cumulative_lost b =
     (if sint cumulative_lost \<ge> 0x800000 \<or> sint cumulative_lost < - 0x800000 then (False, b)
      else (True, b\<lparr>cumulative_packet_lost := cumulative_lost\<rparr>))"

definition sequence_num_cycles :: "report_block \<Rightarrow> u16" where
  "sequence_num_cycles b = ucast (drop_bit 16 (extended_highest_seq_num b))"

definition highest_seq_num :: "report_block \<Rightarrow> u16" where
  "highest_seq_num b = ucast (extended_highest_seq_num b)"

section \<open>SenderReport\<close>

record sender_report =
  sr_sender_ssrc :: u32
  sr_ntp :: ntp_time
  sr_rtp_timestamp :: u32
  sr_packet_count :: u32
  sr_octet_count :: u32
  sr_report_blocks :: "report_block list"

definition kMaxNumberOfReportBlocks :: nat where "kMaxNumberOfReportBlocks = 0x1F"
definition kSenderReportBaseSize :: nat where "kSenderReportBaseSize = 24"

definition sr_add_report_block :: "report_block \<Rightarrow> sender_report \<Rightarrow> bool \<times> sender_report" where
  "sr_add_report_block b r =
     (if length (sr_report_blocks r) \<ge> kMaxNumberOfReportBlocks then (False, r)
      else (True, r\<lparr>sr_report_blocks := sr_report_blocks r @ [b]\<rparr>))"

definition sr_set_report_blocks :: "report_block list \<Rightarrow> sender_report \<Rightarrow> bool \<times> sender_report" where
  "sr_set_report_blocks bs r =
     (if length bs > kMaxNumberOfReportBlocks then (False, r)
      else (True, r\<lparr>sr_report_blocks := bs\<rparr>))"

fun sr_parse_blocks :: "nat \<Rightarrow> byte list \<Rightarrow> report_block list option option" where
  "sr_parse_blocks 0 next_block = accept []"
| "sr_parse_blocks (Suc n) next_block =
     (case report_block_parse next_block kFixedReportBlockSize of
        None \<Rightarrow> None
      | Some None \<Rightarrow> reject
      | Some (Some b) \<Rightarrow>
          map_option (map_option (\<lambda>bs. b # bs))
            (sr_parse_blocks n (drop kFixedReportBlockSize next_block)))"

definition sender_report_parse :: "common_header \<Rightarrow> sender_report option option" where
  "sender_report_parse packet =
     (if packet_type packet \<noteq> 200 then reject
      else (let count = unat (count_or_fmt packet)
        in if payload_size packet < kSenderReportBaseSize + count * kFixedReportBlockSize then reject
        else do {
          let p = payload packet;
          ssrc \<leftarrow> read_be32 p 0;
          secs \<leftarrow> read_be32 p 4;
          frac \<leftarrow> read_be32 p 8;
          ts \<leftarrow> read_be32 p 12;
          pc \<leftarrow> read_be32 p 16;
          oc \<leftarrow> read_be32 p 20;
          blocks \<leftarrow> sr_parse_blocks count (drop kSenderReportBaseSize p);
          (case blocks of
             None \<Rightarrow> reject
           | Some bs \<Rightarrow>
               if kSenderReportBaseSize + count * kFixedReportBlockSize \<le> payload_size packet
               then accept \<lparr>sr_sender_ssrc = ssrc, sr_ntp = ntp_set secs frac, sr_rtp_timestamp = ts,
                            sr_packet_count = pc, sr_octet_count = oc, sr_report_blocks = bs\<rparr>
               else None) }))"

definition sr_packet_size :: "sender_report \<Rightarrow> nat" where
  "sr_packet_size r = 4 + kSenderReportBaseSize + length (sr_report_blocks r) * kFixedReportBlockSize"

fun sr_pack_blocks :: "report_block list \<Rightarrow> nat \<Rightarrow> pack_state \<Rightarrow> (bool \<times> pack_state) option" where
  "sr_pack_blocks [] index_end s = Some (True, s)"
| "sr_pack_blocks (b # bs) index_end s = do {
     (ok, s') \<leftarrow> report_block_pack_into b (index_end - pk_index s) s;
     if \<not> ok then Some (False, s')
     else sr_pack_blocks bs index_end (advance kFixedReportBlockSize s') }"

definition sender_report_pack_into ::
  "sender_report \<Rightarrow> nat \<Rightarrow> bool \<Rightarrow> pack_state \<Rightarrow> (bool \<times> pack_state) option" where
  "sender_report_pack_into r max_size callback s0 =
     (case make_room (sr_packet_size r) max_size callback s0 of
        (False, s) \<Rightarrow> Some (False, s)
      | (True, s) \<Rightarrow> do {
          let index_end = pk_index s + sr_packet_size r;
          n \<leftarrow> packet_size_without_common_header (sr_packet_size r);
          s \<leftarrow> pack_common_header (length (sr_report_blocks r)) 200 n False s;
          s \<leftarrow> put_at 0 (be32 (sr_sender_ssrc r)) s;
          s \<leftarrow> put_at 4 (be32 (ntp_seconds (sr_ntp r))) s;
          s \<leftarrow> put_at 8 (be32 (ntp_fractions (sr_ntp r))) s;
          s \<leftarrow> put_at 12 (be32 (sr_rtp_timestamp r)) s;
          s \<leftarrow> put_at 16 (be32 (sr_packet_count r)) s;
          s \<leftarrow> put_at 20 (be32 (sr_octet_count r)) s;
          sr_pack_blocks (sr_report_blocks r) index_end (advance kSenderReportBaseSize s) })"

section \<open>ReceiverReport\<close>

record receiver_report =
  rr_sender_ssrc :: u32
  rr_report_blocks :: "report_block list"

definition kReceiverReportBaseSize :: nat where "kReceiverReportBaseSize = 4"

fun rr_parse_blocks :: "nat \<Rightarrow> byte list \<Rightarrow> report_block list option" where
  "rr_parse_blocks 0 next_block = Some []"
| "rr_parse_blocks (Suc n) next_block = do {
     b \<leftarrow> report_block_parse next_block kFixedReportBlockSize;
     bs \<leftarrow> rr_parse_blocks n (drop kFixedReportBlockSize next_block);
     Some ((case b of None \<Rightarrow> empty_report_block | Some b \<Rightarrow> b) # bs) }"

definition receiver_report_parse :: "common_header \<Rightarrow> receiver_report option option" where
  "receiver_report_parse packet =
     (if packet_type packet \<noteq> 201 then reject
      else (let count = unat (count_or_fmt packet)
        in if payload_size packet < kReceiverReportBaseSize + count * kFixedReportBlockSize then reject
        else do {
          let p = payload packet;
          ssrc \<leftarrow> read_be32 p 0;
          bs \<leftarrow> rr_parse_blocks count (drop kReceiverReportBaseSize p);
          if kReceiverReportBaseSize + count * kFixedReportBlockSize \<le> payload_size packet
          then accept \<lparr>rr_sender_ssrc = ssrc, rr_report_blocks = bs\<rparr> else None }))"

definition rr_packet_size :: "receiver_report \<Rightarrow> nat" where
  "rr_packet_size r = 4 + kReceiverReportBaseSize + length (rr_report_blocks r) * kFixedReportBlockSize"

fun rr_pack_blocks :: "report_block list \<Rightarrow> nat \<Rightarrow> pack_state \<Rightarrow> pack_state option" where
  "rr_pack_blocks [] index_end s = Some s"
| "rr_pack_blocks (b # bs) index_end s = do {
     (ok, s') \<leftarrow> report_block_pack_into b (index_end - pk_index s) s;
     rr_pack_blocks bs index_end (advance kFixedReportBlockSize s') }"

definition receiver_report_pack_into ::
  "receiver_report \<Rightarrow> nat \<Rightarrow> bool \<Rightarrow> pack_state \<Rightarrow> (bool \<times> pack_state) option" where
  "receiver_report_pack_into r max_size callback s0 =
     (case make_room (rr_packet_size r) max_size callback s0 of
        (False, s) \<Rightarrow> Some (False, s)
      | (True, s) \<Rightarrow> do {
          let index_end = pk_index s + rr_packet_size r;
          n \<leftarrow> packet_size_without_common_header (rr_packet_size r);
          s \<leftarrow> pack_common_header (length (rr_report_blocks r)) 201 n False s;
          s \<leftarrow> put_at 0 (be32 (rr_sender_ssrc r)) s;
          s \<leftarrow> rr_pack_blocks (rr_report_blocks r) index_end (advance kReceiverReportBaseSize s);
          Some (True, s) })"

definition rr_add_report_block :: "report_block \<Rightarrow> receiver_report \<Rightarrow> bool \<times> receiver_report" where
  "rr_add_report_block b r =
     (if length (rr_report_blocks r) \<ge> kMaxNumberOfReportBlocks then (False, r)
      else (True, r\<lparr>rr_report_blocks := rr_report_blocks r @ [b]\<rparr>))"

definition rr_set_report_blocks :: "report_block list \<Rightarrow> receiver_report \<Rightarrow> bool \<times> receiver_report" where
  "rr_set_report_blocks bs r =
     (if length bs > kMaxNumberOfReportBlocks then (False, r)
      else (True, r\<lparr>rr_report_blocks := bs\<rparr>))"

section \<open>Wire images\<close>

lemma ntp_set_of_parts: "ntp_set (ntp_seconds t) (ntp_fractions t) = t"
proof -
  let ?k = "0x100000000 :: u64"
  have "unat (ntp_value t) < 2 ^ 64" using unsigned_less [of "ntp_value t"] by simp
  then have "unat (ntp_value t div ?k) < 2 ^ 32" "unat (ntp_value t mod ?k) < 2 ^ 32"
    by (simp_all add: unat_div unat_mod less_mult_imp_div_less)
  then have "ucast (ucast (ntp_value t div ?k) :: u32) = ntp_value t div ?k"
    "ucast (ucast (ntp_value t mod ?k) :: u32) = ntp_value t mod ?k"
    by (simp_all add: word_unat_eq_iff unsigned_ucast_eq unsigned_take_bit_eq take_bit_nat_eq_self)
  then show ?thesis
    by (cases t) (simp add: ntp_set_def ntp_seconds_def ntp_fractions_def div_mult_mod_eq)
qed

definition rb_wire :: "report_block \<Rightarrow> byte list" where
  "rb_wire b = be32 (source_ssrc b) @ [fraction_lost b] @ be24 (cumulative_packet_lost b) @
     be32 (extended_highest_seq_num b) @ be32 (jitter b) @ be32 (last_sr_ntp_timestamp b) @
     be32 (delay_since_last_sr b)"

definition rb_valid :: "report_block \<Rightarrow> bool" where
  "rb_valid b \<longleftrightarrow> - 0x800000 \<le> sint (cumulative_packet_lost b) \<and> sint (cumulative_packet_lost b) < 0x800000"

lemma length_rb_wire [simp]: "length (rb_wire b) = 24"
  by (simp add: rb_wire_def)

lemma report_block_pack_wire:
  "24 \<le> sz \<Longrightarrow> report_block_pack_into b sz s = map_option (Pair True) (put_at 0 (rb_wire b) s)"
  by (simp add: report_block_pack_into_def kFixedReportBlockSize_def rb_wire_def wire_simps
      map_conv_bind_option comp_def)

lemma report_block_parse_wire:
  "rb_valid b \<Longrightarrow> 24 \<le> sz \<Longrightarrow> report_block_parse (rb_wire b @ rest) sz = accept b"
  by (simp add: report_block_parse_def kFixedReportBlockSize_def rb_wire_def wire_simps rb_valid_def)

lemma sr_pack_blocks_items:
  "pk_index s + 24 * length bs \<le> e \<Longrightarrow> sr_pack_blocks bs e s = map_option (Pair True) (put_items rb_wire bs s)"
proof (induction bs arbitrary: s)
  case (Cons b bs)
  then show ?case
    by (cases "put_at 0 (rb_wire b) s")
      (auto simp: report_block_pack_wire kFixedReportBlockSize_def dest: put_at_index)
qed simp

lemma sr_pack_blocks_fuse [wire_simps]:
  assumes "n = length as" "e = pk_index s + (n + length bs * 24)"
  shows "Option.bind (put_at 0 as s) (\<lambda>t. sr_pack_blocks bs e (advance n t)) =
    Option.bind (put_at 0 (as @ concat (map rb_wire bs)) s) (\<lambda>t. Some (True, advance (n + length bs * 24) t))"
proof -
  have "Option.bind (put_at 0 as s) (\<lambda>t. sr_pack_blocks bs e (advance n t)) =
      Option.bind (put_at 0 as s) (\<lambda>t. Option.bind (put_items rb_wire bs (advance n t)) (\<lambda>u. Some (True, u)))"
    using assms by (intro bind_put_at_cong) (simp add: sr_pack_blocks_items map_conv_bind_option comp_def)
  then show ?thesis
    using assms by (simp add: wire_simps length_concat_map_const [where w = 24])
qed

lemma rr_pack_blocks_items:
  "pk_index s + 24 * length bs \<le> e \<Longrightarrow> rr_pack_blocks bs e s = put_items rb_wire bs s"
proof (induction bs arbitrary: s)
  case (Cons b bs)
  then show ?case
    by (cases "put_at 0 (rb_wire b) s")
      (auto simp: report_block_pack_wire kFixedReportBlockSize_def dest: put_at_index)
qed simp

lemma rr_pack_blocks_fuse [wire_simps]:
  assumes "n = length as" "e = pk_index s + (n + length bs * 24)"
  shows "Option.bind (put_at 0 as s) (\<lambda>t. Option.bind (rr_pack_blocks bs e (advance n t)) k) =
    Option.bind (put_at 0 (as @ concat (map rb_wire bs)) s) (\<lambda>t. k (advance (n + length bs * 24) t))"
proof -
  have "Option.bind (put_at 0 as s) (\<lambda>t. Option.bind (rr_pack_blocks bs e (advance n t)) k) =
      Option.bind (put_at 0 as s) (\<lambda>t. Option.bind (put_items rb_wire bs (advance n t)) k)"
    using assms by (intro bind_put_at_cong) (simp add: rr_pack_blocks_items)
  then show ?thesis
    using assms by (simp add: wire_simps length_concat_map_const [where w = 24])
qed

lemma sr_parse_blocks_wire:
  "\<forall>b\<in>set bs. rb_valid b \<Longrightarrow> sr_parse_blocks (length bs) (concat (map rb_wire bs) @ rest) = accept bs"
  by (induction bs) (auto simp: report_block_parse_wire kFixedReportBlockSize_def)

lemma rr_parse_blocks_wire:
  "\<forall>b\<in>set bs. rb_valid b \<Longrightarrow> rr_parse_blocks (length bs) (concat (map rb_wire bs) @ rest) = Some bs"
  by (induction bs) (auto simp: report_block_parse_wire kFixedReportBlockSize_def)

definition sr_wire :: "sender_report \<Rightarrow> byte list" where
  "sr_wire r = header_bytes (length (sr_report_blocks r)) 200 (24 + length (sr_report_blocks r) * 24) @
     be32 (sr_sender_ssrc r) @ be32 (ntp_seconds (sr_ntp r)) @ be32 (ntp_fractions (sr_ntp r)) @
     be32 (sr_rtp_timestamp r) @ be32 (sr_packet_count r) @ be32 (sr_octet_count r) @
     concat (map rb_wire (sr_report_blocks r))"

definition sr_valid :: "sender_report \<Rightarrow> bool" where
  "sr_valid r \<longleftrightarrow> length (sr_report_blocks r) \<le> kMaxNumberOfReportBlocks \<and> (\<forall>b\<in>set (sr_report_blocks r). rb_valid b)"

definition rr_wire :: "receiver_report \<Rightarrow> byte list" where
  "rr_wire r = header_bytes (length (rr_report_blocks r)) 201 (4 + length (rr_report_blocks r) * 24) @
     be32 (rr_sender_ssrc r) @ concat (map rb_wire (rr_report_blocks r))"

definition rr_valid :: "receiver_report \<Rightarrow> bool" where
  "rr_valid r \<longleftrightarrow> length (rr_report_blocks r) \<le> kMaxNumberOfReportBlocks \<and> (\<forall>b\<in>set (rr_report_blocks r). rb_valid b)"

lemmas report_defs = kSenderReportBaseSize_def kReceiverReportBaseSize_def kFixedReportBlockSize_def
  kMaxNumberOfReportBlocks_def packet_size_without_common_header_def

lemmas header_defs = ch_packet_size_def next_packet_def kFixedHeaderSize_def

lemma unat_count: "n \<le> 31 \<Longrightarrow> unat (of_nat n :: u8) = n"
  by (simp add: unat_of_nat take_bit_nat_eq_self)

interpretation sr: rtcp_codec sr_valid sr_packet_size sr_wire sender_report_pack_into
  sender_report_parse "\<lambda>r. r"
proof
  fix r max_size cb s rest
  assume valid: "sr_valid r"
  let ?n = "length (sr_report_blocks r)"
  show len: "length (sr_wire r) = sr_packet_size r"
    by (simp add: sr_wire_def sr_packet_size_def report_defs length_concat_map_const [where w = 24])
  show "0 < sr_packet_size r" by (simp add: sr_packet_size_def)
  show "sender_report_pack_into r max_size cb s = pack_wire (sr_wire r) max_size cb s"
    unfolding sender_report_pack_into_def using valid
    by (intro pack_wireI [OF len])
      (simp add: sr_packet_size_def sr_valid_def sr_wire_def report_defs wire_simps pack_simps)
  show "\<exists>h. common_header_parse (sr_wire r @ rest) (length (sr_wire r @ rest)) = accept h \<and>
      ch_packet_size h = sr_packet_size r \<and> next_packet h = rest \<and> sender_report_parse h = accept r"
  proof (rule wire_parseI)
    show "sr_wire r = header_bytes ?n 200 (24 + ?n * 24) @ drop 4 (sr_wire r)"
      by (simp add: sr_wire_def)
  qed (use valid len in \<open>simp_all add: sr_wire_def sr_valid_def sr_packet_size_def sender_report_parse_def
      report_defs wire_simps unat_count sr_parse_blocks_wire ntp_set_of_parts mod_add_eq\<close>)
qed

interpretation rr: rtcp_codec rr_valid rr_packet_size rr_wire receiver_report_pack_into
  receiver_report_parse "\<lambda>r. r"
proof
  fix r max_size cb s rest
  assume valid: "rr_valid r"
  let ?n = "length (rr_report_blocks r)"
  show len: "length (rr_wire r) = rr_packet_size r"
    by (simp add: rr_wire_def rr_packet_size_def report_defs length_concat_map_const [where w = 24])
  show "0 < rr_packet_size r" by (simp add: rr_packet_size_def)
  show "receiver_report_pack_into r max_size cb s = pack_wire (rr_wire r) max_size cb s"
    unfolding receiver_report_pack_into_def using valid
    by (intro pack_wireI [OF len])
      (simp add: rr_packet_size_def rr_valid_def rr_wire_def report_defs wire_simps pack_simps)
  show "\<exists>h. common_header_parse (rr_wire r @ rest) (length (rr_wire r @ rest)) = accept h \<and>
      ch_packet_size h = rr_packet_size r \<and> next_packet h = rest \<and> receiver_report_parse h = accept r"
  proof (rule wire_parseI)
    show "rr_wire r = header_bytes ?n 201 (4 + ?n * 24) @ drop 4 (rr_wire r)"
      by (simp add: rr_wire_def)
  qed (use valid len in \<open>simp_all add: rr_wire_def rr_valid_def rr_packet_size_def receiver_report_parse_def
      report_defs wire_simps unat_count rr_parse_blocks_wire mod_add_eq\<close>)
qed

lemma report_block_parse_total: "24 \<le> length bs \<Longrightarrow> \<exists>b. report_block_parse bs 24 = accept b"
  by (simp add: report_block_parse_def kFixedReportBlockSize_def read_inside)

lemma sr_parse_blocks_total: "n * 24 \<le> length bs \<Longrightarrow> \<exists>xs. sr_parse_blocks n bs = accept xs"
proof (induction n arbitrary: bs)
  case (Suc n)
  then show ?case
    using report_block_parse_total [of bs] Suc.IH [of "drop 24 bs"]
    by (fastforce simp: kFixedReportBlockSize_def)
qed simp

lemma rr_parse_blocks_total: "n * 24 \<le> length bs \<Longrightarrow> \<exists>xs. rr_parse_blocks n bs = Some xs"
proof (induction n arbitrary: bs)
  case (Suc n)
  then show ?case
    using report_block_parse_total [of bs] Suc.IH [of "drop 24 bs"]
    by (fastforce simp: kFixedReportBlockSize_def)
qed simp

interpretation sr_safe: safe_parser sender_report_parse
proof
  fix h :: common_header
  assume h: "payload_size h \<le> length (payload h)"
  have "\<exists>xs. sr_parse_blocks (unat (count_or_fmt h)) (drop 24 (payload h)) = accept xs"
    if "24 + unat (count_or_fmt h) * 24 \<le> payload_size h"
    using that h by (intro sr_parse_blocks_total) simp
  then show "sender_report_parse h \<noteq> None"
    using h by (auto simp: sender_report_parse_def report_defs Let_def not_less read_inside)
qed

interpretation rr_safe: safe_parser receiver_report_parse
proof
  fix h :: common_header
  assume h: "payload_size h \<le> length (payload h)"
  have "\<exists>xs. rr_parse_blocks (unat (count_or_fmt h)) (drop 4 (payload h)) = Some xs"
    if "4 + unat (count_or_fmt h) * 24 \<le> payload_size h"
    using that h by (intro rr_parse_blocks_total) simp
  then show "receiver_report_parse h \<noteq> None"
    using h by (auto simp: receiver_report_parse_def report_defs Let_def not_less read_inside)
qed

section \<open>Properties\<close>

text \<open>
  A sender report that fits packs into an empty buffer, and the bytes it wrote parse back to the
  same report: sender, NTP and RTP timestamps, counts and every report block.
\<close>

theorem sender_report_roundtrip:
  assumes "sr_valid r" "sr_packet_size r \<le> max_size" "max_size \<le> length buf"
  shows "\<exists>t h. sender_report_pack_into r max_size cb \<lparr>pk_buffer = buf, pk_index = 0, pk_ready = []\<rparr> = Some (True, t) \<and>
    pk_index t = sr_packet_size r \<and> pk_ready t = [] \<and>
    common_header_parse (take (pk_index t) (pk_buffer t)) (sr_packet_size r) = accept h \<and>
    sender_report_parse h = accept r"
  using assms by (rule sr.roundtrip)

definition example_block :: report_block where
  "example_block = \<lparr>source_ssrc = 7, fraction_lost = 55, cumulative_packet_lost = - 3,
     extended_highest_seq_num = 66000, jitter = 9, last_sr_ntp_timestamp = 1, delay_since_last_sr = 2\<rparr>"

definition example_sr :: sender_report where
  "example_sr = \<lparr>sr_sender_ssrc = 1, sr_ntp = ntp_set 2 3, sr_rtp_timestamp = 4, sr_packet_count = 5,
     sr_octet_count = 6, sr_report_blocks = [example_block, example_block]\<rparr>"

theorem sender_report_roundtrip_witness:
  "\<exists>t h. sender_report_pack_into example_sr 100 True
       \<lparr>pk_buffer = replicate 100 0, pk_index = 0, pk_ready = []\<rparr> = Some (True, t) \<and>
    pk_index t = sr_packet_size example_sr \<and> pk_ready t = [] \<and>
    common_header_parse (take (pk_index t) (pk_buffer t)) (sr_packet_size example_sr) = accept h \<and>
    sender_report_parse h = accept example_sr"
  by (rule sender_report_roundtrip)
    (simp_all add: sr_valid_def rb_valid_def example_sr_def example_block_def sr_packet_size_def report_defs)

text \<open>
  The same for receiver reports, through \<^verbatim>\<open>RtcpPacket::Build\<close>: exactly one packet is
  delivered, and the delivered bytes parse back to the report, whatever follows them in the datagram.
\<close>

theorem receiver_report_build:
  assumes "rr_valid r" "rr_packet_size r \<le> max_size" "max_size \<le> kIpPacketSize"
    "length stack = kIpPacketSize"
  shows "\<exists>bytes. build (receiver_report_pack_into r) max_size True stack = Some (True, [bytes]) \<and>
    length bytes = rr_packet_size r \<and>
    parse_received receiver_report_parse (bytes @ rest) (length (bytes @ rest)) = accept r"
  using rr.build_wire [OF assms] rr.length_wire [OF assms(1)] rr.parse_of_wire [OF assms(1), of rest]
  by (auto simp: parse_received_def)

theorem receiver_report_build_witness:
  "\<exists>bytes. build (receiver_report_pack_into \<lparr>rr_sender_ssrc = 1, rr_report_blocks = [example_block]\<rparr>) 64 True
      (replicate 1500 0) = Some (True, [bytes]) \<and>
    length bytes = rr_packet_size \<lparr>rr_sender_ssrc = 1, rr_report_blocks = [example_block]\<rparr> \<and>
    parse_received receiver_report_parse (bytes @ [1, 2]) (length (bytes @ [1, 2])) =
      accept \<lparr>rr_sender_ssrc = 1, rr_report_blocks = [example_block]\<rparr>"
  by (rule receiver_report_build)
    (simp_all add: rr_valid_def rb_valid_def example_block_def rr_packet_size_def report_defs kIpPacketSize_def)

end
