(* ===== verification/RtcpFeedback.thy ===== *)
theory RtcpFeedback
  imports RtcpReports
begin

text \<open>
  Feedback packets: \<^verbatim>\<open>pli.cpp\<close>, \<^verbatim>\<open>fir.cpp\<close>, \<^verbatim>\<open>remb.cpp\<close>,
  \<^verbatim>\<open>loss_notification.cpp\<close> and \<^verbatim>\<open>bye.cpp\<close> under
  \<^verbatim>\<open>src/rtc/rtp_rtcp/rtcp/packets\<close>, each with its wire image and the interpretation of the
  packet contract.
\<close>

section \<open>Picture loss indication\<close>

record pli =
  pli_sender_ssrc :: u32
  pli_media_ssrc :: u32

definition pli_parse :: "common_header \<Rightarrow> pli option option" where
  "pli_parse packet =
     (if packet_type packet \<noteq> 206 then reject
      else if count_or_fmt packet \<noteq> 1 then reject
      else if payload_size packet < kCommonFeedbackSize then reject
      else do {
        (snd_ssrc, med) \<leftarrow> psfb_parse_common_feedback (payload packet);
        accept \<lparr>pli_sender_ssrc = snd_ssrc, pli_media_ssrc = med\<rparr> })"

definition pli_packet_size :: "pli \<Rightarrow> nat" where
  "pli_packet_size p = 4 + kCommonFeedbackSize"

definition pli_pack_into :: "pli \<Rightarrow> nat \<Rightarrow> bool \<Rightarrow> pack_state \<Rightarrow> (bool \<times> pack_state) option" where
  "pli_pack_into p max_size callback s0 =
     (case make_room (pli_packet_size p) max_size callback s0 of
        (False, s) \<Rightarrow> Some (False, s)
      | (True, s) \<Rightarrow> do {
          n \<leftarrow> packet_size_without_common_header (pli_packet_size p);
          s \<leftarrow> pack_common_header 1 206 n False s;
          s \<leftarrow> psfb_pack_common_feedback (pli_sender_ssrc p) (pli_media_ssrc p) s;
          Some (True, advance kCommonFeedbackSize s) })"

section \<open>Full intra request\<close>

record fir_request =
  fir_ssrc :: u32
  fir_seq_nr :: u8

record fir =
  fir_sender_ssrc :: u32
  fir_media_ssrc :: u32
  fir_items :: "fir_request list"

definition kFirFciSize :: nat where "kFirFciSize = 8"

definition fir_add_request :: "u32 \<Rightarrow> u8 \<Rightarrow> fir \<Rightarrow> fir" where
  "fir_add_request ssrc seq_num f =
     f\<lparr>fir_items := fir_items f @ [\<lparr>fir_ssrc = ssrc, fir_seq_nr = seq_num\<rparr>]\<rparr>"

definition fir_read_request :: "byte list \<Rightarrow> fir_request option" where
  "fir_read_request next_fci = do {
     ssrc \<leftarrow> read_be32 next_fci 0;
     nr \<leftarrow> rd next_fci 4;
     Some \<lparr>fir_ssrc = ssrc, fir_seq_nr = nr\<rparr> }"

definition fir_parse :: "common_header \<Rightarrow> fir option option" where
  "fir_parse packet =
     (if packet_type packet \<noteq> 206 then reject
      else if count_or_fmt packet \<noteq> 4 then reject
      else if payload_size packet < kCommonFeedbackSize + kFirFciSize then reject
      else if (payload_size packet - kCommonFeedbackSize) mod kFirFciSize \<noteq> 0 then reject
      else do {
        (snd_ssrc, med) \<leftarrow> psfb_parse_common_feedback (payload packet);
        let number_of_fci_items = (payload_size packet - kCommonFeedbackSize) div kFirFciSize;
        items \<leftarrow> parse_items kFirFciSize fir_read_request number_of_fci_items
                   (drop kCommonFeedbackSize (payload packet));
        accept \<lparr>fir_sender_ssrc = snd_ssrc, fir_media_ssrc = med, fir_items = items\<rparr> })"

definition fir_packet_size :: "fir \<Rightarrow> nat" where
  "fir_packet_size f = 4 + kCommonFeedbackSize + kFirFciSize * length (fir_items f)"

fun fir_pack_items :: "fir_request list \<Rightarrow> pack_state \<Rightarrow> pack_state option" where
  "fir_pack_items [] s = Some s"
| "fir_pack_items (q # qs) s = do {
     s \<leftarrow> put_at 0 (be32 (fir_ssrc q)) s;
     s \<leftarrow> put_at 4 [fir_seq_nr q] s;
     s \<leftarrow> put_at 5 (be24 0) s;
     fir_pack_items qs (advance kFirFciSize s) }"

definition fir_pack_into :: "fir \<Rightarrow> nat \<Rightarrow> bool \<Rightarrow> pack_state \<Rightarrow> (bool \<times> pack_state) option" where
  "fir_pack_into f max_size callback s0 =
     (if fir_items f = [] then Some (False, s0)
      else case make_room (fir_packet_size f) max_size callback s0 of
        (False, s) \<Rightarrow> Some (False, s)
      | (True, s) \<Rightarrow>
          if fir_media_ssrc f \<noteq> 0 then Some (False, s)
          else do {
            let index_end = pk_index s + fir_packet_size f;
            n \<leftarrow> packet_size_without_common_header (fir_packet_size f);
            s \<leftarrow> pack_common_header 4 206 n False s;
            s \<leftarrow> psfb_pack_common_feedback (fir_sender_ssrc f) (fir_media_ssrc f) s;
            s \<leftarrow> fir_pack_items (fir_items f) (advance kCommonFeedbackSize s);
            assert_index index_end s })"

section \<open>Receiver estimated maximum bitrate\<close>

text \<open>
  The loop that scales a bitrate to a mantissa and an exponent, shared in shape by REMB (18 bits)
  and TMMB (17 bits).
\<close>

function scale_mantissa :: "u64 \<Rightarrow> u64 \<Rightarrow> 'e::len word \<Rightarrow> u64 \<times> 'e word" where
  "scale_mantissa max_mantissa mantissa exponent =
     (if mantissa > max_mantissa
      then scale_mantissa max_mantissa (drop_bit 1 mantissa) (exponent + 1)
      else (mantissa, exponent))"
  by pat_completeness auto
termination
proof (relation "measure (\<lambda>(mx, m, e). unat m)")
  fix mx m :: u64 and e :: "'e::len word"
  assume "m > mx"
  then have "0 < unat m" by (simp add: word_less_nat_alt)
  moreover have "unat (drop_bit 1 m) = unat m div 2"
    by (simp add: drop_bit_eq_div unat_div)
  ultimately show "((mx, drop_bit 1 m, e + 1), (mx, m, e)) \<in> measure (\<lambda>(mx, m, e). unat m)"
    by simp
qed simp

declare scale_mantissa.simps [simp del]

record remb =
  remb_sender_ssrc :: u32
  remb_media_ssrc :: u32
  remb_bitrate_bps :: u64
  remb_ssrcs :: "u32 list"

definition kMaxMantissa :: u64 where "kMaxMantissa = 0x3ffff"
definition kRembUniqueIdentifier :: u32 where "kRembUniqueIdentifier = 0x52454D42"
definition kRembBaseSize :: nat where "kRembBaseSize = 16"

definition remb_set_ssrcs :: "u32 list \<Rightarrow> remb \<Rightarrow> bool \<times> remb" where
  "remb_set_ssrcs ssrcs r =
     (if length ssrcs > 0xFF then (False, r) else (True, r\<lparr>remb_ssrcs := ssrcs\<rparr>))"

definition remb_packet_size :: "remb \<Rightarrow> nat" where
  "remb_packet_size r = 4 + kCommonFeedbackSize + (2 + length (remb_ssrcs r)) * 4"

fun pack_ssrcs :: "u32 list \<Rightarrow> pack_state \<Rightarrow> pack_state option" where
  "pack_ssrcs [] s = Some s"
| "pack_ssrcs (x # xs) s = do { s \<leftarrow> put_at 0 (be32 x) s; pack_ssrcs xs (advance 4 s) }"

definition remb_pack_into :: "remb \<Rightarrow> nat \<Rightarrow> bool \<Rightarrow> pack_state \<Rightarrow> (bool \<times> pack_state) option" where
  "remb_pack_into r max_size callback s0 =
     (case make_room (remb_packet_size r) max_size callback s0 of
        (False, s) \<Rightarrow> Some (False, s)
      | (True, s) \<Rightarrow>
          if remb_media_ssrc r \<noteq> 0 then Some (False, s)
          else do {
            let index_end = pk_index s + remb_packet_size r;
            n \<leftarrow> packet_size_without_common_header (remb_packet_size r);
            s \<leftarrow> pack_common_header 15 206 n False s;
            s \<leftarrow> psfb_pack_common_feedback (remb_sender_ssrc r) (remb_media_ssrc r) s;
            let s = advance kCommonFeedbackSize s;
            s \<leftarrow> put_at 0 (be32 kRembUniqueIdentifier) s;
            let s = advance 4 s;
            let (mantissa, exponent) = scale_mantissa kMaxMantissa (remb_bitrate_bps r) (0 :: u8);
            s \<leftarrow> put_at 0 [of_nat (length (remb_ssrcs r))] s;
            let s = advance 1 s;
            s \<leftarrow> put_at 0 [ucast (push_bit 2 (ucast exponent) OR drop_bit 16 mantissa)] s;
            let s = advance 1 s;
            s \<leftarrow> put_at 0 (be16 (ucast (mantissa AND 0xFFFF))) s;
            s \<leftarrow> pack_ssrcs (remb_ssrcs r) (advance 2 s);
            assert_index index_end s })"

definition remb_parse :: "common_header \<Rightarrow> remb option option" where
  "remb_parse packet =
     (if packet_type packet \<noteq> 206 then reject
      else if count_or_fmt packet \<noteq> 15 then reject
      else if payload_size packet < kRembBaseSize then reject
      else do {
        let p = payload packet;
        ident \<leftarrow> read_be32 p 8;
        if kRembUniqueIdentifier \<noteq> ident then reject
        else do {
          number_of_ssrcs \<leftarrow> rd p 12;
          if payload_size packet \<noteq> kCommonFeedbackSize + (2 + unat number_of_ssrcs) * 4 then reject
          else do {
            (snd_ssrc, med) \<leftarrow> psfb_parse_common_feedback p;
            b13 \<leftarrow> rd p 13;
            lo \<leftarrow> read_be16 p 14;
            let br_exponent = unat (drop_bit 2 b13);
            let br_mantissa = (ucast (push_bit 16 (ucast (b13 AND 0x03)) OR ucast lo :: u32) :: u64);
            let bitrate = push_bit br_exponent br_mantissa;
            if drop_bit br_exponent bitrate \<noteq> br_mantissa then reject
            else do {
              ssrcs \<leftarrow> parse_items 4 (\<lambda>b. read_be32 b 0) (unat number_of_ssrcs) (drop 16 p);
              accept \<lparr>remb_sender_ssrc = snd_ssrc, remb_media_ssrc = med, remb_bitrate_bps = bitrate,
                      remb_ssrcs = ssrcs\<rparr> } } } })"

section \<open>Loss notification\<close>

record loss_notification =
  ln_sender_ssrc :: u32
  ln_media_ssrc :: u32
  ln_last_decoded :: u16
  ln_last_received :: u16
  ln_decodability_flag :: bool

definition kLossNotificationPayloadSize :: nat where "kLossNotificationPayloadSize = 8"
definition kLntfUniqueIdentifier :: u32 where "kLntfUniqueIdentifier = 0x4C4E5446"

definition ln_packet_size :: "loss_notification \<Rightarrow> nat" where
  "ln_packet_size l = 4 + kCommonFeedbackSize + kLossNotificationPayloadSize"

definition ln_set :: "u16 \<Rightarrow> u16 \<Rightarrow> bool \<Rightarrow> loss_notification \<Rightarrow> bool \<times> loss_notification" where
  "ln_set last_decoded last_received flag l =
     (if last_received - last_decoded > 0x7fff then (False, l)
      else (True, l\<lparr>ln_last_received := last_received, ln_last_decoded := last_decoded,
                   ln_decodability_flag := flag\<rparr>))"

definition ln_pack_into ::
  "loss_notification \<Rightarrow> nat \<Rightarrow> bool \<Rightarrow> pack_state \<Rightarrow> (bool \<times> pack_state) option" where
  "ln_pack_into l max_size callback s0 =
     (case make_room (ln_packet_size l) max_size callback s0 of
        (False, s) \<Rightarrow> Some (False, s)
      | (True, s) \<Rightarrow> do {
          let index_end = pk_index s + ln_packet_size l;
          n \<leftarrow> packet_size_without_common_header (ln_packet_size l);
          s \<leftarrow> pack_common_header 15 206 n False s;
          s \<leftarrow> psfb_pack_common_feedback (ln_sender_ssrc l) (ln_media_ssrc l) s;
          let s = advance kCommonFeedbackSize s;
          s \<leftarrow> put_at 0 (be32 kLntfUniqueIdentifier) s;
          let s = advance 4 s;
          s \<leftarrow> put_at 0 (be16 (ln_last_decoded l)) s;
          let s = advance 2 s;
          let delta = ln_last_received l - ln_last_decoded l;
          if delta \<le> 0x7fff then do {
            s \<leftarrow> put_at 0 (be16 (push_bit 1 delta OR (if ln_decodability_flag l then 1 else 0))) s;
            assert_index index_end (advance 2 s) }
          else None })"

definition ln_parse :: "common_header \<Rightarrow> loss_notification option option" where
  "ln_parse packet =
     (if packet_type packet = 206 \<and> count_or_fmt packet = 15 then
        (if payload_size packet < kCommonFeedbackSize + kLossNotificationPayloadSize then reject
         else do {
           let p = payload packet;
           ident \<leftarrow> read_be32 p 8;
           if ident \<noteq> kLntfUniqueIdentifier then reject
           else do {
             (snd_ssrc, med) \<leftarrow> psfb_parse_common_feedback p;
             dec \<leftarrow> read_be16 p 12;
             w \<leftarrow> read_be16 p 14;
             accept \<lparr>ln_sender_ssrc = snd_ssrc, ln_media_ssrc = med, ln_last_decoded = dec,
                     ln_last_received = dec + drop_bit 1 w, ln_decodability_flag = (w AND 1 \<noteq> 0)\<rparr> } })
      else None)"

section \<open>Goodbye\<close>

record bye =
  bye_sender_ssrc :: u32
  bye_csrcs :: "u32 list"
  bye_reason :: "byte list"

definition bye_set_csrcs :: "u32 list \<Rightarrow> bye \<Rightarrow> bool \<times> bye" where
  "bye_set_csrcs csrcs b = (if length csrcs > 30 then (False, b) else (True, b\<lparr>bye_csrcs := csrcs\<rparr>))"

definition bye_set_reason :: "byte list \<Rightarrow> bye \<Rightarrow> bye option" where
  "bye_set_reason reason b = (if length reason \<le> 0xFF then Some (b\<lparr>bye_reason := reason\<rparr>) else None)"

definition bye_packet_size :: "bye \<Rightarrow> nat" where
  "bye_packet_size b =
     (let src_count = 1 + length (bye_csrcs b);
          reason_words = (if bye_reason b = [] then 0 else length (bye_reason b) div 4 + 1)
      in 4 + 4 * (src_count + reason_words))"

definition bye_pack_reason :: "byte list \<Rightarrow> nat \<Rightarrow> pack_state \<Rightarrow> pack_state option" where
  "bye_pack_reason reason index_end s =
     (if reason = [] then Some s
      else do {
        let reason_length = (of_nat (length reason) :: u8);
        s \<leftarrow> put_at 0 [reason_length] s;
        let s = advance 1 s;
        s \<leftarrow> put_at 0 (take (unat reason_length) reason) s;
        let s = advance (unat reason_length) s;
        let bytes_to_pad = index_end - pk_index s;
        if pk_index s \<le> index_end \<and> bytes_to_pad \<le> 3 then
          (if bytes_to_pad > 0 then do {
             s \<leftarrow> put_at 0 (replicate bytes_to_pad 0) s;
             Some (advance bytes_to_pad s) }
           else Some s)
        else None })"

definition bye_pack_into :: "bye \<Rightarrow> nat \<Rightarrow> bool \<Rightarrow> pack_state \<Rightarrow> (bool \<times> pack_state) option" where
  "bye_pack_into b max_size callback s0 =
     (case make_room (bye_packet_size b) max_size callback s0 of
        (False, s) \<Rightarrow> Some (False, s)
      | (True, s) \<Rightarrow> do {
          let index_end = pk_index s + bye_packet_size b;
          n \<leftarrow> packet_size_without_common_header (bye_packet_size b);
          s \<leftarrow> pack_common_header (1 + length (bye_csrcs b)) 203 n False s;
          s \<leftarrow> put_at 0 (be32 (bye_sender_ssrc b)) s;
          s \<leftarrow> pack_ssrcs (bye_csrcs b) (advance 4 s);
          s \<leftarrow> bye_pack_reason (bye_reason b) index_end s;
          assert_index index_end s })"

definition bye_parse :: "common_header \<Rightarrow> bye option option" where
  "bye_parse packet =
     (if packet_type packet \<noteq> 203 then reject
      else (let src_count = unat (count_or_fmt packet); p = payload packet
        in if payload_size packet < 4 * src_count then reject
        else do {
          let has_reason = (payload_size packet > 4 * src_count);
          reason_length \<leftarrow> (if has_reason then map_option unat (rd p (4 * src_count)) else Some 0);
          if has_reason \<and> payload_size packet - 4 * src_count < 1 + reason_length then reject
          else do {
            (ssrc, csrcs) \<leftarrow>
              (if src_count = 0 then Some (0, [])
               else do {
                 x \<leftarrow> read_be32 p 0;
                 xs \<leftarrow> parse_items 4 (\<lambda>b. read_be32 b 0) (src_count - 1) (drop 4 p);
                 Some (x, xs) });
            reason \<leftarrow> (if has_reason then rd_bytes p (4 * src_count + 1) reason_length else Some []);
            accept \<lparr>bye_sender_ssrc = ssrc, bye_csrcs = csrcs, bye_reason = reason\<rparr> } }))"
section \<open>Wire images\<close>

lemmas feedback_defs = kCommonFeedbackSize_def kFirFciSize_def kRembBaseSize_def
  kLossNotificationPayloadSize_def psfb_parse_common_feedback_def psfb_pack_common_feedback_def
  packet_size_without_common_header_def

definition pli_wire :: "pli \<Rightarrow> byte list" where
  "pli_wire p = header_bytes 1 206 8 @ be32 (pli_sender_ssrc p) @ be32 (pli_media_ssrc p)"

interpretation pli: rtcp_codec "\<lambda>p. True" pli_packet_size pli_wire pli_pack_into pli_parse "\<lambda>p. p"
proof
  fix p max_size cb s rest
  show len: "length (pli_wire p) = pli_packet_size p"
    by (simp add: pli_wire_def pli_packet_size_def feedback_defs)
  show "0 < pli_packet_size p" by (simp add: pli_packet_size_def)
  show "pli_pack_into p max_size cb s = pack_wire (pli_wire p) max_size cb s"
    unfolding pli_pack_into_def
    by (intro pack_wireI [OF len])
      (simp add: pli_packet_size_def pli_wire_def feedback_defs wire_simps pack_simps)
  show "\<exists>h. common_header_parse (pli_wire p @ rest) (length (pli_wire p @ rest)) = accept h \<and>
      ch_packet_size h = pli_packet_size p \<and> next_packet h = rest \<and> pli_parse h = accept p"
  proof (rule wire_parseI)
    show "pli_wire p = header_bytes 1 206 8 @ drop 4 (pli_wire p)" by (simp add: pli_wire_def)
  qed (use len in \<open>simp_all add: pli_wire_def pli_packet_size_def pli_parse_def feedback_defs wire_simps\<close>)
qed

definition fir_request_wire :: "fir_request \<Rightarrow> byte list" where
  "fir_request_wire q = be32 (fir_ssrc q) @ [fir_seq_nr q] @ be24 0"

definition fir_wire :: "fir \<Rightarrow> byte list" where
  "fir_wire f = header_bytes 4 206 (8 + 8 * length (fir_items f)) @ be32 (fir_sender_ssrc f) @ be32 0 @
     concat (map fir_request_wire (fir_items f))"

definition fir_valid :: "fir \<Rightarrow> bool" where
  "fir_valid f \<longleftrightarrow> fir_media_ssrc f = 0 \<and> fir_items f \<noteq> [] \<and> length (fir_items f) < 8191"

lemma length_fir_request_wire [simp]: "length (fir_request_wire q) = 8"
  by (simp add: fir_request_wire_def)

lemma fir_pack_items_put: "fir_pack_items qs s = put_items fir_request_wire qs s"
  by (induction qs arbitrary: s) (simp_all add: fir_request_wire_def kFirFciSize_def wire_simps)

lemma fir_read_request_wire [wire_simps]: "fir_read_request (fir_request_wire q @ rest) = Some q"
  by (simp add: fir_read_request_def fir_request_wire_def wire_simps)

interpretation fir: rtcp_codec fir_valid fir_packet_size fir_wire fir_pack_into fir_parse "\<lambda>f. f"
proof
  fix f max_size cb s rest
  assume valid: "fir_valid f"
  let ?n = "length (fir_items f)"
  show len: "length (fir_wire f) = fir_packet_size f"
    by (simp add: fir_wire_def fir_packet_size_def feedback_defs length_concat_map_const [where w = 8])
  show "0 < fir_packet_size f" by (simp add: fir_packet_size_def)
  show "fir_pack_into f max_size cb s = pack_wire (fir_wire f) max_size cb s"
    unfolding fir_pack_into_def using valid
    by (simp add: fir_valid_def, intro pack_wireI [OF len])
      (simp add: fir_packet_size_def fir_wire_def feedback_defs wire_simps pack_simps fir_pack_items_put
        length_concat_map_const [where w = 8] mult.commute [of _ 8])
  show "\<exists>h. common_header_parse (fir_wire f @ rest) (length (fir_wire f @ rest)) = accept h \<and>
      ch_packet_size h = fir_packet_size f \<and> next_packet h = rest \<and> fir_parse h = accept f"
  proof (rule wire_parseI)
    show "fir_wire f = header_bytes 4 206 (8 + 8 * ?n) @ drop 4 (fir_wire f)" by (simp add: fir_wire_def)
  qed (use valid len in \<open>simp_all add: fir_valid_def fir_wire_def fir_packet_size_def fir_parse_def
      feedback_defs wire_simps mod_add_eq\<close>)
qed

text \<open>What the scaling loop computes: the smallest shift that makes the value fit.\<close>

lemma scale_mantissa_shift:
  assumes "uint m < 2 ^ (w + j)" "mx = mask w" "w < 64"
  shows "\<exists>k\<le>j. scale_mantissa mx m (e :: 'e::len word) = (drop_bit k m, e + of_nat k) \<and>
    drop_bit k m \<le> mx \<and> (k = 0 \<or> mx < drop_bit (k - 1) m)"
  using assms(1)
proof (induction j arbitrary: m e)
  case 0
  then have "m < 2 ^ w" using assms(3) by (simp add: word_2p_lem word_size)
  then have "m \<le> mx" unfolding assms(2) by (metis less_mask_eq word_and_le1)
  then show ?case by (simp add: scale_mantissa.simps)
next
  case (Suc j)
  show ?case
  proof (cases "mx < m")
    case True
    have "uint (drop_bit 1 m) < 2 ^ (w + j)"
      using Suc.prems by (simp add: unsigned_drop_bit_eq drop_bit_eq_div uint_div)
    from Suc.IH [OF this, of "e + 1"] obtain k where k: "k \<le> j" 
      "scale_mantissa mx (drop_bit 1 m) (e + 1) = (drop_bit k (drop_bit 1 m), e + 1 + of_nat k)"
      "drop_bit k (drop_bit 1 m) \<le> mx" "k = 0 \<or> mx < drop_bit (k - 1) (drop_bit 1 m)"
      by auto
    have d: "drop_bit i (drop_bit 1 m) = drop_bit (Suc i) m" for i by (simp only: drop_bit_drop_bit) simp
    have "scale_mantissa mx m e = scale_mantissa mx (drop_bit 1 m) (e + 1)"
      using True by (subst scale_mantissa.simps) simp
    with k True show ?thesis unfolding d
      by (intro exI [of _ "Suc k"]) (cases k, auto simp: ac_simps)
  qed (auto simp: scale_mantissa.simps)
qed

lemma remb_fields:
  fixes m :: u64 and e :: u8
  assumes "m \<le> 0x3ffff" "unat e < 64"
  shows "drop_bit 2 (ucast (push_bit 2 (ucast e) OR drop_bit 16 m) :: u8) = e"
    "(ucast (push_bit 16 (ucast ((ucast (push_bit 2 (ucast e) OR drop_bit 16 m) :: u8) AND 3)) OR
       ucast (ucast (m AND 0xFFFF) :: u16) :: u32) :: u64) = m"
proof -
  have me: "m < 2 ^ 18" "e < 2 ^ 6"
    using assms by (simp add: word_le_def word_less_def, simp add: word_less_nat_alt)
  note bits = bit_below [OF _ me(1)] bit_below [OF _ me(2)]
  show "drop_bit 2 (ucast (push_bit 2 (ucast e) OR drop_bit 16 m) :: u8) = e"
    by (rule bit_word_eqI) (auto simp: bit_simps dest: bits)
  have masks: "(3::u8) = mask 2" "(0xFFFF :: u64) = mask 16" by (simp_all add: mask_eq_exp_minus_1)
  show "(ucast (push_bit 16 (ucast ((ucast (push_bit 2 (ucast e) OR drop_bit 16 m) :: u8) AND 3)) OR
       ucast (ucast (m AND 0xFFFF) :: u16) :: u32) :: u64) = m"
    unfolding masks by (intro bit_word_eqI) (auto simp: bit_simps dest: bits)
qed

definition remb_scaled :: "remb \<Rightarrow> u64 \<times> u8" where
  "remb_scaled r = scale_mantissa kMaxMantissa (remb_bitrate_bps r) 0"

definition remb_decoded :: "remb \<Rightarrow> remb" where
  "remb_decoded r = r\<lparr>remb_bitrate_bps :=
     push_bit (unat (snd (remb_scaled r))) (fst (remb_scaled r))\<rparr>"

definition remb_wire :: "remb \<Rightarrow> byte list" where
  "remb_wire r = (let (m, e) = remb_scaled r in
     header_bytes 15 206 (16 + 4 * length (remb_ssrcs r)) @ be32 (remb_sender_ssrc r) @ be32 0 @
     be32 kRembUniqueIdentifier @ [of_nat (length (remb_ssrcs r))] @
     [ucast (push_bit 2 (ucast e) OR drop_bit 16 m)] @ be16 (ucast (m AND 0xFFFF)) @
     concat (map be32 (remb_ssrcs r)))"

definition remb_valid :: "remb \<Rightarrow> bool" where
  "remb_valid r \<longleftrightarrow> remb_media_ssrc r = 0 \<and> length (remb_ssrcs r) \<le> 0xFF"

lemma remb_scaled_shift:
  obtains k where "k \<le> 46" "remb_scaled r = (drop_bit k (remb_bitrate_bps r), of_nat k)"
    "unat (of_nat k :: u8) = k" "drop_bit k (remb_bitrate_bps r) \<le> kMaxMantissa"
    "k = 0 \<or> kMaxMantissa < drop_bit (k - 1) (remb_bitrate_bps r)"
proof -
  have "uint (remb_bitrate_bps r) < 2 ^ (18 + 46)" using uint_lt2p [of "remb_bitrate_bps r"] by simp
  moreover have "kMaxMantissa = mask 18" by (simp add: kMaxMantissa_def mask_eq_exp_minus_1)
  ultimately obtain k where "k \<le> 46" "remb_scaled r = (drop_bit k (remb_bitrate_bps r), of_nat k)"
    "drop_bit k (remb_bitrate_bps r) \<le> kMaxMantissa"
    "k = 0 \<or> kMaxMantissa < drop_bit (k - 1) (remb_bitrate_bps r)"
    using scale_mantissa_shift [of "remb_bitrate_bps r" 18 46 kMaxMantissa 0] by (auto simp: remb_scaled_def)
  then show ?thesis by (intro that) (auto simp: unat_of_nat take_bit_nat_eq_self)
qed

lemma drop_push_drop: "drop_bit k (push_bit k (drop_bit k w)) = drop_bit k w" for w :: "'a::len word"
  by (rule bit_word_eqI) (auto simp: bit_simps dest: bit_imp_le_length)

lemma pack_ssrcs_put: "pack_ssrcs xs s = put_items be32 xs s"
  by (induction xs arbitrary: s) simp_all

interpretation remb: rtcp_codec remb_valid remb_packet_size remb_wire remb_pack_into remb_parse remb_decoded
proof
  fix r max_size cb s rest
  assume valid: "remb_valid r"
  let ?n = "length (remb_ssrcs r)"
  obtain k where k: "k \<le> 46" "remb_scaled r = (drop_bit k (remb_bitrate_bps r), of_nat k)"
    "unat (of_nat k :: u8) = k" "drop_bit k (remb_bitrate_bps r) \<le> kMaxMantissa"
    by (rule remb_scaled_shift)
  note fields = remb_fields [of "drop_bit k (remb_bitrate_bps r)" "of_nat k", unfolded k(3)]
  have wire: "remb_wire r = header_bytes 15 206 (16 + 4 * ?n) @ drop 4 (remb_wire r)"
    by (simp add: remb_wire_def k)
  show len: "length (remb_wire r) = remb_packet_size r"
    by (simp add: remb_wire_def k remb_packet_size_def feedback_defs length_concat_map_const [where w = 4])
  show "0 < remb_packet_size r" by (simp add: remb_packet_size_def)
  show "remb_pack_into r max_size cb s = pack_wire (remb_wire r) max_size cb s"
    unfolding remb_pack_into_def using valid k(2)
    by (intro pack_wireI [OF len])
      (simp add: remb_valid_def remb_packet_size_def remb_wire_def feedback_defs wire_simps pack_simps 
        pack_ssrcs_put remb_scaled_def length_concat_map_const [where w = 4] mult.commute [of _ 4])
  show "\<exists>h. common_header_parse (remb_wire r @ rest) (length (remb_wire r @ rest)) = accept h \<and>
      ch_packet_size h = remb_packet_size r \<and> next_packet h = rest \<and> remb_parse h = accept (remb_decoded r)"
  proof (rule wire_parseI [OF wire])
    have "unat (of_nat ?n :: u8) = ?n"
      using valid by (simp add: remb_valid_def unat_of_nat take_bit_nat_eq_self)
    then show "remb_parse \<lparr>packet_type = 206, count_or_fmt = of_nat 15, padding_size = 0,
        payload_size = 16 + 4 * ?n, payload = drop 4 (remb_wire r) @ rest\<rparr> = accept (remb_decoded r)"
      using valid k fields
      by (simp add: remb_valid_def remb_parse_def remb_wire_def remb_decoded_def feedback_defs wire_simps
          kMaxMantissa_def drop_push_drop pack_simps)
  qed (use valid len in \<open>simp_all add: remb_valid_def remb_packet_size_def feedback_defs mod_add_eq\<close>)
qed

definition ln_wire :: "loss_notification \<Rightarrow> byte list" where
  "ln_wire l = header_bytes 15 206 16 @ be32 (ln_sender_ssrc l) @ be32 (ln_media_ssrc l) @
     be32 kLntfUniqueIdentifier @ be16 (ln_last_decoded l) @
     be16 (push_bit 1 (ln_last_received l - ln_last_decoded l) OR (if ln_decodability_flag l then 1 else 0))"

text \<open>The invariant that \<^verbatim>\<open>LossNotification::Set\<close> establishes.\<close>

definition ln_valid :: "loss_notification \<Rightarrow> bool" where
  "ln_valid l \<longleftrightarrow> ln_last_received l - ln_last_decoded l \<le> 0x7fff"

lemma ln_delta_fields:
  fixes d :: u16
  assumes "d \<le> 0x7fff"
  shows "drop_bit 1 (push_bit 1 d OR (if f then 1 else 0)) = d"
    "(push_bit 1 d OR (if f then 1 else 0)) AND 1 \<noteq> 0 \<longleftrightarrow> f"
proof -
  have d: "d < 2 ^ 15" using assms by (simp add: word_le_def word_less_def)
  show "drop_bit 1 (push_bit 1 d OR (if f then 1 else 0)) = d"
    by (rule bit_word_eqI) (simp only: bit_drop_bit_eq comp_def bit_or_iff bit_push_bit_iff, auto simp: bit_1_iff dest: bit_below [OF _ d])
  show "(push_bit 1 d OR (if f then 1 else 0)) AND 1 \<noteq> 0 \<longleftrightarrow> f"
    using and_exp_eq_0_iff_not_bit [of "push_bit 1 d OR (if f then 1 else 0)" 0]
    by (simp add: bit_or_iff bit_push_bit_iff del: push_bit_Suc One_nat_def bit_0)
qed

interpretation ln: rtcp_codec ln_valid ln_packet_size ln_wire ln_pack_into ln_parse "\<lambda>l. l"
proof
  fix l max_size cb s rest
  assume valid: "ln_valid l"
  note fields = ln_delta_fields [of "ln_last_received l - ln_last_decoded l" "ln_decodability_flag l"]
  show len: "length (ln_wire l) = ln_packet_size l"
    by (simp add: ln_wire_def ln_packet_size_def feedback_defs)
  show "0 < ln_packet_size l" by (simp add: ln_packet_size_def)
  show "ln_pack_into l max_size cb s = pack_wire (ln_wire l) max_size cb s"
    unfolding ln_pack_into_def using valid
    by (intro pack_wireI [OF len])
      (simp add: ln_valid_def ln_packet_size_def ln_wire_def feedback_defs wire_simps pack_simps)
  show "\<exists>h. common_header_parse (ln_wire l @ rest) (length (ln_wire l @ rest)) = accept h \<and>
      ch_packet_size h = ln_packet_size l \<and> next_packet h = rest \<and> ln_parse h = accept l"
  proof (rule wire_parseI)
    show "ln_wire l = header_bytes 15 206 16 @ drop 4 (ln_wire l)" by (simp add: ln_wire_def)
  qed (use valid len fields in \<open>simp_all add: ln_valid_def ln_wire_def ln_packet_size_def ln_parse_def
      feedback_defs wire_simps\<close>)
qed

definition bye_reason_wire :: "byte list \<Rightarrow> byte list" where
  "bye_reason_wire reason =
     (if reason = [] then []
      else [of_nat (length reason)] @ reason @ replicate (3 - length reason mod 4) 0)"

definition bye_wire :: "bye \<Rightarrow> byte list" where
  "bye_wire b = header_bytes (1 + length (bye_csrcs b)) 203 (bye_packet_size b - 4) @
     be32 (bye_sender_ssrc b) @ concat (map be32 (bye_csrcs b)) @ bye_reason_wire (bye_reason b)"

definition bye_valid :: "bye \<Rightarrow> bool" where
  "bye_valid b \<longleftrightarrow> length (bye_csrcs b) \<le> 30 \<and> length (bye_reason b) \<le> 0xFF"

lemma length_bye_reason_wire:
  "length (bye_reason_wire reason) = (if reason = [] then 0 else 4 * (length reason div 4 + 1))"
  by (simp add: bye_reason_wire_def) presburger

lemma bye_pack_reason_put:
  assumes "length reason \<le> 0xFF" "e = pk_index s + length (bye_reason_wire reason)" "reason \<noteq> []"
  shows "bye_pack_reason reason e s =
    map_option (advance (length (bye_reason_wire reason))) (put_at 0 (bye_reason_wire reason) s)"
proof -
  have u: "unat (of_nat (length reason) :: u8) = length reason"
    using assms(1) by (simp add: unat_of_nat take_bit_nat_eq_self)
  obtain p where p: "3 - length reason mod 4 = p" "p \<le> 3" by simp
  then have e: "e = pk_index s + (1 + length reason + p)"
    using assms by (simp add: bye_reason_wire_def)
  show ?thesis
    unfolding bye_pack_reason_def bye_reason_wire_def e p(1) Let_def u
    using assms(3) p(2) by (auto simp: put_at_def wr_def advance_def ac_simps)
qed

lemma bye_pack_reason_fuse [wire_simps]:
  assumes "n = length as" "length reason \<le> 0xFF" "e = pk_index s + (n + length (bye_reason_wire reason))"
  shows "Option.bind (put_at 0 as s) (\<lambda>t. Option.bind (bye_pack_reason reason e (advance n t)) k) =
    Option.bind (put_at 0 (as @ bye_reason_wire reason) s)
      (\<lambda>t. k (advance (n + length (bye_reason_wire reason)) t))"
proof (cases "reason = []")
  case False
  have "Option.bind (put_at 0 as s) (\<lambda>t. Option.bind (bye_pack_reason reason e (advance n t)) k) =
      Option.bind (put_at 0 as s) (\<lambda>t. Option.bind (put_at 0 (bye_reason_wire reason) (advance n t))
        (\<lambda>t. k (advance (length (bye_reason_wire reason)) t)))"
    using False assms by (intro bind_put_at_cong) (simp add: bye_pack_reason_put bind_map_option comp_def)
  then show ?thesis using assms by (simp add: wire_simps pack_simps)
qed (use assms in \<open>simp add: bye_pack_reason_def bye_reason_wire_def\<close>)

interpretation bye: rtcp_codec bye_valid bye_packet_size bye_wire bye_pack_into bye_parse "\<lambda>b. b"
proof
  fix b max_size cb s rest
  assume valid: "bye_valid b"
  let ?n = "length (bye_csrcs b)" and ?r = "bye_reason b"
  have size: "bye_packet_size b = 4 + (4 + (?n * 4 + length (bye_reason_wire ?r)))"
    by (simp add: bye_packet_size_def length_bye_reason_wire Let_def)
  show len: "length (bye_wire b) = bye_packet_size b"
    by (simp add: bye_wire_def size length_concat_map_const [where w = 4])
  show "0 < bye_packet_size b" by (simp add: size)
  have reason_max: "length (bye_reason_wire ?r) \<le> 256" "length (bye_reason_wire ?r) mod 4 = 0"
    using valid by (auto simp: length_bye_reason_wire bye_valid_def)
  then have words: "(8 + (?n * 4 + length (bye_reason_wire ?r))) mod 4 = 0" by presburger
  show "bye_pack_into b max_size cb s = pack_wire (bye_wire b) max_size cb s"
    unfolding bye_pack_into_def using valid reason_max words
    by (intro pack_wireI [OF len])
      (simp add: bye_valid_def size bye_wire_def wire_simps pack_simps packet_size_without_common_header_def
        pack_ssrcs_put length_concat_map_const [where w = 4] add.assoc)
  show "\<exists>h. common_header_parse (bye_wire b @ rest) (length (bye_wire b @ rest)) = accept h \<and>
      ch_packet_size h = bye_packet_size b \<and> next_packet h = rest \<and> bye_parse h = accept b"
  proof (rule wire_parseI)
    show "bye_wire b = header_bytes (1 + ?n) 203 (bye_packet_size b - 4) @ drop 4 (bye_wire b)"
      by (simp add: bye_wire_def)
    have "unat (of_nat (1 + ?n) :: u8) = 1 + ?n"
      using valid by (intro unat_count) (simp add: bye_valid_def)
    moreover have "length ?r \<le> length ?r + 3 - length ?r mod 4" by presburger
    ultimately show "bye_parse \<lparr>packet_type = 203, count_or_fmt = of_nat (1 + ?n), padding_size = 0,
        payload_size = bye_packet_size b - 4, payload = drop 4 (bye_wire b) @ rest\<rparr> = accept b"
      using valid
      by (simp add: bye_valid_def bye_wire_def bye_parse_def size wire_simps pack_simps bye_reason_wire_def
          length_concat_map_const [where w = 4] mult.commute [of _ 4] unat_of_nat take_bit_nat_eq_self)
  qed (use valid len reason_max in \<open>simp_all add: size bye_valid_def\<close>)
qed

lemma parse_ssrcs_total: "n * 4 \<le> length bs \<Longrightarrow> \<exists>xs. parse_items 4 (\<lambda>b. read_be32 b 0) n bs = Some xs"
  using parse_items_total [of 4 "\<lambda>b. read_be32 b 0" n bs] by (auto simp: read_inside)

interpretation pli_safe: safe_parser pli_parse
  by standard (auto simp: pli_parse_def feedback_defs read_inside not_less)

interpretation fir_safe: safe_parser fir_parse
proof
  fix h :: common_header
  assume h: "payload_size h \<le> length (payload h)"
  have "\<exists>xs. parse_items 8 fir_read_request ((payload_size h - 8) div 8) (drop 8 (payload h)) = Some xs"
    using h parse_items_total [of 8 fir_read_request "(payload_size h - 8) div 8" "drop 8 (payload h)"]
    by (force simp: fir_read_request_def read_inside)
  then show "fir_parse h \<noteq> None"
    using h by (auto simp: fir_parse_def feedback_defs read_inside not_less Let_def)
qed

interpretation remb_safe: safe_parser remb_parse
proof
  fix h :: common_header
  assume h: "payload_size h \<le> length (payload h)"
  have "\<exists>xs. parse_items 4 (\<lambda>b. read_be32 b 0) (unat (payload h ! 12)) (drop 16 (payload h)) = Some xs"
    if "payload_size h = 8 + (2 + unat (payload h ! 12)) * 4"
    using h that by (intro parse_ssrcs_total) simp
  then show "remb_parse h \<noteq> None"
    using h by (auto simp: remb_parse_def feedback_defs read_inside not_less Let_def)
qed

text \<open>\<^verbatim>\<open>LossNotification::Parse\<close> asserts its packet type, so its caller has to select it first.\<close>

interpretation ln_safe: safe_parser
  "\<lambda>h. if packet_type h = 206 \<and> count_or_fmt h = 15 then ln_parse h else reject"
  by standard (auto simp: ln_parse_def feedback_defs read_inside not_less Let_def)

interpretation bye_safe: safe_parser bye_parse
proof
  fix h :: common_header
  assume h: "payload_size h \<le> length (payload h)"
  have "\<exists>xs. parse_items 4 (\<lambda>b. read_be32 b 0) (unat (count_or_fmt h) - 1) (drop 4 (payload h)) = Some xs"
    if "4 * unat (count_or_fmt h) \<le> payload_size h"
    using h that by (intro parse_ssrcs_total) auto
  then show "bye_parse h \<noteq> None"
    using h by (auto simp: bye_parse_def read_inside not_less Let_def)
qed

section \<open>Properties\<close>

text \<open>
  A REMB packet that is built and parsed back carries every field over; the bitrate keeps its
  18 most significant bits: it loses the low \<open>k\<close> bits, and \<open>k\<close> is the smallest shift that makes the
  mantissa fit, so bitrates below \<open>2 ^ 18\<close> are exact.
\<close>

theorem remb_roundtrip:
  assumes "remb_valid r" "remb_packet_size r \<le> max_size" "max_size \<le> kIpPacketSize"
    "length stack = kIpPacketSize"
  shows "\<exists>bytes k. build (remb_pack_into r) max_size True stack = Some (True, [bytes]) \<and>
    parse_received remb_parse (bytes @ rest) (length (bytes @ rest)) =
      accept (r\<lparr>remb_bitrate_bps := push_bit k (drop_bit k (remb_bitrate_bps r))\<rparr>) \<and>
    k \<le> 46 \<and> (k = 0 \<or> 2 ^ 18 \<le> drop_bit (k - 1) (remb_bitrate_bps r))"
proof -
  obtain k where k: "k \<le> 46" "remb_scaled r = (drop_bit k (remb_bitrate_bps r), of_nat k)"
    "unat (of_nat k :: u8) = k" "k = 0 \<or> kMaxMantissa < drop_bit (k - 1) (remb_bitrate_bps r)"
    by (rule remb_scaled_shift)
  then have "k = 0 \<or> 2 ^ 18 \<le> drop_bit (k - 1) (remb_bitrate_bps r)"
    using inc_le [of kMaxMantissa "drop_bit (k - 1) (remb_bitrate_bps r)"] by (auto simp: kMaxMantissa_def)
  with k show ?thesis
    using remb.build_wire [OF assms] remb.parse_of_wire [OF assms(1), of rest]
    by (intro exI [of _ "remb_wire r"] exI [of _ k]) (auto simp: parse_received_def remb_decoded_def)
qed

definition example_remb :: remb where
  "example_remb = \<lparr>remb_sender_ssrc = 1, remb_media_ssrc = 0, remb_bitrate_bps = 1000001, remb_ssrcs = [2, 3]\<rparr>"

theorem remb_roundtrip_witness:
  "\<exists>bytes k. build (remb_pack_into example_remb) 100 True (replicate 1500 0) = Some (True, [bytes]) \<and>
    parse_received remb_parse (bytes @ [9]) (length (bytes @ [9])) =
      accept (example_remb\<lparr>remb_bitrate_bps := push_bit k (drop_bit k (remb_bitrate_bps example_remb))\<rparr>) \<and>
    k \<le> 46 \<and> (k = 0 \<or> 2 ^ 18 \<le> drop_bit (k - 1) (remb_bitrate_bps example_remb))"
  by (rule remb_roundtrip)
    (simp_all add: remb_valid_def example_remb_def remb_packet_size_def feedback_defs kIpPacketSize_def)

text \<open>
  A full intra request with at least one entry and no media source packs and parses back to the
  same entries in the same order; with a media source or without entries nothing is written.
\<close>

theorem fir_roundtrip:
  assumes "length (fir_items f) < 8191" "fir_packet_size f \<le> max_size" "max_size \<le> length buf"
    "s = \<lparr>pk_buffer = buf, pk_index = 0, pk_ready = []\<rparr>"
  shows "if fir_media_ssrc f = 0 \<and> fir_items f \<noteq> []
    then \<exists>t h. fir_pack_into f max_size cb s = Some (True, t) \<and> pk_index t = fir_packet_size f \<and>
      common_header_parse (take (pk_index t) (pk_buffer t)) (fir_packet_size f) = accept h \<and>
      fir_parse h = accept f
    else fir_pack_into f max_size cb s = Some (False, s)"
  using fir.roundtrip [of f max_size buf cb] assms by (auto simp: fir_valid_def fir_pack_into_def)

definition example_fir :: fir where
  "example_fir = \<lparr>fir_sender_ssrc = 1, fir_media_ssrc = 0, fir_items = [\<lparr>fir_ssrc = 2, fir_seq_nr = 3\<rparr>]\<rparr>"

theorem fir_roundtrip_witness:
  "if fir_media_ssrc example_fir = 0 \<and>
      fir_items example_fir \<noteq> []
    then \<exists>t h. fir_pack_into example_fir
        40 True \<lparr>pk_buffer = replicate 40 0, pk_index = 0, pk_ready = []\<rparr> = Some (True, t) \<and>
      pk_index t = fir_packet_size example_fir \<and>
      common_header_parse (take (pk_index t) (pk_buffer t))
        (fir_packet_size example_fir) = accept h \<and>
      fir_parse h = accept example_fir
    else fir_pack_into example_fir
        40 True \<lparr>pk_buffer = replicate 40 0, pk_index = 0, pk_ready = []\<rparr> =
      Some (False, \<lparr>pk_buffer = replicate 40 0, pk_index = 0, pk_ready = []\<rparr>)"
  by (rule fir_roundtrip) (simp_all add: example_fir_def fir_packet_size_def feedback_defs)

text \<open>
  \<^verbatim>\<open>LossNotification::Set\<close> accepts exactly the pairs whose wrapped distance fits 15 bits, and
  what it accepts survives packing and parsing.
\<close>

theorem loss_notification_set_roundtrip:
  assumes "ln_set dec rec flag l = (True, l')" "ln_packet_size l' \<le> max_size" "max_size \<le> kIpPacketSize"
    "length stack = kIpPacketSize"
  shows "unat (rec - dec) < 2 ^ 15 \<and>
    (\<exists>bytes. build (ln_pack_into l') max_size True stack = Some (True, [bytes]) \<and>
      parse_received ln_parse (bytes @ rest) (length (bytes @ rest)) =
        accept (l\<lparr>ln_last_received := rec, ln_last_decoded := dec, ln_decodability_flag := flag\<rparr>))"
proof -
  have ok: "rec - dec \<le> 0x7fff"
    and l': "l' = l\<lparr>ln_last_received := rec, ln_last_decoded := dec, ln_decodability_flag := flag\<rparr>"
    using assms(1) by (auto simp: ln_set_def split: if_splits)
  then have valid: "ln_valid l'" by (simp add: ln_valid_def)
  show ?thesis
    using ok l' ln.build_wire [OF valid assms(2-)] ln.parse_of_wire [OF valid, of rest]
    by (auto simp: parse_received_def word_le_nat_alt)
qed

theorem loss_notification_set_roundtrip_witness:
  "unat (5 - 65530 :: u16) < 2 ^ 15 \<and>
    (\<exists>bytes. build (ln_pack_into \<lparr>ln_sender_ssrc = 1, ln_media_ssrc = 2, ln_last_decoded = 65530,
        ln_last_received = 5, ln_decodability_flag = True\<rparr>) 40 True (replicate 1500 0) = Some (True, [bytes]) \<and>
      parse_received ln_parse (bytes @ []) (length (bytes @ [])) =
        accept (\<lparr>ln_sender_ssrc = 1, ln_media_ssrc = 2, ln_last_decoded = 0, ln_last_received = 0,
          ln_decodability_flag = False\<rparr>\<lparr>ln_last_received := 5, ln_last_decoded := 65530, ln_decodability_flag := True\<rparr>))"
  by (rule loss_notification_set_roundtrip) (simp_all add: ln_set_def ln_packet_size_def feedback_defs kIpPacketSize_def)

text \<open>
  A goodbye whose sources and reason went through \<^verbatim>\<open>set_csrcs\<close> and
  \<^verbatim>\<open>set_reason\<close> packs and parses back to the same sources and reason; the zero padding that
  aligns the reason is written and ignored.
\<close>

theorem bye_roundtrip:
  assumes "bye_set_csrcs csrcs b = (True, b1)" "bye_set_reason reason b1 = Some b2"
    "bye_packet_size b2 \<le> max_size" "max_size \<le> kIpPacketSize" "length stack = kIpPacketSize"
  shows "\<exists>bytes. build (bye_pack_into b2) max_size True stack = Some (True, [bytes]) \<and>
    length bytes mod 4 = 0 \<and>
    parse_received bye_parse (bytes @ rest) (length (bytes @ rest)) =
      accept \<lparr>bye_sender_ssrc = bye_sender_ssrc b, bye_csrcs = csrcs, bye_reason = reason\<rparr>"
proof -
  have b2: "b2 = \<lparr>bye_sender_ssrc = bye_sender_ssrc b, bye_csrcs = csrcs, bye_reason = reason\<rparr>"
    and valid: "bye_valid b2"
    using assms(1,2) by (auto simp: bye_set_csrcs_def bye_set_reason_def bye_valid_def split: if_splits)
  show ?thesis
    using b2 bye.build_wire [OF valid assms(3-)] bye.length_wire [OF valid] bye.parse_of_wire [OF valid, of rest]
    by (auto simp: parse_received_def bye_packet_size_def)
qed

theorem bye_roundtrip_witness:
  "\<exists>bytes. build (bye_pack_into \<lparr>bye_sender_ssrc = 1, bye_csrcs = [2, 3], bye_reason = [100, 101]\<rparr>) 100 True
      (replicate 1500 0) = Some (True, [bytes]) \<and> length bytes mod 4 = 0 \<and>
    parse_received bye_parse (bytes @ [0]) (length (bytes @ [0])) =
      accept \<lparr>bye_sender_ssrc = bye_sender_ssrc \<lparr>bye_sender_ssrc = 1, bye_csrcs = [], bye_reason = []\<rparr>,
        bye_csrcs = [2, 3], bye_reason = [100, 101]\<rparr>"
  by (rule bye_roundtrip [where ?b1.0 = "\<lparr>bye_sender_ssrc = 1, bye_csrcs = [2, 3], bye_reason = []\<rparr>"])
    (simp_all add: bye_set_csrcs_def bye_set_reason_def bye_packet_size_def kIpPacketSize_def)

end
