(* ===== verification/RtcpTmmb.thy ===== *)
theory RtcpTmmb
  imports RtcpFeedback
begin

text \<open>
  Temporary maximum media bitrate requests and notifications: \<^verbatim>\<open>tmmb_item.cpp\<close>,
  \<^verbatim>\<open>tmmbr.cpp\<close> and \<^verbatim>\<open>tmmbn.cpp\<close> under \<^verbatim>\<open>src/rtc/rtp_rtcp/rtcp/packets\<close>.
\<close>

section \<open>TmmbItem\<close>

record tmmb_item =
  tmmb_ssrc :: u32
  tmmb_bitrate_bps :: u64
  tmmb_packet_overhead :: u16

definition kFixedTmmbItemSize :: nat where "kFixedTmmbItemSize = 8"
definition kMaxTmmbMantissa :: u64 where "kMaxTmmbMantissa = 0x1ffff"

definition tmmb_item_new :: "u32 \<Rightarrow> u64 \<Rightarrow> u16 \<Rightarrow> tmmb_item option" where
  "tmmb_item_new ssrc bitrate_bps overhead =
     (if overhead \<le> 0x1ff
      then Some \<lparr>tmmb_ssrc = ssrc, tmmb_bitrate_bps = bitrate_bps, tmmb_packet_overhead = overhead\<rparr>
      else None)"

definition tmmb_set_packet_overhead :: "u16 \<Rightarrow> tmmb_item \<Rightarrow> tmmb_item option" where
  "tmmb_set_packet_overhead overhead i =
     (if overhead \<le> 0x1ff then Some (i\<lparr>tmmb_packet_overhead := overhead\<rparr>) else None)"

definition tmmb_item_parse :: "byte list \<Rightarrow> tmmb_item option option" where
  "tmmb_item_parse buffer = do {
     ssrc \<leftarrow> read_be32 buffer 0;
     compact \<leftarrow> read_be32 buffer 4;
     let exponent = unat (drop_bit 26 compact);
     let mantissa = (ucast (drop_bit 9 compact AND 0x1ffff) :: u64);
     let overhead = (ucast (compact AND 0x1ff) :: u16);
     let bitrate = push_bit exponent mantissa;
     if drop_bit exponent bitrate \<noteq> mantissa then reject
     else accept \<lparr>tmmb_ssrc = ssrc, tmmb_bitrate_bps = bitrate, tmmb_packet_overhead = overhead\<rparr> }"

definition tmmb_compact :: "tmmb_item \<Rightarrow> u32" where
  "tmmb_compact i =
     (let (mantissa, exponent) = scale_mantissa kMaxTmmbMantissa (tmmb_bitrate_bps i) (0 :: u32)
      in ucast (ucast (push_bit 26 exponent) OR push_bit 9 mantissa OR ucast (tmmb_packet_overhead i)))"

definition tmmb_item_pack_into :: "tmmb_item \<Rightarrow> nat \<Rightarrow> pack_state \<Rightarrow> (bool \<times> pack_state) option" where
  "tmmb_item_pack_into i sz s =
     (if sz < kFixedTmmbItemSize then Some (False, s)
      else do {
        s \<leftarrow> put_at 0 (be32 (tmmb_ssrc i)) s;
        s \<leftarrow> put_at 4 (be32 (tmmb_compact i)) s;
        Some (True, s) })"

section \<open>Tmmbr and Tmmbn\<close>

text \<open>Both classes hold a common feedback and a list of items.\<close>

record tmmb =
  tmmb_sender_ssrc :: u32
  tmmb_media_ssrc :: u32
  tmmb_items :: "tmmb_item list"

definition add_tmmb :: "tmmb_item \<Rightarrow> tmmb \<Rightarrow> tmmb" where
  "add_tmmb item m = m\<lparr>tmmb_items := tmmb_items m @ [item]\<rparr>"

definition tmmb_packet_size :: "tmmb \<Rightarrow> nat" where
  "tmmb_packet_size m = 4 + kCommonFeedbackSize + kFixedTmmbItemSize * length (tmmb_items m)"

fun tmmb_parse_items :: "nat \<Rightarrow> byte list \<Rightarrow> tmmb_item list option option" where
  "tmmb_parse_items 0 next_item = accept []"
| "tmmb_parse_items (Suc n) next_item =
     (case tmmb_item_parse next_item of
        None \<Rightarrow> None
      | Some None \<Rightarrow> reject
      | Some (Some i) \<Rightarrow>
          map_option (map_option (\<lambda>is. i # is)) (tmmb_parse_items n (drop kFixedTmmbItemSize next_item)))"

fun tmmb_pack_items :: "tmmb_item list \<Rightarrow> nat \<Rightarrow> pack_state \<Rightarrow> pack_state option" where
  "tmmb_pack_items [] index_end s = Some s"
| "tmmb_pack_items (i # is) index_end s = do {
     (ok, s) \<leftarrow> tmmb_item_pack_into i (index_end - pk_index s) s;
     tmmb_pack_items is index_end (advance kFixedTmmbItemSize s) }"

text \<open>The part of \<^verbatim>\<open>Parse\<close> and \<^verbatim>\<open>PackInto\<close> that the two classes have in common.\<close>

definition tmmb_parse_body :: "common_header \<Rightarrow> tmmb option option" where
  "tmmb_parse_body packet =
     (let items_size_bytes = payload_size packet - kCommonFeedbackSize
      in if items_size_bytes mod kFixedTmmbItemSize \<noteq> 0 then reject
      else do {
        ssrcs \<leftarrow> rtpfb_parse_common_feedback (payload packet) (payload_size packet);
        let number_of_items = items_size_bytes div kFixedTmmbItemSize;
        items \<leftarrow> tmmb_parse_items number_of_items (drop kCommonFeedbackSize (payload packet));
        (case (ssrcs, items) of
           (Some (snd_ssrc, med), Some is) \<Rightarrow>
             accept \<lparr>tmmb_sender_ssrc = snd_ssrc, tmmb_media_ssrc = med, tmmb_items = is\<rparr>
         | (_, _) \<Rightarrow> reject) })"

definition tmmb_pack_body :: "nat \<Rightarrow> tmmb \<Rightarrow> pack_state \<Rightarrow> (bool \<times> pack_state) option" where
  "tmmb_pack_body fmt m s = do {
     let index_end = pk_index s + tmmb_packet_size m;
     n \<leftarrow> packet_size_without_common_header (tmmb_packet_size m);
     s \<leftarrow> pack_common_header fmt 205 n False s;
     if tmmb_media_ssrc m \<noteq> 0 then Some (False, s)
     else do {
       (ok, s) \<leftarrow> rtpfb_pack_common_feedback_into (tmmb_sender_ssrc m) (tmmb_media_ssrc m)
                   (index_end - pk_index s) s;
       s \<leftarrow> tmmb_pack_items (tmmb_items m) index_end (advance kCommonFeedbackSize s);
       assert_index index_end s } }"

definition tmmbr_parse :: "common_header \<Rightarrow> tmmb option option" where
  "tmmbr_parse packet =
     (if packet_type packet \<noteq> 205 then reject
      else if count_or_fmt packet \<noteq> 3 then reject
      else if payload_size packet < kCommonFeedbackSize + kFixedTmmbItemSize then reject
      else tmmb_parse_body packet)"

definition tmmbr_pack_into :: "tmmb \<Rightarrow> nat \<Rightarrow> bool \<Rightarrow> pack_state \<Rightarrow> (bool \<times> pack_state) option" where
  "tmmbr_pack_into m max_size callback s0 =
     (if tmmb_items m = [] then Some (False, s0)
      else case make_room (tmmb_packet_size m) max_size callback s0 of
        (False, s) \<Rightarrow> Some (False, s)
      | (True, s) \<Rightarrow> tmmb_pack_body 3 m s)"

definition tmmbn_parse :: "common_header \<Rightarrow> tmmb option option" where
  "tmmbn_parse packet =
     (if packet_type packet \<noteq> 205 then reject
      else if count_or_fmt packet \<noteq> 4 then reject
      else if payload_size packet < kCommonFeedbackSize then reject
      else tmmb_parse_body packet)"

definition tmmbn_pack_into :: "tmmb \<Rightarrow> nat \<Rightarrow> bool \<Rightarrow> pack_state \<Rightarrow> (bool \<times> pack_state) option" where
  "tmmbn_pack_into m max_size callback s0 =
     (case make_room (tmmb_packet_size m) max_size callback s0 of
        (False, s) \<Rightarrow> Some (False, s)
      | (True, s) \<Rightarrow> tmmb_pack_body 4 m s)"

section \<open>Items on the wire\<close>

lemmas tmmb_defs = kFixedTmmbItemSize_def kCommonFeedbackSize_def rtpfb_parse_common_feedback_def
  packet_size_without_common_header_def tmmb_packet_size_def

definition tmmb_item_wire :: "tmmb_item \<Rightarrow> byte list" where
  "tmmb_item_wire i = be32 (tmmb_ssrc i) @ be32 (tmmb_compact i)"

definition tmmb_item_valid :: "tmmb_item \<Rightarrow> bool" where
  "tmmb_item_valid i \<longleftrightarrow> tmmb_packet_overhead i \<le> 0x1ff"

definition tmmb_item_decoded :: "tmmb_item \<Rightarrow> tmmb_item" where
  "tmmb_item_decoded i =
     (let (mantissa, exponent) = scale_mantissa kMaxTmmbMantissa (tmmb_bitrate_bps i) (0 :: u32)
      in i\<lparr>tmmb_bitrate_bps := push_bit (unat exponent) mantissa\<rparr>)"

lemma tmmb_item_scaled:
  obtains k where "k \<le> 47"
    "scale_mantissa kMaxTmmbMantissa (tmmb_bitrate_bps i) (0 :: u32) = (drop_bit k (tmmb_bitrate_bps i), of_nat k)"
    "unat (of_nat k :: u32) = k" "drop_bit k (tmmb_bitrate_bps i) \<le> kMaxTmmbMantissa"
    "k = 0 \<or> kMaxTmmbMantissa < drop_bit (k - 1) (tmmb_bitrate_bps i)"
proof -
  have "uint (tmmb_bitrate_bps i) < 2 ^ (17 + 47)" using uint_lt2p [of "tmmb_bitrate_bps i"] by simp
  moreover have "kMaxTmmbMantissa = mask 17" by (simp add: kMaxTmmbMantissa_def mask_eq_exp_minus_1)
  ultimately obtain k where "k \<le> 47"
    "scale_mantissa kMaxTmmbMantissa (tmmb_bitrate_bps i) (0 :: u32) = (drop_bit k (tmmb_bitrate_bps i), of_nat k)"
    "drop_bit k (tmmb_bitrate_bps i) \<le> kMaxTmmbMantissa"
    "k = 0 \<or> kMaxTmmbMantissa < drop_bit (k - 1) (tmmb_bitrate_bps i)"
    using scale_mantissa_shift [of "tmmb_bitrate_bps i" 17 47 kMaxTmmbMantissa "0 :: u32"] by auto
  then show ?thesis by (intro that) (auto simp: unat_of_nat take_bit_nat_eq_self)
qed

lemma tmmb_fields:
  fixes m :: u64 and e :: u32 and ov :: u16
  assumes "m \<le> 0x1ffff" "unat e < 64" "ov \<le> 0x1ff"
  defines "c \<equiv> ucast (ucast (push_bit 26 e) OR push_bit 9 m OR ucast ov :: u64) :: u32"
  shows "drop_bit 26 c = e" "ucast (drop_bit 9 c AND 0x1ffff) = m" "ucast (c AND 0x1ff) = ov"
proof -
  have me: "m < 2 ^ 17" "e < 2 ^ 6" "ov < 2 ^ 9"
    using assms by (simp add: word_le_def word_less_def, simp add: word_less_nat_alt,
      simp add: word_le_def word_less_def)
  note bits = bit_below [OF _ me(1)] bit_below [OF _ me(2)] bit_below [OF _ me(3)]
  have masks: "(0x1ffff::u32) = mask 17" "(0x1ff :: u32) = mask 9" by (simp_all add: mask_eq_exp_minus_1)
  show "drop_bit 26 c = e"
    unfolding c_def by (rule bit_word_eqI) (auto simp: bit_simps dest: bits)
  show "ucast (drop_bit 9 c AND 0x1ffff) = m"
    unfolding masks c_def by (rule bit_word_eqI) (auto simp: bit_simps dest: bits)
  show "ucast (c AND 0x1ff) = ov"
    unfolding masks c_def by (rule bit_word_eqI) (auto simp: bit_simps dest: bits)
qed

lemma length_tmmb_item_wire [simp]: "length (tmmb_item_wire i) = 8"
  by (simp add: tmmb_item_wire_def)

lemma tmmb_item_parse_wire:
  assumes "tmmb_item_valid i"
  shows "tmmb_item_parse (tmmb_item_wire i @ rest) = accept (tmmb_item_decoded i)"
proof -
  obtain k where k: "k \<le> 47"
    "scale_mantissa kMaxTmmbMantissa (tmmb_bitrate_bps i) (0 :: u32) = (drop_bit k (tmmb_bitrate_bps i), of_nat k)"
    "unat (of_nat k :: u32) = k" "drop_bit k (tmmb_bitrate_bps i) \<le> kMaxTmmbMantissa"
    by (rule tmmb_item_scaled)
  then show ?thesis
    using assms tmmb_fields [of "drop_bit k (tmmb_bitrate_bps i)" "of_nat k" "tmmb_packet_overhead i"]
    by (simp add: tmmb_item_parse_def tmmb_item_wire_def tmmb_item_decoded_def tmmb_item_valid_def
        tmmb_compact_def kMaxTmmbMantissa_def wire_simps drop_push_drop pack_simps)
qed

lemma tmmb_pack_items_put:
  "pk_index s + 8 * length is \<le> e \<Longrightarrow> tmmb_pack_items is e s = put_items tmmb_item_wire is s"
proof (induction "is" arbitrary: s)
  case (Cons i "is")
  have "tmmb_item_pack_into i (e - pk_index s) s = map_option (Pair True) (put_at 0 (tmmb_item_wire i) s)"
    using Cons.prems by (simp add: tmmb_item_pack_into_def tmmb_item_wire_def tmmb_defs wire_simps pack_simps)
      linarith
  with Cons show ?case
    by (cases "put_at 0 (tmmb_item_wire i) s") (auto simp: tmmb_defs dest: put_at_index)
qed simp

lemma tmmb_pack_items_fuse [wire_simps]:
  assumes "n = length as" "e = pk_index s + (n + 8 * length is)"
  shows "Option.bind (put_at 0 as s) (\<lambda>t. Option.bind (tmmb_pack_items is e (advance n t)) k) =
    Option.bind (put_at 0 (as @ concat (map tmmb_item_wire is)) s) (\<lambda>t. k (advance (n + 8 * length is) t))"
proof -
  have "Option.bind (put_at 0 as s) (\<lambda>t. Option.bind (tmmb_pack_items is e (advance n t)) k) =
      Option.bind (put_at 0 as s) (\<lambda>t. Option.bind (put_items tmmb_item_wire is (advance n t)) k)"
    using assms by (intro bind_put_at_cong) (simp add: tmmb_pack_items_put)
  then show ?thesis
    using assms by (simp add: wire_simps length_concat_map_const [where w = 8] mult.commute)
qed

lemma tmmb_parse_items_wire:
  "\<forall>i\<in>set is. tmmb_item_valid i \<Longrightarrow> tmmb_parse_items (length is) (concat (map tmmb_item_wire is) @ rest) =
     accept (map tmmb_item_decoded is)"
  by (induction "is") (auto simp: tmmb_item_parse_wire kFixedTmmbItemSize_def)

section \<open>Messages on the wire\<close>

definition tmmb_wire :: "nat \<Rightarrow> tmmb \<Rightarrow> byte list" where
  "tmmb_wire fmt m = header_bytes fmt 205 (8 + 8 * length (tmmb_items m)) @ be32 (tmmb_sender_ssrc m) @ be32 0 @
     concat (map tmmb_item_wire (tmmb_items m))"

definition tmmb_valid :: "tmmb \<Rightarrow> bool" where
  "tmmb_valid m \<longleftrightarrow> tmmb_media_ssrc m = 0 \<and> length (tmmb_items m) < 8191 \<and>
     (\<forall>i\<in>set (tmmb_items m). tmmb_item_valid i)"

definition tmmb_decoded :: "tmmb \<Rightarrow> tmmb" where
  "tmmb_decoded m = m\<lparr>tmmb_items := map tmmb_item_decoded (tmmb_items m)\<rparr>"

lemma length_tmmb_wire: "length (tmmb_wire fmt m) = tmmb_packet_size m"
  by (simp add: tmmb_wire_def tmmb_defs length_concat_map_const [where w = 8])

lemma tmmb_packet_size_pos: "0 < tmmb_packet_size m"
  by (simp add: tmmb_packet_size_def)

lemma tmmb_pack_body_wire:
  assumes "tmmb_valid m" "fmt \<le> 31"
  shows "tmmb_pack_body fmt m s =
    Option.bind (put_at 0 (tmmb_wire fmt m) s) (\<lambda>t. Some (True, advance (tmmb_packet_size m) t))"
  using assms
  by (simp add: tmmb_pack_body_def tmmb_valid_def tmmb_wire_def tmmb_defs wire_simps pack_simps)

lemma tmmb_parse_body_wire:
  assumes "tmmb_valid m"
  shows "tmmb_parse_body \<lparr>packet_type = t, count_or_fmt = c, padding_size = 0,
      payload_size = 8 + 8 * length (tmmb_items m), payload = drop 4 (tmmb_wire fmt m) @ rest\<rparr> =
    accept (tmmb_decoded m)"
  using assms
  by (simp add: tmmb_parse_body_def tmmb_valid_def tmmb_wire_def tmmb_decoded_def tmmb_defs wire_simps
      pack_simps tmmb_parse_items_wire)

interpretation tmmbr: rtcp_codec "\<lambda>m. tmmb_valid m \<and> tmmb_items m \<noteq> []" tmmb_packet_size "tmmb_wire 3"
  tmmbr_pack_into tmmbr_parse tmmb_decoded
proof
  fix m max_size cb s rest
  assume valid: "tmmb_valid m \<and> tmmb_items m \<noteq> []"
  then have some: "0 < length (tmmb_items m)" by simp
  show len: "length (tmmb_wire 3 m) = tmmb_packet_size m" by (rule length_tmmb_wire)
  show "0 < tmmb_packet_size m" by (rule tmmb_packet_size_pos)
  show "tmmbr_pack_into m max_size cb s = pack_wire (tmmb_wire 3 m) max_size cb s"
    unfolding tmmbr_pack_into_def using valid
    by (simp, intro pack_wireI [OF len]) (simp add: tmmb_pack_body_wire)
  show "\<exists>h. common_header_parse (tmmb_wire 3 m @ rest) (length (tmmb_wire 3 m @ rest)) = accept h \<and>
      ch_packet_size h = tmmb_packet_size m \<and> next_packet h = rest \<and> tmmbr_parse h = accept (tmmb_decoded m)"
  proof (rule wire_parseI)
    show "tmmb_wire 3 m = header_bytes 3 205 (8 + 8 * length (tmmb_items m)) @ drop 4 (tmmb_wire 3 m)"
      by (simp add: tmmb_wire_def)
  qed (use valid some len in \<open>simp_all add: tmmb_valid_def tmmb_defs tmmbr_parse_def
      tmmb_parse_body_wire [unfolded tmmb_valid_def] mod_add_eq\<close>)
qed

interpretation tmmbn: rtcp_codec tmmb_valid tmmb_packet_size "tmmb_wire 4"
  tmmbn_pack_into tmmbn_parse tmmb_decoded
proof
  fix m max_size cb s rest
  assume valid: "tmmb_valid m"
  show len: "length (tmmb_wire 4 m) = tmmb_packet_size m" by (rule length_tmmb_wire)
  show "0 < tmmb_packet_size m" by (rule tmmb_packet_size_pos)
  show "tmmbn_pack_into m max_size cb s = pack_wire (tmmb_wire 4 m) max_size cb s"
    unfolding tmmbn_pack_into_def using valid
    by (intro pack_wireI [OF len]) (simp add: tmmb_pack_body_wire)
  show "\<exists>h. common_header_parse (tmmb_wire 4 m @ rest) (length (tmmb_wire 4 m @ rest)) = accept h \<and>
      ch_packet_size h = tmmb_packet_size m \<and> next_packet h = rest \<and> tmmbn_parse h = accept (tmmb_decoded m)"
  proof (rule wire_parseI)
    show "tmmb_wire 4 m = header_bytes 4 205 (8 + 8 * length (tmmb_items m)) @ drop 4 (tmmb_wire 4 m)"
      by (simp add: tmmb_wire_def)
  qed (use valid len in \<open>simp_all add: tmmb_valid_def tmmb_defs tmmbn_parse_def
      tmmb_parse_body_wire [unfolded tmmb_valid_def] mod_add_eq\<close>)
qed

section \<open>Parsers\<close>

lemma tmmb_parse_items_total: "n * 8 \<le> length bs \<Longrightarrow> tmmb_parse_items n bs \<noteq> None"
proof (induction n arbitrary: bs)
  case (Suc n)
  then show ?case
    using Suc.IH [of "drop 8 bs"]
    by (auto simp: tmmb_item_parse_def kFixedTmmbItemSize_def read_inside Let_def)
qed simp

lemma tmmb_parse_body_total:
  assumes "payload_size h \<le> length (payload h)" "8 \<le> payload_size h"
  shows "tmmb_parse_body h \<noteq> None"
proof -
  have "tmmb_parse_items ((payload_size h - 8) div 8) (drop 8 (payload h)) \<noteq> None"
    using assms by (intro tmmb_parse_items_total) auto
  then show ?thesis
    using assms by (auto simp: tmmb_parse_body_def tmmb_defs read_inside Let_def split: option.splits)
qed

interpretation tmmbr_safe: safe_parser tmmbr_parse
  by standard (use tmmb_parse_body_total in \<open>auto simp: tmmbr_parse_def tmmb_defs not_less simp del: not_None_eq\<close>)

interpretation tmmbn_safe: safe_parser tmmbn_parse
  by standard (use tmmb_parse_body_total in \<open>auto simp: tmmbn_parse_def tmmb_defs not_less simp del: not_None_eq\<close>)

section \<open>Properties\<close>

text \<open>
  A bitrate request and a bitrate notification made of items whose overhead fits 9 bits parse
  back to the same sources and overheads, with every bitrate cut to its 17 most significant bits.
\<close>

theorem tmmb_roundtrip:
  assumes "tmmb_valid m" "tmmb_items m \<noteq> []" "tmmb_packet_size m \<le> max_size" "max_size \<le> kIpPacketSize"
    "length stack = kIpPacketSize"
  shows "\<exists>req note items. build (tmmbr_pack_into m) max_size True stack = Some (True, [req]) \<and>
    build (tmmbn_pack_into m) max_size True stack = Some (True, [note]) \<and>
    parse_received tmmbr_parse req (length req) = accept (m\<lparr>tmmb_items := items\<rparr>) \<and>
    parse_received tmmbn_parse note (length note) = accept (m\<lparr>tmmb_items := items\<rparr>) \<and>
    list_all2 (\<lambda>i j. \<exists>k\<le>47. j = i\<lparr>tmmb_bitrate_bps := push_bit k (drop_bit k (tmmb_bitrate_bps i))\<rparr> \<and>
      (k = 0 \<or> 2 ^ 17 \<le> drop_bit (k - 1) (tmmb_bitrate_bps i))) (tmmb_items m) items"
proof -
  have both: "tmmb_valid m \<and> tmmb_items m \<noteq> []" using assms by simp
  have "\<exists>k\<le>47. tmmb_item_decoded i = i\<lparr>tmmb_bitrate_bps := push_bit k (drop_bit k (tmmb_bitrate_bps i))\<rparr> \<and>
      (k = 0 \<or> 2 ^ 17 \<le> drop_bit (k - 1) (tmmb_bitrate_bps i))" for i
  proof -
    obtain k where k: "k \<le> 47" "k = 0 \<or> kMaxTmmbMantissa < drop_bit (k - 1) (tmmb_bitrate_bps i)"
      "scale_mantissa kMaxTmmbMantissa (tmmb_bitrate_bps i) (0 :: u32) = (drop_bit k (tmmb_bitrate_bps i), of_nat k)"
      "unat (of_nat k :: u32) = k"
      by (rule tmmb_item_scaled)
    then have "k = 0 \<or> 2 ^ 17 \<le> drop_bit (k - 1) (tmmb_bitrate_bps i)"
      using inc_le [of kMaxTmmbMantissa "drop_bit (k - 1) (tmmb_bitrate_bps i)"]
      by (auto simp: kMaxTmmbMantissa_def)
    with k show ?thesis by (intro exI [of _ k]) (simp add: tmmb_item_decoded_def)
  qed
  then show ?thesis
    using tmmbr.build_wire [OF both assms(3-)] tmmbr.parse_of_wire [OF both, of "[]"]
      tmmbn.build_wire [OF assms(1,3-)] tmmbn.parse_of_wire [OF assms(1), of "[]"]
    by (intro exI [of _ "tmmb_wire 3 m"] exI [of _ "tmmb_wire 4 m"] exI [of _ "map tmmb_item_decoded (tmmb_items m)"])
      (auto simp: parse_received_def tmmb_decoded_def list.rel_map intro!: list.rel_refl)
qed

definition example_tmmb :: tmmb where
  "example_tmmb = \<lparr>tmmb_sender_ssrc = 1, tmmb_media_ssrc = 0,
     tmmb_items = [\<lparr>tmmb_ssrc = 2, tmmb_bitrate_bps = 1000001, tmmb_packet_overhead = 40\<rparr>]\<rparr>"

theorem tmmb_roundtrip_witness:
  "\<exists>req note items. build (tmmbr_pack_into example_tmmb) 100 True (replicate 1500 0) = Some (True, [req]) \<and>
    build (tmmbn_pack_into example_tmmb) 100 True (replicate 1500 0) = Some (True, [note]) \<and>
    parse_received tmmbr_parse req (length req) = accept (example_tmmb\<lparr>tmmb_items := items\<rparr>) \<and>
    parse_received tmmbn_parse note (length note) = accept (example_tmmb\<lparr>tmmb_items := items\<rparr>) \<and>
    list_all2 (\<lambda>i j. \<exists>k\<le>47. j = i\<lparr>tmmb_bitrate_bps := push_bit k (drop_bit k (tmmb_bitrate_bps i))\<rparr> \<and>
      (k = 0 \<or> 2 ^ 17 \<le> drop_bit (k - 1) (tmmb_bitrate_bps i))) (tmmb_items example_tmmb) items"
  by (rule tmmb_roundtrip)
    (simp_all add: example_tmmb_def tmmb_valid_def tmmb_item_valid_def tmmb_defs kIpPacketSize_def)

end
