(* ===== verification/RtcpNack.thy ===== *)
theory RtcpNack
  imports RtcpBase
begin

text \<open>
  Generic negative acknowledgements, \<^verbatim>\<open>src/rtc/rtp_rtcp/rtcp/packets/nack.cpp\<close>: the
  compression of a list of sequence numbers into items of a first number and a bitmask, its
  inverse, and the packer, which splits a list over several packets.
\<close>

record fci_item =
  first_pid :: u16
  bitmask :: u16

record nack =
  nack_sender_ssrc :: u32
  nack_media_ssrc :: u32
  nack_fci_items :: "fci_item list"
  nack_packet_ids :: "u16 list"

definition kFciItemSize :: nat where "kFciItemSize = 4"

section \<open>Items and packet ids\<close>

text \<open>The inner loop: the ids that still fit the item, and the ids that are left.\<close>

fun nack_fill_item :: "fci_item \<Rightarrow> u16 list \<Rightarrow> fci_item \<times> u16 list" where
  "nack_fill_item item [] = (item, [])"
| "nack_fill_item item (x # xs) =
     (let shift = x - first_pid item - 1
      in if shift \<le> 15
         then nack_fill_item (item\<lparr>bitmask := bitmask item OR push_bit (unat shift) 1\<rparr>) xs
         else (item, x # xs))"

lemma nack_fill_item_rest: "length (snd (nack_fill_item item xs)) \<le> length xs"
  by (induction item xs rule: nack_fill_item.induct) (auto simp: Let_def)

function nack_fci_of_ids :: "u16 list \<Rightarrow> fci_item list" where
  "nack_fci_of_ids [] = []"
| "nack_fci_of_ids (x # xs) =
     (let r = nack_fill_item \<lparr>first_pid = x, bitmask = 0\<rparr> xs in fst r # nack_fci_of_ids (snd r))"
  by pat_completeness auto
termination
  by (relation "measure length") (auto simp: le_imp_less_Suc nack_fill_item_rest)

definition nack_pack_fci_items :: "nack \<Rightarrow> nack" where
  "nack_pack_fci_items n =
     (if nack_packet_ids n = [] then n
      else n\<lparr>nack_fci_items := nack_fci_of_ids (nack_packet_ids n)\<rparr>)"

definition nack_set_packet_ids :: "u16 list \<Rightarrow> nack \<Rightarrow> nack" where
  "nack_set_packet_ids nack_list n = nack_pack_fci_items (n\<lparr>nack_packet_ids := nack_list\<rparr>)"

text \<open>The overload on a pointer and a size: the pointer's array, \<open>None\<close> for a null pointer.\<close>

definition nack_set_packet_ids_from :: "u16 list option \<Rightarrow> nat \<Rightarrow> nack \<Rightarrow> nack" where
  "nack_set_packet_ids_from nack_list sz n =
     (case nack_list of None \<Rightarrow> n | Some xs \<Rightarrow> nack_set_packet_ids (take sz xs) n)"

function nack_unpack_bits :: "u16 \<Rightarrow> u16 \<Rightarrow> u16 list" where
  "nack_unpack_bits pid bits =
     (if bits \<noteq> 0
      then (if bits AND 1 \<noteq> 0 then [pid] else []) @ nack_unpack_bits (pid + 1) (drop_bit 1 bits)
      else [])"
  by pat_completeness auto
termination
proof (relation "measure (\<lambda>(pid, m). unat m)")
  fix pid m :: u16
  assume "m \<noteq> 0"
  then have "0 < unat m" by (simp add: unat_gt_0)
  moreover have "unat (drop_bit 1 m) = unat m div 2" by (simp add: drop_bit_eq_div unat_div)
  ultimately show "((pid + 1, drop_bit 1 m), (pid, m)) \<in> measure (\<lambda>(pid, m). unat m)" by simp
qed simp

declare nack_unpack_bits.simps [simp del]

definition nack_item_ids :: "fci_item \<Rightarrow> u16 list" where
  "nack_item_ids item = first_pid item # nack_unpack_bits (first_pid item + 1) (bitmask item)"

definition nack_unpack_fci_items :: "nack \<Rightarrow> nack" where
  "nack_unpack_fci_items n =
     (if nack_fci_items n = [] then n
      else n\<lparr>nack_packet_ids := concat (map nack_item_ids (nack_fci_items n))\<rparr>)"

section \<open>Parsing and packing\<close>

definition nack_packet_size :: "nack \<Rightarrow> nat" where
  "nack_packet_size n = 4 + kCommonFeedbackSize + length (nack_fci_items n) * kFciItemSize"

definition nack_read_item :: "byte list \<Rightarrow> fci_item option" where
  "nack_read_item next_nack = do {
     p \<leftarrow> read_be16 next_nack 0;
     m \<leftarrow> read_be16 next_nack 2;
     Some \<lparr>first_pid = p, bitmask = m\<rparr> }"

definition nack_parse :: "common_header \<Rightarrow> nack option option" where
  "nack_parse packet =
     (if packet_type packet \<noteq> 205 then reject
      else if count_or_fmt packet \<noteq> 1 then reject
      else if payload_size packet < kCommonFeedbackSize + kFciItemSize then reject
      else do {
        let fci_item_count = (payload_size packet - kCommonFeedbackSize) div kFciItemSize;
        ssrcs \<leftarrow> rtpfb_parse_common_feedback (payload packet) (ch_packet_size packet);
        items \<leftarrow> parse_items kFciItemSize nack_read_item fci_item_count
                   (drop kCommonFeedbackSize (payload packet));
        (case ssrcs of
           None \<Rightarrow> reject
         | Some (snd_ssrc, med) \<Rightarrow>
             accept (nack_unpack_fci_items
               \<lparr>nack_sender_ssrc = snd_ssrc, nack_media_ssrc = med, nack_fci_items = items,
                nack_packet_ids = []\<rparr>)) })"

fun nack_put_items :: "fci_item list \<Rightarrow> pack_state \<Rightarrow> pack_state option" where
  "nack_put_items [] s = Some s"
| "nack_put_items (i # is) s = do {
     s \<leftarrow> put_at 0 (be16 (first_pid i)) s;
     s \<leftarrow> put_at 2 (be16 (bitmask i)) s;
     nack_put_items is (advance kFciItemSize s) }"

definition kNackHeaderSize :: nat where "kNackHeaderSize = 4 + kCommonFeedbackSize"

text \<open>Subtraction of \<^verbatim>\<open>size_t\<close> values.\<close>

definition size_sub :: "nat \<Rightarrow> nat \<Rightarrow> nat" where
  "size_sub a b = (if b \<le> a then a - b else (a + 2 ^ 64 - b) mod 2 ^ 64)"

text \<open>
  The fragmentation loop; its argument is the items from \<^verbatim>\<open>fci_index\<close> on. A packet takes as many
  items as the space left in the buffer allows; without room for one item the buffer is flushed.
\<close>

function nack_pack_loop ::
  "nack \<Rightarrow> nat \<Rightarrow> bool \<Rightarrow> fci_item list \<Rightarrow> pack_state \<Rightarrow> (bool \<times> pack_state) option" where
  "nack_pack_loop n max_size callback items s =
     (if items = [] then Some (True, s)
      else (let bytes_left_in_buffer = size_sub max_size (pk_index s)
        in if bytes_left_in_buffer < kNackHeaderSize + kFciItemSize then
             (case on_buffer_full callback s of
                (False, s') \<Rightarrow> Some (False, s')
              | (True, s') \<Rightarrow> nack_pack_loop n max_size callback items s')
           else do {
             let fci_item_count =
               min ((bytes_left_in_buffer - kNackHeaderSize) div kFciItemSize) (length items);
             let curr_payload_size = kCommonFeedbackSize + fci_item_count * kFciItemSize;
             let index_end = pk_index s + nack_packet_size n;
             s \<leftarrow> pack_common_header 1 205 curr_payload_size False s;
             (ok, s) \<leftarrow> rtpfb_pack_common_feedback_into (nack_sender_ssrc n) (nack_media_ssrc n)
                         (size_sub index_end (pk_index s)) s;
             s \<leftarrow> nack_put_items (take fci_item_count items) (advance kCommonFeedbackSize s);
             if pk_index s \<le> max_size
             then nack_pack_loop n max_size callback (drop fci_item_count items) s
             else None }))"
  by pat_completeness auto
termination
  by (relation "measures [\<lambda>(n, m, cb, items, s). length items, \<lambda>(n, m, cb, items, s). pk_index s]")
    (auto simp: on_buffer_full_def kNackHeaderSize_def kFciItemSize_def kCommonFeedbackSize_def
      split: if_splits)

declare nack_pack_loop.simps [simp del]

definition nack_pack_into :: "nack \<Rightarrow> nat \<Rightarrow> bool \<Rightarrow> pack_state \<Rightarrow> (bool \<times> pack_state) option" where
  "nack_pack_into n max_size callback s =
     (if nack_fci_items n = [] then Some (False, s)
      else nack_pack_loop n max_size callback (nack_fci_items n) s)"

section \<open>Compression is faithful\<close>

lemma nack_unpack_bits_upto:
  "(\<And>i. k \<le> i \<Longrightarrow> \<not> bit m i) \<Longrightarrow>
     nack_unpack_bits pid m = map (\<lambda>i. pid + of_nat i) (filter (bit m) [0..<k])"
proof (induction k arbitrary: pid m)
  case 0
  then have "m = 0" by (intro bit_word_eqI) simp
  then show ?case by (simp add: nack_unpack_bits.simps)
next
  case (Suc k)
  have bits: "bit (drop_bit 1 m) = bit m \<circ> Suc" by (auto simp: bit_drop_bit_eq fun_eq_iff)
  have one: "m AND 1 \<noteq> 0 \<longleftrightarrow> bit m 0" using and_exp_eq_0_iff_not_bit [of m 0] by simp
  have upt: "[0..<Suc k] = 0 # map Suc [0..<k]" by (simp add: map_Suc_upt upt_conv_Cons del: upt_Suc)
  have ih: "nack_unpack_bits (pid + 1) (drop_bit 1 m) =
      map (\<lambda>i. pid + 1 + of_nat i) (filter (bit m \<circ> Suc) [0..<k])"
    using Suc.prems unfolding bits [symmetric] by (intro Suc.IH) (simp only: bits comp_def not_False_eq_True Suc_le_mono)
  show ?case
  proof (cases "m = 0")
    case False
    then have "nack_unpack_bits pid m = (if bit m 0 then [pid] else []) @
        map (\<lambda>i. pid + 1 + of_nat i) (filter (bit m \<circ> Suc) [0..<k])"
      by (simp only: nack_unpack_bits.simps [of pid m] if_True not_False_eq_True one ih)
    then show ?thesis
      unfolding upt by (simp only: filter.simps filter_map list.map map_map) (simp add: comp_def ac_simps)
  qed (simp add: nack_unpack_bits.simps)
qed

lemma nack_unpack_bits_eq:
  "nack_unpack_bits pid m = map (\<lambda>i. pid + of_nat i) (filter (bit m) [0..<16])"
  by (rule nack_unpack_bits_upto) (auto dest: bit_imp_le_length)

lemma nack_item_ids_eq:
  "nack_item_ids item = first_pid item #
     map (\<lambda>i. first_pid item + 1 + of_nat i) (filter (bit (bitmask item)) [0..<16])"
  by (simp add: nack_item_ids_def nack_unpack_bits_eq)

text \<open>Adding a bit above the bits already set appends one id; adding any bit adds one id to the set.\<close>

lemma nack_item_add:
  fixes x :: u16
  assumes "x - first_pid item - 1 \<le> 15"
  defines "k \<equiv> unat (x - first_pid item - 1)"
  defines "item' \<equiv> item\<lparr>bitmask := bitmask item OR push_bit k 1\<rparr>"
  shows "k \<le> 15" "first_pid item + 1 + of_nat k = x"
    "set (nack_item_ids item') = insert x (set (nack_item_ids item))"
    "(\<And>i. k \<le> i \<Longrightarrow> \<not> bit (bitmask item) i) \<Longrightarrow> nack_item_ids item' = nack_item_ids item @ [x]"
proof -
  show k: "k \<le> 15" using assms by (simp add: word_le_nat_alt)
  show x: "first_pid item + 1 + of_nat k = x" by (simp add: k_def)
  have bits: "bit (bitmask item') i \<longleftrightarrow> bit (bitmask item) i \<or> i = k" for i
    using k by (auto simp: item'_def bit_simps)
  have same: "first_pid item' = first_pid item" by (simp add: item'_def)
  show "set (nack_item_ids item') = insert x (set (nack_item_ids item))"
    using k x by (auto simp: nack_item_ids_eq bits same)
  assume top: "\<And>i. k \<le> i \<Longrightarrow> \<not> bit (bitmask item) i"
  have upt: "[0..<16] = [0..<k] @ k # [Suc k..<16]" 
    using k upt_add_eq_append [of 0 k "16 - k"] by (simp add: upt_conv_Cons)
  have "filter (bit (bitmask item')) [0..<16] = filter (bit (bitmask item)) [0..<16] @ [k]"
    unfolding upt by (auto simp: bits top filter_empty_conv intro: filter_cong)
  then show "nack_item_ids item' = nack_item_ids item @ [x]"
    using x by (simp add: nack_item_ids_eq same)
qed

lemma nack_fill_item_set:
  "nack_fill_item item xs = (item', rest) \<Longrightarrow>
     set (nack_item_ids item') \<union> set rest = set (nack_item_ids item) \<union> set xs"
proof (induction item xs arbitrary: item' rest rule: nack_fill_item.induct)
  case (2 item x xs)
  show ?case
  proof (cases "x - first_pid item - 1 \<le> 15")
    case True
    then show ?thesis
      using 2 nack_item_add(3) [OF True] by (fastforce simp: Let_def)
  qed (use 2 in \<open>auto simp: Let_def\<close>)
qed auto

lemma nack_fci_of_ids_set: "set (concat (map nack_item_ids (nack_fci_of_ids ids))) = set ids"
proof (induction ids rule: nack_fci_of_ids.induct)
  case (2 x xs)
  obtain item rest where r: "nack_fill_item \<lparr>first_pid = x, bitmask = 0\<rparr> xs = (item, rest)" by fastforce
  then show ?case
    using 2 nack_fill_item_set [OF r] by (simp add: nack_item_ids_eq [of "\<lparr>first_pid = x, bitmask = 0\<rparr>"])
qed simp

lemma nack_fill_item_order:
  fixes base :: u16
  assumes "sorted_wrt (<) (n0 # ns)" "\<forall>n\<in>set ns. n < 65536" "first_pid item = base + of_nat n0"
    "\<And>i n. bit (bitmask item) i \<Longrightarrow> n \<in> set ns \<Longrightarrow> n0 + 1 + i < n"
  shows "\<exists>item' ns1 ns2. ns = ns1 @ ns2 \<and>
    nack_fill_item item (map (\<lambda>n. base + of_nat n) ns) = (item', map (\<lambda>n. base + of_nat n) ns2) \<and>
    nack_item_ids item' = nack_item_ids item @ map (\<lambda>n. base + of_nat n) ns1"
  using assms
proof (induction ns arbitrary: item)
  case Nil
  then show ?case by simp
next
  case (Cons n ns)
  let ?f = "\<lambda>n. base + of_nat n :: u16"
  let ?shift = "?f n - first_pid item - 1"
  have s: "?shift = of_nat (n - n0 - 1)" using Cons.prems by (simp add: of_nat_diff)
  have shift: "unat ?shift = n - n0 - 1"
    unfolding s using Cons.prems by (intro unat_of_nat_small) auto
  show ?case
  proof (cases "?shift \<le> 15")
    case True
    let ?item = "item\<lparr>bitmask := bitmask item OR push_bit (unat ?shift) 1\<rparr>"
    have k: "n - n0 - 1 \<le> 15" using True unfolding word_le_nat_alt shift by simp
    have "\<exists>item' ns1 ns2. ns = ns1 @ ns2 \<and> nack_fill_item ?item (map ?f ns) = (item', map ?f ns2) \<and>
        nack_item_ids item' = nack_item_ids ?item @ map ?f ns1"
    proof (rule Cons.IH)
      fix i m assume bit: "bit (bitmask ?item) i" and m: "m \<in> set ns"
      have "bit (bitmask item) i \<or> i = n - n0 - 1" using bit shift by (auto simp: bit_simps)
      then show "n0 + 1 + i < m"
        using Cons.prems(4) [of i m] m Cons.prems(1) by auto
    qed (use Cons.prems in auto)
    moreover have "nack_item_ids ?item = nack_item_ids item @ [?f n]"
    proof (rule nack_item_add(4) [OF True])
      show "\<not> bit (bitmask item) i" if "unat ?shift \<le> i" for i
        using Cons.prems(4) [of i n] that shift by auto
    qed
    ultimately obtain item' ns1 ns2 where "ns = ns1 @ ns2"
      "nack_fill_item ?item (map ?f ns) = (item', map ?f ns2)"
      "nack_item_ids item' = nack_item_ids item @ map ?f (n # ns1)" by auto
    with True show ?thesis
      by (intro exI [of _ item'] exI [of _ "n # ns1"] exI [of _ ns2]) (simp add: Let_def)
  next
    case False
    then show ?thesis
      by (intro exI [of _ item] exI [of _ "[]"] exI [of _ "n # ns"]) (simp add: Let_def)
  qed
qed

lemma nack_fci_of_ids_order:
  fixes base :: u16
  assumes "sorted_wrt (<) ns" "\<forall>n\<in>set ns. n < 65536"
  shows "concat (map nack_item_ids (nack_fci_of_ids (map (\<lambda>n. base + of_nat n) ns))) =
    map (\<lambda>n. base + of_nat n) ns"
  using assms
proof (induction "length ns" arbitrary: ns rule: less_induct)
  case less
  show ?case
  proof (cases ns)
    case (Cons n ns')
    let ?f = "\<lambda>n. base + of_nat n :: u16"
    obtain item ns1 ns2 where split: "ns' = ns1 @ ns2"
      "nack_fill_item \<lparr>first_pid = ?f n, bitmask = 0\<rparr> (map ?f ns') = (item, map ?f ns2)"
      "nack_item_ids item = nack_item_ids \<lparr>first_pid = ?f n, bitmask = 0\<rparr> @ map ?f ns1"
      using nack_fill_item_order [of n ns' "\<lparr>first_pid = ?f n, bitmask = 0\<rparr>" base] less.prems Cons by auto
    have "concat (map nack_item_ids (nack_fci_of_ids (map ?f ns2))) = map ?f ns2"
      using less.prems by (intro less.hyps) (auto simp: Cons split(1) sorted_wrt_append)
    then show ?thesis
      using split by (simp add: Cons nack_item_ids_eq [of "\<lparr>first_pid = ?f n, bitmask = 0\<rparr>"])
  qed simp
qed

section \<open>Packets\<close>

lemmas nack_sizes = kFciItemSize_def kNackHeaderSize_def kCommonFeedbackSize_def

definition fci_wire :: "fci_item \<Rightarrow> byte list" where
  "fci_wire i = be16 (first_pid i) @ be16 (bitmask i)"

definition nack_wire :: "nack \<Rightarrow> fci_item list \<Rightarrow> byte list" where
  "nack_wire n items = header_bytes 1 205 (8 + length items * 4) @ be32 (nack_sender_ssrc n) @
     be32 (nack_media_ssrc n) @ concat (map fci_wire items)"

lemma length_fci_wire [simp]: "length (fci_wire i) = 4"
  by (simp add: fci_wire_def)

lemma length_nack_wire [simp]: "length (nack_wire n items) = 12 + length items * 4"
  by (simp add: nack_wire_def length_concat_map_const [where w = 4])

lemma nack_put_items_put: "nack_put_items is s = put_items fci_wire is s"
  by (induction "is" arbitrary: s) (simp_all add: fci_wire_def kFciItemSize_def wire_simps)

lemma nack_read_item_wire: "nack_read_item (fci_wire i @ rest) = Some i"
  by (simp add: nack_read_item_def fci_wire_def wire_simps)

definition nack_of_items :: "nack \<Rightarrow> fci_item list \<Rightarrow> nack" where
  "nack_of_items n items = \<lparr>nack_sender_ssrc = nack_sender_ssrc n, nack_media_ssrc = nack_media_ssrc n,
     nack_fci_items = items, nack_packet_ids = concat (map nack_item_ids items)\<rparr>"

lemma nack_parse_wire:
  assumes "items \<noteq> []" "length items < 16381"
  shows "parse_received nack_parse (nack_wire n items @ rest) (length (nack_wire n items @ rest)) =
    accept (nack_of_items n items)"
proof -
  have some: "0 < length items" using assms by simp
  have "\<exists>h. common_header_parse (nack_wire n items @ rest) (length (nack_wire n items @ rest)) = accept h \<and>
      ch_packet_size h = 12 + length items * 4 \<and> next_packet h = rest \<and>
      nack_parse h = accept (nack_of_items n items)"
  proof (rule wire_parseI)
    show "nack_wire n items = header_bytes 1 205 (8 + length items * 4) @ drop 4 (nack_wire n items)"
      by (simp add: nack_wire_def)
    show "nack_parse \<lparr>packet_type = 205, count_or_fmt = of_nat 1, padding_size = 0,
        payload_size = 8 + length items * 4, payload = drop 4 (nack_wire n items) @ rest\<rparr> =
      accept (nack_of_items n items)"
      using assms some parse_items_concat [of items nack_read_item fci_wire 4 "length items" rest]
      by (simp add: nack_parse_def nack_sizes nack_wire_def rtpfb_parse_common_feedback_def wire_simps
          nack_read_item_wire pack_simps ch_packet_size_def kFixedHeaderSize_def nack_unpack_fci_items_def
          nack_of_items_def)
  qed (use assms in \<open>auto simp: mod_add_eq\<close>)
  then show ?thesis by (auto simp: parse_received_def)
qed

interpretation nack_safe: safe_parser nack_parse
proof
  fix h :: common_header
  assume h: "payload_size h \<le> length (payload h)"
  have "\<exists>xs. parse_items 4 nack_read_item ((payload_size h - 8) div 4) (drop 8 (payload h)) = Some xs"
    using h parse_items_total [of 4 nack_read_item "(payload_size h - 8) div 4" "drop 8 (payload h)"]
    by (force simp: nack_read_item_def read_inside)
  then show "nack_parse h \<noteq> None"
    using h by (auto simp: nack_parse_def nack_sizes rtpfb_parse_common_feedback_def read_inside not_less
        Let_def ch_packet_size_def split: option.splits)
qed

section \<open>Fragmentation\<close>

lemma nack_pack_done [simp]: "nack_pack_loop n max_size cb [] s = Some (True, s)"
  by (simp add: nack_pack_loop.simps)

lemma nack_pack_flush:
  assumes "items \<noteq> []" "pk_index s \<le> max_size" "max_size < pk_index s + 16"
  shows "nack_pack_loop n max_size cb items s =
    (if pk_index s = 0 \<or> \<not> cb then Some (False, s)
     else nack_pack_loop n max_size cb items
       (s\<lparr>pk_ready := pk_ready s @ [take (pk_index s) (pk_buffer s)], pk_index := 0\<rparr>))"
  using assms
  by (subst nack_pack_loop.simps) (auto simp: size_sub_def nack_sizes on_buffer_full_def Let_def)

lemma nack_pack_step:
  assumes "items \<noteq> []" "pk_index s + 16 \<le> max_size" "max_size \<le> 0xFFFF"
  defines "c \<equiv> min ((max_size - pk_index s - 12) div 4) (length items)"
  shows "nack_pack_loop n max_size cb items s =
    Option.bind (put_at 0 (nack_wire n (take c items)) s)
      (\<lambda>t. nack_pack_loop n max_size cb (drop c items) (advance (12 + c * 4) t))"
proof -
  have c: "c * 4 \<le> max_size - pk_index s - 12" "length (take c items) = c" "8 + c * 4 \<le> 0xFFFF"
    using assms(2,3) by (auto simp: c_def)
  have room: "\<not> size_sub max_size (pk_index s) < 16"
    and count: "min ((size_sub max_size (pk_index s) - 12) div 4) (length items) = c"
    using assms(2) by (auto simp: size_sub_def c_def)
  let ?pay = "be32 (nack_sender_ssrc n) @ be32 (nack_media_ssrc n)"
  have "nack_pack_loop n max_size cb items s =
      Option.bind (put_at 0 (header_bytes 1 205 (8 + c * 4) @ ?pay) s) (\<lambda>t.
      Option.bind (put_items fci_wire (take c items) (advance 12 t)) (\<lambda>t.
        if pk_index t \<le> max_size then nack_pack_loop n max_size cb (drop c items) t else None))"
    using assms(1) c(3) room
    by (subst nack_pack_loop.simps)
      (simp add: size_sub_def [of "a + b" for a b] kFciItemSize_def kNackHeaderSize_def kCommonFeedbackSize_def
        wire_simps pack_simps nack_packet_size_def nack_put_items_put count)
  also have "\<dots> = Option.bind (put_at 0 (nack_wire n (take c items)) s) (\<lambda>t.
      if pk_index (advance (12 + c * 4) t) \<le> max_size
      then nack_pack_loop n max_size cb (drop c items) (advance (12 + c * 4) t) else None)"
    using c(2) by (simp add: wire_simps nack_wire_def length_concat_map_const [where w = 4] cong: if_cong)
  also have "\<dots> = Option.bind (put_at 0 (nack_wire n (take c items)) s) 
      (\<lambda>t. nack_pack_loop n max_size cb (drop c items) (advance (12 + c * 4) t))"
    using c(1) assms(2) by (intro bind_put_at_cong) simp
  finally show ?thesis .
qed

text \<open>The split of a list into the pieces that one packet takes.\<close>

fun chunks :: "nat \<Rightarrow> 'a list \<Rightarrow> 'a list list" where
  "chunks c [] = []"
| "chunks c (x # xs) = (x # take (c - 1) xs) # chunks c (drop (c - 1) xs)"

lemma chunks_step: "xs \<noteq> [] \<Longrightarrow> 0 < c \<Longrightarrow> chunks c xs = take c xs # chunks c (drop c xs)"
  by (cases xs; cases c) auto

lemma concat_map_concat: "concat (map f (concat xss)) = concat (map (\<lambda>xs. concat (map f xs)) xss)"
  by (induction xss) auto

lemma concat_chunks: "concat (chunks c xs) = xs"
  by (induction c xs rule: chunks.induct) auto

lemma chunks_bound: "0 < c \<Longrightarrow> ys \<in> set (chunks c xs) \<Longrightarrow> ys \<noteq> [] \<and> length ys \<le> c"
  by (induction c xs rule: chunks.induct) auto

text \<open>From an empty buffer: every piece but the last is delivered, the last one is in the buffer.\<close>

lemma nack_pack_fragments:
  assumes "items \<noteq> []" "pk_index s = 0" "16 \<le> max_size" "max_size \<le> 0xFFFF"
    "max_size \<le> length (pk_buffer s)"
  shows "\<exists>t. nack_pack_loop n max_size True items s = Some (True, t) \<and> 0 < pk_index t \<and>
    pk_ready t @ [take (pk_index t) (pk_buffer t)] =
      pk_ready s @ map (nack_wire n) (chunks ((max_size - 12) div 4) items)"
  using assms
proof (induction "length items" arbitrary: items s rule: less_induct)
  case less
  let ?c = "(max_size - 12) div 4" and ?m = "min ((max_size - 12) div 4) (length items)"
  have c: "0 < ?c" using less.prems by simp
  have take: "take ?m items = take ?c items" "drop ?m items = drop ?c items" by (auto simp: min_def)
  let ?w = "nack_wire n (take ?c items)"
  define u where "u = s\<lparr>pk_buffer := ?w @ drop (length ?w) (pk_buffer s), pk_index := length ?w\<rparr>"
  have w: "length ?w = 12 + ?m * 4" "length ?w \<le> max_size" using less.prems by (auto simp: min_def)
  have step: "nack_pack_loop n max_size True items s = nack_pack_loop n max_size True (drop ?c items) u"
    using nack_pack_step [of items s max_size n True] less.prems w
    by (simp add: put_at_def wr_def take advance_def u_def)
  have u: "pk_index u = length ?w" "pk_ready u = pk_ready s" "take (pk_index u) (pk_buffer u) = ?w"
    "length (pk_buffer u) = length (pk_buffer s)"
    using w less.prems by (simp_all add: u_def)
  have chunks: "chunks ?c items = take ?c items # chunks ?c (drop ?c items)"
    using less.prems c by (intro chunks_step)
  show ?case
  proof (cases "drop ?c items = []")
    case True
    then show ?thesis unfolding step chunks using u w by simp
  next
    case False
    define v where "v = u\<lparr>pk_ready := pk_ready u @ [take (pk_index u) (pk_buffer u)], pk_index := 0\<rparr>"
    have "?m = ?c" using False by simp
    then have full: "max_size < pk_index u + 16" "0 < pk_index u" using u(1) w(1) less.prems by linarith+
    have flush: "nack_pack_loop n max_size True (drop ?c items) u = nack_pack_loop n max_size True (drop ?c items) v"
      using nack_pack_flush [OF False, of u max_size n True] full u(1) w(2) by (simp add: v_def)
    have "\<exists>t. nack_pack_loop n max_size True (drop ?c items) v = Some (True, t) \<and> 0 < pk_index t \<and>
        pk_ready t @ [take (pk_index t) (pk_buffer t)] =
          pk_ready v @ map (nack_wire n) (chunks ?c (drop ?c items))"
      using less.prems c False u by (intro less.hyps) (auto simp: v_def)
    then show ?thesis
      unfolding step flush chunks using u by (simp add: v_def)
  qed
qed

text \<open>The packer never looks at the packet ids, only at the items.\<close>

lemma nack_pack_loop_ids:
  "nack_pack_loop (n\<lparr>nack_packet_ids := ids\<rparr>) max_size cb items s = nack_pack_loop n max_size cb items s"
proof (induction n max_size cb items s rule: nack_pack_loop.induct)
  case (1 n max_size cb items s)
  show ?case
    apply (subst (1 2) nack_pack_loop.simps)
    using 1 by (auto simp: Let_def nack_packet_size_def split: prod.splits bool.splits intro!: bind_option_cong)
qed

section \<open>Properties\<close>

text \<open>
  The compression of a list of lost sequence numbers loses none and adds none; a list in
  increasing order across the wrap-around, of any first number, is even restored in order.
\<close>

theorem nack_compression:
  fixes base :: u16
  assumes "sorted_wrt (<) ns" "\<forall>n\<in>set ns. n < 65536"
  shows "set (concat (map nack_item_ids (nack_fci_of_ids ids))) = set ids \<and>
    concat (map nack_item_ids (nack_fci_of_ids (map (\<lambda>n. base + of_nat n) ns))) = map (\<lambda>n. base + of_nat n) ns"
  using assms by (simp add: nack_fci_of_ids_set nack_fci_of_ids_order del: set_concat set_map)

theorem nack_compression_witness:
  "set (concat (map nack_item_ids (nack_fci_of_ids [9, 3]))) = set [9, 3] \<and>
    concat (map nack_item_ids (nack_fci_of_ids (map (\<lambda>n. 65530 + of_nat n) [0, 3, 10, 40]))) =
      map (\<lambda>n. 65530 + of_nat n :: u16) [0, 3, 10, 40]"
  by (rule nack_compression) simp_all

text \<open>
  C12. Building a NACK for a nonempty list delivers a sequence of packets, each within the size
  limit and each parsing as a NACK of the same sources, whose packet ids together are exactly the
  given ids: fragmentation drops and repeats nothing.
\<close>

theorem nack_build_delivers_all:
  assumes "ids \<noteq> []" "16 \<le> max_size" "max_size \<le> kIpPacketSize" "length stack = kIpPacketSize"
  shows "\<exists>packets nacks.
    build (nack_pack_into (nack_set_packet_ids ids n)) max_size True stack = Some (True, packets) \<and>
    list_all2 (\<lambda>p q. length p \<le> max_size \<and> parse_received nack_parse p (length p) = accept q \<and>
      nack_sender_ssrc q = nack_sender_ssrc n \<and> nack_media_ssrc q = nack_media_ssrc n) packets nacks \<and>
    concat (map nack_fci_items nacks) = nack_fci_of_ids ids \<and>
    set (concat (map nack_packet_ids nacks)) = set ids"
proof -
  let ?n = "nack_set_packet_ids ids n" and ?c = "(max_size - 12) div 4"
  have n: "nack_fci_items ?n = nack_fci_of_ids ids" "nack_sender_ssrc ?n = nack_sender_ssrc n"
    "nack_media_ssrc ?n = nack_media_ssrc n"
    using assms(1) by (simp_all add: nack_set_packet_ids_def nack_pack_fci_items_def)
  have items: "nack_fci_of_ids ids \<noteq> []" using assms(1) by (cases ids) (auto simp: Let_def)
  let ?cs = "chunks ?c (nack_fci_of_ids ids)"
  let ?s = "\<lparr>pk_buffer = stack, pk_index = 0, pk_ready = []\<rparr>"
  obtain t where t: "nack_pack_loop ?n max_size True (nack_fci_of_ids ids) ?s = Some (True, t)"
    "0 < pk_index t" "pk_ready t @ [take (pk_index t) (pk_buffer t)] = map (nack_wire ?n) ?cs"
    using nack_pack_fragments [OF items, of ?s max_size ?n] assms by (auto simp: kIpPacketSize_def)
  have built: "build (nack_pack_into ?n) max_size True stack = Some (True, map (nack_wire ?n) ?cs)"
    using t items assms by (simp add: build_def nack_pack_into_def n on_buffer_full_def)
  have "length (nack_wire ?n cs) \<le> max_size \<and>
      parse_received nack_parse (nack_wire ?n cs) (length (nack_wire ?n cs)) = accept (nack_of_items ?n cs)"
    if "cs \<in> set ?cs" for cs
  proof -
    have "cs \<noteq> [] \<and> length cs \<le> ?c" using assms that by (intro chunks_bound) auto
    then show ?thesis
      using nack_parse_wire [of cs ?n "[]"] assms by (auto simp: kIpPacketSize_def)
  qed
  then have each: "list_all2 (\<lambda>p q. length p \<le> max_size \<and> parse_received nack_parse p (length p) = accept q \<and>
      nack_sender_ssrc q = nack_sender_ssrc n \<and> nack_media_ssrc q = nack_media_ssrc n)
      (map (nack_wire ?n) ?cs) (map (nack_of_items ?n) ?cs)"
    by (auto simp: list.rel_map nack_of_items_def n intro!: list.rel_refl_strong)
  have "concat (map nack_fci_items (map (nack_of_items ?n) ?cs)) = nack_fci_of_ids ids"
    by (simp add: nack_of_items_def comp_def concat_chunks)
  moreover have "concat (map nack_packet_ids (map (nack_of_items ?n) ?cs)) =
      concat (map nack_item_ids (concat ?cs))"
    by (simp add: nack_of_items_def comp_def concat_map_concat)
  ultimately show ?thesis
    using built each nack_fci_of_ids_set [of ids] unfolding concat_chunks
    by (intro exI [of _ "map (nack_wire ?n) ?cs"] exI [of _ "map (nack_of_items ?n) ?cs"]) simp
qed

theorem nack_build_delivers_all_witness:
  "\<exists>packets nacks.
    build (nack_pack_into (nack_set_packet_ids [1, 100, 200, 300]
      \<lparr>nack_sender_ssrc = 7, nack_media_ssrc = 8, nack_fci_items = [], nack_packet_ids = []\<rparr>)) 20 True
      (replicate 1500 0) = Some (True, packets) \<and>
    list_all2 (\<lambda>p q. length p \<le> 20 \<and> parse_received nack_parse p (length p) = accept q \<and>
      nack_sender_ssrc q = nack_sender_ssrc
        \<lparr>nack_sender_ssrc = 7, nack_media_ssrc = 8, nack_fci_items = [], nack_packet_ids = []\<rparr> \<and>
      nack_media_ssrc q = nack_media_ssrc
        \<lparr>nack_sender_ssrc = 7, nack_media_ssrc = 8, nack_fci_items = [], nack_packet_ids = []\<rparr>) packets nacks \<and>
    concat (map nack_fci_items nacks) = nack_fci_of_ids [1, 100, 200, 300] \<and>
    set (concat (map nack_packet_ids nacks)) = set [1, 100, 200, 300]"
  by (rule nack_build_delivers_all) (simp_all add: kIpPacketSize_def)

text \<open>
  C29. Clearing the packet ids does not clear the items: after \<^verbatim>\<open>set_packet_ids\<close> with an empty list
  the object still packs, and sends, every sequence number of the previous list.
\<close>

theorem nack_clearing_ids_keeps_items:
  "nack_packet_ids (nack_set_packet_ids [] n) = [] \<and>
   nack_pack_into (nack_set_packet_ids [] n) max_size cb s = nack_pack_into n max_size cb s"
  by (simp add: nack_set_packet_ids_def nack_pack_fci_items_def nack_pack_into_def nack_pack_loop_ids)

end
