(* ===== verification/RtcpSdes.thy ===== *)
theory RtcpSdes
  imports RtcpBase
begin

text \<open>
  Source descriptions, \<^verbatim>\<open>src/rtc/rtp_rtcp/rtcp/packets/sdes.cpp\<close>: one chunk per source, each
  with one canonical name; the parser skips other items and chunks without a name.
\<close>

record sdes_chunk =
  chunk_ssrc :: u32
  chunk_cname :: "byte list"

record sdes =
  sdes_chunks :: "sdes_chunk list"
  sdes_packet_size_field :: nat

definition kChunkBaseSize :: nat where "kChunkBaseSize = 8"

definition calculate_chunk_size :: "sdes_chunk \<Rightarrow> nat" where
  "calculate_chunk_size c =
     (let chunk_payload_size = 4 + 1 + 1 + length (chunk_cname c)
      in chunk_payload_size + (4 - chunk_payload_size mod 4))"

definition sdes_new :: sdes where
  "sdes_new = \<lparr>sdes_chunks = [], sdes_packet_size_field = 4\<rparr>"

definition sdes_packet_size :: "sdes \<Rightarrow> nat" where
  "sdes_packet_size s = sdes_packet_size_field s"

definition sdes_add_cname :: "u32 \<Rightarrow> byte list \<Rightarrow> sdes \<Rightarrow> bool \<times> sdes" where
  "sdes_add_cname ssrc cname s =
     (if length cname > 0xFF then (False, s)
      else if length (sdes_chunks s) \<ge> 0x1F then (False, s)
      else (let c = \<lparr>chunk_ssrc = ssrc, chunk_cname = cname\<rparr>
        in (True, \<lparr>sdes_chunks = sdes_chunks s @ [c],
                  sdes_packet_size_field = sdes_packet_size_field s + calculate_chunk_size c\<rparr>)))"

text \<open>
  The items of one chunk, from the item type at \<open>i\<close> on: the index after the terminator and the name
  found, if any.
\<close>

function sdes_parse_items ::
  "byte list \<Rightarrow> nat \<Rightarrow> nat \<Rightarrow> byte list option \<Rightarrow> (nat \<times> byte list option) option option" where
  "sdes_parse_items p psize i cname = do {
     item_type \<leftarrow> rd p i;
     let i = i + 1;
     if item_type = 0 then accept (i, cname)
     else if i \<ge> psize then reject
     else do {
       item_length \<leftarrow> map_option unat (rd p i);
       let i = i + 1;
       if i + item_length + 1 > psize then reject
       else if item_type = 1 then
         (if cname \<noteq> None then reject
          else do {
            name \<leftarrow> rd_bytes p i item_length;
            sdes_parse_items p psize (i + item_length) (Some name) })
       else sdes_parse_items p psize (i + item_length) cname } }"
  by pat_completeness auto
termination by (relation "measure (\<lambda>(p, psize, i, cname). psize - i)") auto

declare sdes_parse_items.simps [simp del]

text \<open>The chunks that are still expected, from index \<open>i\<close> on, and the packet size they add.\<close>

fun sdes_parse_chunks :: "nat \<Rightarrow> byte list \<Rightarrow> nat \<Rightarrow> nat \<Rightarrow> (sdes_chunk list \<times> nat) option option" where
  "sdes_parse_chunks 0 p psize i = accept ([], 0)"
| "sdes_parse_chunks (Suc n) p psize i =
     (if psize - i < kChunkBaseSize then reject
      else do {
        ssrc \<leftarrow> read_be32 p i;
        items \<leftarrow> sdes_parse_items p psize (i + 4) None;
        (case items of
           None \<Rightarrow> reject
         | Some (j, cname) \<Rightarrow> do {
             rest \<leftarrow> sdes_parse_chunks n p psize (j + (psize - j) mod 4);
             Some (map_option (\<lambda>(cs, sz).
               case cname of
                 None \<Rightarrow> (cs, sz)
               | Some name \<Rightarrow>
                   (let c = \<lparr>chunk_ssrc = ssrc, chunk_cname = name\<rparr>
                    in (c # cs, calculate_chunk_size c + sz))) rest) }) })"

definition sdes_parse :: "common_header \<Rightarrow> sdes option option" where
  "sdes_parse packet =
     (if packet_type packet \<noteq> 202 then reject
      else if payload_size packet mod 4 \<noteq> 0 then reject
      else do {
        r \<leftarrow> sdes_parse_chunks (unat (count_or_fmt packet)) (payload packet) (payload_size packet) 0;
        Some (map_option (\<lambda>(cs, sz). \<lparr>sdes_chunks = cs, sdes_packet_size_field = 4 + sz\<rparr>) r) })"

fun sdes_pack_chunks :: "sdes_chunk list \<Rightarrow> pack_state \<Rightarrow> pack_state option" where
  "sdes_pack_chunks [] s = Some s"
| "sdes_pack_chunks (c # cs) s = do {
     s \<leftarrow> put_at 0 (be32 (chunk_ssrc c)) s;
     s \<leftarrow> put_at 4 [1] s;
     s \<leftarrow> put_at 5 [of_nat (length (chunk_cname c))] s;
     s \<leftarrow> put_at 6 (chunk_cname c) s;
     let chunk_size = 6 + length (chunk_cname c);
     let s = advance chunk_size s;
     let pad = 4 - chunk_size mod 4;
     s \<leftarrow> put_at 0 (replicate pad 0) s;
     sdes_pack_chunks cs (advance pad s) }"

definition sdes_pack_into :: "sdes \<Rightarrow> nat \<Rightarrow> bool \<Rightarrow> pack_state \<Rightarrow> (bool \<times> pack_state) option" where
  "sdes_pack_into d max_size callback s0 =
     (case make_room (sdes_packet_size d) max_size callback s0 of
        (False, s) \<Rightarrow> Some (False, s)
      | (True, s) \<Rightarrow> do {
          let index_end = pk_index s + sdes_packet_size d;
          n \<leftarrow> packet_size_without_common_header (sdes_packet_size d);
          s \<leftarrow> pack_common_header (length (sdes_chunks d)) 202 n False s;
          s \<leftarrow> sdes_pack_chunks (sdes_chunks d) s;
          assert_index index_end s })"

section \<open>Invariant\<close>

definition sdes_chunk_valid :: "sdes_chunk \<Rightarrow> bool" where
  "sdes_chunk_valid c \<longleftrightarrow> length (chunk_cname c) \<le> 0xFF"

definition sdes_valid :: "sdes \<Rightarrow> bool" where
  "sdes_valid d \<longleftrightarrow> length (sdes_chunks d) \<le> 0x1F \<and> (\<forall>c\<in>set (sdes_chunks d). sdes_chunk_valid c) \<and>
     sdes_packet_size_field d = 4 + sum_list (map calculate_chunk_size (sdes_chunks d))"

lemma sdes_new_valid [simp]: "sdes_valid sdes_new"
  by (simp add: sdes_valid_def sdes_new_def)

lemma sdes_add_cname_valid: "sdes_valid d \<Longrightarrow> sdes_valid (snd (sdes_add_cname ssrc cname d))"
  by (auto simp: sdes_valid_def sdes_chunk_valid_def sdes_add_cname_def Let_def)

section \<open>Wire image\<close>

definition sdes_chunk_wire :: "sdes_chunk \<Rightarrow> byte list" where
  "sdes_chunk_wire c = be32 (chunk_ssrc c) @ [1, of_nat (length (chunk_cname c))] @ chunk_cname c @
     replicate (4 - (6 + length (chunk_cname c)) mod 4) 0"

definition sdes_wire :: "sdes \<Rightarrow> byte list" where
  "sdes_wire d = header_bytes (length (sdes_chunks d)) 202 (sum_list (map calculate_chunk_size (sdes_chunks d))) @
     concat (map sdes_chunk_wire (sdes_chunks d))"

lemma chunk_size_mod: "calculate_chunk_size c mod 4 = 0"
  unfolding calculate_chunk_size_def Let_def by presburger

lemma chunk_size_bounds: "8 \<le> calculate_chunk_size c" "sdes_chunk_valid c \<Longrightarrow> calculate_chunk_size c \<le> 264"
  by (simp_all add: calculate_chunk_size_def sdes_chunk_valid_def Let_def) presburger+

lemma length_sdes_chunk_wire [simp]: "length (sdes_chunk_wire c) = calculate_chunk_size c"
  by (simp add: sdes_chunk_wire_def calculate_chunk_size_def)

lemma sum_chunk_sizes:
  "sum_list (map calculate_chunk_size cs) mod 4 = 0"
  "\<forall>c\<in>set cs. sdes_chunk_valid c \<Longrightarrow> sum_list (map calculate_chunk_size cs) \<le> 264 * length cs"
  by (induction cs) (use chunk_size_mod chunk_size_bounds in \<open>auto simp: mod_add_eq intro: add_mono\<close>)

lemma sdes_pack_chunks_step:
  "sdes_pack_chunks (c # cs) s =
     Option.bind (put_at 0 (sdes_chunk_wire c) s) (\<lambda>t. sdes_pack_chunks cs (advance (calculate_chunk_size c) t))"
proof -
  obtain p where p: "4 - (6 + length (chunk_cname c)) mod 4 = p" by simp
  then have "calculate_chunk_size c = 6 + length (chunk_cname c) + p"
    by (simp add: calculate_chunk_size_def)
  then show ?thesis
    unfolding sdes_pack_chunks.simps sdes_chunk_wire_def Let_def p by (simp add: wire_simps pack_simps)
qed

lemma sdes_pack_chunks_put: "sdes_pack_chunks cs s = put_items sdes_chunk_wire cs s"
  by (induction cs arbitrary: s) (simp_all add: sdes_pack_chunks_step del: sdes_pack_chunks.simps(2))

text \<open>Parsing one chunk out of a payload: the name is found and the index lands on the next chunk.\<close>

lemma sdes_items_of_chunk:
  assumes "sdes_chunk_valid c" "p = pre @ sdes_chunk_wire c @ rest"
    "length pre + calculate_chunk_size c \<le> psize" "psize mod 4 = 0" "length pre mod 4 = 0"
  shows "\<exists>j. sdes_parse_items p psize (length pre + 4) None = accept (j, Some (chunk_cname c)) \<and>
    j + (psize - j) mod 4 = length pre + calculate_chunk_size c"
proof -
  let ?l = "length (chunk_cname c)" and ?i = "length pre"
  let ?j = "?i + 6 + ?l + 1"
  have size: "calculate_chunk_size c = 6 + ?l + (4 - (6 + ?l) mod 4)" by (simp add: calculate_chunk_size_def)
  have l: "unat (of_nat ?l :: u8) = ?l" using assms(1) by (intro unat_of_nat_small) (simp add: sdes_chunk_valid_def)
  obtain k where k: "4 - (6 + ?l) mod 4 = Suc k" by (metis Suc_diff_Suc mod_less_divisor zero_less_numeral)
  have p: "p = pre @ be32 (chunk_ssrc c) @ [1, of_nat ?l] @ chunk_cname c @ [0] @ replicate k 0 @ rest"
    using assms(2) k by (simp add: sdes_chunk_wire_def)
  have room: "?j \<le> psize" using assms(3) size k by linarith
  have "sdes_parse_items p psize (6 + ?i + ?l) (Some (chunk_cname c)) = accept (?j, Some (chunk_cname c))"
    by (subst sdes_parse_items.simps) (simp add: p wire_simps)
  then have "sdes_parse_items p psize (?i + 4) None = accept (?j, Some (chunk_cname c))"
    using room l by (subst sdes_parse_items.simps) (simp add: p wire_simps)
  moreover have "?j + (psize - ?j) mod 4 = ?i + calculate_chunk_size c"
  proof -
    have "4 dvd psize - (?i + calculate_chunk_size c)"
      using assms(4,5) chunk_size_mod [of c] by (intro dvd_diff_nat dvd_add) (auto simp: mod_eq_0_iff_dvd)
    then obtain q where "psize = ?i + calculate_chunk_size c + 4 * q"
      using assms(3) by (metis dvdE le_add_diff_inverse)
    moreover from this have "psize - ?j = k + 4 * q" "k < 4" using size k by auto
    ultimately show ?thesis using size k by simp
  qed
  ultimately show ?thesis by blast
qed

lemma sdes_parse_chunks_wire:
  assumes "\<forall>c\<in>set cs. sdes_chunk_valid c" "length pre mod 4 = 0" "psize mod 4 = 0"
    "length pre + sum_list (map calculate_chunk_size cs) \<le> psize"
  shows "sdes_parse_chunks (length cs) (pre @ concat (map sdes_chunk_wire cs) @ rest) psize (length pre) =
    accept (cs, sum_list (map calculate_chunk_size cs))"
  using assms
proof (induction cs arbitrary: pre)
  case (Cons c cs)
  let ?p = "pre @ concat (map sdes_chunk_wire (c # cs)) @ rest"
  have p: "?p = pre @ sdes_chunk_wire c @ concat (map sdes_chunk_wire cs) @ rest" by simp
  obtain j where j: "sdes_parse_items ?p psize (length pre + 4) None = accept (j, Some (chunk_cname c))"
    "j + (psize - j) mod 4 = length (pre @ sdes_chunk_wire c)"
    using sdes_items_of_chunk [of c ?p pre "concat (map sdes_chunk_wire cs) @ rest" psize] Cons.prems by auto
  have ih: "sdes_parse_chunks (length cs) ?p psize (length (pre @ sdes_chunk_wire c)) =
      accept (cs, sum_list (map calculate_chunk_size cs))"
    using Cons.IH [of "pre @ sdes_chunk_wire c"] Cons.prems chunk_size_mod [of c]
    by (simp add: mod_add_eq [symmetric])
  have "read_be32 ?p (length pre) = Some (chunk_ssrc c)"
    by (simp add: sdes_chunk_wire_def wire_simps)
  moreover have eta: "\<lparr>chunk_ssrc = chunk_ssrc c, chunk_cname = chunk_cname c\<rparr> = c" by simp
  moreover have "\<not> psize - length pre < kChunkBaseSize"
    using Cons.prems chunk_size_bounds(1) [of c] by (simp add: kChunkBaseSize_def)
  ultimately show ?case
    by (simp only: list.size add_Suc_right add_0_right sdes_parse_chunks.simps j ih if_False bind.bind_lunit)
      (use ih in \<open>simp add: j(2) Let_def eta\<close>)
qed simp

interpretation sdes: rtcp_codec sdes_valid sdes_packet_size sdes_wire sdes_pack_into sdes_parse "\<lambda>d. d"
proof
  fix d max_size cb s rest
  assume valid: "sdes_valid d"
  let ?cs = "sdes_chunks d" and ?n = "sum_list (map calculate_chunk_size (sdes_chunks d))"
  have sum: "?n mod 4 = 0" "?n \<le> 264 * length ?cs" "length ?cs \<le> 31"
    using valid sum_chunk_sizes [of ?cs] by (auto simp: sdes_valid_def)
  have size: "sdes_packet_size d = 4 + ?n" using valid by (simp add: sdes_packet_size_def sdes_valid_def)
  have wire: "length (concat (map sdes_chunk_wire ?cs)) = ?n"
    by (simp add: length_concat comp_def)
  show len: "length (sdes_wire d) = sdes_packet_size d" by (simp add: sdes_wire_def size wire)
  show "0 < sdes_packet_size d" by (simp add: size)
  show "sdes_pack_into d max_size cb s = pack_wire (sdes_wire d) max_size cb s"
    unfolding sdes_pack_into_def using valid sum
    by (intro pack_wireI [OF len])
      (simp add: size sdes_wire_def wire_simps pack_simps packet_size_without_common_header_def
        sdes_pack_chunks_put wire mod_add_eq [symmetric])
  show "\<exists>h. common_header_parse (sdes_wire d @ rest) (length (sdes_wire d @ rest)) = accept h \<and>
      ch_packet_size h = sdes_packet_size d \<and> next_packet h = rest \<and> sdes_parse h = accept d"
  proof (rule wire_parseI)
    show "sdes_wire d = header_bytes (length ?cs) 202 ?n @ drop 4 (sdes_wire d)" by (simp add: sdes_wire_def)
    have "sdes_parse_chunks (length ?cs) (concat (map sdes_chunk_wire ?cs) @ rest) ?n 0 = accept (?cs, ?n)"
      using sdes_parse_chunks_wire [of ?cs "[]" ?n rest] valid sum by (simp add: sdes_valid_def)
    moreover have "unat (of_nat (length ?cs) :: u8) = length ?cs"
      using sum by (intro unat_of_nat_small) simp
    ultimately show "sdes_parse \<lparr>packet_type = 202, count_or_fmt = of_nat (length ?cs), padding_size = 0,
        payload_size = ?n, payload = drop 4 (sdes_wire d) @ rest\<rparr> = accept d"
      using valid sum by (simp add: sdes_parse_def sdes_wire_def sdes_valid_def)
  qed (use valid sum len in \<open>simp_all add: size\<close>)
qed

section \<open>The parser on any input\<close>

lemma sdes_parse_items_total:
  assumes "i < psize" "psize \<le> length p"
  shows "sdes_parse_items p psize i cname = reject \<or>
    (\<exists>j c. sdes_parse_items p psize i cname = accept (j, c) \<and> j \<le> psize)"
  using assms
proof (induction p psize i cname rule: sdes_parse_items.induct)
  case (1 p psize i cname)
  then show ?case
    by (subst (1 2) sdes_parse_items.simps) (auto simp: read_inside Let_def not_less)
qed

lemma sdes_parse_chunks_total:
  "i \<le> psize \<Longrightarrow> psize \<le> length p \<Longrightarrow> sdes_parse_chunks n p psize i \<noteq> None"
proof (induction n arbitrary: i)
  case (Suc n)
  have step: "j + (psize - j) mod 4 \<le> psize" if "j \<le> psize" for j
    using that mod_less_eq_dividend [of "psize - j" 4] by linarith
  show ?case
  proof (cases "psize - i < 8")
    case False
    with Suc.prems have r: "read_be32 p i = Some (val32 p i)" by (intro read_inside) linarith
    have "i + 4 < psize" using False by linarith
    then consider "sdes_parse_items p psize (i + 4) None = reject"
      | j c where "sdes_parse_items p psize (i + 4) None = accept (j, c)" "j \<le> psize"
      using Suc.prems sdes_parse_items_total [of "i + 4" psize p None] by auto
    then show ?thesis
    proof cases
      case (2 j c)
      then obtain y where "sdes_parse_chunks n p psize (j + (psize - j) mod 4) = Some y"
        using Suc.IH [OF step] Suc.prems by blast
      with 2 r show ?thesis by simp
    qed (simp add: r)
  qed (simp add: kChunkBaseSize_def)
qed simp

interpretation sdes_safe: safe_parser sdes_parse
proof
  fix h :: common_header
  assume "payload_size h \<le> length (payload h)"
  then obtain y where "sdes_parse_chunks (unat (count_or_fmt h)) (payload h) (payload_size h) 0 = Some y"
    using sdes_parse_chunks_total [of 0 "payload_size h" "payload h"] by blast
  then show "sdes_parse h \<noteq> None" by (simp add: sdes_parse_def)
qed

section \<open>Properties\<close>

text \<open>
  Source descriptions built with \<^verbatim>\<open>AddCName\<close> only, in any number of calls, pack to one
  packet of the size they predict and parse back to the same chunks, in order, and the same size.
\<close>

theorem sdes_roundtrip:
  assumes "d = fold (\<lambda>(ssrc, cname) d. snd (sdes_add_cname ssrc cname d)) names sdes_new"
    "sdes_packet_size d \<le> max_size" "max_size \<le> kIpPacketSize" "length stack = kIpPacketSize"
  shows "\<exists>bytes. build (sdes_pack_into d) max_size True stack = Some (True, [bytes]) \<and>
    length bytes = sdes_packet_size d \<and>
    parse_received sdes_parse (bytes @ rest) (length (bytes @ rest)) = accept d"
proof -
  have "sdes_valid (fold (\<lambda>(ssrc, cname) d. snd (sdes_add_cname ssrc cname d)) names d0)" if "sdes_valid d0" for d0
    using that by (induction names arbitrary: d0) (auto simp: sdes_add_cname_valid)
  then have valid: "sdes_valid d" by (simp add: assms(1))
  show ?thesis
    using sdes.build_wire [OF valid assms(2-)] sdes.length_wire [OF valid] sdes.parse_of_wire [OF valid, of rest]
    by (auto simp: parse_received_def)
qed

theorem sdes_roundtrip_witness:
  "\<exists>bytes. build (sdes_pack_into (fold (\<lambda>(ssrc, cname) d. snd (sdes_add_cname ssrc cname d))
      [(1, [65, 66]), (2, [])] sdes_new)) 100 True (replicate 1500 0) = Some (True, [bytes]) \<and>
    length bytes = sdes_packet_size (fold (\<lambda>(ssrc, cname) d. snd (sdes_add_cname ssrc cname d))
      [(1, [65, 66]), (2, [])] sdes_new) \<and>
    parse_received sdes_parse (bytes @ [5]) (length (bytes @ [5])) =
      accept (fold (\<lambda>(ssrc, cname) d. snd (sdes_add_cname ssrc cname d)) [(1, [65, 66]), (2, [])] sdes_new)"
  by (rule sdes_roundtrip [OF refl])
    (simp_all add: sdes_add_cname_def sdes_new_def sdes_packet_size_def calculate_chunk_size_def kIpPacketSize_def)

end
