(* ===== verification/RtcpXr.thy ===== *)
theory RtcpXr
  imports RtcpReports
begin

text \<open>
  Extended reports: \<^verbatim>\<open>rrtr.cpp\<close>, \<^verbatim>\<open>dlrr.cpp\<close>, \<^verbatim>\<open>target_bitrate.cpp\<close> and
  \<^verbatim>\<open>extended_reports.cpp\<close> under \<^verbatim>\<open>src/rtc/rtp_rtcp/rtcp/packets\<close>. A report block is packed at the
  index and gets the space up to the end of the packet; a block that does not fit writes nothing.
\<close>

section \<open>Receiver reference time\<close>

definition rrtr_parse :: "byte list \<Rightarrow> nat \<Rightarrow> ntp_time option option" where
  "rrtr_parse buffer sz =
     (if sz < 12 then reject
      else do {
        b0 \<leftarrow> rd buffer 0;
        if b0 \<noteq> 4 then reject
        else do {
          secs \<leftarrow> read_be32 buffer 4;
          frac \<leftarrow> read_be32 buffer 8;
          accept (ntp_set secs frac) } })"

definition rrtr_pack_into :: "ntp_time \<Rightarrow> nat \<Rightarrow> pack_state \<Rightarrow> pack_state option" where
  "rrtr_pack_into ntp sz s =
     (if sz < 12 then Some s
      else do {
        s \<leftarrow> put_at 0 [4] s;
        s \<leftarrow> put_at 1 [0] s;
        s \<leftarrow> put_at 2 (be16 2) s;
        s \<leftarrow> put_at 4 (be32 (ntp_seconds ntp)) s;
        put_at 8 (be32 (ntp_fractions ntp)) s })"

definition rrtr_block_size :: nat where "rrtr_block_size = 12"

section \<open>Delay since the last receiver report\<close>

record time_info =
  ti_ssrc :: u32
  ti_last_rr :: u32
  ti_delay_since_last_rr :: u32

definition kDlrrHeaderSize :: nat where "kDlrrHeaderSize = 4"
definition kTimeInfoSize :: nat where "kTimeInfoSize = 12"

definition dlrr_read_time_info :: "byte list \<Rightarrow> time_info option" where
  "dlrr_read_time_info read_at = do {
     a \<leftarrow> read_be32 read_at 0;
     b \<leftarrow> read_be32 read_at 4;
     c \<leftarrow> read_be32 read_at 8;
     Some \<lparr>ti_ssrc = a, ti_last_rr = b, ti_delay_since_last_rr = c\<rparr> }"

definition dlrr_parse :: "byte list \<Rightarrow> nat \<Rightarrow> time_info list option option" where
  "dlrr_parse buffer sz =
     (if sz < kDlrrHeaderSize then reject
      else do {
        b0 \<leftarrow> rd buffer 0;
        if b0 \<noteq> 5 then reject
        else do {
          items_count \<leftarrow> map_option unat (read_be16 buffer 2);
          if items_count mod 3 \<noteq> 0 then reject
          else (let block_size = kDlrrHeaderSize + items_count * 4
            in if block_size > sz then reject
            else map_option Some
              (parse_items kTimeInfoSize dlrr_read_time_info (items_count div 3) (drop kDlrrHeaderSize buffer))) } })"

definition dlrr_block_size :: "time_info list \<Rightarrow> nat" where
  "dlrr_block_size ts = (if ts = [] then 0 else kDlrrHeaderSize + kTimeInfoSize * length ts)"

fun dlrr_put_infos :: "nat \<Rightarrow> time_info list \<Rightarrow> pack_state \<Rightarrow> pack_state option" where
  "dlrr_put_infos off [] s = Some s"
| "dlrr_put_infos off (t # ts) s = do {
     s \<leftarrow> put_at off (be32 (ti_ssrc t)) s;
     s \<leftarrow> put_at (off + 4) (be32 (ti_last_rr t)) s;
     s \<leftarrow> put_at (off + 8) (be32 (ti_delay_since_last_rr t)) s;
     dlrr_put_infos (off + kTimeInfoSize) ts s }"

definition dlrr_pack_into :: "time_info list \<Rightarrow> nat \<Rightarrow> pack_state \<Rightarrow> pack_state option" where
  "dlrr_pack_into ts sz s =
     (if ts = [] then Some s
      else if sz < dlrr_block_size ts then Some s
      else do {
        s \<leftarrow> put_at 0 [5] s;
        s \<leftarrow> put_at 1 [0] s;
        s \<leftarrow> (if 3 * length ts < 2 ^ 16 then put_at 2 (be16 (of_nat (3 * length ts))) s else None);
        dlrr_put_infos kDlrrHeaderSize ts s })"

section \<open>Target bitrate\<close>

record bitrate_item =
  bi_spatial_layer :: u8
  bi_temporal_layer :: u8
  bi_target_bitrate_kbps :: u32

definition kTargetBitrateHeaderSize :: nat where "kTargetBitrateHeaderSize = 4"
definition kBitrateItemSize :: nat where "kBitrateItemSize = 4"

definition add_target_bitrate :: "u8 \<Rightarrow> u8 \<Rightarrow> u32 \<Rightarrow> bitrate_item list \<Rightarrow> bitrate_item list option" where
  "add_target_bitrate spatial temporal kbps bitrates =
     (if spatial \<le> 0x0F \<and> temporal \<le> 0x0F \<and> kbps \<le> 0x00FFFFFF
      then Some (bitrates @ [\<lparr>bi_spatial_layer = spatial, bi_temporal_layer = temporal,
                              bi_target_bitrate_kbps = kbps\<rparr>])
      else None)"

definition tb_block_size :: "bitrate_item list \<Rightarrow> nat" where
  "tb_block_size bs = kTargetBitrateHeaderSize + length bs * kBitrateItemSize"

fun tb_parse_items :: "nat \<Rightarrow> byte list \<Rightarrow> nat \<Rightarrow> bitrate_item list \<Rightarrow> bitrate_item list option" where
  "tb_parse_items 0 buffer offset acc = Some acc"
| "tb_parse_items (Suc n) buffer offset acc = do {
     layers \<leftarrow> rd buffer offset;
     kbps \<leftarrow> read_be24 buffer (offset + 1);
     acc \<leftarrow> add_target_bitrate (drop_bit 4 layers AND 0x0F) (layers AND 0x0F) kbps acc;
     tb_parse_items n buffer (offset + kBitrateItemSize) acc }"

definition tb_parse :: "byte list \<Rightarrow> nat \<Rightarrow> bitrate_item list option option" where
  "tb_parse buffer sz = do {
     b0 \<leftarrow> rd buffer 0;
     if b0 \<noteq> 42 \<or> sz < kTargetBitrateHeaderSize then reject
     else do {
       item_count \<leftarrow> map_option unat (read_be16 buffer 2);
       let block_size = item_count * 4 + kTargetBitrateHeaderSize;
       if sz < block_size then reject
       else map_option Some (tb_parse_items item_count buffer kTargetBitrateHeaderSize []) } }"

fun tb_put_items :: "nat \<Rightarrow> bitrate_item list \<Rightarrow> pack_state \<Rightarrow> pack_state option" where
  "tb_put_items offset [] s = Some s"
| "tb_put_items offset (b # bs) s = do {
     s \<leftarrow> put_at offset [push_bit 4 (bi_spatial_layer b) OR bi_temporal_layer b] s;
     s \<leftarrow> put_at (offset + 1) (be24 (bi_target_bitrate_kbps b)) s;
     tb_put_items (offset + kBitrateItemSize) bs s }"

definition tb_pack_into :: "bitrate_item list \<Rightarrow> nat \<Rightarrow> pack_state \<Rightarrow> pack_state option" where
  "tb_pack_into bs sz s =
     (if sz < tb_block_size bs then Some s
      else do {
        s \<leftarrow> put_at 0 [42] s;
        s \<leftarrow> put_at 1 [0] s;
        let item_count_words = (of_nat (tb_block_size bs div 4 - 1) :: u16);
        s \<leftarrow> put_at 2 (be16 item_count_words) s;
        tb_put_items kTargetBitrateHeaderSize bs s })"

section \<open>ExtendedReports\<close>

record extended_reports =
  xr_sender_ssrc :: u32
  xr_rrtr_block :: "ntp_time option"
  xr_target_bitrate :: "bitrate_item list option"
  xr_dlrr_block :: "time_info list"

definition kXrBaseSize :: nat where "kXrBaseSize = 4"

definition xr_set_rrtr :: "ntp_time \<Rightarrow> extended_reports \<Rightarrow> extended_reports" where
  "xr_set_rrtr ntp x = x\<lparr>xr_rrtr_block := Some ntp\<rparr>"

definition xr_add_dlrr_time_info :: "time_info \<Rightarrow> extended_reports \<Rightarrow> bool \<times> extended_reports" where
  "xr_add_dlrr_time_info t x =
     (if length (xr_dlrr_block x) \<ge> 50 then (False, x)
      else (True, x\<lparr>xr_dlrr_block := xr_dlrr_block x @ [t]\<rparr>))"

definition xr_set_target_bitrate :: "bitrate_item list \<Rightarrow> extended_reports \<Rightarrow> extended_reports" where
  "xr_set_target_bitrate b x = x\<lparr>xr_target_bitrate := Some b\<rparr>"

definition xr_parse_block :: "u8 \<Rightarrow> byte list \<Rightarrow> nat \<Rightarrow> extended_reports \<Rightarrow> extended_reports option" where
  "xr_parse_block block_type block block_size x =
     (if block_type = 4 then
        map_option (\<lambda>r. x\<lparr>xr_rrtr_block := Some (case r of None \<Rightarrow> ntp_set 0 0 | Some t \<Rightarrow> t)\<rparr>)
          (rrtr_parse block block_size)
      else if block_type = 5 then
        map_option (\<lambda>r. case r of None \<Rightarrow> x | Some ts \<Rightarrow> x\<lparr>xr_dlrr_block := ts\<rparr>)
          (dlrr_parse block block_size)
      else if block_type = 42 then
        map_option (\<lambda>r. x\<lparr>xr_target_bitrate := Some (case r of None \<Rightarrow> [] | Some bs \<Rightarrow> bs)\<rparr>)
          (tb_parse block block_size)
      else Some x)"

text \<open>The block loop; \<open>left\<close> is the distance from the current block to the end of the payload.\<close>

function xr_parse_blocks :: "byte list \<Rightarrow> nat \<Rightarrow> extended_reports \<Rightarrow> extended_reports option option" where
  "xr_parse_blocks curr_block left x =
     (if left < 4 then accept x
      else do {
        block_type \<leftarrow> rd curr_block 0;
        block_size_words \<leftarrow> read_be16 curr_block 2;
        let block_size = 4 + unat block_size_words * 4;
        if block_size > left then reject
        else do {
          x \<leftarrow> xr_parse_block block_type curr_block block_size x;
          xr_parse_blocks (drop block_size curr_block) (left - block_size) x } })"
  by pat_completeness auto
termination by (relation "measure (\<lambda>(b, left, x). left)") auto

declare xr_parse_blocks.simps [simp del]

definition xr_parse :: "common_header \<Rightarrow> extended_reports option option" where
  "xr_parse packet =
     (if packet_type packet \<noteq> 207 then reject
      else if payload_size packet < kXrBaseSize then reject
      else do {
        ssrc \<leftarrow> read_be32 (payload packet) 0;
        xr_parse_blocks (drop kXrBaseSize (payload packet)) (payload_size packet - kXrBaseSize)
          \<lparr>xr_sender_ssrc = ssrc, xr_rrtr_block = None, xr_target_bitrate = None, xr_dlrr_block = []\<rparr> })"

definition xr_packet_size :: "extended_reports \<Rightarrow> nat" where
  "xr_packet_size x = 4 + kXrBaseSize +
     (case xr_rrtr_block x of None \<Rightarrow> 0 | Some _ \<Rightarrow> rrtr_block_size) +
     dlrr_block_size (xr_dlrr_block x) +
     (case xr_target_bitrate x of None \<Rightarrow> 0 | Some bs \<Rightarrow> tb_block_size bs)"

text \<open>
  The loop of \<^verbatim>\<open>ExtendedReports::PackInto\<close>, whose condition on \<^verbatim>\<open>OnBufferFull\<close> is not negated:
  it gives up after a flush and goes round again when there was nothing to flush.
\<close>

partial_function (option) xr_make_room ::
  "nat \<Rightarrow> nat \<Rightarrow> bool \<Rightarrow> pack_state \<Rightarrow> (bool \<times> pack_state) option" where
  "xr_make_room sz max_size callback s =
     (if pk_index s + sz > max_size then
        (case on_buffer_full callback s of
           (flushed, s') \<Rightarrow>
             if flushed then Some (False, s') else xr_make_room sz max_size callback s')
      else Some (True, s))"

definition xr_pack_blocks :: "extended_reports \<Rightarrow> nat \<Rightarrow> pack_state \<Rightarrow> pack_state option" where
  "xr_pack_blocks x index_end s = do {
     s \<leftarrow> (case xr_rrtr_block x of
             None \<Rightarrow> Some s
           | Some ntp \<Rightarrow> map_option (advance rrtr_block_size) (rrtr_pack_into ntp (index_end - pk_index s) s));
     s \<leftarrow> (if xr_dlrr_block x = [] then Some s
           else map_option (advance (dlrr_block_size (xr_dlrr_block x)))
             (dlrr_pack_into (xr_dlrr_block x) (index_end - pk_index s) s));
     (case xr_target_bitrate x of
        None \<Rightarrow> Some s
      | Some bs \<Rightarrow> map_option (advance (tb_block_size bs)) (tb_pack_into bs (index_end - pk_index s) s)) }"

definition xr_pack_into :: "extended_reports \<Rightarrow> nat \<Rightarrow> bool \<Rightarrow> pack_state \<Rightarrow> (bool \<times> pack_state) option" where
  "xr_pack_into x max_size callback s0 = do {
     (ok, s) \<leftarrow> xr_make_room (xr_packet_size x) max_size callback s0;
     if \<not> ok then Some (False, s)
     else do {
       let index_end = pk_index s + xr_packet_size x;
       n \<leftarrow> packet_size_without_common_header (xr_packet_size x);
       s \<leftarrow> pack_common_header 0 207 n False s;
       s \<leftarrow> put_at 0 (be32 (xr_sender_ssrc x)) s;
       s \<leftarrow> xr_pack_blocks x index_end (advance 4 s);
       assert_index index_end s } }"

section \<open>Blocks on the wire\<close>

definition rrtr_wire :: "ntp_time \<Rightarrow> byte list" where
  "rrtr_wire ntp = [4, 0] @ be16 2 @ be32 (ntp_seconds ntp) @ be32 (ntp_fractions ntp)"

definition time_info_wire :: "time_info \<Rightarrow> byte list" where
  "time_info_wire t = be32 (ti_ssrc t) @ be32 (ti_last_rr t) @ be32 (ti_delay_since_last_rr t)"

definition dlrr_wire :: "time_info list \<Rightarrow> byte list" where
  "dlrr_wire ts = (if ts = [] then []
     else [5, 0] @ be16 (of_nat (3 * length ts)) @ concat (map time_info_wire ts))"

definition bitrate_item_wire :: "bitrate_item \<Rightarrow> byte list" where
  "bitrate_item_wire b = [push_bit 4 (bi_spatial_layer b) OR bi_temporal_layer b] @ be24 (bi_target_bitrate_kbps b)"

definition tb_wire :: "bitrate_item list \<Rightarrow> byte list" where
  "tb_wire bs = [42, 0] @ be16 (of_nat (length bs)) @ concat (map bitrate_item_wire bs)"

definition bitrate_item_valid :: "bitrate_item \<Rightarrow> bool" where
  "bitrate_item_valid b \<longleftrightarrow> bi_spatial_layer b \<le> 0x0F \<and> bi_temporal_layer b \<le> 0x0F \<and>
     bi_target_bitrate_kbps b \<le> 0x00FFFFFF"

lemmas xr_sizes = rrtr_block_size_def dlrr_block_size_def tb_block_size_def kDlrrHeaderSize_def
  kTimeInfoSize_def kTargetBitrateHeaderSize_def kBitrateItemSize_def kXrBaseSize_def

lemma length_block_wires [simp]:
  "length (rrtr_wire ntp) = 12" "length (time_info_wire t) = 12" "length (bitrate_item_wire b) = 4"
  "length (dlrr_wire ts) = dlrr_block_size ts" "length (tb_wire bs) = tb_block_size bs"
  by (simp_all add: rrtr_wire_def time_info_wire_def bitrate_item_wire_def dlrr_wire_def tb_wire_def
      xr_sizes length_concat_map_const [where w = 12] length_concat_map_const [where w = 4])

lemma rrtr_pack_wire: "12 \<le> sz \<Longrightarrow> rrtr_pack_into ntp sz s = put_at 0 (rrtr_wire ntp) s"
  by (simp add: rrtr_pack_into_def rrtr_wire_def wire_simps)

lemma dlrr_put_infos_fun:
  "dlrr_put_infos off [] = Some"
  "dlrr_put_infos off (t # ts) = (\<lambda>s. Option.bind (put_at off (be32 (ti_ssrc t)) s) (\<lambda>s.
     Option.bind (put_at (off + 4) (be32 (ti_last_rr t)) s) (\<lambda>s.
     Option.bind (put_at (off + 8) (be32 (ti_delay_since_last_rr t)) s) (dlrr_put_infos (off + kTimeInfoSize) ts))))"
  by auto

lemma tb_put_items_fun:
  "tb_put_items off [] = Some"
  "tb_put_items off (b # bs) = (\<lambda>s.
     Option.bind (put_at off [push_bit 4 (bi_spatial_layer b) OR bi_temporal_layer b] s) (\<lambda>s.
     Option.bind (put_at (off + 1) (be24 (bi_target_bitrate_kbps b)) s) (tb_put_items (off + kBitrateItemSize) bs)))"
  by auto

lemma dlrr_put_infos_fuse:
  "off = length as \<Longrightarrow> Option.bind (put_at 0 as s) (dlrr_put_infos off ts) =
     put_at 0 (as @ concat (map time_info_wire ts)) s"
proof (induction ts arbitrary: as off)
  case (Cons t ts)
  then show ?case
    using Cons.IH [of "off + 12" "as @ time_info_wire t"]
    by (simp add: time_info_wire_def [of t] kTimeInfoSize_def wire_simps dlrr_put_infos_fun del: dlrr_put_infos.simps)
qed (simp add: dlrr_put_infos_fun del: dlrr_put_infos.simps)

lemma tb_put_items_fuse:
  "off = length as \<Longrightarrow> Option.bind (put_at 0 as s) (tb_put_items off bs) =
     put_at 0 (as @ concat (map bitrate_item_wire bs)) s"
proof (induction bs arbitrary: as off)
  case (Cons b bs)
  then show ?case
    using Cons.IH [of "off + 4" "as @ bitrate_item_wire b"]
    by (simp add: bitrate_item_wire_def [of b] kBitrateItemSize_def wire_simps tb_put_items_fun del: tb_put_items.simps)
qed (simp add: tb_put_items_fun del: tb_put_items.simps)

lemma dlrr_pack_wire:
  "ts \<noteq> [] \<Longrightarrow> length ts \<le> 50 \<Longrightarrow> dlrr_block_size ts \<le> sz \<Longrightarrow> dlrr_pack_into ts sz s = put_at 0 (dlrr_wire ts) s"
  by (simp add: dlrr_pack_into_def dlrr_wire_def wire_simps dlrr_put_infos_fuse kDlrrHeaderSize_def)

lemma tb_pack_wire: "tb_block_size bs \<le> sz \<Longrightarrow> tb_pack_into bs sz s = put_at 0 (tb_wire bs) s"
  by (simp add: tb_pack_into_def tb_wire_def wire_simps tb_put_items_fuse Let_def xr_sizes)

lemma rrtr_parse_wire: "12 \<le> sz \<Longrightarrow> rrtr_parse (rrtr_wire ntp @ rest) sz = accept ntp"
  by (simp add: rrtr_parse_def rrtr_wire_def wire_simps ntp_set_of_parts)

lemma dlrr_parse_wire:
  assumes "ts \<noteq> []" "length ts \<le> 50" "dlrr_block_size ts \<le> sz"
  shows "dlrr_parse (dlrr_wire ts @ rest) sz = accept ts"
proof -
  have "unat (of_nat (3 * length ts) :: u16) = 3 * length ts"
    using assms by (intro unat_of_nat_small) simp
  moreover have "dlrr_read_time_info (time_info_wire t @ r) = Some t" for t r
    by (simp add: dlrr_read_time_info_def time_info_wire_def wire_simps)
  ultimately show ?thesis
    using assms by (simp add: dlrr_parse_def dlrr_wire_def wire_simps xr_sizes pack_simps)
qed

lemma tb_layers:
  fixes sp tl :: u8
  assumes "sp \<le> 0x0F" "tl \<le> 0x0F"
  shows "drop_bit 4 (push_bit 4 sp OR tl) AND 0x0F = sp" "(push_bit 4 sp OR tl) AND 0x0F = tl"
proof -
  have lt: "sp < 2 ^ 4" "tl < 2 ^ 4" using assms by (simp_all add: word_le_def word_less_def)
  have m: "(0x0F :: u8) = mask 4" by (simp add: mask_eq_exp_minus_1)
  show "drop_bit 4 (push_bit 4 sp OR tl) AND 0x0F = sp"
    unfolding m by (rule bit_word_eqI) (auto simp: bit_simps dest: bit_below [OF _ lt(1)] bit_below [OF _ lt(2)])
  show "(push_bit 4 sp OR tl) AND 0x0F = tl"
    unfolding m by (rule bit_word_eqI) (auto simp: bit_simps dest: bit_below [OF _ lt(1)] bit_below [OF _ lt(2)])
qed

lemma tb_parse_items_wire:
  "\<forall>b\<in>set bs. bitrate_item_valid b \<Longrightarrow>
     tb_parse_items (length bs) (pre @ concat (map bitrate_item_wire bs) @ rest) (length pre) acc = Some (acc @ bs)"
proof (induction bs arbitrary: pre acc)
  case (Cons b bs)
  have kbps: "take_bit 24 (bi_target_bitrate_kbps b) = bi_target_bitrate_kbps b"
  proof -
    have "bi_target_bitrate_kbps b < 2 ^ 24"
      using Cons.prems by (simp add: bitrate_item_valid_def word_le_def word_less_def)
    then show ?thesis by (simp add: less_mask_eq take_bit_eq_mask)
  qed
  have "tb_parse_items (length bs) ((pre @ bitrate_item_wire b) @ concat (map bitrate_item_wire bs) @ rest)
      (length (pre @ bitrate_item_wire b)) (acc @ [b]) = Some ((acc @ [b]) @ bs)"
    using Cons.prems by (intro Cons.IH) simp
  moreover have eta: "\<lparr>bi_spatial_layer = bi_spatial_layer b, bi_temporal_layer = bi_temporal_layer b,
      bi_target_bitrate_kbps = bi_target_bitrate_kbps b\<rparr> = b" by simp
  ultimately show ?case
    using Cons.prems tb_layers [of "bi_spatial_layer b" "bi_temporal_layer b"] kbps
    by (simp add: bitrate_item_wire_def [of b] kBitrateItemSize_def wire_simps add_target_bitrate_def bitrate_item_valid_def eta)
qed simp

lemma tb_parse_wire:
  assumes "\<forall>b\<in>set bs. bitrate_item_valid b" "length bs < 65536" "tb_block_size bs \<le> sz"
  shows "tb_parse (tb_wire bs @ rest) sz = accept bs"
proof -
  have "unat (of_nat (length bs) :: u16) = length bs" using assms by (intro unat_of_nat_small) simp
  then show ?thesis
    using assms tb_parse_items_wire [of bs "[42, 0] @ be16 (of_nat (length bs))" rest "[]"]
    by (simp add: tb_parse_def tb_wire_def wire_simps xr_sizes Let_def)
qed

section \<open>Packets on the wire\<close>

definition xr_wire :: "extended_reports \<Rightarrow> byte list" where
  "xr_wire x = header_bytes 0 207 (xr_packet_size x - 4) @ be32 (xr_sender_ssrc x) @
     (case xr_rrtr_block x of None \<Rightarrow> [] | Some ntp \<Rightarrow> rrtr_wire ntp) @ dlrr_wire (xr_dlrr_block x) @
     (case xr_target_bitrate x of None \<Rightarrow> [] | Some bs \<Rightarrow> tb_wire bs)"

definition xr_valid :: "extended_reports \<Rightarrow> bool" where
  "xr_valid x \<longleftrightarrow> length (xr_dlrr_block x) \<le> 50 \<and>
     (\<forall>bs. xr_target_bitrate x = Some bs \<longrightarrow> length bs < 16000 \<and> (\<forall>b\<in>set bs. bitrate_item_valid b))"

lemma length_xr_wire: "length (xr_wire x) = xr_packet_size x"
  by (simp add: xr_wire_def xr_packet_size_def xr_sizes split: option.splits)

lemma xr_size_bounds:
  assumes "xr_valid x"
  shows "xr_packet_size x mod 4 = 0" "xr_packet_size x \<le> 65000" "8 \<le> xr_packet_size x"
  using assms by (auto simp: xr_packet_size_def xr_sizes xr_valid_def mod_add_eq split: option.splits)

text \<open>One step of the packer that writes \<open>w\<close> at the index and moves past it.\<close>

lemma pack_step_fuse:
  assumes "n = length as"
    and "\<And>t. put_at 0 as s = Some t \<Longrightarrow> f (advance n t) = map_option (advance (length w)) (put_at 0 w (advance n t))"
  shows "Option.bind (put_at 0 as s) (\<lambda>t. Option.bind (f (advance n t)) k) =
    Option.bind (put_at 0 (as @ w) s) (\<lambda>t. k (advance (n + length w) t))"
proof -
  have "Option.bind (put_at 0 as s) (\<lambda>t. Option.bind (f (advance n t)) k) =
      Option.bind (put_at 0 as s) (\<lambda>t. Option.bind (map_option (advance (length w)) (put_at 0 w (advance n t))) k)"
    using assms(2) by (cases "put_at 0 as s") auto
  then show ?thesis
    using assms(1) by (simp add: wire_simps pack_simps)
qed

lemma put_at_nil: "put_at 0 as s = Some t \<Longrightarrow> n = length as \<Longrightarrow> put_at 0 [] (advance n t) = Some (advance n t)"
  by (auto simp: put_at_def wr_def advance_def split: if_splits)

lemma advance_0 [simp]: "advance 0 t = t"
  by (simp add: advance_def)

lemma xr_pack_blocks_wire:
  assumes "xr_valid x" "n = length as" "e = pk_index s + n + (xr_packet_size x - 8)"
  shows "Option.bind (put_at 0 as s) (\<lambda>t. Option.bind (xr_pack_blocks x e (advance n t)) k) =
    Option.bind (put_at 0 (as @ drop 8 (xr_wire x)) s) (\<lambda>t. k (advance (n + (xr_packet_size x - 8)) t))"
proof -
  let ?r = "case xr_rrtr_block x of None \<Rightarrow> [] | Some ntp \<Rightarrow> rrtr_wire ntp"
  let ?d = "dlrr_wire (xr_dlrr_block x)"
  let ?b = "case xr_target_bitrate x of None \<Rightarrow> [] | Some bs \<Rightarrow> tb_wire bs"
  let ?R = "\<lambda>s. case xr_rrtr_block x of None \<Rightarrow> Some s
      | Some ntp \<Rightarrow> map_option (advance rrtr_block_size) (rrtr_pack_into ntp (e - pk_index s) s)"
  let ?D = "\<lambda>s. if xr_dlrr_block x = [] then Some s
      else map_option (advance (dlrr_block_size (xr_dlrr_block x)))
        (dlrr_pack_into (xr_dlrr_block x) (e - pk_index s) s)"
  let ?B = "\<lambda>s. case xr_target_bitrate x of None \<Rightarrow> Some s
      | Some bs \<Rightarrow> map_option (advance (tb_block_size bs)) (tb_pack_into bs (e - pk_index s) s)"
  have wire: "drop 8 (xr_wire x) = ?r @ ?d @ ?b" by (simp add: xr_wire_def)
  have sz: "xr_packet_size x - 8 = length ?r + length ?d + length ?b"
    using arg_cong [OF wire, of length] length_xr_wire [of x] by simp
  have "Option.bind (put_at 0 as s) (\<lambda>t. Option.bind (xr_pack_blocks x e (advance n t)) k) =
      Option.bind (put_at 0 as s) (\<lambda>t. Option.bind (?R (advance n t)) (\<lambda>t. Option.bind (?D t) (\<lambda>t. Option.bind (?B t) k)))"
    by (simp add: xr_pack_blocks_def)
  also have "\<dots> = Option.bind (put_at 0 (as @ ?r) s)
      (\<lambda>t. Option.bind (?D (advance (n + length ?r) t)) (\<lambda>t. Option.bind (?B t) k))"
    using assms sz
    by (intro pack_step_fuse) (auto simp: put_at_nil rrtr_pack_wire rrtr_block_size_def dest: put_at_index split: option.splits)
  also have "\<dots> = Option.bind (put_at 0 ((as @ ?r) @ ?d) s)
      (\<lambda>t. Option.bind (?B (advance (n + length ?r + length ?d) t)) k)"
    using assms sz
    by (intro pack_step_fuse)
      (auto simp: put_at_nil dlrr_pack_wire dlrr_wire_def [of "[]"] dlrr_block_size_def [of "[]"] xr_valid_def
        dest: put_at_index)
  also have "\<dots> = Option.bind (put_at 0 (((as @ ?r) @ ?d) @ ?b) s)
      (\<lambda>t. k (advance (n + length ?r + length ?d + length ?b) t))"
    using assms sz
    by (intro pack_step_fuse) (auto simp: put_at_nil tb_pack_wire dest: put_at_index split: option.splits)
  finally show ?thesis by (simp only: wire sz append_assoc add.assoc)
qed

lemma xr_parse_block_step:
  assumes "block = [bt, r] @ be16 (of_nat w) @ body" "length block = 4 + w * 4" "w < 65536"
    "xr_parse_block bt (block @ rest) (4 + w * 4) x = Some x'"
  shows "xr_parse_blocks (block @ rest) (length block + left) x = xr_parse_blocks rest left x'"
proof -
  have "unat (of_nat w :: u16) = w" using assms(3) by (intro unat_of_nat_small) simp
  moreover have "rd (block @ rest) 0 = Some bt" "read_be16 (block @ rest) 2 = Some (of_nat w)"
    by (simp_all add: assms(1) wire_simps)
  moreover have "drop (4 + w * 4) (block @ rest) = rest" using assms(2) by simp
  ultimately show ?thesis
    using assms(2,4) by (subst xr_parse_blocks.simps) (simp add: Let_def)
qed

lemma xr_parse_wire:
  assumes "xr_valid x" "n = xr_packet_size x - 4" 
  shows "xr_parse \<lparr>packet_type = 207, count_or_fmt = c, padding_size = 0, payload_size = n,
    payload = drop 4 (xr_wire x) @ rest\<rparr> = accept x"
proof -
  let ?x0 = "\<lparr>xr_sender_ssrc = xr_sender_ssrc x, xr_rrtr_block = None, xr_target_bitrate = None, xr_dlrr_block = []\<rparr>"
  let ?r = "case xr_rrtr_block x of None \<Rightarrow> [] | Some ntp \<Rightarrow> rrtr_wire ntp"
  let ?d = "dlrr_wire (xr_dlrr_block x)"
  let ?b = "case xr_target_bitrate x of None \<Rightarrow> [] | Some bs \<Rightarrow> tb_wire bs"
  have none: "xr_parse_blocks ys 0 y = accept y" for ys y by (simp add: xr_parse_blocks.simps)
  have r: "xr_parse_blocks (?r @ ys) (length ?r + left) y =
      xr_parse_blocks ys left (y\<lparr>xr_rrtr_block := xr_rrtr_block x\<rparr>)" if "xr_rrtr_block y = None" for ys left y
  proof (cases "xr_rrtr_block x")
    case (Some ntp)
    have "rrtr_parse (rrtr_wire ntp @ ys) (4 + 2 * 4) = accept ntp" by (simp add: rrtr_parse_wire)
    then show ?thesis
      using Some by (simp, intro xr_parse_block_step [of "rrtr_wire ntp" 4 0 2, simplified])
        (simp_all add: rrtr_wire_def xr_parse_block_def)
  qed (use that in \<open>cases y, simp\<close>)
  have d: "xr_parse_blocks (?d @ ys) (length ?d + left) y =
      xr_parse_blocks ys left (y\<lparr>xr_dlrr_block := xr_dlrr_block x\<rparr>)" if "xr_dlrr_block y = []" for ys left y
  proof (cases "xr_dlrr_block x = []")
    case False
    have "dlrr_parse (?d @ ys) (4 + 3 * length (xr_dlrr_block x) * 4) = accept (xr_dlrr_block x)"
      using False assms by (intro dlrr_parse_wire) (simp_all add: xr_valid_def xr_sizes)
    then show ?thesis
      using assms False
      by (intro xr_parse_block_step [of _ 5 0 "3 * length (xr_dlrr_block x)"])
        (simp_all add: dlrr_wire_def xr_parse_block_def xr_valid_def xr_sizes length_concat_map_const [where w = 12])
  qed (use that in \<open>cases y, simp add: dlrr_wire_def\<close>)
  have b: "xr_parse_blocks (?b @ ys) (length ?b + left) y =
      xr_parse_blocks ys left (y\<lparr>xr_target_bitrate := xr_target_bitrate x\<rparr>)" if "xr_target_bitrate y = None" for ys left y
  proof (cases "xr_target_bitrate x")
    case (Some bs)
    have "tb_parse (tb_wire bs @ ys) (4 + length bs * 4) = accept bs"
      using Some assms by (intro tb_parse_wire) (simp_all add: xr_valid_def xr_sizes)
    then have "xr_parse_blocks (tb_wire bs @ ys) (length (tb_wire bs) + left) y =
        xr_parse_blocks ys left (y\<lparr>xr_target_bitrate := Some bs\<rparr>)"
      using assms Some
      by (intro xr_parse_block_step [of _ 42 0 "length bs"])
        (simp_all add: tb_wire_def xr_parse_block_def xr_valid_def xr_sizes length_concat_map_const [where w = 4])
    then show ?thesis using Some by simp
  qed (use that in \<open>cases y, simp\<close>)
  have n: "n - 4 = length ?r + (length ?d + (length ?b + 0))" "4 \<le> n"
    using assms(2) length_xr_wire [of x] by (simp_all add: xr_wire_def)
  have "xr_parse_blocks ((?r @ ?d @ ?b) @ rest) (n - 4) ?x0 = accept x"
    unfolding n(1) append_assoc by (subst r, simp, subst d, simp, subst b) (simp_all add: none)
  moreover have "drop 4 (xr_wire x) = be32 (xr_sender_ssrc x) @ ?r @ ?d @ ?b" by (simp add: xr_wire_def)
  ultimately show ?thesis
    using n(2) by (simp add: xr_parse_def kXrBaseSize_def wire_simps)
qed

interpretation xr: rtcp_image xr_valid xr_packet_size xr_wire xr_parse "\<lambda>x. x"
proof
  fix x rest
  assume valid: "xr_valid x"
  show len: "length (xr_wire x) = xr_packet_size x" by (rule length_xr_wire)
  show "0 < xr_packet_size x" by (simp add: xr_packet_size_def)
  show "\<exists>h. common_header_parse (xr_wire x @ rest) (length (xr_wire x @ rest)) = accept h \<and>
      ch_packet_size h = xr_packet_size x \<and> next_packet h = rest \<and> xr_parse h = accept x"
  proof (rule wire_parseI)
    show "xr_wire x = header_bytes 0 207 (xr_packet_size x - 4) @ drop 4 (xr_wire x)" by (simp add: xr_wire_def)
    show "(xr_packet_size x - 4) mod 4 = 0"
      using xr_size_bounds [OF valid] by (metis dvd_diff_nat dvd_refl mod_eq_0_iff_dvd)
  qed (use xr_size_bounds [OF valid] len xr_parse_wire [OF valid refl] in simp_all)
qed

section \<open>The packer's loop\<close>

text \<open>With room the packet is written; without room it is either refused after a flush or never returns.\<close>

lemma xr_make_room_fits: "pk_index s + sz \<le> max_size \<Longrightarrow> xr_make_room sz max_size cb s = Some (True, s)"
  by (subst xr_make_room.simps) simp

lemma xr_make_room_flushes:
  "max_size < pk_index s + sz \<Longrightarrow> 0 < pk_index s \<Longrightarrow> cb \<Longrightarrow> xr_make_room sz max_size cb s =
     Some (False, s\<lparr>pk_ready := pk_ready s @ [take (pk_index s) (pk_buffer s)], pk_index := 0\<rparr>)"
  by (subst xr_make_room.simps) (simp add: on_buffer_full_def)

lemma xr_make_room_stuck:
  assumes "max_size < pk_index s + sz" "pk_index s = 0 \<or> \<not> cb"
  shows "xr_make_room sz max_size cb s = None"
proof -
  have "max_size < pk_index s + sz \<longrightarrow> \<not> (pk_index s = 0 \<or> \<not> cb)" if "xr_make_room sz max_size cb s = Some r" for r
    by (rule xr_make_room.raw_induct [OF _ that,
          where P = "\<lambda>sz max_size cb s r. max_size < pk_index s + sz \<longrightarrow> \<not> (pk_index s = 0 \<or> \<not> cb)"])
      (fastforce simp: on_buffer_full_def split: if_splits)
  with assms show ?thesis by (cases "xr_make_room sz max_size cb s") auto
qed

lemma xr_pack_fits:
  assumes "xr_valid x" "pk_index s + xr_packet_size x \<le> max_size"
  shows "xr_pack_into x max_size cb s = pack_wire (xr_wire x) max_size cb s"
proof -
  have w: "header_bytes 0 207 (xr_packet_size x - 4) @ be32 (xr_sender_ssrc x) @ drop 8 (xr_wire x) = xr_wire x"
    by (simp add: xr_wire_def)
  show ?thesis
    using assms xr_size_bounds [OF assms(1)] w
    by (simp add: xr_pack_into_def xr_make_room_fits packet_size_without_common_header_def wire_simps pack_simps
        xr_pack_blocks_wire [of x 8] pack_wire_def length_xr_wire)
qed

section \<open>The parser on any input\<close>

lemma dlrr_parse_total: "sz \<le> length b \<Longrightarrow> dlrr_parse b sz \<noteq> None"
proof -
  assume sz: "sz \<le> length b"
  have "\<exists>xs. parse_items 12 dlrr_read_time_info n (drop 4 b) = Some xs" if "4 + n * 12 \<le> length b" for n
    using parse_items_total [of 12 dlrr_read_time_info n "drop 4 b"] that
    by (force simp: dlrr_read_time_info_def read_inside)
  moreover have "4 + unat w div 3 * 12 \<le> length b" if "4 + unat w * 4 \<le> sz" for w :: u16
    using that sz by linarith
  ultimately have "\<exists>xs. parse_items 12 dlrr_read_time_info (unat w div 3) (drop 4 b) = Some xs"
    if "4 + unat w * 4 \<le> sz" for w :: u16 using that by blast
  moreover have "b \<noteq> []" if "4 \<le> sz" using that sz by auto
  ultimately show ?thesis
    using sz by (auto simp: dlrr_parse_def xr_sizes read_inside Let_def not_less)
qed

lemma add_target_bitrate_parsed:
  "n + 3 \<le> length b \<Longrightarrow> \<exists>acc'. add_target_bitrate (drop_bit 4 l AND 0x0F) (l AND 0x0F) (val24 b n) acc = Some acc'"
proof -
  assume n: "n + 3 \<le> length b"
  have "val24 b n = take_bit 24 (val24 b n)"
  proof (rule bit_word_eqI)
    fix k assume "k < LENGTH(32)"
    show "bit (val24 b n) k = bit (take_bit 24 (val24 b n)) k"
      using n bit_imp_le_length [where 'a = 8]
      by (fastforce simp: val24_def read_be24_def rd_bytes_def bit_read_big_endian bit_take_bit_iff)
  qed
  then have "val24 b n \<le> mask 24" by (metis take_bit_eq_mask word_and_le1)
  then show ?thesis
    by (simp add: add_target_bitrate_def word_and_le1 mask_eq_exp_minus_1)
qed

lemma tb_parse_items_total:
  "off + n * 4 \<le> length b \<Longrightarrow> tb_parse_items n b off acc \<noteq> None"
proof (induction n arbitrary: off acc)
  case (Suc n)
  obtain acc' where "add_target_bitrate (drop_bit 4 (b ! off) AND 0x0F) (b ! off AND 0x0F) (val24 b (Suc off)) acc = Some acc'"
    using add_target_bitrate_parsed [of "Suc off" b] Suc.prems by auto
  then show ?case
    using Suc.IH [of "off + 4" acc'] Suc.prems by (simp add: read_inside kBitrateItemSize_def)
qed simp

lemma xr_parse_block_total:
  assumes "4 \<le> sz" "sz \<le> length b"
  shows "\<exists>x'. xr_parse_block t b sz x = Some x'"
proof -
  have b: "b \<noteq> []" using assms by auto
  then have "rrtr_parse b sz \<noteq> None" using assms by (auto simp: rrtr_parse_def read_inside)
  moreover have "dlrr_parse b sz \<noteq> None" using assms by (intro dlrr_parse_total)
  moreover have "tb_parse b sz \<noteq> None"
    using assms b tb_parse_items_total [of 4 "unat (val16 b 2)" b "[]"]
    by (auto simp: tb_parse_def xr_sizes read_inside Let_def not_less)
  ultimately show ?thesis by (auto simp: xr_parse_block_def)
qed

lemma xr_parse_blocks_total: "left \<le> length b \<Longrightarrow> xr_parse_blocks b left x \<noteq> None"
proof (induction b left x rule: xr_parse_blocks.induct)
  case (1 b left x)
  show ?case
  proof (cases "4 \<le> left \<and> 4 + unat (val16 b 2) * 4 \<le> left")
    case True
    let ?sz = "4 + unat (val16 b 2) * 4"
    have reads: "rd b 0 = Some (b ! 0)" "read_be16 b 2 = Some (val16 b 2)"
      using True "1.prems" by (auto intro: read_inside)
    obtain x' where x': "xr_parse_block (b ! 0) b ?sz x = Some x'"
      using True "1.prems" xr_parse_block_total [of ?sz b "b ! 0" x] by auto
    have "xr_parse_blocks (drop ?sz b) (left - ?sz) x' \<noteq> None"
      using True "1.prems" by (intro "1.IH" [OF _ reads refl _ x']) auto
    then show ?thesis
      using True reads x' by (subst xr_parse_blocks.simps) (simp add: Let_def)
  next
    case False
    have "rd b 0 = Some (b ! 0)" if "4 \<le> left" using that "1.prems" by (intro read_inside) linarith
    with False show ?thesis
      using "1.prems" by (subst xr_parse_blocks.simps) (auto simp: read_inside Let_def)
  qed
qed

interpretation xr_safe: safe_parser xr_parse
proof
  fix h :: common_header
  assume "payload_size h \<le> length (payload h)"
  moreover from this have "xr_parse_blocks (drop 4 (payload h)) (payload_size h - 4) x \<noteq> None" for x
    by (intro xr_parse_blocks_total) simp
  ultimately show "xr_parse h \<noteq> None" by (auto simp: xr_parse_def xr_sizes read_inside)
qed

section \<open>Properties\<close>

text \<open>
  C30. An extended report with at most 50 delay entries and with bitrates of 24 bits for 4-bit layers
  that fits the size limit is delivered as one packet that parses back to the same blocks.
\<close>

theorem xr_roundtrip:
  assumes "xr_valid x" "xr_packet_size x \<le> max_size" "max_size \<le> kIpPacketSize" "length stack = kIpPacketSize"
  shows "\<exists>bytes. build (xr_pack_into x) max_size True stack = Some (True, [bytes]) \<and>
    length bytes = xr_packet_size x \<and>
    parse_received xr_parse (bytes @ rest) (length (bytes @ rest)) = accept x"
proof -
  have "build (xr_pack_into x) max_size True stack = Some (True, [xr_wire x])"
    using assms xr.length_wire [OF assms(1)] xr.not_empty [OF assms(1)]
    by (auto simp: build_def xr_pack_fits pack_wire_fresh on_buffer_full_def)
  then show ?thesis
    using xr.received [OF assms(1), of rest] by (simp add: length_xr_wire)
qed

definition example_xr :: extended_reports where
  "example_xr = \<lparr>xr_sender_ssrc = 1, xr_rrtr_block = Some (ntp_set 2 3),
     xr_target_bitrate = Some [\<lparr>bi_spatial_layer = 1, bi_temporal_layer = 2, bi_target_bitrate_kbps = 300\<rparr>],
     xr_dlrr_block = [\<lparr>ti_ssrc = 4, ti_last_rr = 5, ti_delay_since_last_rr = 6\<rparr>]\<rparr>"

theorem xr_roundtrip_witness:
  "\<exists>bytes. build (xr_pack_into example_xr) 100 True (replicate 1500 0) = Some (True, [bytes]) \<and>
    length bytes = xr_packet_size example_xr \<and>
    parse_received xr_parse (bytes @ [1]) (length (bytes @ [1])) = accept example_xr"
  by (rule xr_roundtrip)
    (simp_all add: example_xr_def xr_valid_def bitrate_item_valid_def xr_packet_size_def xr_sizes kIpPacketSize_def)

text \<open>
  C34. Without room in the buffer the packer of extended reports never packs: after a flush, which
  makes the room, it reports failure, and with nothing to flush or no callback it loops forever.
  The packer of every other class packs after the flush (\<open>make_room\<close>) and fails otherwise.
\<close>

theorem xr_pack_without_room:
  assumes "max_size < pk_index s + xr_packet_size x"
  shows "xr_pack_into x max_size cb s =
    (if 0 < pk_index s \<and> cb
     then Some (False, s\<lparr>pk_ready := pk_ready s @ [take (pk_index s) (pk_buffer s)], pk_index := 0\<rparr>)
     else None) \<and>
    (0 < pk_index s \<and> cb \<and> xr_packet_size x \<le> max_size \<longrightarrow> fst (make_room (xr_packet_size x) max_size cb s)) \<and>
    (pk_index s = 0 \<or> \<not> cb \<longrightarrow> make_room (xr_packet_size x) max_size cb s = (False, s))"
proof -
  have "xr_pack_into x max_size cb s =
      (if 0 < pk_index s \<and> cb
       then Some (False, s\<lparr>pk_ready := pk_ready s @ [take (pk_index s) (pk_buffer s)], pk_index := 0\<rparr>)
       else None)"
    using assms by (auto simp: xr_pack_into_def xr_make_room_flushes xr_make_room_stuck)
  then show ?thesis
    using assms by (cases "pk_index s = 0") (auto simp: make_room_flush make_room_empty)
qed

theorem xr_pack_without_room_witness:
  "xr_pack_into example_xr 20 True \<lparr>pk_buffer = replicate 20 0, pk_index = 0, pk_ready = []\<rparr> =
    (if 0 < pk_index \<lparr>pk_buffer = replicate 20 (0::byte), pk_index = 0, pk_ready = []\<rparr> \<and> True
     then Some (False, \<lparr>pk_buffer = replicate 20 0, pk_index = 0, pk_ready = []\<rparr>\<lparr>pk_ready :=
       pk_ready \<lparr>pk_buffer = replicate 20 0, pk_index = 0, pk_ready = []\<rparr> @
         [take (pk_index \<lparr>pk_buffer = replicate 20 (0::byte), pk_index = 0, pk_ready = []\<rparr>)
           (pk_buffer \<lparr>pk_buffer = replicate 20 0, pk_index = 0, pk_ready = []\<rparr>)], pk_index := 0\<rparr>)
     else None)"
  using xr_pack_without_room [of 20 "\<lparr>pk_buffer = replicate 20 0, pk_index = 0, pk_ready = []\<rparr>" example_xr True]
  by (simp add: example_xr_def xr_packet_size_def xr_sizes)

end
