(* ===== verification/RtcpCompound.thy ===== *)
theory RtcpCompound
  imports RtcpBase
begin

text \<open>
  Compound packets, \<^verbatim>\<open>src/rtc/rtp_rtcp/rtcp/packets/compound_packet.cpp\<close>, and
  \<^verbatim>\<open>RtcpPacket::Build()\<close> without a callback. A packet is the pair of its \<^verbatim>\<open>PacketSize\<close> and its
  \<^verbatim>\<open>PackInto\<close>, the two virtual functions a compound packet calls.
\<close>

type_synonym rtcp_packet = "nat \<times> (nat \<Rightarrow> bool \<Rightarrow> pack_state \<Rightarrow> (bool \<times> pack_state) option)"

definition compound_append :: "rtcp_packet \<Rightarrow> rtcp_packet list \<Rightarrow> rtcp_packet list" where
  "compound_append packet appended = appended @ [packet]"

definition compound_packet_size :: "rtcp_packet list \<Rightarrow> nat" where
  "compound_packet_size appended = fold (\<lambda>p n. n + fst p) appended 0"

fun compound_pack_into ::
  "rtcp_packet list \<Rightarrow> nat \<Rightarrow> bool \<Rightarrow> pack_state \<Rightarrow> (bool \<times> pack_state) option" where
  "compound_pack_into [] max_size callback s = Some (True, s)"
| "compound_pack_into (p # ps) max_size callback s = do {
     (ok, s') \<leftarrow> snd p max_size callback s;
     if \<not> ok then Some (False, s') else compound_pack_into ps max_size callback s' }"

text \<open>\<^verbatim>\<open>Build()\<close>: a buffer of exactly the predicted size, emptied when packing fails.\<close>

definition build_exact :: "rtcp_packet \<Rightarrow> byte list option" where
  "build_exact p = do {
     (created, s) \<leftarrow> snd p (fst p) False \<lparr>pk_buffer = replicate (fst p) 0, pk_index = 0, pk_ready = []\<rparr>;
     let packet = (if created then pk_buffer s else []);
     if pk_index s = length packet then Some packet else None }"

section \<open>What packing a list of wire images does\<close>

text \<open>
  The content of the state: what was delivered and what is in the buffer, in order. Packing a packet
  that is not larger than the buffer appends its image, whatever has to be flushed.
\<close>

definition packed :: "pack_state \<Rightarrow> byte list" where
  "packed s = concat (pk_ready s) @ take (pk_index s) (pk_buffer s)"

lemma pack_wire_appends:
  assumes "length w \<le> max_size" "max_size \<le> length (pk_buffer s)" "pk_index s \<le> max_size"
  shows "\<exists>t. pack_wire w max_size True s = Some (True, t) \<and> packed t = packed s @ w \<and>
    pk_index t \<le> max_size \<and> length (pk_buffer t) = length (pk_buffer s) \<and>
    (\<forall>p\<in>set (pk_ready t). p \<in> set (pk_ready s) \<or> length p \<le> max_size) \<and> (w \<noteq> [] \<longrightarrow> 0 < pk_index t)"
  using assms
  by (cases rule: make_room_cases [of s "length w" max_size True])
    (auto simp: pack_wire_def put_at_def wr_def advance_def packed_def)

text \<open>A packet of a compound that packs the wire image \<open>w\<close>, as the packet contract promises.\<close>

definition packs :: "rtcp_packet \<Rightarrow> byte list \<Rightarrow> bool" where
  "packs p w \<longleftrightarrow> fst p = length w \<and> (\<forall>max_size cb s. snd p max_size cb s = pack_wire w max_size cb s)"

lemma compound_appends:
  assumes "list_all2 packs ps ws" "\<forall>w\<in>set ws. length w \<le> max_size"
    "max_size \<le> length (pk_buffer s)" "pk_index s \<le> max_size" "\<forall>p\<in>set (pk_ready s). length p \<le> max_size"
  shows "\<exists>t. compound_pack_into ps max_size True s = Some (True, t) \<and> packed t = packed s @ concat ws \<and>
    pk_index t \<le> max_size \<and> length (pk_buffer t) = length (pk_buffer s) \<and>
    (\<forall>p\<in>set (pk_ready t). length p \<le> max_size) \<and>
    ((\<forall>w\<in>set ws. w \<noteq> []) \<and> (ws \<noteq> [] \<or> 0 < pk_index s) \<longrightarrow> 0 < pk_index t)"
  using assms
proof (induction ps ws arbitrary: s rule: list_all2_induct)
  case (Cons p ps w ws)
  obtain t where t: "pack_wire w max_size True s = Some (True, t)" "packed t = packed s @ w"
    "pk_index t \<le> max_size" "length (pk_buffer t) = length (pk_buffer s)"
    "\<forall>p\<in>set (pk_ready t). p \<in> set (pk_ready s) \<or> length p \<le> max_size" "w \<noteq> [] \<longrightarrow> 0 < pk_index t"
    using pack_wire_appends [of w max_size s] Cons.prems by auto
  then show ?case
    using Cons.IH [of t] Cons.prems Cons.hyps(1) by (fastforce simp: packs_def)
qed auto

lemma compound_fits:
  assumes "list_all2 packs ps ws" "pk_index s + length (concat ws) \<le> max_size"
    "max_size \<le> length (pk_buffer s)"
  shows "compound_pack_into ps max_size cb s =
    map_option (\<lambda>t. (True, advance (length (concat ws)) t)) (put_at 0 (concat ws) s)"
  using assms
proof (induction ps ws arbitrary: s rule: list_all2_induct)
  case (Cons p ps w ws)
  have "compound_pack_into (p # ps) max_size cb s =
      Option.bind (put_at 0 w s) (\<lambda>t. compound_pack_into ps max_size cb (advance (length w) t))"
    using Cons by (simp add: packs_def pack_wire_def bind_map_option comp_def)
  also have "\<dots> = Option.bind (put_at 0 w s) (\<lambda>t. map_option (\<lambda>t. (True, advance (length (concat ws)) t))
      (put_at 0 (concat ws) (advance (length w) t)))"
    using Cons by (cases "put_at 0 w s") (auto dest!: put_at_index)
  also have "\<dots> = map_option (\<lambda>t. (True, advance (length (concat (w # ws))) t)) (put_at 0 (concat (w # ws)) s)"
    by (simp add: wire_simps pack_simps)
  finally show ?case .
qed (simp add: put_at_def wr_def advance_def)

lemma compound_packet_size_packs: "list_all2 packs ps ws \<Longrightarrow> compound_packet_size ps = length (concat ws)"
proof -
  have "fold (\<lambda>p n. n + fst p) ps k = k + length (concat ws)" if "list_all2 packs ps ws" for k
    using that by (induction ps ws arbitrary: k rule: list_all2_induct) (auto simp: packs_def)
  then show "list_all2 packs ps ws \<Longrightarrow> compound_packet_size ps = length (concat ws)"
    by (simp add: compound_packet_size_def)
qed

text \<open>A compound of packets that keep the contract keeps it itself.\<close>

lemma compound_packs_fit:
  assumes "list_all2 packs ps ws"
  shows "build_exact (compound_packet_size ps, compound_pack_into ps) = Some (concat ws)"
  using compound_fits [OF assms, of "\<lparr>pk_buffer = replicate (length (concat ws)) 0, pk_index = 0, pk_ready = []\<rparr>"]
  by (simp add: build_exact_def compound_packet_size_packs [OF assms] put_at_def wr_def advance_def)

end
