(* ===== verification/LastChunk.thy ===== *)
theory LastChunk
  imports ByteIO
begin

text \<open>
  The status chunks of transport feedback,
  \<^verbatim>\<open>src/rtc/rtp_rtcp/rtcp/packets/transport_feedback_last_chunk.cpp\<close>: an accumulator of delta
  sizes that can be written as one 16-bit chunk, in one of three encodings.
  The array \<^verbatim>\<open>delta_sizes_\<close> is a list of fixed length 14.
\<close>

record last_chunk =
  delta_sizes :: "u8 list"
  lc_size :: nat
  all_same :: bool
  has_large_delta :: bool

definition kMaxRunLengthCapacity :: nat where "kMaxRunLengthCapacity = 0x1fff"
definition kMaxOneBitCapacity :: nat where "kMaxOneBitCapacity = 14"
definition kMaxTwoBitCapacity :: nat where "kMaxTwoBitCapacity = 7"
definition kMaxVectorCapacity :: nat where "kMaxVectorCapacity = kMaxOneBitCapacity"
definition kLarge :: u8 where "kLarge = 2"

lemmas lc_capacities = kMaxRunLengthCapacity_def kMaxOneBitCapacity_def kMaxTwoBitCapacity_def
  kMaxVectorCapacity_def kLarge_def

definition lc_empty :: "last_chunk \<Rightarrow> bool" where
  "lc_empty c \<longleftrightarrow> lc_size c = 0"

definition lc_clear :: "last_chunk \<Rightarrow> last_chunk" where
  "lc_clear c = c\<lparr>lc_size := 0, all_same := True, has_large_delta := False\<rparr>"

text \<open>The constructor leaves the array uninitialised: its contents are a parameter.\<close>

definition lc_new :: "u8 list \<Rightarrow> last_chunk" where
  "lc_new uninitialised =
     lc_clear \<lparr>delta_sizes = uninitialised, lc_size = 0, all_same = False, has_large_delta = False\<rparr>"

definition lc_can_add :: "u8 \<Rightarrow> last_chunk \<Rightarrow> bool option" where
  "lc_can_add delta_size c =
     (if delta_size \<le> 2 then Some (
        if lc_size c < kMaxTwoBitCapacity then True
        else if lc_size c < kMaxOneBitCapacity \<and> \<not> has_large_delta c \<and> delta_size \<noteq> kLarge then True
        else if lc_size c < kMaxRunLengthCapacity \<and> all_same c \<and> delta_sizes c ! 0 = delta_size then True
        else False)
      else None)"

definition lc_add :: "u8 \<Rightarrow> last_chunk \<Rightarrow> last_chunk option" where
  "lc_add delta_size c =
     (if lc_can_add delta_size c = Some True then
        (let ds = (if lc_size c < kMaxVectorCapacity then (delta_sizes c)[lc_size c := delta_size]
                   else delta_sizes c)
         in Some \<lparr>delta_sizes = ds, lc_size = lc_size c + 1,
                  all_same = (all_same c \<and> delta_size = ds ! 0),
                  has_large_delta = (has_large_delta c \<or> delta_size = kLarge)\<rparr>)
      else None)"

definition lc_encode_one_bit :: "last_chunk \<Rightarrow> u16 option" where
  "lc_encode_one_bit c =
     (if \<not> has_large_delta c \<and> lc_size c \<le> kMaxOneBitCapacity then
        Some (fold (\<lambda>i chunk. chunk OR push_bit (kMaxOneBitCapacity - 1 - i) (ucast (delta_sizes c ! i)))
          [0..<lc_size c] 0x8000)
      else None)"

definition lc_encode_two_bit :: "nat \<Rightarrow> last_chunk \<Rightarrow> u16 option" where
  "lc_encode_two_bit sz c =
     (if sz \<le> lc_size c then
        Some (fold (\<lambda>i chunk. chunk OR push_bit (2 * (kMaxTwoBitCapacity - 1 - i)) (ucast (delta_sizes c ! i)))
          [0..<sz] 0xc000)
      else None)"

definition lc_encode_run_length :: "last_chunk \<Rightarrow> u16 option" where
  "lc_encode_run_length c =
     (if all_same c \<and> lc_size c \<le> kMaxRunLengthCapacity then
        Some (push_bit 13 (ucast (delta_sizes c ! 0)) OR of_nat (lc_size c))
      else None)"

text \<open>
  \<^verbatim>\<open>Emit\<close>. The loop at its end moves the remaining delta sizes to the front of the array (it reads
  at least seven places ahead of where it writes) and recomputes the two flags.
\<close>

definition lc_emit :: "last_chunk \<Rightarrow> (u16 \<times> last_chunk) option" where
  "lc_emit c =
     (if lc_can_add 0 c \<noteq> Some True \<or> lc_can_add 1 c \<noteq> Some True \<or> lc_can_add 2 c \<noteq> Some True then
        (if all_same c then map_option (\<lambda>chunk. (chunk, lc_clear c)) (lc_encode_run_length c)
         else if lc_size c = kMaxOneBitCapacity then
           map_option (\<lambda>chunk. (chunk, lc_clear c)) (lc_encode_one_bit c)
         else if lc_size c \<ge> kMaxTwoBitCapacity then do {
           chunk \<leftarrow> lc_encode_two_bit kMaxTwoBitCapacity c;
           let sz = lc_size c - kMaxTwoBitCapacity;
           let rest = take sz (drop kMaxTwoBitCapacity (delta_sizes c));
           Some (chunk, \<lparr>delta_sizes = rest @ drop sz (delta_sizes c), lc_size = sz,
                         all_same = (\<forall>d\<in>set rest. d = rest ! 0), has_large_delta = (kLarge \<in> set rest)\<rparr>) }
         else None)
      else None)"

definition lc_encode_last :: "last_chunk \<Rightarrow> u16 option" where
  "lc_encode_last c =
     (if lc_size c > 0 then
        (if all_same c then lc_encode_run_length c
         else if lc_size c \<le> kMaxTwoBitCapacity then lc_encode_two_bit (lc_size c) c
         else lc_encode_one_bit c)
      else None)"

definition lc_append_to :: "last_chunk \<Rightarrow> u8 list \<Rightarrow> u8 list" where
  "lc_append_to c deltas =
     (if all_same c then deltas @ replicate (lc_size c) (delta_sizes c ! 0)
      else deltas @ take (lc_size c) (delta_sizes c))"

definition lc_decode_one_bit :: "u16 \<Rightarrow> nat \<Rightarrow> last_chunk \<Rightarrow> last_chunk" where
  "lc_decode_one_bit chunk max_size c =
     (let sz = min kMaxOneBitCapacity max_size
      in \<lparr>delta_sizes = map (\<lambda>i. ucast (drop_bit (kMaxOneBitCapacity - 1 - i) chunk AND 0x01)) [0..<sz] @
                        drop sz (delta_sizes c),
          lc_size = sz, all_same = False, has_large_delta = False\<rparr>)"

definition lc_decode_two_bit :: "u16 \<Rightarrow> nat \<Rightarrow> last_chunk \<Rightarrow> last_chunk" where
  "lc_decode_two_bit chunk max_size c =
     (let sz = min kMaxTwoBitCapacity max_size
      in \<lparr>delta_sizes = map (\<lambda>i. ucast (drop_bit (2 * (kMaxTwoBitCapacity - 1 - i)) chunk AND 0x03)) [0..<sz] @
                        drop sz (delta_sizes c),
          lc_size = sz, all_same = False, has_large_delta = True\<rparr>)"

definition lc_decode_run_length :: "u16 \<Rightarrow> nat \<Rightarrow> last_chunk \<Rightarrow> last_chunk" where
  "lc_decode_run_length chunk max_count c =
     (let sz = min (unat (chunk AND 0x1fff)) max_count;
          delta_size = ucast (drop_bit 13 chunk AND 0x03);
          n = min sz kMaxVectorCapacity
      in \<lparr>delta_sizes = replicate n delta_size @ drop n (delta_sizes c),
          lc_size = sz, all_same = True, has_large_delta = (delta_size \<ge> kLarge)\<rparr>)"

definition lc_decode :: "u16 \<Rightarrow> nat \<Rightarrow> last_chunk \<Rightarrow> last_chunk" where
  "lc_decode chunk max_size c =
     (if chunk AND 0x8000 = 0 then lc_decode_run_length chunk max_size c
      else if chunk AND 0x4000 = 0 then lc_decode_one_bit chunk max_size c
      else lc_decode_two_bit chunk max_size c)"

section \<open>The delta sizes a chunk stands for\<close>

definition lc_content :: "last_chunk \<Rightarrow> u8 list" where
  "lc_content c = lc_append_to c []"

lemma lc_append_to_content: "lc_append_to c deltas = deltas @ lc_content c"
  by (simp add: lc_content_def lc_append_to_def)

text \<open>All the delta sizes that a chunk encodes.\<close>

definition chunk_sizes :: "u16 \<Rightarrow> u8 list" where
  "chunk_sizes chunk =
     (if chunk AND 0x8000 = 0 then replicate (unat (chunk AND 0x1fff)) (ucast (drop_bit 13 chunk AND 0x03))
      else if chunk AND 0x4000 = 0 then map (\<lambda>i. ucast (drop_bit (13 - i) chunk AND 0x01)) [0..<14]
      else map (\<lambda>i. ucast (drop_bit (2 * (6 - i)) chunk AND 0x03)) [0..<7])"

lemma map_upt_min: "map f [0..<min n m] = take m (map f [0..<n])"
  by (cases "m \<le> n") (simp_all add: take_map)

lemma lc_decode_content: "lc_content (lc_decode chunk m c) = take m (chunk_sizes chunk)"
proof -
  have run: "lc_content (lc_decode_run_length chunk m c) =
      take m (replicate (unat (chunk AND 0x1fff)) (ucast (drop_bit 13 chunk AND 0x03)))"
    by (cases "min (unat (chunk AND 0x1fff)) m = 0")
      (auto simp: lc_content_def lc_append_to_def lc_decode_run_length_def lc_capacities Let_def nth_append min.commute)
  have one: "lc_content (lc_decode_one_bit chunk m c) = take m (map (\<lambda>i. ucast (drop_bit (13 - i) chunk AND 0x01)) [0..<14])"
    by (simp add: lc_content_def lc_append_to_def lc_decode_one_bit_def lc_capacities Let_def flip: map_upt_min)
  have two: "lc_content (lc_decode_two_bit chunk m c) = take m (map (\<lambda>i. ucast (drop_bit (2 * (6 - i)) chunk AND 0x03)) [0..<7])"
    by (simp add: lc_content_def lc_append_to_def lc_decode_two_bit_def lc_capacities Let_def flip: map_upt_min)
  show ?thesis
    unfolding lc_decode_def chunk_sizes_def by (auto simp only: run one two split: if_split)
qed

lemma lc_decode_length: "length (delta_sizes c) = 14 \<Longrightarrow> length (delta_sizes (lc_decode chunk m c)) = 14"
  by (auto simp: lc_decode_def lc_decode_run_length_def lc_decode_one_bit_def lc_decode_two_bit_def lc_capacities
      Let_def)

text \<open>
  The invariant of the accumulator: the flags describe the content, the content fits one of the
  encodings, and the array holds the content as far as the array goes.
\<close>

definition lc_inv :: "last_chunk \<Rightarrow> bool" where
  "lc_inv c \<longleftrightarrow> length (delta_sizes c) = 14 \<and> (\<forall>d\<in>set (lc_content c). d \<le> 2) \<and>
     lc_size c \<le> kMaxRunLengthCapacity \<and>
     (has_large_delta c \<longleftrightarrow> 2 \<in> set (lc_content c)) \<and>
     (if all_same c then take (lc_size c) (delta_sizes c) = replicate (min 14 (lc_size c)) (delta_sizes c ! 0)
      else lc_size c \<le> 7 \<or> (lc_size c \<le> 14 \<and> \<not> has_large_delta c)) \<and>
     (all_same c \<longleftrightarrow> (\<forall>d\<in>set (lc_content c). d = lc_content c ! 0))"

lemma length_lc_content: "length (delta_sizes c) = 14 \<Longrightarrow> all_same c \<or> lc_size c \<le> 14 \<Longrightarrow> length (lc_content c) = lc_size c"
  by (auto simp: lc_content_def lc_append_to_def)

lemma lc_inv_length: "lc_inv c \<Longrightarrow> length (lc_content c) = lc_size c"
  by (auto simp: lc_inv_def intro!: length_lc_content split: if_splits)

lemma lc_clear_inv: "length (delta_sizes c) = 14 \<Longrightarrow> lc_inv (lc_clear c) \<and> lc_content (lc_clear c) = []"
  by (simp add: lc_inv_def lc_clear_def lc_content_def lc_append_to_def kMaxRunLengthCapacity_def)

section \<open>Encodings\<close>

lemma same_digit: "w * x \<le> w * y + b \<Longrightarrow> w * y + b < w * x + w \<Longrightarrow> b < w \<Longrightarrow> x = y" for w x y b :: nat
proof (rule ccontr)
  assume a: "w * x \<le> w * y + b" "w * y + b < w * x + w" "b < w" and "x \<noteq> y"
  then consider "Suc x \<le> y" | "Suc y \<le> x" by linarith
  then show False
    using a mult_le_mono2 [of "Suc x" y w] mult_le_mono2 [of "Suc y" x w] by cases auto
qed

text \<open>
  A status vector: \<open>n\<close> digits of \<open>w\<close> bits, the first one at the top of the low \<open>w * c\<close> bits.
\<close>

definition status_vector :: "nat \<Rightarrow> nat \<Rightarrow> nat \<Rightarrow> u8 list \<Rightarrow> u16 \<Rightarrow> u16" where
  "status_vector w c n ds h =
     fold (\<lambda>i chunk. chunk OR push_bit (w * (c - 1 - i)) (ucast (ds ! i))) [0..<n] h"

lemma bit_status_vector:
  "bit (status_vector w c n ds h) k \<longleftrightarrow>
     bit h k \<or> (k < 16 \<and> (\<exists>i<n. w * (c - 1 - i) \<le> k \<and> bit (ds ! i) (k - w * (c - 1 - i))))"
  unfolding status_vector_def bit_fold_or bit_byte_shift by auto

lemma status_vector_digit:
  assumes "\<And>i. i < n \<Longrightarrow> ds ! i < 2 ^ w" "n \<le> c" "j < c" "w * c \<le> 14" "\<And>k. k < 14 \<Longrightarrow> \<not> bit h k" "w \<le> 8"
  shows "ucast (take_bit w (drop_bit (w * (c - 1 - j)) (status_vector w c n ds h))) = (if j < n then ds ! j else 0 :: u8)"
proof (rule bit_word_eqI)
  fix b assume b: "b < LENGTH(8)"
  let ?p = "w * (c - 1 - j) + b"
  have low: "i < n \<Longrightarrow> bit (ds ! i) m \<Longrightarrow> m < w" for i m using assms(1) bit_below by blast
  show "bit (ucast (take_bit w (drop_bit (w * (c - 1 - j)) (status_vector w c n ds h))) :: u8) b \<longleftrightarrow>
      bit (if j < n then ds ! j else 0) b"
  proof (cases "b < w")
    case True
    have "w * Suc (c - 1 - j) \<le> w * c" using assms(3) by (intro mult_le_mono2) linarith
    then have p: "?p < 14" using True assms(4) by simp
    have "bit (status_vector w c n ds h) ?p \<longleftrightarrow> j < n \<and> bit (ds ! j) b"
    proof
      assume "bit (status_vector w c n ds h) ?p"
      then obtain i where i: "i < n" "w * (c - 1 - i) \<le> ?p" "bit (ds ! i) (?p - w * (c - 1 - i))"
        using p assms(5) by (auto simp: bit_status_vector)
      then have "c - 1 - i = c - 1 - j"
        using low [OF i(1,3)] True by (intro same_digit [of w _ _ b]) linarith+
      then have "i = j" using i(1) assms(2,3) by linarith
      with i show "j < n \<and> bit (ds ! j) b" by simp
    qed (use p in \<open>auto simp: bit_status_vector intro!: exI [of _ j]\<close>)
    then show ?thesis using True b by (auto simp: bit_simps)
  next
    case False
    then show ?thesis using b low by (auto simp: bit_simps)
  qed
qed

lemma one_bit_vector: "lc_encode_one_bit c = Some v \<Longrightarrow> v = status_vector 1 14 (lc_size c) (delta_sizes c) 0x8000"
  by (auto simp: lc_encode_one_bit_def status_vector_def lc_capacities split: if_splits)

lemma two_bit_vector: "lc_encode_two_bit n c = Some v \<Longrightarrow> v = status_vector 2 7 n (delta_sizes c) 0xc000"
  by (auto simp: lc_encode_two_bit_def status_vector_def lc_capacities split: if_splits)

lemma header_bits: "bit (0x8000 :: u16) k \<longleftrightarrow> k = 15" "bit (0xc000 :: u16) k \<longleftrightarrow> k = 14 \<or> k = 15"
proof -
  have eq: "(0x8000 :: u16) = 2 ^ 15" "(0xc000 :: u16) = 2 ^ 15 OR 2 ^ 14" by simp_all
  show "bit (0x8000 :: u16) k \<longleftrightarrow> k = 15" unfolding eq(1) by (simp only: bit_exp_iff possible_bit_word) auto
  show "bit (0xc000 :: u16) k \<longleftrightarrow> k = 14 \<or> k = 15" unfolding eq(2) by (simp only: bit_or_iff bit_exp_iff possible_bit_word) auto
qed

lemma top_bits: "chunk AND 0x8000 = 0 \<longleftrightarrow> \<not> bit chunk 15" "chunk AND 0x4000 = 0 \<longleftrightarrow> \<not> bit chunk 14" for chunk :: u16
  using and_exp_eq_0_iff_not_bit [of chunk 15] and_exp_eq_0_iff_not_bit [of chunk 14] by simp_all

lemma status_vector_top:
  assumes "\<And>i. i < n \<Longrightarrow> ds ! i < 2 ^ w" "n \<le> c" "w * c \<le> 14" "14 \<le> k"
  shows "bit (status_vector w c n ds h) k \<longleftrightarrow> bit h k"
proof -
  have "\<not> bit (ds ! i) (k - w * (c - 1 - i))" if "i < n" for i
  proof
    assume "bit (ds ! i) (k - w * (c - 1 - i))"
    with assms(1) that have "k - w * (c - 1 - i) < w" using bit_below by blast
    moreover have "w * Suc (c - 1 - i) \<le> w * c"
      using that assms(2) by (intro mult_le_mono2) linarith
    then have "w * (c - 1 - i) + w \<le> w * c" by simp
    ultimately show False using assms(3,4) by linarith
  qed
  then show ?thesis by (auto simp: bit_status_vector)
qed

lemma map_digits:
  assumes "\<And>j. j < c \<Longrightarrow> f j = (if j < n then ds ! j else 0)" "n \<le> c" "n \<le> length ds"
  shows "map f [0..<c] = take n ds @ replicate (c - n) 0"
  using assms by (intro nth_equalityI) (auto simp: nth_append)

lemma chunk_sizes_one_bit:
  assumes "\<forall>d\<in>set (take n ds). d \<le> 1" "n \<le> 14" "n \<le> length ds"
  shows "chunk_sizes (status_vector 1 14 n ds 0x8000) = take n ds @ replicate (14 - n) 0"
proof -
  let ?v = "status_vector 1 14 n ds 0x8000"
  have d: "ds ! i < 2 ^ 1" if "i < n" for i
    using assms that nth_mem [of i "take n ds"] by (fastforce simp: word_le_def word_less_def)
  have low: "\<not> bit (0x8000 :: u16) k" if "k < 14" for k using that by (simp only: header_bits)
  have top: "bit ?v k \<longleftrightarrow> k = 15" if "14 \<le> k" for k
    using status_vector_top [of n ds 1 14 k "0x8000"] d assms(2) that by (simp only: header_bits)
  then have "bit ?v 15" "\<not> bit ?v 14" by simp_all
  moreover have "ucast (drop_bit (13 - j) ?v AND 0x01) = (if j < n then ds ! j else 0 :: u8)" if "j < 14" for j
    using status_vector_digit [of n ds 1 14 j "0x8000", OF d assms(2) that _ low] 
    by (simp add: take_bit_eq_mask mask_eq_exp_minus_1)
  ultimately show ?thesis
    using assms(2,3) map_digits [of 14 _ n ds] by (simp add: chunk_sizes_def top_bits)
qed

lemma chunk_sizes_two_bit:
  assumes "\<forall>d\<in>set (take n ds). d \<le> 3" "n \<le> 7" "n \<le> length ds"
  shows "chunk_sizes (status_vector 2 7 n ds 0xc000) = take n ds @ replicate (7 - n) 0"
proof -
  let ?v = "status_vector 2 7 n ds 0xc000"
  have d: "ds ! i < 2 ^ 2" if "i < n" for i
    using assms that nth_mem [of i "take n ds"] by (fastforce simp: word_le_def word_less_def)
  have low: "\<not> bit (0xc000 :: u16) k" if "k < 14" for k using that by (simp only: header_bits) auto
  have top: "bit ?v k \<longleftrightarrow> k = 14 \<or> k = 15" if "14 \<le> k" for k
    using status_vector_top [of n ds 2 7 k "0xc000"] d assms(2) that by (simp only: header_bits)
  then have "bit ?v 15" "bit ?v 14" by simp_all
  moreover have "ucast (drop_bit (2 * (6 - j)) ?v AND 0x03) = (if j < n then ds ! j else 0 :: u8)" if "j < 7" for j
    using status_vector_digit [of n ds 2 7 j "0xc000", OF d assms(2) that _ low] 
    by (simp add: take_bit_eq_mask mask_eq_exp_minus_1)
  ultimately show ?thesis
    using assms(2,3) map_digits [of 7 _ n ds] by (simp add: chunk_sizes_def top_bits)
qed

lemma chunk_sizes_run_length:
  fixes d :: u8
  assumes "d \<le> 3" "n \<le> 0x1fff"
  shows "chunk_sizes (push_bit 13 (ucast d) OR of_nat n) = replicate n d"
proof -
  let ?v = "push_bit 13 (ucast d) OR of_nat n :: u16"
  have d: "d < 2 ^ 2" using assms(1) by (simp add: word_le_def word_less_def)
  have n: "(of_nat n :: u16) < 2 ^ 13"
    using assms(2) by (simp add: word_less_nat_alt unat_of_nat_small)
  have "take_bit 13 n = n" using assms(2) by (intro take_bit_nat_eq_self) simp
  then have "bit n k \<Longrightarrow> k < 13" for k by (metis bit_take_bit_iff)
  note bits = bit_below [OF _ d] this
  have masks: "(0x1fff :: u16) = mask 13" "(0x03 :: u16) = mask 2" by (simp_all add: mask_eq_exp_minus_1)
  have "\<not> bit ?v 15" by (auto simp: bit_simps dest: bits)
  moreover have "?v AND 0x1fff = of_nat n"
    unfolding masks by (rule bit_word_eqI) (auto simp: bit_simps dest: bits)
  moreover have "ucast (drop_bit 13 ?v AND 0x03) = d"
    unfolding masks by (rule bit_word_eqI) (auto simp: bit_simps dest: bits)
  moreover have "unat (of_nat n :: u16) = n" using assms(2) by (intro unat_of_nat_small) simp
  ultimately show ?thesis by (simp add: chunk_sizes_def top_bits)
qed

section \<open>Adding\<close>

lemma take_Suc_update: "n < length xs \<Longrightarrow> take (Suc n) (xs[n := y]) = take n xs @ [y]"
  by (simp add: take_Suc_conv_app_nth)

lemma all_equal_replicate: "length xs = n \<Longrightarrow> \<forall>x\<in>set xs. x = y \<Longrightarrow> xs = replicate n y"
  by (metis replicate_length_same)

text \<open>The content of a nonempty accumulator whose entries are all the same, and its first array entry.\<close>

lemma lc_content_same: "all_same c \<Longrightarrow> lc_content c = replicate (lc_size c) (delta_sizes c ! 0)"
  by (simp add: lc_content_def lc_append_to_def)

lemma lc_content_mixed: "\<not> all_same c \<Longrightarrow> lc_content c = take (lc_size c) (delta_sizes c)"
  by (simp add: lc_content_def lc_append_to_def)

lemma lc_content_array:
  assumes "lc_inv c" "lc_size c \<le> 14"
  shows "lc_content c = take (lc_size c) (delta_sizes c)"
proof (cases "all_same c")
  case True
  with assms have "take (lc_size c) (delta_sizes c) = replicate (min 14 (lc_size c)) (delta_sizes c ! 0)"
    by (simp add: lc_inv_def)
  with True assms(2) show ?thesis by (simp add: lc_content_same min_def)
qed (simp add: lc_content_mixed)

lemma lc_add_content:
  assumes inv: "lc_inv c" and add: "lc_add d c = Some c'"
  shows "lc_content c' = lc_content c @ [d] \<and> lc_size c' = Suc (lc_size c) \<and> length (delta_sizes c') = 14 \<and>
    (if lc_size c < 14 then take (Suc (lc_size c)) (delta_sizes c') = lc_content c @ [d]
     else delta_sizes c' = delta_sizes c \<and> all_same c \<and> all_same c' \<and> d = delta_sizes c ! 0)"
proof -
  have can: "lc_can_add d c = Some True" and len: "length (delta_sizes c) = 14"
    using add inv by (auto simp: lc_add_def lc_inv_def split: if_splits)
  have c': "c' = \<lparr>delta_sizes = (if lc_size c < 14 then (delta_sizes c)[lc_size c := d] else delta_sizes c),
      lc_size = lc_size c + 1,
      all_same = (all_same c \<and> d = (if lc_size c < 14 then (delta_sizes c)[lc_size c := d] else delta_sizes c) ! 0),
      has_large_delta = (has_large_delta c \<or> d = kLarge)\<rparr>"
    using add can by (auto simp: lc_add_def lc_capacities Let_def)
  show ?thesis
  proof (cases "lc_size c < 14")
    case True
    then have arr: "take (Suc (lc_size c)) (delta_sizes c') = lc_content c @ [d]"
      using inv len by (simp add: c' take_Suc_update lc_content_array)
    have "lc_content c' = lc_content c @ [d]"
    proof (cases "all_same c'")
      case same: True
      then have "all_same c" "delta_sizes c' ! 0 = d" by (auto simp: c' split: if_splits)
      moreover have "delta_sizes c ! 0 = d" if "0 < lc_size c" using same that by (auto simp: c' True)
      ultimately show ?thesis
        using same by (cases "lc_size c") (auto simp: lc_content_same c' replicate_append_same)
    next
      case False
      then show ?thesis using arr by (simp add: lc_content_mixed c')
    qed
    with arr True len show ?thesis by (simp add: c')
  next
    case False
    then have "all_same c" "d = delta_sizes c ! 0" using can by (auto simp: lc_can_add_def lc_capacities split: if_splits)
    with False len show ?thesis by (simp add: c' lc_content_same replicate_append_same)
  qed
qed

lemma lc_invI:
  assumes "length (delta_sizes c) = 14" "\<forall>d\<in>set (lc_content c). d \<le> 2" "lc_size c \<le> 0x1fff"
    "has_large_delta c \<longleftrightarrow> 2 \<in> set (lc_content c)"
    "if all_same c then take (lc_size c) (delta_sizes c) = replicate (min 14 (lc_size c)) (delta_sizes c ! 0)
      else lc_size c \<le> 7 \<or> (lc_size c \<le> 14 \<and> \<not> has_large_delta c)"
    "all_same c \<longleftrightarrow> (\<forall>d\<in>set (lc_content c). d = lc_content c ! 0)"
  shows "lc_inv c"
  using assms unfolding lc_inv_def kMaxRunLengthCapacity_def by (intro conjI) assumption+

lemma lc_add_inv:
  assumes inv: "lc_inv c" and can: "lc_can_add d c = Some True" and d: "d \<le> 2"
  shows "\<exists>c'. lc_add d c = Some c' \<and> lc_inv c' \<and> lc_content c' = lc_content c @ [d]"
proof -
  obtain c' where c': "lc_add d c = Some c'" using can by (auto simp: lc_add_def Let_def)
  note cont = lc_add_content [OF inv c']
  have small: "lc_size c < 7 \<or> (lc_size c < 14 \<and> \<not> has_large_delta c \<and> d \<noteq> 2) \<or>
      (lc_size c < 0x1fff \<and> all_same c \<and> delta_sizes c ! 0 = d)"
    using can by (auto simp: lc_can_add_def lc_capacities split: if_splits)
  have large: "has_large_delta c' \<longleftrightarrow> has_large_delta c \<or> d = 2"
    using c' by (auto simp: lc_add_def lc_capacities Let_def split: if_splits)
  have first: "all_same c' \<longleftrightarrow> all_same c \<and> d = delta_sizes c' ! 0"
    using c' by (auto simp: lc_add_def lc_capacities Let_def split: if_splits)
  have content_len: "length (lc_content c) = lc_size c" using inv by (rule lc_inv_length)
  have first_entry: "delta_sizes c' ! 0 = (lc_content c @ [d]) ! 0"
  proof (cases "lc_size c < 14")
    case True
    then have "take (Suc (lc_size c)) (delta_sizes c') = lc_content c @ [d]" using cont by simp
    then show ?thesis by (metis nth_take zero_less_Suc)
  next
    case False
    then show ?thesis using cont by (simp add: lc_content_same nth_append)
  qed
  have same: "all_same c' \<longleftrightarrow> (\<forall>x\<in>set (lc_content c @ [d]). x = (lc_content c @ [d]) ! 0)"
    using inv unfolding first first_entry by (cases "lc_content c") (auto simp: lc_inv_def)
  have shape: "if all_same c' then take (lc_size c') (delta_sizes c') = replicate (min 14 (lc_size c')) (delta_sizes c' ! 0)
      else lc_size c' \<le> 7 \<or> (lc_size c' \<le> 14 \<and> \<not> has_large_delta c')"
  proof (cases "lc_size c < 14")
    case True
    have "lc_content c @ [d] = replicate (Suc (lc_size c)) (delta_sizes c' ! 0)" if "all_same c'"
      using that same content_len first_entry by (intro all_equal_replicate) auto
    moreover have "all_same c'" if "all_same c" "delta_sizes c ! 0 = d" "7 \<le> lc_size c"
      using that first first_entry by (simp add: lc_content_same nth_append)
    moreover have "min 14 (lc_size c') = Suc (lc_size c)" "take (lc_size c') (delta_sizes c') = lc_content c @ [d]"
      using True cont by simp_all
    ultimately show ?thesis
      using True cont small large by (cases "all_same c'") auto
  next
    case False
    then have "take (lc_size c) (delta_sizes c) = delta_sizes c" using inv by (simp add: lc_inv_def)
    with False show ?thesis using cont inv by (simp add: lc_inv_def min_def)
  qed
  have "lc_inv c'"
  proof (rule lc_invI)
    show "\<forall>x\<in>set (lc_content c'). x \<le> 2" "has_large_delta c' \<longleftrightarrow> 2 \<in> set (lc_content c')"
      using inv cont d large by (auto simp: lc_inv_def)
    show "lc_size c' \<le> 0x1fff" using small cont by auto
    show "all_same c' \<longleftrightarrow> (\<forall>x\<in>set (lc_content c'). x = lc_content c' ! 0)" using same cont by simp
  qed (use cont shape in simp_all)
  with c' cont show ?thesis by auto
qed

lemma can_add_small: "d \<le> 2 \<Longrightarrow> lc_size c < 7 \<Longrightarrow> lc_can_add d c = Some True"
  by (simp add: lc_can_add_def lc_capacities)

section \<open>Encoding and decoding\<close>

lemma le_3: "d \<le> 2 \<Longrightarrow> d \<le> 3" for d :: u8
  by (simp add: word_le_nat_alt)

lemma delta_size_cases: "d \<le> 2 \<Longrightarrow> d = 0 \<or> d = 1 \<or> d = 2" for d :: u8
proof -
  assume "d \<le> 2"
  then have "unat d = 0 \<or> unat d = 1 \<or> unat d = 2" by (auto simp: word_le_nat_alt)
  then show ?thesis by (simp add: word_unat_eq_iff)
qed

lemma lc_one_bit_sizes:
  assumes inv: "lc_inv c" and mixed: "\<not> all_same c" "7 < lc_size c"
  shows "\<exists>chunk. lc_encode_one_bit c = Some chunk \<and>
    chunk_sizes chunk = lc_content c @ replicate (14 - lc_size c) 0"
proof -
  have sz: "lc_size c \<le> 14" "\<not> has_large_delta c" "length (delta_sizes c) = 14"
    using mixed inv by (auto simp: lc_inv_def)
  have "d \<le> 1" if "d \<in> set (take (lc_size c) (delta_sizes c))" for d
  proof -
    have "d \<le> 2" "d \<noteq> 2" using that mixed inv sz(2) by (auto simp: lc_inv_def lc_content_mixed)
    then show ?thesis using delta_size_cases [of d] by auto
  qed
  then show ?thesis
    using mixed sz chunk_sizes_one_bit [of "lc_size c" "delta_sizes c"]
    by (auto simp: lc_capacities lc_content_mixed lc_encode_one_bit_def status_vector_def)
qed

lemma lc_encode_last_sizes:
  assumes inv: "lc_inv c" and some: "0 < lc_size c"
  shows "\<exists>chunk. lc_encode_last c = Some chunk \<and> take (lc_size c) (chunk_sizes chunk) = lc_content c"
proof -
  have len: "length (delta_sizes c) = 14" using inv by (simp add: lc_inv_def)
  consider "all_same c" | "\<not> all_same c" "lc_size c \<le> 7" | "\<not> all_same c" "7 < lc_size c" by linarith
  then show ?thesis
  proof cases
    case 1
    have "delta_sizes c ! 0 \<in> set (lc_content c)" using 1 some by (simp add: lc_content_same)
    then have "delta_sizes c ! 0 \<le> 3" using inv by (intro le_3) (simp add: lc_inv_def)
    then show ?thesis
      using 1 inv some
      by (auto simp: lc_encode_last_def lc_encode_run_length_def lc_inv_def lc_capacities lc_content_same
          chunk_sizes_run_length)
  next
    case 2
    have "\<forall>d\<in>set (take (lc_size c) (delta_sizes c)). d \<le> 3"
      using 2 inv by (intro ballI le_3) (simp add: lc_inv_def lc_content_mixed)
    then show ?thesis
      using 2 some len chunk_sizes_two_bit [of "lc_size c" "delta_sizes c"]
      by (auto simp: lc_encode_last_def lc_capacities lc_content_mixed lc_encode_two_bit_def status_vector_def)
  next
    case 3
    then show ?thesis
      using lc_one_bit_sizes [OF inv] some lc_inv_length [OF inv] by (auto simp: lc_encode_last_def lc_capacities)
  qed
qed

lemma lc_emit_sizes:
  assumes inv: "lc_inv c" and full: "lc_can_add d c = Some False"
  shows "\<exists>chunk c'. lc_emit c = Some (chunk, c') \<and> lc_inv c' \<and> lc_size c' < 7 \<and>
    lc_content c = chunk_sizes chunk @ lc_content c'"
proof -
  have len: "length (delta_sizes c) = 14" using inv by (simp add: lc_inv_def)
  have d: "d \<le> 2" and big: "7 \<le> lc_size c"
    and no: "\<not> (lc_size c < 14 \<and> \<not> has_large_delta c \<and> d \<noteq> 2)"
      "\<not> (lc_size c < 0x1fff \<and> all_same c \<and> delta_sizes c ! 0 = d)"
    using full by (auto simp: lc_can_add_def lc_capacities split: if_splits)
  have "d = 0 \<or> d = 1 \<or> d = 2" using d by (rule delta_size_cases)
  then have refused: "lc_can_add 0 c \<noteq> Some True \<or> lc_can_add 1 c \<noteq> Some True \<or> lc_can_add 2 c \<noteq> Some True"
    using full by auto
  have sizes: "\<And>x. x \<in> set (lc_content c) \<Longrightarrow> x \<le> 3" using inv by (intro le_3) (simp add: lc_inv_def)
  consider "all_same c" | "\<not> all_same c" "lc_size c = 14" | "\<not> all_same c" "lc_size c \<noteq> 14" by blast
  then show ?thesis
  proof cases
    case 1
    have "delta_sizes c ! 0 \<le> 3" using 1 big by (intro sizes) (simp add: lc_content_same)
    then show ?thesis
      using 1 refused inv lc_clear_inv [OF len]
      by (auto simp: lc_emit_def lc_encode_run_length_def lc_inv_def [of c] lc_capacities lc_content_same
          chunk_sizes_run_length lc_clear_def)
  next
    case 2
    then show ?thesis
      using lc_one_bit_sizes [OF inv] refused lc_clear_inv [OF len]
      by (auto simp: lc_emit_def lc_capacities lc_clear_def)
  next
    case 3
    let ?n = "lc_size c - 7" and ?rest = "take (lc_size c - 7) (drop 7 (delta_sizes c))"
    define c' where "c' = \<lparr>delta_sizes = ?rest @ drop ?n (delta_sizes c), lc_size = ?n,
      all_same = (\<forall>d\<in>set ?rest. d = ?rest ! 0), has_large_delta = (2 \<in> set ?rest)\<rparr>"
    have sz: "lc_size c < 14" using 3 inv by (auto simp: lc_inv_def)
    then have n: "length ?rest = ?n" "?n < 7" using len big by auto
    have content: "lc_content c = take 7 (delta_sizes c) @ ?rest"
      using 3 big by (simp add: lc_content_mixed take_add [symmetric])
    have run: "?rest = replicate ?n (delta_sizes c' ! 0)" if "all_same c'"
      using that n by (intro all_equal_replicate) (cases ?rest; auto simp: c'_def nth_append)+
    have c': "lc_content c' = ?rest"
      using run n by (cases "all_same c'") (simp_all add: lc_content_same lc_content_mixed c'_def)
    have array: "take (lc_size c') (delta_sizes c') = ?rest" "lc_size c' = ?n" using n by (simp_all add: c'_def)
    have "lc_inv c'"
    proof (rule lc_invI)
      show "length (delta_sizes c') = 14" "has_large_delta c' \<longleftrightarrow> 2 \<in> set (lc_content c')"
        "all_same c' \<longleftrightarrow> (\<forall>x\<in>set (lc_content c'). x = lc_content c' ! 0)"
        using n len by (simp_all only: c') (auto simp: c'_def)
      show "\<forall>x\<in>set (lc_content c'). x \<le> 2" using inv content by (simp add: c' lc_inv_def)
      show "if all_same c' then take (lc_size c') (delta_sizes c') = replicate (min 14 (lc_size c')) (delta_sizes c' ! 0)
        else lc_size c' \<le> 7 \<or> (lc_size c' \<le> 14 \<and> \<not> has_large_delta c')"
        using run array n(2) by (simp only: array min_absorb2) simp
    qed (use n array in simp_all)
    moreover have "lc_emit c = Some (status_vector 2 7 7 (delta_sizes c) 0xc000, c')"
      using 3 refused big
      by (simp add: lc_emit_def lc_capacities lc_encode_two_bit_def status_vector_def Let_def c'_def)
    moreover have "chunk_sizes (status_vector 2 7 7 (delta_sizes c) 0xc000) = take 7 (delta_sizes c)"
      using chunk_sizes_two_bit [of 7 "delta_sizes c"] sizes len by (simp add: content)
    ultimately show ?thesis using c' content n by (auto simp: c'_def)
  qed
qed

section \<open>The contract of the accumulator\<close>

text \<open>
  What transport feedback relies on: adding appends one delta size; when a size cannot be added,
  emitting a chunk takes a prefix of the content away and leaves room; the last chunk can always be
  encoded. \<open>sizes\<close> is what the receiver decodes from a chunk.
\<close>

locale status_accumulator =
  fixes inv :: "'c \<Rightarrow> bool" and content :: "'c \<Rightarrow> u8 list" and can_add :: "u8 \<Rightarrow> 'c \<Rightarrow> bool option"
    and add :: "u8 \<Rightarrow> 'c \<Rightarrow> 'c option" and emit :: "'c \<Rightarrow> (u16 \<times> 'c) option" and encode :: "'c \<Rightarrow> u16 option"
    and sizes :: "u16 \<Rightarrow> u8 list"
  assumes can_add_defined: "d \<le> 2 \<Longrightarrow> \<exists>ok. can_add d c = Some ok"
    and add_appends: "inv c \<Longrightarrow> can_add d c = Some True \<Longrightarrow> d \<le> 2 \<Longrightarrow>
      \<exists>c'. add d c = Some c' \<and> inv c' \<and> content c' = content c @ [d]"
    and refused_nonempty: "inv c \<Longrightarrow> can_add d c = Some False \<Longrightarrow> content c \<noteq> []"
    and emit_splits: "inv c \<Longrightarrow> can_add d c = Some False \<Longrightarrow>
      \<exists>chunk c'. emit c = Some (chunk, c') \<and> inv c' \<and> content c = sizes chunk @ content c' \<and>
        (\<forall>e. e \<le> 2 \<longrightarrow> can_add e c' = Some True)"
    and encode_last: "inv c \<Longrightarrow> content c \<noteq> [] \<Longrightarrow>
      \<exists>chunk. encode c = Some chunk \<and> take (length (content c)) (sizes chunk) = content c"
begin

text \<open>One size through the accumulator: either it is added, or a chunk is emitted and then it is added.\<close>

lemma push_cases:
  assumes "inv c" "d \<le> 2"
  obtains (added) c' where "can_add d c = Some True" "add d c = Some c'" "inv c'" "content c' = content c @ [d]"
  | (emitted) chunk c' c'' where "can_add d c = Some False" "emit c = Some (chunk, c')" "add d c' = Some c''"
      "inv c''" "sizes chunk @ content c'' = content c @ [d]" "content c'' \<noteq> []" "content c \<noteq> []"
proof -
  obtain ok where ok: "can_add d c = Some ok" using can_add_defined [OF assms(2)] by blast
  show ?thesis
  proof (cases ok)
    case True
    then show ?thesis using add_appends [OF assms(1) _ assms(2)] ok added by auto
  next
    case False
    then have "can_add d c = Some False" using ok by simp
    then obtain chunk c' where e: "emit c = Some (chunk, c')" "inv c'" "content c = sizes chunk @ content c'"
      "can_add d c' = Some True"
      using emit_splits [OF assms(1)] assms(2) by blast
    then obtain c'' where "add d c' = Some c''" "inv c''" "content c'' = content c' @ [d]"
      using add_appends assms(2) by blast
    with e ok False show ?thesis
      using refused_nonempty [OF assms(1)] by (intro emitted [OF _ e(1)]) auto
  qed
qed

end

interpretation lc: status_accumulator lc_inv lc_content lc_can_add lc_add lc_emit lc_encode_last chunk_sizes
proof
  fix c d
  show "d \<le> 2 \<Longrightarrow> \<exists>ok. lc_can_add d c = Some ok" by (simp add: lc_can_add_def)
  show "lc_inv c \<Longrightarrow> lc_can_add d c = Some False \<Longrightarrow> lc_content c \<noteq> []"
    using lc_inv_length [of c] by (auto simp: lc_can_add_def lc_capacities split: if_splits)
  show "lc_inv c \<Longrightarrow> lc_can_add d c = Some True \<Longrightarrow> d \<le> 2 \<Longrightarrow>
      \<exists>c'. lc_add d c = Some c' \<and> lc_inv c' \<and> lc_content c' = lc_content c @ [d]"
    by (rule lc_add_inv)
  show "lc_inv c \<Longrightarrow> lc_can_add d c = Some False \<Longrightarrow>
      \<exists>chunk c'. lc_emit c = Some (chunk, c') \<and> lc_inv c' \<and> lc_content c = chunk_sizes chunk @ lc_content c' \<and>
        (\<forall>e. e \<le> 2 \<longrightarrow> lc_can_add e c' = Some True)"
    using lc_emit_sizes can_add_small by blast
  show "lc_inv c \<Longrightarrow> lc_content c \<noteq> [] \<Longrightarrow>
      \<exists>chunk. lc_encode_last c = Some chunk \<and> take (length (lc_content c)) (chunk_sizes chunk) = lc_content c"
    using lc_encode_last_sizes [of c] lc_inv_length [of c] by (cases "lc_size c") auto
qed

section \<open>Properties\<close>

text \<open>A sequence of \<^verbatim>\<open>Add\<close> calls, each after \<^verbatim>\<open>CanAdd\<close> agreed; \<open>None\<close> when it refuses.\<close>

fun lc_add_all :: "u8 list \<Rightarrow> last_chunk \<Rightarrow> last_chunk option" where
  "lc_add_all [] c = Some c"
| "lc_add_all (d # ds) c = (if lc_can_add d c = Some True then Option.bind (lc_add d c) (lc_add_all ds) else None)"

lemma lc_add_all_content:
  assumes "lc_inv c" "lc_add_all ds c = Some c'"
  shows "lc_inv c' \<and> lc_content c' = lc_content c @ ds"
  using assms
proof (induction ds arbitrary: c)
  case (Cons d ds)
  then have can: "lc_can_add d c = Some True" by (auto split: if_splits)
  then have "d \<le> 2" by (simp add: lc_can_add_def split: if_splits)
  with lc_add_inv [OF Cons.prems(1) can] obtain c1 where "lc_add d c = Some c1" "lc_inv c1"
    "lc_content c1 = lc_content c @ [d]" by blast
  with Cons can show ?case by simp
qed simp

lemma lc_new_inv: "length u = 14 \<Longrightarrow> lc_inv (lc_new u) \<and> lc_content (lc_new u) = []"
  using lc_clear_inv [of "\<lparr>delta_sizes = u, lc_size = 0, all_same = False, has_large_delta = False\<rparr>"]
  by (simp add: lc_new_def)

text \<open>
  C20. Whatever delta sizes a chunk agreed to take, in any number up to the capacity of the run
  length encoding, the 16-bit code it is encoded to decodes to exactly those sizes, into any decoder.
\<close>

theorem last_chunk_roundtrip:
  assumes "length u = 14" "lc_add_all ds (lc_new u) = Some c" "ds \<noteq> []"
  shows "\<exists>chunk. lc_encode_last c = Some chunk \<and> lc_append_to (lc_decode chunk (length ds) decoder) sizes = sizes @ ds"
proof -
  have c: "lc_inv c" "lc_content c = ds"
    using lc_add_all_content [of "lc_new u" ds c] lc_new_inv [OF assms(1)] assms(2) by auto
  moreover from this assms(3) have "0 < lc_size c" using lc_inv_length [of c] by (metis length_greater_0_conv)
  ultimately show ?thesis
    using lc_encode_last_sizes [of c] lc_inv_length [of c] by (auto simp: lc_append_to_content lc_decode_content)
qed

theorem last_chunk_roundtrip_witness:
  "\<exists>c chunk. lc_add_all [1, 0, 1] (lc_new (replicate 14 5)) = Some c \<and> lc_encode_last c = Some chunk \<and>
     lc_append_to (lc_decode chunk (length [1, 0, 1 :: u8]) c) [7] = [7] @ [1, 0, 1]"
proof -
  have "\<exists>c. lc_add_all [1, 0, 1] (lc_new (replicate 14 5)) = Some c"
    by (simp add: lc_add_def lc_can_add_def lc_new_def lc_clear_def lc_capacities Let_def)
  then show ?thesis using last_chunk_roundtrip [of "replicate 14 5" "[1, 0, 1]"] by fastforce
qed

end
