(* ===== verification/TransportFeedback.thy ===== *)
theory TransportFeedback
  imports LastChunk RtcpBase SeqNum "HOL-Library.Signed_Division"
begin

text \<open>
  Transport-wide feedback,
  \<^verbatim>\<open>src/rtc/rtp_rtcp/rtcp/packets/transport_feedback.cpp\<close>: arrival times of packets as deltas of
  250 microseconds, with run-length and vector encoded status chunks.

  Times are integers (the source's \<^verbatim>\<open>int64_t\<close> microseconds; C++ division and remainder truncate,
  \<open>sdiv\<close> and \<open>smod\<close>). A delta is an \<^verbatim>\<open>int16_t\<close>, a 16-bit word read as signed. The entry of a packet
  that was not received has no delta.
\<close>

datatype received_packet = Received u16 u16 | Lost u16

fun rp_sequence_number :: "received_packet \<Rightarrow> u16" where
  "rp_sequence_number (Received s d) = s"
| "rp_sequence_number (Lost s) = s"

record transport_feedback =
  tf_sender_ssrc :: u32
  tf_media_ssrc :: u32
  tf_include_lost :: bool
  tf_base_seq_num :: u16
  tf_status_count :: u16
  tf_reference_time :: int
  tf_feedback_seq :: u8
  tf_include_timestamps :: bool
  tf_last_timestamp_us :: int
  tf_received_packets :: "(u16 \<times> u16) list"
  tf_all_packets :: "received_packet list"
  tf_encoded_chunks :: "u16 list"
  tf_last_chunk :: last_chunk
  tf_size_bytes :: nat

definition kTransportFeedbackHeaderSizeBytes :: nat where "kTransportFeedbackHeaderSizeBytes = 4 + 8 + 8"
definition kChunkSizeBytes :: nat where "kChunkSizeBytes = 2"
definition kMaxSizeBytes :: nat where "kMaxSizeBytes = 65536 * 4"
definition kMinPayloadSizeBytes :: nat where "kMinPayloadSizeBytes = 8 + 8 + 2"
definition kDeltaScaleFactor :: int where "kDeltaScaleFactor = 250"
definition kBaseScaleFactor :: int where "kBaseScaleFactor = kDeltaScaleFactor * 256"
definition kTimeWrapPeriodUs :: int where "kTimeWrapPeriodUs = 16777216 * kBaseScaleFactor"

definition get_base_time_us :: "transport_feedback \<Rightarrow> int" where
  "get_base_time_us f = tf_reference_time f * kBaseScaleFactor"

definition tf_new :: "bool \<Rightarrow> bool \<Rightarrow> u8 list \<Rightarrow> transport_feedback" where
  "tf_new include_timestamps include_lost uninitialised =
     \<lparr>tf_sender_ssrc = 0, tf_media_ssrc = 0, tf_include_lost = include_lost, tf_base_seq_num = 0,
      tf_status_count = 0, tf_reference_time = 0, tf_feedback_seq = 0,
      tf_include_timestamps = include_timestamps, tf_last_timestamp_us = 0, tf_received_packets = [],
      tf_all_packets = [], tf_encoded_chunks = [], tf_last_chunk = lc_new uninitialised,
      tf_size_bytes = kTransportFeedbackHeaderSizeBytes\<rparr>"

definition tf_clear :: "transport_feedback \<Rightarrow> transport_feedback" where
  "tf_clear f = f\<lparr>tf_status_count := 0, tf_last_timestamp_us := get_base_time_us f,
     tf_received_packets := [], tf_all_packets := [], tf_encoded_chunks := [],
     tf_last_chunk := lc_clear (tf_last_chunk f), tf_size_bytes := kTransportFeedbackHeaderSizeBytes\<rparr>"

definition tf_set_base :: "u16 \<Rightarrow> int \<Rightarrow> transport_feedback \<Rightarrow> transport_feedback option" where
  "tf_set_base base_sequence ref_timestamp_us f =
     (if tf_status_count f = 0 \<and> ref_timestamp_us \<ge> 0 then
        (let f = f\<lparr>tf_base_seq_num := base_sequence,
                   tf_reference_time := (ref_timestamp_us smod kTimeWrapPeriodUs) sdiv kBaseScaleFactor\<rparr>
         in Some (f\<lparr>tf_last_timestamp_us := get_base_time_us f\<rparr>))
      else None)"

definition tf_set_feedback_sequence_number :: "u8 \<Rightarrow> transport_feedback \<Rightarrow> transport_feedback" where
  "tf_set_feedback_sequence_number n f = f\<lparr>tf_feedback_seq := n\<rparr>"

definition get_base_delta_us :: "int \<Rightarrow> transport_feedback \<Rightarrow> int" where
  "get_base_delta_us prev_timestamp_us f =
     (let delta = get_base_time_us f - prev_timestamp_us
      in if \<bar>delta - kTimeWrapPeriodUs\<bar> < \<bar>delta\<bar> then delta - kTimeWrapPeriodUs
         else if \<bar>delta + kTimeWrapPeriodUs\<bar> < \<bar>delta\<bar> then delta + kTimeWrapPeriodUs
         else delta)"

section \<open>Adding packets\<close>

definition tf_add_delta_size :: "u8 \<Rightarrow> transport_feedback \<Rightarrow> (bool \<times> transport_feedback) option" where
  "tf_add_delta_size delta_size f =
     (if tf_status_count f = 0xffff then Some (False, f)
      else (let add_chunk_size = (if lc_empty (tf_last_chunk f) then kChunkSizeBytes else 0)
        in if tf_size_bytes f + unat delta_size + add_chunk_size > kMaxSizeBytes then Some (False, f)
        else do {
          can \<leftarrow> lc_can_add delta_size (tf_last_chunk f);
          if can then do {
            c \<leftarrow> lc_add delta_size (tf_last_chunk f);
            Some (True, f\<lparr>tf_size_bytes := tf_size_bytes f + add_chunk_size, tf_last_chunk := c,
                          tf_status_count := tf_status_count f + 1\<rparr>) }
          else if tf_size_bytes f + unat delta_size + kChunkSizeBytes > kMaxSizeBytes then Some (False, f)
          else do {
            (chunk, c) \<leftarrow> lc_emit (tf_last_chunk f);
            c \<leftarrow> lc_add delta_size c;
            Some (True, f\<lparr>tf_encoded_chunks := tf_encoded_chunks f @ [chunk],
                          tf_size_bytes := tf_size_bytes f + kChunkSizeBytes, tf_last_chunk := c,
                          tf_status_count := tf_status_count f + 1\<rparr>) } }))"

text \<open>The conversion of an arrival time to a delta in ticks; \<open>None\<close> when it does not fit 16 bits.\<close>

definition tf_delta_ticks :: "int \<Rightarrow> transport_feedback \<Rightarrow> u16 option" where
  "tf_delta_ticks timestamp_us f =
     (let delta_full = (timestamp_us - tf_last_timestamp_us f) smod kTimeWrapPeriodUs;
          delta_full = (if delta_full > kTimeWrapPeriodUs sdiv 2 then delta_full - kTimeWrapPeriodUs else delta_full);
          delta_full = delta_full + (if delta_full < 0 then - (kDeltaScaleFactor sdiv 2) else kDeltaScaleFactor sdiv 2);
          delta_full = delta_full sdiv kDeltaScaleFactor;
          delta = word_of_int delta_full
      in if sint delta \<noteq> delta_full then None else Some delta)"

text \<open>The loop over the missing packets: \<open>n\<close> of them, from sequence number \<open>next_seq_no\<close> on.\<close>

fun tf_add_lost :: "nat \<Rightarrow> u16 \<Rightarrow> transport_feedback \<Rightarrow> (bool \<times> transport_feedback) option" where
  "tf_add_lost 0 next_seq_no f = Some (True, f)"
| "tf_add_lost (Suc n) next_seq_no f = do {
     (ok, f) \<leftarrow> tf_add_delta_size 0 f;
     if \<not> ok then Some (False, f)
     else tf_add_lost n (next_seq_no + 1)
       (if tf_include_lost f then f\<lparr>tf_all_packets := tf_all_packets f @ [Lost next_seq_no]\<rparr> else f) }"

definition delta_fits_byte :: "u16 \<Rightarrow> bool" where
  "delta_fits_byte delta \<longleftrightarrow> 0 \<le> sint delta \<and> sint delta \<le> 0xff"

definition tf_add_received_packet ::
  "u16 \<Rightarrow> int \<Rightarrow> transport_feedback \<Rightarrow> (bool \<times> transport_feedback) option" where
  "tf_add_received_packet sequence_number timestamp_us f =
     (case (if tf_include_timestamps f then tf_delta_ticks timestamp_us f else Some 0) of
        None \<Rightarrow> Some (False, f)
      | Some delta \<Rightarrow>
          (let next_seq_no = tf_base_seq_num f + tf_status_count f
           in if sequence_number \<noteq> next_seq_no \<and> \<not> ahead_of sequence_number (next_seq_no - 1)
              then Some (False, f)
              else do {
                (ok, f) \<leftarrow> tf_add_lost (unat (sequence_number - next_seq_no)) next_seq_no f;
                if \<not> ok then Some (False, f)
                else (let delta_size = (if delta_fits_byte delta then 1 else 2 :: u8) in do {
                  (ok, f) \<leftarrow> tf_add_delta_size delta_size f;
                  if \<not> ok then Some (False, f)
                  else (let f = f\<lparr>tf_received_packets := tf_received_packets f @ [(sequence_number, delta)]\<rparr>;
                            f = (if tf_include_lost f
                                 then f\<lparr>tf_all_packets := tf_all_packets f @ [Received sequence_number delta]\<rparr>
                                 else f);
                            f = f\<lparr>tf_last_timestamp_us := tf_last_timestamp_us f + sint delta * kDeltaScaleFactor\<rparr>
                        in Some (True,
                             if tf_include_timestamps f
                             then f\<lparr>tf_size_bytes := tf_size_bytes f + unat delta_size\<rparr> else f)) }) }))"

section \<open>Parsing\<close>

text \<open>
  The chunk loop of \<^verbatim>\<open>Parse\<close>: the index after the last chunk read, the chunks, the last chunk's
  decoder state and the delta sizes.
\<close>

function tf_parse_chunks :: "byte list \<Rightarrow> nat \<Rightarrow> nat \<Rightarrow> nat \<Rightarrow> u16 list \<Rightarrow> last_chunk \<Rightarrow> u8 list \<Rightarrow>
    (nat \<times> u16 list \<times> last_chunk \<times> u8 list) option option" where
  "tf_parse_chunks p end_index status_count i chunks c sizes =
     (if length sizes < status_count then
        (if i + kChunkSizeBytes > end_index then reject
         else do {
           chunk \<leftarrow> read_be16 p i;
           let c = lc_decode chunk (status_count - length sizes) c;
           tf_parse_chunks p end_index status_count (i + kChunkSizeBytes) (chunks @ [chunk]) c
             (lc_append_to c sizes) })
      else accept (i, chunks, c, sizes))"
  by pat_completeness auto
termination
  by (relation "measure (\<lambda>(p, e, n, i, rest). e - i)") (auto simp: kChunkSizeBytes_def)

declare tf_parse_chunks.simps [simp del]

text \<open>The loop over the delta sizes of a packet that carries receive deltas.\<close>

definition tf_record_received :: "u16 \<Rightarrow> u16 \<Rightarrow> transport_feedback \<Rightarrow> transport_feedback" where
  "tf_record_received seq_no delta f =
     f\<lparr>tf_received_packets := tf_received_packets f @ [(seq_no, delta)],
       tf_all_packets := (if tf_include_lost f then tf_all_packets f @ [Received seq_no delta] else tf_all_packets f),
       tf_last_timestamp_us := tf_last_timestamp_us f + sint delta * kDeltaScaleFactor\<rparr>"

fun tf_parse_deltas :: "byte list \<Rightarrow> nat \<Rightarrow> u8 list \<Rightarrow> nat \<Rightarrow> u16 \<Rightarrow> transport_feedback \<Rightarrow>
    (nat \<times> transport_feedback) option option" where
  "tf_parse_deltas p end_index [] i seq_no f = accept (i, f)"
| "tf_parse_deltas p end_index (d # ds) i seq_no f =
     (if i + unat d > end_index then reject
      else if d = 0 then
        tf_parse_deltas p end_index ds i (seq_no + 1)
          (if tf_include_lost f then f\<lparr>tf_all_packets := tf_all_packets f @ [Lost seq_no]\<rparr> else f)
      else if d = 1 then do {
        b \<leftarrow> rd p i;
        tf_parse_deltas p end_index ds (i + 1) (seq_no + 1) (tf_record_received seq_no (ucast b) f) }
      else if d = 2 then do {
        w \<leftarrow> read_be16 p i;
        tf_parse_deltas p end_index ds (i + 2) (seq_no + 1) (tf_record_received seq_no w f) }
      else if d = 3 then reject
      else None)"

text \<open>The loop over the delta sizes of a packet without receive deltas.\<close>

fun tf_parse_no_deltas :: "u8 list \<Rightarrow> u16 \<Rightarrow> transport_feedback \<Rightarrow> transport_feedback" where
  "tf_parse_no_deltas [] seq_no f = f"
| "tf_parse_no_deltas (d # ds) seq_no f =
     (let f = (if d > 0 then f\<lparr>tf_received_packets := tf_received_packets f @ [(seq_no, 0)]\<rparr> else f);
          f = (if tf_include_lost f
               then f\<lparr>tf_all_packets := tf_all_packets f @ [if d > 0 then Received seq_no 0 else Lost seq_no]\<rparr>
               else f)
      in tf_parse_no_deltas ds (seq_no + 1) f)"

definition tf_parse :: "transport_feedback \<Rightarrow> common_header \<Rightarrow> transport_feedback option option" where
  "tf_parse f packet =
     (if packet_type packet = 205 \<and> count_or_fmt packet = 15 then
        (if payload_size packet < kMinPayloadSizeBytes then reject
         else do {
           ssrcs \<leftarrow> rtpfb_parse_common_feedback (payload packet) (payload_size packet);
           let p = payload packet;
           base \<leftarrow> read_be16 p 8;
           status_count \<leftarrow> read_be16 p 10;
           ref_time \<leftarrow> read_signed_be24 p 12;
           fb_seq \<leftarrow> rd p 15;
           let f = (case ssrcs of None \<Rightarrow> f
                    | Some (snd_ssrc, med) \<Rightarrow> f\<lparr>tf_sender_ssrc := snd_ssrc, tf_media_ssrc := med\<rparr>);
           let f = tf_clear (f\<lparr>tf_base_seq_num := base, tf_reference_time := sint ref_time,
                               tf_feedback_seq := fb_seq\<rparr>);
           let end_index = payload_size packet;
           if status_count = 0 then reject
           else do {
             r \<leftarrow> tf_parse_chunks p end_index (unat status_count) 16 [] (tf_last_chunk f) [];
             (case r of
                None \<Rightarrow> reject
              | Some (i, chunks, c, sizes) \<Rightarrow>
                  if length sizes \<noteq> unat status_count then None
                  else (let f = f\<lparr>tf_encoded_chunks := butlast chunks, tf_last_chunk := c,
                                  tf_status_count := status_count\<rparr>;
                            recv_delta_size = sum_list (map unat sizes)
                    in if end_index \<ge> i + recv_delta_size then do {
                         r \<leftarrow> tf_parse_deltas p end_index sizes i base f;
                         (case r of
                            None \<Rightarrow> reject
                          | Some (j, f) \<Rightarrow>
                              if j \<le> end_index then accept (f\<lparr>tf_size_bytes := 4 + j\<rparr>) else None) }
                       else
                         (let f = tf_parse_no_deltas sizes base (f\<lparr>tf_include_timestamps := False\<rparr>)
                          in if i \<le> end_index then accept (f\<lparr>tf_size_bytes := 4 + i\<rparr>) else None))) } })
      else None)"

definition tf_parse_from :: "u8 list \<Rightarrow> byte list \<Rightarrow> nat \<Rightarrow> transport_feedback option option" where
  "tf_parse_from uninitialised buffer sz = do {
     header \<leftarrow> common_header_parse buffer sz;
     (case header of
        None \<Rightarrow> reject
      | Some h \<Rightarrow>
          if packet_type h \<noteq> 205 \<or> count_or_fmt h \<noteq> 15 then reject
          else tf_parse (tf_new True True uninitialised) h) }"

section \<open>Packing\<close>

definition tf_packet_size :: "transport_feedback \<Rightarrow> nat" where
  "tf_packet_size f = (tf_size_bytes f + 3) div 4 * 4"

definition tf_padding_size :: "transport_feedback \<Rightarrow> nat" where
  "tf_padding_size f = tf_packet_size f - tf_size_bytes f"

fun tf_pack_chunks :: "u16 list \<Rightarrow> pack_state \<Rightarrow> pack_state option" where
  "tf_pack_chunks [] s = Some s"
| "tf_pack_chunks (c # cs) s = do { s \<leftarrow> put_at 0 (be16 c) s; tf_pack_chunks cs (advance 2 s) }"

fun tf_pack_deltas :: "(u16 \<times> u16) list \<Rightarrow> pack_state \<Rightarrow> pack_state option" where
  "tf_pack_deltas [] s = Some s"
| "tf_pack_deltas ((seq_no, delta) # ps) s =
     (if delta_fits_byte delta then do {
        s \<leftarrow> put_at 0 [ucast delta] s;
        tf_pack_deltas ps (advance 1 s) }
      else do {
        s \<leftarrow> put_at 0 (be16 delta) s;
        tf_pack_deltas ps (advance 2 s) })"

definition tf_pack_padding :: "nat \<Rightarrow> pack_state \<Rightarrow> pack_state option" where
  "tf_pack_padding padding s =
     (if padding > 0 then do {
        s \<leftarrow> put_at 0 (replicate (padding - 1) 0) s;
        let s = advance (padding - 1) s;
        s \<leftarrow> put_at 0 [of_nat padding] s;
        Some (advance 1 s) }
      else Some s)"

definition tf_pack_into ::
  "transport_feedback \<Rightarrow> nat \<Rightarrow> bool \<Rightarrow> pack_state \<Rightarrow> (bool \<times> pack_state) option" where
  "tf_pack_into f max_size callback s0 =
     (if tf_status_count f = 0 then Some (False, s0)
      else case make_room (tf_packet_size f) max_size callback s0 of
        (False, s) \<Rightarrow> Some (False, s)
      | (True, s) \<Rightarrow> do {
          let index_end = pk_index s + tf_packet_size f;
          n \<leftarrow> packet_size_without_common_header (tf_packet_size f);
          s \<leftarrow> pack_common_header 15 205 n (tf_padding_size f > 0) s;
          (ok, s) \<leftarrow> rtpfb_pack_common_feedback_into (tf_sender_ssrc f) (tf_media_ssrc f) (index_end - pk_index s) s;
          let s = advance kCommonFeedbackSize s;
          s \<leftarrow> put_at 0 (be16 (tf_base_seq_num f)) s;
          let s = advance 2 s;
          s \<leftarrow> put_at 0 (be16 (tf_status_count f)) s;
          let s = advance 2 s;
          s \<leftarrow> put_at 0 (be24 (word_of_int (tf_reference_time f))) s;
          let s = advance 3 s;
          s \<leftarrow> put_at 0 [tf_feedback_seq f] s;
          s \<leftarrow> tf_pack_chunks (tf_encoded_chunks f) (advance 1 s);
          s \<leftarrow> (if \<not> lc_empty (tf_last_chunk f) then do {
                  chunk \<leftarrow> lc_encode_last (tf_last_chunk f);
                  s \<leftarrow> put_at 0 (be16 chunk) s;
                  Some (advance 2 s) }
                else Some s);
          s \<leftarrow> (if tf_include_timestamps f then tf_pack_deltas (tf_received_packets f) s else Some s);
          s \<leftarrow> tf_pack_padding (tf_padding_size f) s;
          assert_index index_end s })"

section \<open>The class's own consistency check\<close>

text \<open>
  \<^verbatim>\<open>IsConsistent\<close>, which the header calls the pre- and postcondition of all public methods. The
  product of the reference time and the scale factor is computed in \<^verbatim>\<open>int\<close>; \<open>None\<close> is its overflow.
\<close>

fun tf_match_packets :: "bool \<Rightarrow> u8 list \<Rightarrow> u16 \<Rightarrow> (u16 \<times> u16) list \<Rightarrow> int \<Rightarrow> nat \<Rightarrow>
    ((u16 \<times> u16) list \<times> int \<times> nat) option" where
  "tf_match_packets ts [] seq_no ps time sz = Some (ps, time, sz)"
| "tf_match_packets ts (d # ds) seq_no ps time sz =
     (let sz = (if ts then sz + unat d else sz)
      in if d > 0 then
           (case ps of
              [] \<Rightarrow> None
            | (s, delta) # ps \<Rightarrow>
                if s \<noteq> seq_no then None
                else if d = 1 \<and> \<not> delta_fits_byte delta then None
                else tf_match_packets ts ds (seq_no + 1) ps (time + sint delta * kDeltaScaleFactor) sz)
         else tf_match_packets ts ds (seq_no + 1) ps time sz)"

definition tf_decode_all :: "u16 list \<Rightarrow> last_chunk \<Rightarrow> u8 list" where
  "tf_decode_all chunks decoder =
     snd (fold (\<lambda>chunk (c, sizes). let c = lc_decode chunk 0xffff c in (c, lc_append_to c sizes)) chunks (decoder, []))"

definition tf_is_consistent :: "u8 list \<Rightarrow> transport_feedback \<Rightarrow> bool option" where
  "tf_is_consistent uninitialised f =
     (let sizes = tf_decode_all (tf_encoded_chunks f) (lc_new uninitialised);
          packet_size = kTransportFeedbackHeaderSizeBytes + kChunkSizeBytes * length (tf_encoded_chunks f);
          sizes = (if lc_empty (tf_last_chunk f) then sizes else lc_append_to (tf_last_chunk f) sizes);
          packet_size = (if lc_empty (tf_last_chunk f) then packet_size else packet_size + kChunkSizeBytes)
      in if unat (tf_status_count f) \<noteq> length sizes then Some False
         else (let t = tf_reference_time f * kBaseScaleFactor
           in if t < - (2 ^ 31) \<or> 2 ^ 31 \<le> t then None
           else (case tf_match_packets (tf_include_timestamps f) sizes (tf_base_seq_num f) (tf_received_packets f)
                        t packet_size of
                   None \<Rightarrow> Some False
                 | Some (ps, time, sz) \<Rightarrow>
                     Some (ps = [] \<and> time = tf_last_timestamp_us f \<and> sz = tf_size_bytes f))))"

section \<open>Invariant\<close>

text \<open>The delta sizes an object stands for, and the bytes its chunks take.\<close>

definition tf_sizes :: "transport_feedback \<Rightarrow> u8 list" where
  "tf_sizes f = concat (map chunk_sizes (tf_encoded_chunks f)) @ lc_content (tf_last_chunk f)"

definition tf_chunk_bytes :: "transport_feedback \<Rightarrow> nat" where
  "tf_chunk_bytes f = 2 * length (tf_encoded_chunks f) + (if lc_empty (tf_last_chunk f) then 0 else 2)"

text \<open>The received packets are the entries with a nonzero delta size, in order.\<close>

fun recv_match :: "u16 \<Rightarrow> u8 list \<Rightarrow> (u16 \<times> u16) list \<Rightarrow> bool" where
  "recv_match seq_no [] ps \<longleftrightarrow> ps = []"
| "recv_match seq_no (d # ds) ps \<longleftrightarrow>
     (if d = 0 then recv_match (seq_no + 1) ds ps
      else (case ps of
              [] \<Rightarrow> False
            | (s, delta) # ps \<Rightarrow> s = seq_no \<and> d \<le> 2 \<and> (d = 1 \<longleftrightarrow> delta_fits_byte delta) \<and>
                recv_match (seq_no + 1) ds ps))"

fun all_entries :: "u16 \<Rightarrow> u8 list \<Rightarrow> (u16 \<times> u16) list \<Rightarrow> received_packet list" where
  "all_entries seq_no [] ps = []"
| "all_entries seq_no (d # ds) ps =
     (if d = 0 then Lost seq_no # all_entries (seq_no + 1) ds ps
      else (case ps of [] \<Rightarrow> [] | (s, delta) # ps \<Rightarrow> Received s delta # all_entries (seq_no + 1) ds ps))"

definition tf_chunks_ok :: "transport_feedback \<Rightarrow> bool" where
  "tf_chunks_ok f \<longleftrightarrow> lc_inv (tf_last_chunk f) \<and> unat (tf_status_count f) = length (tf_sizes f) \<and>
     (tf_sizes f \<noteq> [] \<longrightarrow> lc_content (tf_last_chunk f) \<noteq> [])"

definition tf_inv :: "transport_feedback \<Rightarrow> bool" where
  "tf_inv f \<longleftrightarrow> tf_chunks_ok f \<and>
     recv_match (tf_base_seq_num f) (tf_sizes f) (tf_received_packets f) \<and>
     tf_all_packets f = (if tf_include_lost f
       then all_entries (tf_base_seq_num f) (tf_sizes f) (tf_received_packets f) else []) \<and>
     (\<not> tf_include_timestamps f \<longrightarrow> (\<forall>p\<in>set (tf_received_packets f). snd p = 0)) \<and>
     tf_size_bytes f = kTransportFeedbackHeaderSizeBytes + tf_chunk_bytes f +
       (if tf_include_timestamps f then sum_list (map unat (tf_sizes f)) else 0) \<and>
     tf_last_timestamp_us f = get_base_time_us f +
       sum_list (map (\<lambda>p. sint (snd p) * kDeltaScaleFactor) (tf_received_packets f))"

lemma lc_empty_iff: "lc_inv c \<Longrightarrow> lc_empty c \<longleftrightarrow> lc_content c = []"
  using lc_inv_length [of c] by (auto simp: lc_empty_def)

lemma recv_match_snoc_lost: "recv_match s ds ps \<Longrightarrow> recv_match s (ds @ [0]) ps"
  by (induction s ds ps rule: recv_match.induct) (auto split: list.splits if_splits)

lemma recv_match_snoc:
  "recv_match s ds ps \<Longrightarrow> d \<noteq> 0 \<Longrightarrow> d \<le> 2 \<Longrightarrow> (d = 1 \<longleftrightarrow> delta_fits_byte delta) \<Longrightarrow>
     recv_match s (ds @ [d]) (ps @ [(s + of_nat (length ds), delta)])"
  by (induction s ds ps rule: recv_match.induct) (auto split: list.splits simp: ac_simps)

lemma all_entries_snoc_lost:
  "recv_match s ds ps \<Longrightarrow> all_entries s (ds @ [0]) ps = all_entries s ds ps @ [Lost (s + of_nat (length ds))]"
  by (induction s ds ps rule: recv_match.induct) (auto split: list.splits if_splits simp: ac_simps)

lemma all_entries_snoc:
  "recv_match s ds ps \<Longrightarrow> d \<noteq> 0 \<Longrightarrow>
     all_entries s (ds @ [d]) (ps @ [(s + of_nat (length ds), delta)]) =
       all_entries s ds ps @ [Received (s + of_nat (length ds)) delta]"
  by (induction s ds ps rule: recv_match.induct) (auto split: list.splits simp: ac_simps)

text \<open>Adding a delta size appends it, or changes nothing.\<close>

lemma tf_add_delta_size_spec:
  assumes ok: "tf_chunks_ok f" and d: "d \<le> 2"
  obtains (refused) "tf_add_delta_size d f = Some (False, f)"
  | (added) e c k where "tf_add_delta_size d f = Some (True, f\<lparr>tf_encoded_chunks := e, tf_last_chunk := c,
        tf_status_count := tf_status_count f + 1, tf_size_bytes := tf_size_bytes f + k\<rparr>)"
      "tf_chunks_ok (f\<lparr>tf_encoded_chunks := e, tf_last_chunk := c, tf_status_count := tf_status_count f + 1\<rparr>)"
      "concat (map chunk_sizes e) @ lc_content c = tf_sizes f @ [d]"
      "2 * length e + (if lc_empty c then 0 else 2) = tf_chunk_bytes f + k"
proof (cases "tf_add_delta_size d f = Some (False, f)")
  case False
  have inv: "lc_inv (tf_last_chunk f)" using ok by (simp add: tf_chunks_ok_def)
  have count: "tf_status_count f \<noteq> 0xffff"
    using False by (auto simp: tf_add_delta_size_def)
  have "unat (tf_status_count f) < 2 ^ 16" using unsigned_less [of "tf_status_count f"] by simp
  then have suc: "unat (tf_status_count f + 1) = Suc (length (tf_sizes f))"
    using ok count
    by (auto simp: unat_word_ariths tf_chunks_ok_def word_unat_eq_iff)
  from inv d show ?thesis
  proof (cases rule: lc.push_cases)
    case (added c')
    let ?k = "if lc_empty (tf_last_chunk f) then kChunkSizeBytes else 0"
    have "tf_add_delta_size d f = Some (True, f\<lparr>tf_encoded_chunks := tf_encoded_chunks f, tf_last_chunk := c',
        tf_status_count := tf_status_count f + 1, tf_size_bytes := tf_size_bytes f + ?k\<rparr>)"
      using False added count by (auto simp: tf_add_delta_size_def Let_def split: if_splits)
    then show ?thesis
      using added suc lc_empty_iff [OF added(3)]
      by (intro that(2) [where e = "tf_encoded_chunks f" and c = c' and k = ?k])
        (auto simp: tf_chunks_ok_def tf_sizes_def tf_chunk_bytes_def kChunkSizeBytes_def)
  next
    case (emitted chunk c' c'')
    have "tf_add_delta_size d f = Some (True, f\<lparr>tf_encoded_chunks := tf_encoded_chunks f @ [chunk], tf_last_chunk := c'',
        tf_status_count := tf_status_count f + 1, tf_size_bytes := tf_size_bytes f + 2\<rparr>)"
      using False emitted count by (auto simp: tf_add_delta_size_def Let_def kChunkSizeBytes_def split: if_splits)
    then show ?thesis
      using emitted suc lc_empty_iff [OF emitted(4)] lc_empty_iff [OF inv] arg_cong [OF emitted(5), of length]
      by (intro that(2) [where e = "tf_encoded_chunks f @ [chunk]" and c = c'' and k = 2])
        (auto simp: tf_chunks_ok_def tf_sizes_def tf_chunk_bytes_def)
  qed
qed (rule refused)

lemma tf_chunks_update [simp]:
  "tf_chunks_ok (f\<lparr>tf_size_bytes := a\<rparr>) = tf_chunks_ok f" "tf_chunks_ok (f\<lparr>tf_all_packets := ps\<rparr>) = tf_chunks_ok f"
  "tf_chunks_ok (f\<lparr>tf_received_packets := rs\<rparr>) = tf_chunks_ok f"
  "tf_chunks_ok (f\<lparr>tf_last_timestamp_us := t\<rparr>) = tf_chunks_ok f"
  "tf_sizes (f\<lparr>tf_size_bytes := a\<rparr>) = tf_sizes f" "tf_sizes (f\<lparr>tf_all_packets := ps\<rparr>) = tf_sizes f"
  "tf_sizes (f\<lparr>tf_received_packets := rs\<rparr>) = tf_sizes f"
  "tf_sizes (f\<lparr>tf_last_timestamp_us := t\<rparr>) = tf_sizes f"
  "tf_chunk_bytes (f\<lparr>tf_size_bytes := a\<rparr>) = tf_chunk_bytes f"
  "tf_chunk_bytes (f\<lparr>tf_all_packets := ps\<rparr>) = tf_chunk_bytes f"
  "tf_chunk_bytes (f\<lparr>tf_received_packets := rs\<rparr>) = tf_chunk_bytes f"
  "tf_chunk_bytes (f\<lparr>tf_last_timestamp_us := t\<rparr>) = tf_chunk_bytes f"
  by (simp_all add: tf_chunks_ok_def tf_sizes_def tf_chunk_bytes_def)

lemma tf_next_seq:
  assumes "tf_chunks_ok f"
  shows "tf_base_seq_num f + tf_status_count f = tf_base_seq_num f + of_nat (length (tf_sizes f))"
proof -
  have "of_nat (unat (tf_status_count f)) = (of_nat (length (tf_sizes f)) :: u16)"
    using assms by (simp only: tf_chunks_ok_def)
  then show ?thesis by simp
qed

text \<open>What adding delta sizes leaves alone.\<close>

definition tf_same :: "transport_feedback \<Rightarrow> transport_feedback \<Rightarrow> bool" where
  "tf_same f g \<longleftrightarrow> tf_base_seq_num g = tf_base_seq_num f \<and> tf_received_packets g = tf_received_packets f \<and>
     tf_include_timestamps g = tf_include_timestamps f \<and> tf_last_timestamp_us g = tf_last_timestamp_us f \<and>
     tf_include_lost g = tf_include_lost f \<and> tf_reference_time g = tf_reference_time f"

text \<open>One lost packet.\<close>

lemma tf_add_lost_step:
  assumes inv: "tf_inv f" and next_seq: "seq_no = tf_base_seq_num f + tf_status_count f"
  obtains (refused) "tf_add_delta_size 0 f = Some (False, f)"
  | (added) g where "tf_add_delta_size 0 f = Some (True, g)"
      "tf_inv (if tf_include_lost g then g\<lparr>tf_all_packets := tf_all_packets g @ [Lost seq_no]\<rparr> else g)"
      "tf_status_count g = tf_status_count f + 1" "tf_sizes g = tf_sizes f @ [0]" "tf_same f g"
proof -
  have ok: "tf_chunks_ok f" using inv by (simp add: tf_inv_def)
  have seq: "seq_no = tf_base_seq_num f + of_nat (length (tf_sizes f))" using tf_next_seq [OF ok] next_seq by simp
  show ?thesis
  proof (cases rule: tf_add_delta_size_spec [OF ok, of 0])
    case (3 e c k)
    let ?base = "f\<lparr>tf_encoded_chunks := e, tf_last_chunk := c, tf_status_count := tf_status_count f + 1\<rparr>"
    let ?g = "?base\<lparr>tf_size_bytes := tf_size_bytes f + k\<rparr>"
    have sizes: "tf_sizes ?base = tf_sizes f @ [0]" using 3 by (simp add: tf_sizes_def)
    have bytes: "tf_chunk_bytes ?base = tf_chunk_bytes f + k" using 3 by (simp add: tf_chunk_bytes_def)
    have "tf_inv (if tf_include_lost ?g then ?g\<lparr>tf_all_packets := tf_all_packets ?g @ [Lost seq_no]\<rparr> else ?g)"
      using inv 3(2) recv_match_snoc_lost all_entries_snoc_lost
      by (auto simp: tf_inv_def sizes bytes seq get_base_time_us_def)
    then show ?thesis using 3 sizes by (intro added [of ?g]) (auto simp: tf_same_def)
  qed (use refused in auto)
qed

lemma tf_add_lost_spec:
  assumes "tf_inv f" "seq_no = tf_base_seq_num f + tf_status_count f"
  shows "\<exists>ok g. tf_add_lost n seq_no f = Some (ok, g) \<and> tf_inv g \<and> tf_same f g \<and>
    (ok \<longrightarrow> tf_status_count g = tf_status_count f + of_nat n \<and> tf_sizes g = tf_sizes f @ replicate n 0)"
  using assms
proof (induction n arbitrary: seq_no f)
  case (Suc n)
  show ?case
  proof (cases rule: tf_add_lost_step [OF Suc.prems])
    case 1
    then show ?thesis using Suc.prems by (intro exI [of _ False]) (simp add: tf_same_def)
  next
    case added: (2 g)
    let ?g = "if tf_include_lost g then g\<lparr>tf_all_packets := tf_all_packets g @ [Lost seq_no]\<rparr> else g"
    have same: "tf_same f ?g" "tf_status_count ?g = tf_status_count f + 1" "tf_sizes ?g = tf_sizes f @ [0]"
      using added by (auto simp: tf_same_def)
    then obtain ok h where "tf_add_lost n (seq_no + 1) ?g = Some (ok, h)" "tf_inv h" "tf_same ?g h"
      "ok \<longrightarrow> tf_status_count h = tf_status_count ?g + of_nat n \<and> tf_sizes h = tf_sizes ?g @ replicate n 0"
      using Suc.IH [OF added(2), of "seq_no + 1"] Suc.prems(2) by (auto simp: tf_same_def ac_simps)
    with added same show ?thesis
      by (intro exI [of _ ok] exI [of _ h]) (auto simp: tf_same_def)
  qed
qed (auto simp: tf_same_def)

lemma tf_add_received_inv:
  assumes inv: "tf_inv f"
  shows "\<exists>ok g. tf_add_received_packet seq_no t f = Some (ok, g) \<and> tf_inv g \<and>
    tf_base_seq_num g = tf_base_seq_num f \<and> tf_reference_time g = tf_reference_time f \<and>
    tf_include_timestamps g = tf_include_timestamps f \<and> tf_include_lost g = tf_include_lost f \<and>
    (if ok then \<exists>delta. (if tf_include_timestamps f then tf_delta_ticks t f else Some 0) = Some delta \<and>
         tf_received_packets g = tf_received_packets f @ [(seq_no, delta)] \<and>
         tf_last_timestamp_us g = tf_last_timestamp_us f + sint delta * kDeltaScaleFactor \<and>
         tf_status_count g = seq_no - tf_base_seq_num f + 1
     else tf_received_packets g = tf_received_packets f \<and> tf_last_timestamp_us g = tf_last_timestamp_us f)"
proof (cases "if tf_include_timestamps f then tf_delta_ticks t f else Some 0")
  case None
  then show ?thesis using inv by (intro exI [of _ False]) (simp add: tf_add_received_packet_def)
next
  case (Some delta)
  let ?next = "tf_base_seq_num f + tf_status_count f"
  let ?n = "unat (seq_no - ?next)"
  obtain ok1 g where g: "tf_add_lost ?n ?next f = Some (ok1, g)" "tf_inv g" "tf_same f g"
    "ok1 \<longrightarrow> tf_status_count g = tf_status_count f + of_nat ?n \<and> tf_sizes g = tf_sizes f @ replicate ?n 0"
    using tf_add_lost_spec [OF inv refl, of ?n] by blast
  show ?thesis
  proof (cases "(seq_no \<noteq> ?next \<and> \<not> ahead_of seq_no (?next - 1)) \<or> \<not> ok1")
    case True
    then have "\<exists>h. tf_add_received_packet seq_no t f = Some (False, h) \<and> (h = f \<or> h = g)"
      using Some g(1) by (cases "seq_no \<noteq> ?next \<and> \<not> ahead_of seq_no (?next - 1)")
        (simp_all add: tf_add_received_packet_def Let_def)
    then obtain h where "tf_add_received_packet seq_no t f = Some (False, h)" "h = f \<or> h = g" by blast
    then show ?thesis
      using inv g by (intro exI [of _ False] exI [of _ h]) (auto simp: tf_same_def)
  next
    case False
    have ok: "tf_chunks_ok g" using g by (simp add: tf_inv_def)
    have next_seq: "tf_base_seq_num g + tf_status_count g = seq_no" using False g by (simp add: tf_same_def)
    then have count: "tf_status_count g = seq_no - tf_base_seq_num f" using g(3) by (auto simp: tf_same_def)
    from next_seq have seq: "seq_no = tf_base_seq_num g + of_nat (length (tf_sizes g))" using tf_next_seq [OF ok] by simp
    let ?d = "if delta_fits_byte delta then 1 else 2 :: u8"
    show ?thesis
    proof (cases rule: tf_add_delta_size_spec [OF ok, of ?d])
      case 1
      show ?case by simp
    next
      case 2
      then show ?thesis
        using Some False g
        by (intro exI [of _ False] exI [of _ g]) (auto simp: tf_add_received_packet_def Let_def tf_same_def)
    next
      case (3 e c k)
      let ?base = "g\<lparr>tf_encoded_chunks := e, tf_last_chunk := c, tf_status_count := tf_status_count g + 1\<rparr>"
      let ?h = "?base\<lparr>tf_size_bytes := tf_size_bytes g + k + (if tf_include_timestamps g then unat ?d else 0),
        tf_received_packets := tf_received_packets g @ [(seq_no, delta)],
        tf_all_packets := (if tf_include_lost g then tf_all_packets g @ [Received seq_no delta] else tf_all_packets g),
        tf_last_timestamp_us := tf_last_timestamp_us g + sint delta * kDeltaScaleFactor\<rparr>"
      have sizes: "tf_sizes ?base = tf_sizes g @ [?d]" using 3 by (simp add: tf_sizes_def)
      have bytes: "tf_chunk_bytes ?base = tf_chunk_bytes g + k" using 3 by (simp add: tf_chunk_bytes_def)
      have run: "tf_add_received_packet seq_no t f = Some (True, ?h)"
        using False g(3) by (auto simp: tf_add_received_packet_def Let_def Some g(1) 3(1) tf_same_def)
      have "tf_inv ?h"
        using g(2,3) 3(2) Some recv_match_snoc [of _ _ _ ?d delta] all_entries_snoc [of _ _ _ ?d delta]
        by (auto simp: tf_inv_def sizes bytes seq get_base_time_us_def tf_same_def)
      with run show ?thesis
        using Some g(3) count by (intro exI [of _ True] exI [of _ ?h]) (simp add: tf_same_def)
    qed
  qed
qed

section \<open>Arrival times\<close>

lemma rounded_down_close:
  fixes d :: int
  shows "\<bar>(d + 125) div 250 * 250 - d\<bar> \<le> 125"
  using div_mult_mod_eq [of "d + 125" 250] pos_mod_bound [of 250 "d + 125"]
    pos_mod_sign [of 250 "d + 125"] by linarith

lemma tf_delta_ticks_close:
  assumes "tf_delta_ticks t f = Some delta"
  shows "\<exists>k. \<bar>tf_last_timestamp_us f + sint delta * kDeltaScaleFactor - (t + k * kTimeWrapPeriodUs)\<bar> \<le> 125"
proof -
  let ?P = kTimeWrapPeriodUs and ?x = "t - tf_last_timestamp_us f"
  let ?d = "if ?x smod ?P > ?P sdiv 2 then ?x smod ?P - ?P else ?x smod ?P"
  let ?e = "?d + (if ?d < 0 then - (kDeltaScaleFactor sdiv 2) else kDeltaScaleFactor sdiv 2)"
  have delta: "sint delta = ?e sdiv kDeltaScaleFactor"
    using assms unfolding tf_delta_ticks_def Let_def by (auto split: if_splits)
  have half: "kDeltaScaleFactor sdiv 2 = 125" "kDeltaScaleFactor = 250"
    by (simp_all add: kDeltaScaleFactor_def signed_divide_int_def)
  have "\<bar>?e sdiv 250 * 250 - ?d\<bar> \<le> 125"
  proof (cases "?d < 0")
    case True
    then have "?e sdiv 250 = - ((- ?d + 125) div 250)" by (simp add: half signed_divide_int_def)
    then show ?thesis using rounded_down_close [of "- ?d"] by (simp only: abs_le_iff) linarith
  next
    case False
    then have "?e sdiv 250 = (?d + 125) div 250" by (simp add: half signed_divide_int_def)
    then show ?thesis using rounded_down_close [of ?d] by (simp only:)
  qed
  moreover obtain k where "?d = ?x + k * ?P"
  proof -
    have "?x smod ?P = ?x + (- (?x sdiv ?P)) * ?P" using sdiv_mult_smod_eq [of ?x ?P] by simp
    then have "?d = ?x + (- (?x sdiv ?P)) * ?P \<or> ?d = ?x + (- (?x sdiv ?P) - 1) * ?P" by (auto simp: algebra_simps)
    then show ?thesis using that by blast
  qed
  ultimately show ?thesis unfolding delta half(2) by (intro exI [of _ k]) simp
qed

section \<open>The consistency check accepts\<close>

lemma length_chunk_sizes: "length (chunk_sizes chunk) \<le> 0x1fff"
proof -
  have "unat (chunk AND 0x1fff) \<le> unat (0x1fff :: u16)" by (simp only: word_le_nat_alt [symmetric] word_and_le1)
  then show ?thesis by (simp add: chunk_sizes_def)
qed

lemma tf_decode_all_sizes: "tf_decode_all chunks c = concat (map chunk_sizes chunks)"
proof -
  have "snd (fold (\<lambda>chunk (c, sizes). let c = lc_decode chunk 0xffff c in (c, lc_append_to c sizes)) chunks (c, acc)) =
      acc @ concat (map chunk_sizes chunks)" for acc
  proof (induction chunks arbitrary: c acc)
    case (Cons chunk chunks)
    have "take 0xffff (chunk_sizes chunk) = chunk_sizes chunk" using length_chunk_sizes [of chunk] by simp
    with Cons show ?case by (simp add: Let_def lc_append_to_content lc_decode_content)
  qed simp
  then show ?thesis by (simp add: tf_decode_all_def)
qed

lemma tf_match_packets_recv:
  "recv_match s ds ps \<Longrightarrow> tf_match_packets ts ds s ps time sz =
     Some ([], time + sum_list (map (\<lambda>p. sint (snd p) * kDeltaScaleFactor) ps),
           sz + (if ts then sum_list (map unat ds) else 0))"
proof (induction s ds ps arbitrary: time sz rule: recv_match.induct)
  case (2 s d ds ps)
  show ?case
  proof (cases "d = 0")
    case True
    with 2 show ?thesis by (simp add: Let_def)
  next
    case False
    then obtain delta ps' where ps: "ps = (s, delta) # ps'" "d = 1 \<longleftrightarrow> delta_fits_byte delta" "recv_match (s + 1) ds ps'"
      using "2.prems" by (auto split: list.splits)
    have "0 < d" using False word_gt_0 by blast
    with False ps "2.IH"(2) [OF False ps(1) refl] show ?thesis by (auto simp: Let_def ac_simps)
  qed
qed simp

lemma tf_inv_consistent:
  assumes inv: "tf_inv f"
  shows "tf_is_consistent u f =
    (if - (2 ^ 31) \<le> get_base_time_us f \<and> get_base_time_us f < 2 ^ 31 then Some True else None)"
proof -
  have lc: "lc_inv (tf_last_chunk f)" using inv by (simp add: tf_inv_def tf_chunks_ok_def)
  have sizes: "(if lc_empty (tf_last_chunk f) then concat (map chunk_sizes (tf_encoded_chunks f))
      else lc_append_to (tf_last_chunk f) (concat (map chunk_sizes (tf_encoded_chunks f)))) = tf_sizes f"
    using lc_empty_iff [OF lc] by (simp add: tf_sizes_def lc_append_to_content)
  have base: "tf_reference_time f * kBaseScaleFactor = get_base_time_us f" by (simp add: get_base_time_us_def)
  show ?thesis
    using inv tf_match_packets_recv [of "tf_base_seq_num f" "tf_sizes f" "tf_received_packets f"]
    unfolding tf_is_consistent_def tf_decode_all_sizes Let_def sizes base
    by (auto simp: tf_inv_def tf_chunks_ok_def tf_chunk_bytes_def kChunkSizeBytes_def)
qed

lemma tf_new_inv: "length u = 14 \<Longrightarrow> tf_inv (tf_new ts lost u)"
  using lc_clear_inv [of "\<lparr>delta_sizes = u, lc_size = 0, all_same = False, has_large_delta = False\<rparr>"]
  by (simp add: tf_inv_def tf_new_def tf_chunks_ok_def tf_sizes_def lc_new_def tf_chunk_bytes_def lc_empty_def
      lc_clear_def get_base_time_us_def)

lemma tf_base_update [simp]:
  "tf_sizes (f\<lparr>tf_base_seq_num := a\<rparr>) = tf_sizes f" "tf_sizes (f\<lparr>tf_reference_time := r\<rparr>) = tf_sizes f"
  "tf_chunks_ok (f\<lparr>tf_base_seq_num := a\<rparr>) = tf_chunks_ok f" "tf_chunks_ok (f\<lparr>tf_reference_time := r\<rparr>) = tf_chunks_ok f"
  "tf_chunk_bytes (f\<lparr>tf_base_seq_num := a\<rparr>) = tf_chunk_bytes f"
  "tf_chunk_bytes (f\<lparr>tf_reference_time := r\<rparr>) = tf_chunk_bytes f"
  by (simp_all add: tf_chunks_ok_def tf_sizes_def tf_chunk_bytes_def)

lemma tf_set_base_inv:
  assumes "tf_inv f" "tf_status_count f = 0" "0 \<le> t"
  shows "\<exists>g. tf_set_base base t f = Some g \<and> tf_inv g \<and> tf_base_seq_num g = base \<and>
    tf_include_timestamps g = tf_include_timestamps f \<and> tf_include_lost g = tf_include_lost f \<and>
    tf_received_packets g = [] \<and> tf_status_count g = 0 \<and>
    tf_reference_time g = t mod kTimeWrapPeriodUs div kBaseScaleFactor"
proof -
  have sizes: "tf_sizes f = []" using assms by (simp add: tf_inv_def tf_chunks_ok_def)
  moreover from this have "tf_received_packets f = []" using assms by (simp add: tf_inv_def)
  moreover have "(t smod kTimeWrapPeriodUs) sdiv kBaseScaleFactor = t mod kTimeWrapPeriodUs div kBaseScaleFactor"
    using assms(3) by (simp add: signed_modulo_int_def signed_divide_int_def kTimeWrapPeriodUs_def
        kBaseScaleFactor_def kDeltaScaleFactor_def sgn_if)
  ultimately show ?thesis
    using assms
    by (simp add: tf_set_base_def tf_inv_def get_base_time_us_def)
qed

section \<open>On the wire\<close>

definition padded_header :: "bool \<Rightarrow> nat \<Rightarrow> u8 \<Rightarrow> nat \<Rightarrow> byte list" where
  "padded_header pad c ptype psize =
     [0x80 OR (if pad then 0x20 else 0) OR of_nat c, ptype] @ be16 (of_nat (psize div 4))"

definition delta_wire :: "u16 \<times> u16 \<Rightarrow> byte list" where
  "delta_wire p = (if delta_fits_byte (snd p) then [ucast (snd p)] else be16 (snd p))"

definition padding_wire :: "nat \<Rightarrow> byte list" where
  "padding_wire n = (if n = 0 then [] else replicate (n - 1) 0 @ [of_nat n])"

definition tf_body :: "transport_feedback \<Rightarrow> u16 \<Rightarrow> byte list" where
  "tf_body f last_code = be32 (tf_sender_ssrc f) @ be32 (tf_media_ssrc f) @ be16 (tf_base_seq_num f) @
     be16 (tf_status_count f) @ be24 (word_of_int (tf_reference_time f)) @ [tf_feedback_seq f] @
     concat (map be16 (tf_encoded_chunks f @ [last_code])) @
     (if tf_include_timestamps f then concat (map delta_wire (tf_received_packets f)) else [])"

definition tf_wire :: "transport_feedback \<Rightarrow> u16 \<Rightarrow> byte list" where
  "tf_wire f last_code = padded_header (tf_padding_size f > 0) 15 205 (tf_packet_size f - 4) @
     tf_body f last_code @ padding_wire (tf_padding_size f)"

lemma length_padded_header [simp]: "length (padded_header pad c t n) = 4"
  by (simp add: padded_header_def)

lemma length_padding_wire [simp]: "length (padding_wire n) = n"
  by (simp add: padding_wire_def)

lemma length_deltas: "recv_match s ds ps \<Longrightarrow> length (concat (map delta_wire ps)) = sum_list (map unat ds)"
proof (induction s ds ps rule: recv_match.induct)
  case (2 s d ds ps)
  show ?case
  proof (cases "d = 0")
    case False
    then obtain delta ps' where ps: "ps = (s, delta) # ps'" "d \<le> 2" "d = 1 \<longleftrightarrow> delta_fits_byte delta" "recv_match (s + 1) ds ps'"
      using "2.prems" by (auto split: list.splits)
    have "unat d = length (delta_wire (s, delta))"
      using ps(2,3) False delta_size_cases [of d] by (auto simp: delta_wire_def)
    with False ps "2.IH"(2) [OF False ps(1) refl] show ?thesis by simp
  qed (use 2 in simp)
qed simp

lemma length_tf_body:
  assumes "tf_inv f" "tf_status_count f \<noteq> 0"
  shows "length (tf_body f code) + 4 = tf_size_bytes f"
proof -
  have "tf_sizes f \<noteq> []" using assms by (auto simp: tf_inv_def tf_chunks_ok_def unat_eq_0)
  then have "lc_content (tf_last_chunk f) \<noteq> []" "lc_inv (tf_last_chunk f)"
    using assms by (simp_all add: tf_inv_def tf_chunks_ok_def)
  then have "\<not> lc_empty (tf_last_chunk f)" using lc_empty_iff by blast
  then show ?thesis
    using assms length_deltas
    by (auto simp: tf_body_def tf_inv_def tf_chunk_bytes_def kTransportFeedbackHeaderSizeBytes_def
        length_concat_map_const [where w = 2])
qed

lemma tf_padding: "tf_size_bytes f + tf_padding_size f = tf_packet_size f" "tf_padding_size f \<le> 3" "tf_packet_size f mod 4 = 0"
  unfolding tf_padding_size_def tf_packet_size_def by presburger+

lemma pack_padded_header [wire_simps]:
  "psize \<le> 0xFFFF \<Longrightarrow> c \<le> 0x1F \<Longrightarrow>
     pack_common_header c t psize pad s = map_option (advance 4) (put_at 0 (padded_header pad c t psize) s)"
  by (simp add: pack_common_header_def padded_header_def wire_simps map_conv_bind_option Let_def comp_def
      flip: be16_of_words)

lemma tf_pack_chunks_put: "tf_pack_chunks cs s = put_items be16 cs s"
  by (induction cs arbitrary: s) simp_all

lemma tf_pack_deltas_put: "tf_pack_deltas ps s = put_items delta_wire ps s"
proof (induction ps arbitrary: s)
  case (Cons p ps)
  then show ?case by (cases p) (auto simp: delta_wire_def)
qed simp

lemma tf_pack_padding_fuse [wire_simps]:
  assumes "n = length as"
  shows "Option.bind (put_at 0 as s) (\<lambda>t. Option.bind (tf_pack_padding k (advance n t)) g) =
    Option.bind (put_at 0 (as @ padding_wire k) s) (\<lambda>t. g (advance (n + k) t))"
  using assms by (cases k) (simp_all add: tf_pack_padding_def padding_wire_def wire_simps pack_simps)

lemma tf_pack_wire:
  assumes inv: "tf_inv f" and some: "tf_status_count f \<noteq> 0" and small: "tf_packet_size f \<le> 0xFFFF"
    and code: "lc_encode_last (tf_last_chunk f) = Some code"
  shows "tf_pack_into f max_size cb s = pack_wire (tf_wire f code) max_size cb s"
proof -
  have len: "length (tf_wire f code) = tf_packet_size f"
    using length_tf_body [OF inv some, of code] tf_padding(1) [of f] by (simp add: tf_wire_def)
  have nonempty: "\<not> lc_empty (tf_last_chunk f)"
    using code by (auto simp: lc_encode_last_def lc_empty_def split: if_splits)
  have "20 \<le> tf_packet_size f"
    using tf_padding(1) [of f] inv by (simp add: tf_inv_def kTransportFeedbackHeaderSizeBytes_def)
  moreover have total: "22 + (length (tf_encoded_chunks f) * 2 +
      (length (concat (map delta_wire (tf_received_packets f))) + tf_padding_size f)) = tf_packet_size f"
    if "tf_include_timestamps f"
    using that length_tf_body [OF inv some, of code] tf_padding(1) [of f]
    by (simp add: tf_body_def length_concat_map_const [where w = 2])
  moreover have total': "22 + (length (tf_encoded_chunks f) * 2 + tf_padding_size f) = tf_packet_size f"
    if "\<not> tf_include_timestamps f"
    using that length_tf_body [OF inv some, of code] tf_padding(1) [of f]
    by (simp add: tf_body_def length_concat_map_const [where w = 2])
  ultimately show ?thesis
    unfolding tf_pack_into_def using some
    by (simp, intro pack_wireI [OF len])
      (cases "tf_include_timestamps f",
       use small nonempty code tf_padding [of f] in
        \<open>simp_all add: tf_wire_def tf_body_def wire_simps pack_simps packet_size_without_common_header_def
          kCommonFeedbackSize_def tf_pack_chunks_put tf_pack_deltas_put length_concat_map_const [where w = 2] total total'\<close>)
qed

text \<open>A feedback with a received packet packs as one wire image, whatever the state of the buffer.\<close>

definition tf_packable :: "transport_feedback \<Rightarrow> bool" where
  "tf_packable f \<longleftrightarrow> tf_inv f \<and> tf_received_packets f \<noteq> [] \<and> tf_packet_size f \<le> 0xFFFF"

definition tf_image :: "transport_feedback \<Rightarrow> byte list" where
  "tf_image f = tf_wire f (the (lc_encode_last (tf_last_chunk f)))"

lemma tf_last_code:
  assumes "tf_inv f" "tf_received_packets f \<noteq> []"
  shows "tf_status_count f \<noteq> 0" "lc_encode_last (tf_last_chunk f) = Some (the (lc_encode_last (tf_last_chunk f)))"
proof -
  have "tf_sizes f \<noteq> []" using assms by (auto simp: tf_inv_def)
  then show "tf_status_count f \<noteq> 0" using assms(1) by (auto simp: tf_inv_def tf_chunks_ok_def)
  have "lc_inv (tf_last_chunk f)" "0 < lc_size (tf_last_chunk f)"
    using assms(1) \<open>tf_sizes f \<noteq> []\<close> lc_inv_length [of "tf_last_chunk f"]
    by (auto simp: tf_inv_def tf_chunks_ok_def simp flip: length_greater_0_conv)
  then show "lc_encode_last (tf_last_chunk f) = Some (the (lc_encode_last (tf_last_chunk f)))"
    using lc_encode_last_sizes by force
qed

lemma tf_packable_image:
  assumes "tf_packable f"
  shows "tf_pack_into f max_size cb s = pack_wire (tf_image f) max_size cb s" "length (tf_image f) = tf_packet_size f"
    "0 < tf_packet_size f"
proof -
  have f: "tf_inv f" "tf_packet_size f \<le> 0xFFFF" using assms by (simp_all add: tf_packable_def)
  note code = tf_last_code [of f]
  show "tf_pack_into f max_size cb s = pack_wire (tf_image f) max_size cb s"
    unfolding tf_image_def using assms code f by (intro tf_pack_wire) (simp_all add: tf_packable_def)
  show "length (tf_image f) = tf_packet_size f"
    using assms code length_tf_body [OF f(1), of "the (lc_encode_last (tf_last_chunk f))"] tf_padding(1) [of f]
    by (simp add: tf_image_def tf_wire_def tf_packable_def)
  show "0 < tf_packet_size f"
    using f(1) tf_padding(1) [of f] by (simp add: tf_inv_def kTransportFeedbackHeaderSizeBytes_def)
qed

section \<open>Parsing what was packed\<close>

lemma parse_padded_header:
  assumes "n = length body + k" "n mod 4 = 0" "n \<le> 0xFFFF" "0 < k" "k \<le> 3"
  shows "common_header_parse (padded_header True 15 t n @ body @ padding_wire k) (4 + n) =
    accept \<lparr>packet_type = t, count_or_fmt = 15, padding_size = of_nat k, payload_size = length body,
            payload = body @ padding_wire k\<rparr>"
proof -
  have words: "unat (of_nat (n div 4) :: u16) * 4 = n"
    using assms(2,3) by (simp add: unat_of_nat take_bit_eq_mod) (auto elim!: dvdE simp: mod_eq_0_iff_dvd)
  have last: "rd (body @ padding_wire k) (n - 1) = Some (of_nat k)"
    using assms by (auto simp: rd_def padding_wire_def nth_append)
  have pad: "unat (of_nat k :: u8) = k" "(of_nat k :: u8) \<noteq> 0" "0 < n" "n \<noteq> 0"
    using assms(1,4,5) by (auto simp: unat_of_nat_small unat_eq_0 [symmetric])
  show ?thesis
    using words last pad assms(1)
    by (simp add: common_header_parse_def padded_header_def kFixedHeaderSize_def wire_simps Let_def)
qed

lemma padded_header_plain: "padded_header False c t n = header_bytes c t n"
  by (simp add: padded_header_def header_bytes_def)

lemma parse_tf_header:
  assumes "n = length body + k" "n mod 4 = 0" "n \<le> 0xFFFF" "k \<le> 3"
  shows "common_header_parse (padded_header (k > 0) 15 t n @ body @ padding_wire k) (4 + n) =
    accept \<lparr>packet_type = t, count_or_fmt = 15, padding_size = of_nat k, payload_size = length body,
            payload = body @ padding_wire k\<rparr>"
proof (cases "k = 0")
  case True
  have "common_header_parse (header_bytes 15 t n @ body @ []) (4 + n) = accept \<lparr>packet_type = t,
      count_or_fmt = of_nat 15, padding_size = 0, payload_size = n, payload = body @ []\<rparr>"
    by (rule parse_header_bytes) (use assms True in simp_all)
  then show ?thesis using True assms(1) by (simp add: padded_header_plain padding_wire_def)
next
  case False
  then show ?thesis using parse_padded_header [OF assms(1-3) _ assms(4), of t] by simp
qed

lemma be24_low_bits: "take_bit 24 a = take_bit 24 b \<Longrightarrow> be24 a = be24 b"
proof (rule nth_equalityI)
  fix i assume eq: "take_bit 24 a = take_bit 24 b" and "i < length (be24 a)"
  then have i: "i < 3" by simp
  have bits: "k < 24 \<Longrightarrow> bit a k = bit b k" for k using eq by (metis bit_take_bit_iff)
  show "be24 a ! i = be24 b ! i"
    unfolding be24_def using i by (intro bit_word_eqI) (auto simp: bit_write_big_endian intro!: bits)
qed simp

text \<open>The reference time as the reader sees it: the 24 bits are sign extended.\<close>

definition wire_reference_time :: "int \<Rightarrow> int" where
  "wire_reference_time r = (if r < 2 ^ 23 then r else r - 2 ^ 24)"

lemma read_reference_time:
  assumes "0 \<le> r" "r < 2 ^ 24"
  shows "\<exists>w. read_signed_be24 (be24 (word_of_int r) @ ys) 0 = Some w \<and> sint w = wire_reference_time r"
proof -
  let ?w = "word_of_int (wire_reference_time r) :: u32"
  have "sint ?w = wire_reference_time r"
    using assms by (intro sint_word_of_int_32) (auto simp: wire_reference_time_def)
  moreover have "take_bit 24 (word_of_int r :: u32) = take_bit 24 ?w"
    by (simp only: take_bit_of_int) (simp add: wire_reference_time_def take_bit_eq_mod)
  moreover from this have "be24 (word_of_int r) = be24 ?w" by (rule be24_low_bits)
  moreover have "read_signed_be24 (be24 ?w @ ys) 0 = Some ?w"
    by (rule read_signed_be24_here) (use assms calculation(1) in \<open>auto simp: wire_reference_time_def\<close>)
  ultimately show ?thesis by metis
qed

lemma tf_parse_chunks_wire:
  assumes "n = length sizes + length (concat (map chunk_sizes cs)) + length content"
    and "take (length content) (chunk_sizes code) = content" "content \<noteq> []"
    and "p = pre @ concat (map be16 (cs @ [code])) @ post"
    and "length pre + 2 * length cs + 2 \<le> end_index"
  shows "\<exists>c'. tf_parse_chunks p end_index n (length pre) chunks c sizes =
      accept (length pre + 2 * length cs + 2, chunks @ cs @ [code], c',
        sizes @ concat (map chunk_sizes cs) @ content) \<and> lc_content c' = content"
  using assms
proof (induction cs arbitrary: pre chunks c sizes)
  case Nil
  then have "length content \<le> length (chunk_sizes code)" by (metis length_take min.cobounded1)
  with Nil show ?case
    by (simp add: tf_parse_chunks.simps kChunkSizeBytes_def wire_simps lc_append_to_content lc_decode_content Let_def)
next
  case (Cons a cs)
  let ?n = "n - length sizes"
  have all: "take ?n (chunk_sizes a) = chunk_sizes a" using Cons.prems(1) by simp
  have step: "tf_parse_chunks p end_index n (length pre) chunks c sizes =
      tf_parse_chunks p end_index n (length (pre @ be16 a)) (chunks @ [a]) (lc_decode a ?n c)
        (sizes @ chunk_sizes a)"
    using Cons.prems all
    by (simp add: tf_parse_chunks.simps [of _ _ _ "length pre"] kChunkSizeBytes_def wire_simps
        lc_append_to_content lc_decode_content Let_def)
  show ?case
    unfolding step using Cons.prems
      Cons.IH [of "sizes @ chunk_sizes a" "pre @ be16 a" "chunks @ [a]" "lc_decode a ?n c"] by simp
qed

lemma byte_delta:
  assumes "delta_fits_byte delta"
  shows "ucast (ucast delta :: u8) = delta"
proof -
  have "uint delta = sint delta"
    using assms by (subst uint_sint) (simp add: delta_fits_byte_def take_bit_int_eq_self)
  then have "uint delta < 256" using assms by (simp add: delta_fits_byte_def)
  then show ?thesis by (intro word_uint_eqI) (simp add: unsigned_ucast_eq take_bit_word_eq_self take_bit_int_eq_self unsigned_take_bit_eq)
qed

lemma tf_parse_deltas_wire:
  assumes "recv_match s ds ps" "length pre + sum_list (map unat ds) \<le> end_index"
  shows "tf_parse_deltas (pre @ concat (map delta_wire ps) @ post) end_index ds (length pre) s f =
    accept (length pre + sum_list (map unat ds),
      f\<lparr>tf_received_packets := tf_received_packets f @ ps,
        tf_all_packets := (if tf_include_lost f then tf_all_packets f @ all_entries s ds ps else tf_all_packets f),
        tf_last_timestamp_us := tf_last_timestamp_us f + sum_list (map (\<lambda>p. sint (snd p) * kDeltaScaleFactor) ps)\<rparr>)"
  using assms
proof (induction s ds ps arbitrary: pre f rule: recv_match.induct)
  case (1 s ps)
  then show ?case by simp
next
  case (2 s d ds ps)
  show ?case
  proof (cases "d = 0")
    case True
    then show ?thesis using 2 by simp
  next
    case False
    then obtain delta ps' where ps: "ps = (s, delta) # ps'" "d \<le> 2" "d = 1 \<longleftrightarrow> delta_fits_byte delta" "recv_match (s + 1) ds ps'"
      using "2.prems" by (auto split: list.splits)
    then have size: "unat d = length (delta_wire (s, delta))"
      using False delta_size_cases [of d] by (auto simp: delta_wire_def)
    let ?pre = "pre @ delta_wire (s, delta)" and ?f = "tf_record_received s delta f"
    have "tf_parse_deltas (pre @ concat (map delta_wire ps) @ post) end_index (d # ds) (length pre) s f =
        tf_parse_deltas (?pre @ concat (map delta_wire ps') @ post) end_index ds (length ?pre) (s + 1) ?f"
      using False ps delta_size_cases [of d] "2.prems"(2)
      by (auto simp: delta_wire_def wire_simps byte_delta rd_def nth_append)
    also have "\<dots> = accept (length ?pre + sum_list (map unat ds),
      ?f\<lparr>tf_received_packets := tf_received_packets ?f @ ps',
        tf_all_packets := (if tf_include_lost ?f then tf_all_packets ?f @ all_entries (s + 1) ds ps' else tf_all_packets ?f),
        tf_last_timestamp_us := tf_last_timestamp_us ?f + sum_list (map (\<lambda>p. sint (snd p) * kDeltaScaleFactor) ps')\<rparr>)"
      using "2.IH"(2) [OF False ps(1) refl ps(4), of ?pre ?f] "2.prems"(2) size by simp
    finally show ?thesis
      using False ps(1) size by (simp add: tf_record_received_def ac_simps)
  qed
qed

lemma tf_parse_no_deltas_wire:
  assumes "recv_match s ds ps" "\<forall>p\<in>set ps. snd p = 0"
  shows "tf_parse_no_deltas ds s f =
    f\<lparr>tf_received_packets := tf_received_packets f @ ps,
      tf_all_packets := (if tf_include_lost f then tf_all_packets f @ all_entries s ds ps else tf_all_packets f)\<rparr>"
  using assms
proof (induction s ds ps arbitrary: f rule: recv_match.induct)
  case (2 s d ds ps)
  show ?case
  proof (cases "d = 0")
    case False
    then obtain ps' where ps: "ps = (s, 0) # ps'" "recv_match (s + 1) ds ps'"
      using "2.prems" by (auto split: list.splits)
    have "0 < d" using False word_gt_0 by blast
    with False ps "2.IH"(2) [OF False ps(1) refl ps(2)] "2.prems"(2) show ?thesis
      by (simp add: Let_def)
  qed (use 2 in \<open>simp add: Let_def\<close>)
qed simp

lemma recv_match_sizes: "recv_match s ds ps \<Longrightarrow> ps \<noteq> [] \<Longrightarrow> 0 < sum_list (map unat ds)"
proof (induction s ds ps rule: recv_match.induct)
  case (2 s d ds ps)
  then show ?case by (cases "d = 0") (auto simp: unat_gt_0 split: list.splits)
qed simp

text \<open>The first sixteen bytes of the payload.\<close>

definition tf_prefix :: "transport_feedback \<Rightarrow> byte list" where
  "tf_prefix f = be32 (tf_sender_ssrc f) @ be32 (tf_media_ssrc f) @ be16 (tf_base_seq_num f) @
     be16 (tf_status_count f) @ be24 (word_of_int (tf_reference_time f)) @ [tf_feedback_seq f]"

lemma length_tf_prefix [simp]: "length (tf_prefix f) = 16"
  by (simp add: tf_prefix_def)

lemma tf_body_prefix:
  "tf_body f code = tf_prefix f @ concat (map be16 (tf_encoded_chunks f @ [code])) @
     (if tf_include_timestamps f then concat (map delta_wire (tf_received_packets f)) else [])"
  by (simp add: tf_body_def tf_prefix_def)

lemma tf_prefix_reads:
  assumes "0 \<le> tf_reference_time f" "tf_reference_time f < 2 ^ 24"
  shows "read_be32 (tf_prefix f @ ys) 0 = Some (tf_sender_ssrc f)"
    "read_be32 (tf_prefix f @ ys) 4 = Some (tf_media_ssrc f)"
    "read_be16 (tf_prefix f @ ys) 8 = Some (tf_base_seq_num f)"
    "read_be16 (tf_prefix f @ ys) 10 = Some (tf_status_count f)"
    "rd (tf_prefix f @ ys) 15 = Some (tf_feedback_seq f)"
    "\<exists>w. read_signed_be24 (tf_prefix f @ ys) 12 = Some w \<and> sint w = wire_reference_time (tf_reference_time f)"
  using read_reference_time [OF assms] by (simp_all add: tf_prefix_def wire_simps)

lemma tf_chunks_of_wire:
  assumes inv: "tf_inv f" and some: "tf_status_count f \<noteq> 0" and code: "lc_encode_last (tf_last_chunk f) = Some code"
    and "16 + 2 * length (tf_encoded_chunks f) + 2 \<le> end_index"
  shows "\<exists>c'. tf_parse_chunks (tf_body f code @ rest) end_index (unat (tf_status_count f)) 16 [] c [] =
      accept (18 + 2 * length (tf_encoded_chunks f), tf_encoded_chunks f @ [code], c', tf_sizes f) \<and>
      lc_content c' = lc_content (tf_last_chunk f)"
proof -
  have ok: "tf_chunks_ok f" using inv by (simp add: tf_inv_def)
  then have lc: "lc_inv (tf_last_chunk f)" and "tf_sizes f \<noteq> []"
    using some by (auto simp: tf_chunks_ok_def unat_eq_0)
  with ok have content: "lc_content (tf_last_chunk f) \<noteq> []" by (simp add: tf_chunks_ok_def)
  then have "0 < lc_size (tf_last_chunk f)" using lc_inv_length [OF lc] by (metis length_greater_0_conv)
  with lc_encode_last_sizes [OF lc] code lc_inv_length [OF lc] have
    "take (length (lc_content (tf_last_chunk f))) (chunk_sizes code) = lc_content (tf_last_chunk f)" by auto
  with content assms(4) ok
    tf_parse_chunks_wire [of "unat (tf_status_count f)" "[]" "tf_encoded_chunks f" "lc_content (tf_last_chunk f)" code
      "tf_body f code @ rest" "tf_prefix f" "(if tf_include_timestamps f then concat (map delta_wire (tf_received_packets f)) else []) @ rest"
      end_index "[]" c]
  show ?thesis by (simp add: tf_body_prefix tf_chunks_ok_def tf_sizes_def)
qed

text \<open>What a receiver learns from a feedback: the fields of the sender's object.\<close>

definition tf_agrees :: "transport_feedback \<Rightarrow> transport_feedback \<Rightarrow> bool" where
  "tf_agrees f g \<longleftrightarrow> tf_sender_ssrc g = tf_sender_ssrc f \<and> tf_media_ssrc g = tf_media_ssrc f \<and>
     tf_base_seq_num g = tf_base_seq_num f \<and> tf_status_count g = tf_status_count f \<and>
     tf_reference_time g = wire_reference_time (tf_reference_time f) \<and>
     tf_feedback_seq g = tf_feedback_seq f \<and> tf_include_timestamps g = tf_include_timestamps f \<and>
     tf_received_packets g = tf_received_packets f \<and>
     tf_all_packets g = all_entries (tf_base_seq_num f) (tf_sizes f) (tf_received_packets f) \<and>
     tf_encoded_chunks g = tf_encoded_chunks f \<and> tf_sizes g = tf_sizes f \<and> tf_size_bytes g = tf_size_bytes f"


lemma length_tf_body_parts:
  assumes "tf_inv f"
  shows "length (tf_body f code) = 18 + 2 * length (tf_encoded_chunks f) +
      (if tf_include_timestamps f then sum_list (map unat (tf_sizes f)) else 0)"
  using assms length_deltas by (auto simp: tf_body_prefix length_concat_map_const [where w = 2] tf_inv_def)

text \<open>The object before the loop over the deltas.\<close>

definition tf_parsed_base :: "u8 list \<Rightarrow> transport_feedback \<Rightarrow> last_chunk \<Rightarrow> transport_feedback" where
  "tf_parsed_base u f c = (tf_clear ((tf_new True True u)\<lparr>tf_sender_ssrc := tf_sender_ssrc f,
      tf_media_ssrc := tf_media_ssrc f, tf_base_seq_num := tf_base_seq_num f,
      tf_reference_time := wire_reference_time (tf_reference_time f), tf_feedback_seq := tf_feedback_seq f\<rparr>))
      \<lparr>tf_encoded_chunks := tf_encoded_chunks f, tf_last_chunk := c, tf_status_count := tf_status_count f\<rparr>"

lemma tf_parse_upto_deltas:
  assumes inv: "tf_inv f" and some: "tf_status_count f \<noteq> 0"
    and code: "lc_encode_last (tf_last_chunk f) = Some code"
    and time: "0 \<le> tf_reference_time f" "tf_reference_time f < 2 ^ 24"
  shows "\<exists>c. lc_content c = lc_content (tf_last_chunk f) \<and>
    tf_parse (tf_new True True u) \<lparr>packet_type = 205, count_or_fmt = 15, padding_size = k,
       payload_size = length (tf_body f code), payload = tf_body f code @ pad\<rparr> =
     (let i = 18 + 2 * length (tf_encoded_chunks f); g = tf_parsed_base u f c; end_index = length (tf_body f code)
      in if end_index \<ge> i + sum_list (map unat (tf_sizes f)) then do {
           r \<leftarrow> tf_parse_deltas (tf_body f code @ pad) end_index (tf_sizes f) i (tf_base_seq_num f) g;
           (case r of None \<Rightarrow> reject
            | Some (j, f) \<Rightarrow> if j \<le> end_index then accept (f\<lparr>tf_size_bytes := 4 + j\<rparr>) else None) }
         else accept ((tf_parse_no_deltas (tf_sizes f) (tf_base_seq_num f) (g\<lparr>tf_include_timestamps := False\<rparr>))
           \<lparr>tf_size_bytes := 4 + i\<rparr>))"
proof -
  let ?p = "tf_body f code @ pad" and ?last = "length (tf_body f code)"
  let ?rest = "concat (map be16 (tf_encoded_chunks f @ [code])) @
     (if tf_include_timestamps f then concat (map delta_wire (tf_received_packets f)) else []) @ pad"
  have p: "?p = tf_prefix f @ ?rest" by (simp add: tf_body_prefix)
  note reads = tf_prefix_reads [OF time, of ?rest, folded p]
  obtain w where w: "read_signed_be24 ?p 12 = Some w" "sint w = wire_reference_time (tf_reference_time f)"
    using reads(6) by blast
  let ?c = "tf_last_chunk (tf_clear (tf_new True True u))"
  have long: "16 + 2 * length (tf_encoded_chunks f) + 2 \<le> ?last" "18 \<le> ?last"
    using length_tf_body_parts [OF inv, of code] by simp_all
  obtain c where c: "tf_parse_chunks ?p ?last (unat (tf_status_count f)) 16 [] ?c [] =
      accept (18 + 2 * length (tf_encoded_chunks f), tf_encoded_chunks f @ [code], c, tf_sizes f)"
      "lc_content c = lc_content (tf_last_chunk f)"
    using tf_chunks_of_wire [OF inv some code long(1)] by blast
  have count: "length (tf_sizes f) = unat (tf_status_count f)" using inv by (simp add: tf_inv_def tf_chunks_ok_def)
  have ssrcs: "rtpfb_parse_common_feedback ?p ?last = accept (tf_sender_ssrc f, tf_media_ssrc f)"
    using long by (simp add: rtpfb_parse_common_feedback_def kCommonFeedbackSize_def reads)
  have chunk: "tf_last_chunk (tf_clear (g\<lparr>tf_feedback_seq := b\<rparr>)) = tf_last_chunk (tf_clear g)"
    "tf_last_chunk (tf_clear (g\<lparr>tf_base_seq_num := n\<rparr>)) = tf_last_chunk (tf_clear g)"
    "tf_last_chunk (tf_clear (g\<lparr>tf_reference_time := r\<rparr>)) = tf_last_chunk (tf_clear g)"
    "tf_last_chunk (tf_clear (g\<lparr>tf_sender_ssrc := s\<rparr>)) = tf_last_chunk (tf_clear g)"
    "tf_last_chunk (tf_clear (g\<lparr>tf_media_ssrc := s\<rparr>)) = tf_last_chunk (tf_clear g)" for g b n r s
    by (simp_all add: tf_clear_def)
  show ?thesis
    using long some
    by (intro exI [of _ c])
      (simp add: tf_parse_def kMinPayloadSizeBytes_def ssrcs reads w c chunk count tf_parsed_base_def Let_def cong: if_cong)
qed

lemma tf_parsed_base_fields:
  "tf_sender_ssrc (tf_parsed_base u f c) = tf_sender_ssrc f" "tf_media_ssrc (tf_parsed_base u f c) = tf_media_ssrc f"
  "tf_include_lost (tf_parsed_base u f c)" "tf_base_seq_num (tf_parsed_base u f c) = tf_base_seq_num f"
  "tf_status_count (tf_parsed_base u f c) = tf_status_count f"
  "tf_reference_time (tf_parsed_base u f c) = wire_reference_time (tf_reference_time f)"
  "tf_feedback_seq (tf_parsed_base u f c) = tf_feedback_seq f" "tf_include_timestamps (tf_parsed_base u f c)"
  "tf_received_packets (tf_parsed_base u f c) = []" "tf_all_packets (tf_parsed_base u f c) = []"
  "tf_encoded_chunks (tf_parsed_base u f c) = tf_encoded_chunks f" "tf_last_chunk (tf_parsed_base u f c) = c"
  by (simp_all add: tf_parsed_base_def tf_clear_def tf_new_def)

lemma tf_parse_body:
  assumes inv: "tf_inv f" and some: "tf_status_count f \<noteq> 0"
    and code: "lc_encode_last (tf_last_chunk f) = Some code"
    and time: "0 \<le> tf_reference_time f" "tf_reference_time f < 2 ^ 24"
    and received: "tf_include_timestamps f \<or> tf_received_packets f \<noteq> []"
  shows "\<exists>g. tf_parse (tf_new True True u) \<lparr>packet_type = 205, count_or_fmt = 15, padding_size = k,
       payload_size = length (tf_body f code), payload = tf_body f code @ pad\<rparr> = accept g \<and> tf_agrees f g"
proof -
  obtain c where c: "lc_content c = lc_content (tf_last_chunk f)"
    "tf_parse (tf_new True True u) \<lparr>packet_type = 205, count_or_fmt = 15, padding_size = k,
       payload_size = length (tf_body f code), payload = tf_body f code @ pad\<rparr> =
     (let i = 18 + 2 * length (tf_encoded_chunks f); g = tf_parsed_base u f c; end_index = length (tf_body f code)
      in if end_index \<ge> i + sum_list (map unat (tf_sizes f)) then do {
           r \<leftarrow> tf_parse_deltas (tf_body f code @ pad) end_index (tf_sizes f) i (tf_base_seq_num f) g;
           (case r of None \<Rightarrow> reject
            | Some (j, f) \<Rightarrow> if j \<le> end_index then accept (f\<lparr>tf_size_bytes := 4 + j\<rparr>) else None) }
         else accept ((tf_parse_no_deltas (tf_sizes f) (tf_base_seq_num f) (g\<lparr>tf_include_timestamps := False\<rparr>))
           \<lparr>tf_size_bytes := 4 + i\<rparr>))"
    using tf_parse_upto_deltas [OF inv some code time, of u k pad] by blast
  have match: "recv_match (tf_base_seq_num f) (tf_sizes f) (tf_received_packets f)" using inv by (simp add: tf_inv_def)
  note len = length_tf_body_parts [OF inv, of code] length_tf_body [OF inv some, of code]
  have base: "tf_sizes (tf_parsed_base u f c) = tf_sizes f" using c(1) by (simp add: tf_parsed_base_def tf_sizes_def)
  show ?thesis
  proof (cases "tf_include_timestamps f")
    case True
    let ?pre = "tf_prefix f @ concat (map be16 (tf_encoded_chunks f @ [code]))"
    have pre: "length ?pre = 18 + 2 * length (tf_encoded_chunks f)"
      by (simp add: length_concat_map_const [where w = 2])
    have whole: "?pre @ concat (map delta_wire (tf_received_packets f)) @ pad = tf_body f code @ pad"
      using True by (simp add: tf_body_prefix)
    have fits: "18 + 2 * length (tf_encoded_chunks f) + sum_list (map unat (tf_sizes f)) = length (tf_body f code)"
      using len True by simp
    note deltas = tf_parse_deltas_wire [OF match, of ?pre "length (tf_body f code)" pad "tf_parsed_base u f c",
        unfolded whole pre fits, OF order_refl]
    show ?thesis
      unfolding c(2) Let_def deltas fits using len(2) True
      by (simp add: tf_agrees_def tf_parsed_base_fields base)
  next
    case False
    then have "0 < sum_list (map unat (tf_sizes f))" using recv_match_sizes [OF match] received by blast
    then have short: "\<not> 18 + 2 * length (tf_encoded_chunks f) + sum_list (map unat (tf_sizes f)) \<le> length (tf_body f code)"
      using len(1) False by (simp only: if_False)
    have "\<forall>p\<in>set (tf_received_packets f). snd p = 0" using inv False by (simp add: tf_inv_def)
    note none = tf_parse_no_deltas_wire [OF match this]
    have "tf_sizes (g\<lparr>tf_include_timestamps := b\<rparr>) = tf_sizes g" for g b by (simp add: tf_sizes_def)
    then show ?thesis
      unfolding c(2) Let_def none if_not_P [OF short] using len False
      by (simp add: tf_agrees_def tf_parsed_base_fields base)
  qed
qed

lemma tf_parse_wire:
  assumes inv: "tf_inv f" and some: "tf_status_count f \<noteq> 0" and small: "tf_packet_size f \<le> 0xFFFF"
    and code: "lc_encode_last (tf_last_chunk f) = Some code"
    and time: "0 \<le> tf_reference_time f" "tf_reference_time f < 2 ^ 24"
    and received: "tf_include_timestamps f \<or> tf_received_packets f \<noteq> []"
  shows "\<exists>g. tf_parse_from u (tf_wire f code) (tf_packet_size f) = accept g \<and> tf_agrees f g"
proof -
  have n: "tf_packet_size f - 4 = length (tf_body f code) + tf_padding_size f"
    "(tf_packet_size f - 4) mod 4 = 0" "4 + (tf_packet_size f - 4) = tf_packet_size f"
    using tf_padding [of f] length_tf_body [OF inv some, of code] by presburger+
  have "common_header_parse (tf_wire f code) (tf_packet_size f) =
    accept \<lparr>packet_type = 205, count_or_fmt = 15, padding_size = of_nat (tf_padding_size f),
       payload_size = length (tf_body f code), payload = tf_body f code @ padding_wire (tf_padding_size f)\<rparr>"
    using parse_tf_header [OF n(1,2) _ tf_padding(2), of 205] small n(3) by (simp add: tf_wire_def)
  with tf_parse_body [OF inv some code time received] show ?thesis by (simp add: tf_parse_from_def)
qed

section \<open>Received feedback of any content\<close>

lemma chunk_sizes_bound: "\<forall>d\<in>set (chunk_sizes chunk). d \<le> 3"
proof -
  have "ucast (w AND 0x03) \<le> (3 :: u8)" "ucast (w AND 0x01) \<le> (3 :: u8)" for w :: u16
  proof -
    have "unat (ucast (w AND m) :: u8) \<le> unat (w AND m)" for m :: u16
      by (simp add: unsigned_ucast_eq unsigned_take_bit_eq take_bit_nat_less_eq_self)
    moreover have "unat (w AND m) \<le> unat m" for m :: u16
      by (simp only: word_le_nat_alt [symmetric] word_and_le1)
    ultimately have "unat (ucast (w AND m) :: u8) \<le> unat m" for m :: u16 using order_trans by blast
    from this [of 3] this [of 1] show "ucast (w AND 0x03) \<le> (3 :: u8)" "ucast (w AND 0x01) \<le> (3 :: u8)"
      by (simp_all add: word_le_nat_alt)
  qed
  then show ?thesis by (auto simp: chunk_sizes_def)
qed

lemma tf_parse_chunks_total:
  assumes "end_index \<le> length p" "length sizes \<le> n" "i \<le> end_index" "\<forall>d\<in>set sizes. d \<le> 3"
  shows "\<exists>r. tf_parse_chunks p end_index n i chunks c sizes = Some r \<and>
    (\<forall>i' chunks' c' sizes'. r = Some (i', chunks', c', sizes') \<longrightarrow>
       length sizes' = n \<and> i' \<le> end_index \<and> (\<forall>d\<in>set sizes'. d \<le> 3))"
  using assms
proof (induction p end_index n i chunks c sizes rule: tf_parse_chunks.induct)
  case (1 p end_index n i chunks c sizes)
  show ?case
  proof (cases "length sizes < n \<and> i + kChunkSizeBytes \<le> end_index")
    case False
    then show ?thesis
      using "1.prems" by (cases "length sizes < n") (auto simp: tf_parse_chunks.simps [of p end_index n i])
  next
    case True
    then have read: "read_be16 p i = Some (val16 p i)"
      using "1.prems"(1) by (intro read_inside) (simp add: kChunkSizeBytes_def)
    let ?c = "lc_decode (val16 p i) (n - length sizes) c"
    have step: "tf_parse_chunks p end_index n i chunks c sizes =
        tf_parse_chunks p end_index n (i + kChunkSizeBytes) (chunks @ [val16 p i]) ?c (lc_append_to ?c sizes)"
      using True by (simp add: tf_parse_chunks.simps [of p end_index n i] read Let_def)
    have sizes: "lc_append_to ?c sizes = sizes @ take (n - length sizes) (chunk_sizes (val16 p i))"
      by (simp add: lc_append_to_content lc_decode_content)
    have "\<forall>d\<in>set (lc_append_to ?c sizes). d \<le> 3"
      unfolding sizes using "1.prems"(4) chunk_sizes_bound by (auto dest: in_set_takeD)
    then show ?thesis
      unfolding step using True "1.prems"
      by (intro "1.IH" [OF _ _ read refl]) (auto simp: sizes min_def)
  qed
qed

lemma tf_parse_deltas_total:
  assumes "end_index \<le> length p" "i \<le> end_index" "\<forall>d\<in>set ds. d \<le> 3"
  shows "\<exists>r. tf_parse_deltas p end_index ds i s f = Some r \<and> (\<forall>j g. r = Some (j, g) \<longrightarrow> j \<le> end_index)"
  using assms
proof (induction ds arbitrary: i s f)
  case (Cons d ds)
  consider "d = 0" | "d = 1" | "d = 2" | "d = 3"
  proof -
    have "0 \<le> uint d" "uint d \<le> 3" using Cons.prems(3) by (simp_all add: word_le_def)
    then have "uint d = 0 \<or> uint d = 1 \<or> uint d = 2 \<or> uint d = 3" by linarith
    then have "d = 0 \<or> d = 1 \<or> d = 2 \<or> d = 3" by (auto intro: word_uint_eqI)
    then show thesis using that by blast
  qed
  then show ?case using Cons by cases (simp_all add: read_inside)
qed simp

lemma tf_parse_from_safe:
  assumes "sz \<le> length buffer"
  shows "tf_parse_from u buffer sz \<noteq> None"
proof (cases rule: common_header_parse_total [OF assms])
  case (2 h)
  have "tf_parse f h \<noteq> None" if type: "packet_type h = 205" "count_or_fmt h = 15" for f
  proof (cases "payload_size h < kMinPayloadSizeBytes")
    case False
    let ?p = "payload h"
    have inside: "payload_size h \<le> length ?p" "18 \<le> length ?p" "18 \<le> payload_size h"
      using False 2 by (auto simp: kMinPayloadSizeBytes_def)
    define g where "g = tf_clear (f\<lparr>tf_sender_ssrc := val32 ?p 0, tf_media_ssrc := val32 ?p 4,
        tf_base_seq_num := val16 ?p 8, tf_reference_time := sint (signed_val24 ?p 12), tf_feedback_seq := ?p ! 15\<rparr>)"
    obtain r where r: "tf_parse_chunks ?p (payload_size h) (unat (val16 ?p 10)) 16 [] (tf_last_chunk g) [] = Some r"
      "\<And>i' chunks' c' sizes'. r = Some (i', chunks', c', sizes') \<Longrightarrow>
       length sizes' = unat (val16 ?p 10) \<and> i' \<le> payload_size h \<and> (\<forall>d\<in>set sizes'. d \<le> 3)"
      using tf_parse_chunks_total [of "payload_size h" ?p "[]" "unat (val16 ?p 10)" 16 "[]" "tf_last_chunk g"] inside
      by auto
    show ?thesis
    proof (cases r)
      case None
      then show ?thesis using inside type r(1)
        by (simp add: tf_parse_def rtpfb_parse_common_feedback_def kCommonFeedbackSize_def read_inside g_def Let_def
            del: not_None_eq)
    next
      case (Some q)
      obtain i' chunks' c' sizes' where q: "q = (i', chunks', c', sizes')" by (cases q) auto
      note facts = r(2) [OF Some [unfolded q]]
      have finish: "Option.bind (tf_parse_deltas ?p (payload_size h) sizes' i' (val16 ?p 8) g)
          (case_option reject (\<lambda>(j, f). if j \<le> payload_size h then accept (f\<lparr>tf_size_bytes := 4 + j\<rparr>) else None)) \<noteq> None" for g
        using tf_parse_deltas_total [of "payload_size h" ?p i' sizes' "val16 ?p 8" g] inside facts
        by (auto split: option.splits)
      show ?thesis
        using inside type r(1) facts finish
        by (simp add: tf_parse_def rtpfb_parse_common_feedback_def kCommonFeedbackSize_def read_inside Some q
            g_def Let_def del: not_None_eq)
    qed
  qed (simp add: tf_parse_def type)
  with 2 show ?thesis by (auto simp: tf_parse_from_def)
qed (simp add: tf_parse_from_def)

section \<open>Histories\<close>

text \<open>A sequence of \<^verbatim>\<open>AddReceivedPacket\<close> calls, with the answers of the calls.\<close>

fun tf_add_all :: "(u16 \<times> int) list \<Rightarrow> transport_feedback \<Rightarrow> (bool list \<times> transport_feedback) option" where
  "tf_add_all [] f = Some ([], f)"
| "tf_add_all ((seq_no, t) # ps) f = do {
     (ok, f) \<leftarrow> tf_add_received_packet seq_no t f;
     (oks, f) \<leftarrow> tf_add_all ps f;
     Some (ok # oks, f) }"

text \<open>A new object with its base set, and the history added to it.\<close>

definition tf_record :: "bool \<Rightarrow> bool \<Rightarrow> u8 list \<Rightarrow> u16 \<Rightarrow> int \<Rightarrow> (u16 \<times> int) list \<Rightarrow>
    (bool list \<times> transport_feedback) option" where
  "tf_record ts lost u base t ps = do {
     f \<leftarrow> tf_set_base base t (tf_new ts lost u);
     tf_add_all ps f }"

lemma tf_add_all_inv:
  assumes "tf_inv f"
  shows "\<exists>oks g. tf_add_all ps f = Some (oks, g) \<and> tf_inv g \<and> tf_base_seq_num g = tf_base_seq_num f \<and>
    tf_reference_time g = tf_reference_time f \<and> tf_include_timestamps g = tf_include_timestamps f \<and>
    tf_include_lost g = tf_include_lost f"
  using assms
proof (induction ps arbitrary: f)
  case (Cons p ps)
  obtain seq_no t where p: "p = (seq_no, t)" by (cases p)
  from tf_add_received_inv [OF Cons.prems, of seq_no t] Cons.IH show ?case
    unfolding p by fastforce
qed simp

lemma tf_record_inv:
  assumes "length u = 14" "0 \<le> t"
  shows "\<exists>oks g. tf_record ts lost u base t ps = Some (oks, g) \<and> tf_inv g \<and> tf_base_seq_num g = base \<and>
    tf_reference_time g = t mod kTimeWrapPeriodUs div kBaseScaleFactor \<and> tf_include_timestamps g = ts \<and>
    tf_include_lost g = lost"
proof -
  obtain f where f: "tf_set_base base t (tf_new ts lost u) = Some f" "tf_inv f" "tf_base_seq_num f = base"
    "tf_include_timestamps f = ts" "tf_include_lost f = lost"
    "tf_reference_time f = t mod kTimeWrapPeriodUs div kBaseScaleFactor"
    using tf_set_base_inv [OF tf_new_inv [OF assms(1)] _ assms(2), of ts lost base] by (auto simp: tf_new_def)
  with tf_add_all_inv [OF f(2), of ps] show ?thesis by (auto simp: tf_record_def)
qed


lemma tf_add_all_received:
  assumes "tf_inv f" "tf_add_all ps f = Some (oks, g)"
  shows "map fst (tf_received_packets g) =
    map fst (tf_received_packets f) @ map (fst \<circ> fst) (filter snd (zip ps oks))"
  using assms
proof (induction ps arbitrary: f oks)
  case (Cons p ps)
  obtain seq_no t where p: "p = (seq_no, t)" by (cases p)
  obtain ok f' oks' where step: "tf_add_received_packet seq_no t f = Some (ok, f')" "tf_inv f'"
      "tf_add_all ps f' = Some (oks', g)" "oks = ok # oks'"
      "if ok then \<exists>delta. tf_received_packets f' = tf_received_packets f @ [(seq_no, delta)]
       else tf_received_packets f' = tf_received_packets f"
    using Cons.prems tf_add_received_inv [OF Cons.prems(1), of seq_no t]
    unfolding p by (auto split: Option.bind_splits if_splits)
  from Cons.IH [OF step(2,3)] step(4,5) show ?case by (auto simp: p)
qed simp

lemma tf_add_all_length: "tf_add_all ps f = Some (oks, g) \<Longrightarrow> length oks = length ps"
  by (induction ps f arbitrary: oks g rule: tf_add_all.induct) (auto split: Option.bind_splits)

lemma tf_record_received:
  assumes "length u = 14" "0 \<le> t" "tf_record ts lost u base t ps = Some (oks, g)"
  shows "map fst (tf_received_packets g) = map (fst \<circ> fst) (filter snd (zip ps oks))"
proof -
  obtain f where f: "tf_set_base base t (tf_new ts lost u) = Some f" "tf_inv f" "tf_received_packets f = []"
    using tf_set_base_inv [OF tf_new_inv [OF assms(1)] _ assms(2), of ts lost base] by (auto simp: tf_new_def)
  with tf_add_all_received [OF f(2)] assms(3) show ?thesis by (simp add: tf_record_def)
qed

section \<open>An example\<close>

definition example_feedback :: "transport_feedback" where
  "example_feedback = \<lparr>tf_sender_ssrc = 0, tf_media_ssrc = 0, tf_include_lost = True, tf_base_seq_num = 65535,
     tf_status_count = 4, tf_reference_time = 15, tf_feedback_seq = 0, tf_include_timestamps = True,
     tf_last_timestamp_us = 1020000, tf_received_packets = [(65535, 160), (2, 80)],
     tf_all_packets = [Received 65535 160, Lost 0, Lost 1, Received 2 80], tf_encoded_chunks = [],
     tf_last_chunk = \<lparr>delta_sizes = [1, 0, 0, 1, 0, 0, 0, 0, 0, 0, 0, 0, 0, 0], lc_size = 4, all_same = False,
       has_large_delta = False\<rparr>,
     tf_size_bytes = 24\<rparr>"

lemmas tf_eval = tf_record_def tf_set_base_def tf_new_def lc_new_def lc_clear_def get_base_time_us_def
  kBaseScaleFactor_def kDeltaScaleFactor_def kTimeWrapPeriodUs_def signed_divide_int_def signed_modulo_int_def
  tf_add_received_packet_def tf_delta_ticks_def delta_fits_byte_def tf_add_delta_size_def lc_empty_def
  lc_can_add_def lc_add_def lc_capacities kLarge_def kChunkSizeBytes_def kMaxSizeBytes_def
  kTransportFeedbackHeaderSizeBytes_def kMinPayloadSizeBytes_def ahead_of_def ahead_or_at_def

lemma list_update_numeral: "(x # xs)[numeral k := y] = x # xs[pred_numeral k := y]"
  by (simp add: numeral_eq_Suc)

lemma tf_add_lost_numeral: "tf_add_lost (numeral k) = tf_add_lost (Suc (pred_numeral k))"
  by (simp add: numeral_eq_Suc)

lemma example_recorded:
  "tf_record True True [0, 0, 0, 0, 0, 0, 0, 0, 0, 0, 0, 0, 0, 0] 65535 1000000 [(65535, 1000100), (2, 1020000)] =
     Some ([True, True], example_feedback)"
  by (simp add: tf_eval Let_def example_feedback_def list_update_numeral tf_add_lost_numeral promoted_diff_is_def
      half_range_def forward_diff_def)
lemma example_extended:
  "\<exists>g. tf_add_received_packet 3 1020300 example_feedback = Some (True, g)"
  by (simp add: tf_eval Let_def example_feedback_def list_update_numeral promoted_diff_is_def)

section \<open>Properties\<close>

text \<open>
  C23. Recording any sequence of arrivals never aborts, keeps exactly the accepted arrivals in order,
  and leaves a consistent object: its own check succeeds as long as the base time in microseconds
  fits the 32-bit product the check computes; from \<open>2 ^ 31\<close> on that product overflows, which is undefined.
\<close>

theorem tf_record_consistent:
  assumes "length u = 14" "0 \<le> t"
  shows "\<exists>oks g. tf_record ts lost u base t ps = Some (oks, g) \<and>
    map fst (tf_received_packets g) = map (fst \<circ> fst) (filter snd (zip ps oks)) \<and>
    get_base_time_us g = t mod kTimeWrapPeriodUs div kBaseScaleFactor * kBaseScaleFactor \<and>
    tf_is_consistent u' g = (if get_base_time_us g < 2 ^ 31 then Some True else None)"
proof -
  obtain oks g where g: "tf_record ts lost u base t ps = Some (oks, g)" "tf_inv g"
      "tf_reference_time g = t mod kTimeWrapPeriodUs div kBaseScaleFactor"
    using tf_record_inv [OF assms(1,2)] by blast
  have pos: "0 < kBaseScaleFactor" "0 < kTimeWrapPeriodUs"
    by (simp_all add: kTimeWrapPeriodUs_def kBaseScaleFactor_def kDeltaScaleFactor_def)
  have base: "get_base_time_us g = t mod kTimeWrapPeriodUs div kBaseScaleFactor * kBaseScaleFactor"
    by (simp add: get_base_time_us_def g(3))
  moreover have "0 \<le> get_base_time_us g"
    unfolding base using pos by (simp add: pos_imp_zdiv_nonneg_iff)
  ultimately show ?thesis
    using g(1) tf_inv_consistent [OF g(2), of u'] tf_record_received [OF assms(1,2) g(1)] by auto
qed

theorem tf_record_consistent_witness:
  "\<exists>oks g. tf_record True True (replicate 14 0) 65535 1000000 [(65535, 1000100), (2, 1020000), (1, 5)] = Some (oks, g) \<and>
    tf_is_consistent (replicate 14 3) g = Some True \<and>
    map fst (tf_received_packets g) =
      map (fst \<circ> fst) (filter snd (zip [(65535, 1000100 :: int), (2, 1020000), (1, 5)] oks))"
proof -
  obtain oks g where "tf_record True True (replicate 14 0) 65535 1000000 [(65535, 1000100), (2, 1020000), (1, 5)] = Some (oks, g)"
    "map fst (tf_received_packets g) = map (fst \<circ> fst) (filter snd (zip [(65535, 1000100 :: int), (2, 1020000), (1, 5)] oks))"
    "get_base_time_us g = 1000000 mod kTimeWrapPeriodUs div kBaseScaleFactor * kBaseScaleFactor"
    "tf_is_consistent (replicate 14 3) g = (if get_base_time_us g < 2 ^ 31 then Some True else None)"
    using tf_record_consistent [of "replicate 14 0" 1000000 True True 65535 "[(65535, 1000100), (2, 1020000), (1, 5)]" "replicate 14 3"]
    by auto
  then show ?thesis
    by (intro exI [of _ oks] exI [of _ g]) (simp add: kTimeWrapPeriodUs_def kBaseScaleFactor_def kDeltaScaleFactor_def)
qed

text \<open>
  C14. The arrival time that a receiver computes for an accepted packet, the base time plus the sum
  of all deltas up to it, is within half a tick, 125 microseconds, of the recorded arrival time, up
  to whole wrap periods: rounding errors do not add up over the packets of a feedback.
\<close>

theorem tf_arrival_time_accurate:
  assumes "length u = 14" "0 \<le> t" "tf_record True lost u base t ps = Some (oks, f)"
    "tf_add_received_packet seq_no arrival f = Some (True, g)"
  shows "\<exists>k delta. tf_received_packets g = tf_received_packets f @ [(seq_no, delta)] \<and>
    \<bar>get_base_time_us g + sum_list (map (\<lambda>p. sint (snd p) * kDeltaScaleFactor) (tf_received_packets g)) -
      (arrival + k * kTimeWrapPeriodUs)\<bar> \<le> 125"
proof -
  have f: "tf_inv f" "tf_include_timestamps f" using tf_record_inv [OF assms(1,2), of True lost base ps] assms(3) by auto
  obtain delta where delta: "tf_delta_ticks arrival f = Some delta" "tf_inv g"
      "tf_received_packets g = tf_received_packets f @ [(seq_no, delta)]"
      "tf_last_timestamp_us g = tf_last_timestamp_us f + sint delta * kDeltaScaleFactor"
    using tf_add_received_inv [OF f(1), of seq_no arrival] f(2) assms(4) by auto
  have "tf_last_timestamp_us g = get_base_time_us g +
      sum_list (map (\<lambda>p. sint (snd p) * kDeltaScaleFactor) (tf_received_packets g))"
    using delta(2) by (simp add: tf_inv_def)
  with tf_delta_ticks_close [OF delta(1)] delta(3,4) show ?thesis by (metis (no_types, lifting))
qed

theorem tf_arrival_time_accurate_witness:
  "\<exists>g. tf_add_received_packet 3 1020300 example_feedback = Some (True, g) \<and>
    (\<exists>k delta. tf_received_packets g = tf_received_packets example_feedback @ [(3, delta)] \<and>
    \<bar>get_base_time_us g + sum_list (map (\<lambda>p. sint (snd p) * kDeltaScaleFactor) (tf_received_packets g)) -
      (1020300 + k * kTimeWrapPeriodUs)\<bar> \<le> 125)"
  using example_extended tf_arrival_time_accurate [OF _ _ example_recorded] by fastforce

text \<open>
  C1. A feedback with at least one accepted arrival that fits the size limit is delivered as one
  packet, padding included, and parsing that packet gives back the base, the status count, every
  received packet with its delta, every lost packet and the chunks; the reference time comes back
  as the signed reading of its 24 bits.
\<close>

theorem transport_feedback_roundtrip:
  assumes "length u = 14" "0 \<le> t" "tf_record ts lost u base t ps = Some (oks, f)" "True \<in> set oks"
    and "tf_packet_size f \<le> max_size" "max_size \<le> kIpPacketSize" "length stack = kIpPacketSize"
  shows "\<exists>bytes g. build (tf_pack_into f) max_size True stack = Some (True, [bytes]) \<and>
    length bytes = tf_packet_size f \<and> tf_parse_from u' bytes (length bytes) = accept g \<and> tf_agrees f g"
proof -
  have f: "tf_inv f" "tf_reference_time f = t mod kTimeWrapPeriodUs div kBaseScaleFactor"
    using tf_record_inv [OF assms(1,2), of ts lost base ps] assms(3) by auto
  have "filter snd (zip ps oks) \<noteq> []"
  proof -
    have "length oks = length ps"
      using assms(3) tf_add_all_length unfolding tf_record_def by (auto split: Option.bind_splits)
    then have "map snd (zip ps oks) = oks" by simp
    then show ?thesis using assms(4) by (metis (full_types) filter_False filter_empty_conv in_set_conv_nth length_map nth_map nth_mem)
  qed
  then have received: "tf_received_packets f \<noteq> []" using tf_record_received [OF assms(1,2,3)] by auto
  then obtain code where some: "tf_status_count f \<noteq> 0" and code: "lc_encode_last (tf_last_chunk f) = Some code"
    using tf_last_code [OF f(1)] by blast
  have small: "tf_packet_size f \<le> 0xFFFF" using assms(5,6) by (simp add: kIpPacketSize_def)
  have time: "0 \<le> tf_reference_time f" "tf_reference_time f < 2 ^ 24"
    unfolding f(2) by (simp_all add: kTimeWrapPeriodUs_def kBaseScaleFactor_def kDeltaScaleFactor_def
        pos_imp_zdiv_nonneg_iff div_less_iff_less_mult)
  have len: "length (tf_wire f code) = tf_packet_size f"
    using length_tf_body [OF f(1) some, of code] tf_padding(1) [of f] by (simp add: tf_wire_def)
  have "build (tf_pack_into f) max_size True stack = Some (True, [tf_wire f code])"
    using assms(5-7) len f(1) tf_padding(1) [of f]
    by (auto simp: build_def tf_pack_wire [OF f(1) some small code] pack_wire_fresh on_buffer_full_def
        tf_inv_def kTransportFeedbackHeaderSizeBytes_def)
  with tf_parse_wire [OF f(1) some small code time] received len show ?thesis by auto
qed


theorem transport_feedback_roundtrip_witness:
  "\<exists>bytes g. build (tf_pack_into example_feedback) 100 True (replicate 1500 0) = Some (True, [bytes]) \<and>
    length bytes = tf_packet_size example_feedback \<and>
    tf_parse_from (replicate 14 9) bytes (length bytes) = accept g \<and> tf_agrees example_feedback g"
  by (rule transport_feedback_roundtrip [OF _ _ example_recorded])
    (simp_all add: kIpPacketSize_def tf_packet_size_def example_feedback_def)

text \<open>
  C26. No received packet makes the feedback parser read outside the buffer or fail one of its
  assertions, however malformed its chunks and deltas are.
\<close>

theorem transport_feedback_parse_safe:
  assumes "sz \<le> length buffer"
  shows "tf_parse_from u buffer sz \<noteq> None"
  using assms by (rule tf_parse_from_safe)

theorem transport_feedback_parse_safe_witness:
  "tf_parse_from [] (replicate 30 0xcd) 29 \<noteq> None"
  by (rule transport_feedback_parse_safe) simp

end
