(* ===== verification/DecodedFrames.thy ===== *)
theory DecodedFrames
  imports Prelude
begin

text \<open>
  The cyclic buffer of decoded frames of the jitter buffer,
  \<^verbatim>\<open>src/rtc/rtp_rtcp/rtp/receiver/video/jitter/decoded_frames_history.cpp\<close>, and its refinement:
  the buffer answers as the set of all inserted frames would, restricted to the window.

  Frame ids are \<^verbatim>\<open>int64_t\<close>; the index computation converts them to the unsigned type of the
  buffer's size, and the remainder to \<^verbatim>\<open>int\<close>. An assertion, a division by zero or an iterator
  outside the buffer is \<open>None\<close>.
\<close>

section \<open>The class\<close>

record decoded_history =
  dh_window_size :: nat
  dh_buffer :: "bool list"
  dh_last_id :: "int option"
  dh_last_timestamp :: "u32 option"

definition dh_new :: "nat \<Rightarrow> decoded_history" where
  "dh_new n = \<lparr>dh_window_size = n, dh_buffer = replicate n False, dh_last_id = None, dh_last_timestamp = None\<rparr>"

definition frame_id_to_index :: "int \<Rightarrow> bool list \<Rightarrow> int option" where
  "frame_id_to_index frame_id buffer =
     (if buffer = [] then None
      else (let index = sint (of_nat (unat (word_of_int frame_id :: u64) mod length buffer) :: u32)
            in Some (if index \<ge> 0 then index else index + int (length buffer))))"

text \<open>\<^verbatim>\<open>std::fill\<close> of a range of the buffer, and the assignment of one element.\<close>

definition fill :: "int \<Rightarrow> int \<Rightarrow> bool list \<Rightarrow> bool list option" where
  "fill a b buffer =
     (if 0 \<le> a \<and> a \<le> b \<and> b \<le> int (length buffer)
      then Some (take (nat a) buffer @ replicate (nat (b - a)) False @ drop (nat b) buffer) else None)"

definition put_true :: "int \<Rightarrow> bool list \<Rightarrow> bool list option" where
  "put_true i buffer = (if 0 \<le> i \<and> i < int (length buffer) then Some (buffer[nat i := True]) else None)"

definition dh_insert_frame :: "int \<Rightarrow> u32 \<Rightarrow> decoded_history \<Rightarrow> decoded_history option" where
  "dh_insert_frame frame_id timestamp h = do {
     new_index \<leftarrow> frame_id_to_index frame_id (dh_buffer h);
     buffer \<leftarrow> (case dh_last_id h of
         None \<Rightarrow> Some (dh_buffer h)
       | Some last_id \<Rightarrow>
           if last_id < frame_id then do {
             last_index \<leftarrow> frame_id_to_index last_id (dh_buffer h);
             if frame_id - last_id \<ge> int (dh_window_size h) then fill 0 (int (length (dh_buffer h))) (dh_buffer h)
             else if new_index > last_index then fill (last_index + 1) new_index (dh_buffer h)
             else do {
               b \<leftarrow> fill (last_index + 1) (int (length (dh_buffer h))) (dh_buffer h);
               fill 0 new_index b } }
           else None);
     buffer \<leftarrow> put_true new_index buffer;
     Some (h\<lparr>dh_buffer := buffer, dh_last_id := Some frame_id, dh_last_timestamp := Some timestamp\<rparr>) }"

definition dh_was_decoded :: "int \<Rightarrow> decoded_history \<Rightarrow> bool option" where
  "dh_was_decoded frame_id h =
     (case dh_last_id h of
        None \<Rightarrow> Some False
      | Some last_id \<Rightarrow>
          if frame_id \<le> last_id - int (dh_window_size h) then Some False
          else if frame_id > last_id then Some False
          else do {
            i \<leftarrow> frame_id_to_index frame_id (dh_buffer h);
            if 0 \<le> i \<and> i < int (length (dh_buffer h)) then Some (dh_buffer h ! nat i) else None })"

definition dh_clear :: "decoded_history \<Rightarrow> decoded_history" where
  "dh_clear h = h\<lparr>dh_buffer := replicate (length (dh_buffer h)) False, dh_last_id := None, dh_last_timestamp := None\<rparr>"

section \<open>Positions\<close>

text \<open>Ids whose position in a buffer of \<open>n\<close> slots is their remainder modulo \<open>n\<close>.\<close>

definition indexable :: "nat \<Rightarrow> int \<Rightarrow> bool" where
  "indexable n frame_id \<longleftrightarrow> 0 < n \<and> n < 2 ^ 31 \<and> frame_id < 2 ^ 63 \<and>
     (0 \<le> frame_id \<or> (- (2 ^ 63) \<le> frame_id \<and> int n dvd 2 ^ 64))"

lemma frame_id_to_index_mod:
  assumes "indexable (length buffer) frame_id"
  shows "frame_id_to_index frame_id buffer = Some (frame_id mod int (length buffer))"
proof -
  let ?n = "length buffer" and ?u = "word_of_int frame_id :: u64"
  have n: "0 < ?n" "?n < 2 ^ 31" using assms by (simp_all add: indexable_def)
  have "uint ?u mod int ?n = frame_id mod int ?n"
  proof (cases "0 \<le> frame_id")
    case True
    then have "uint ?u = frame_id" using assms by (simp add: indexable_def uint_word_of_int)
    then show ?thesis by simp
  next
    case False
    then have "int ?n dvd 2 ^ 64" using assms by (simp add: indexable_def)
    then show ?thesis by (simp add: uint_word_of_int mod_mod_cancel)
  qed
  then have idx: "int (unat ?u mod ?n) = frame_id mod int ?n" by (simp add: zmod_int)
  have "sint (of_nat (unat ?u mod ?n) :: u32) = int (unat ?u mod ?n)"
  proof -
    have "unat ?u mod ?n < 2 ^ 31" using n mod_less_divisor [of ?n "unat ?u"] by linarith
    then show ?thesis
      by (subst signed_of_nat) (simp add: signed_take_bit_int_eq_self)
  qed
  with idx n show ?thesis by (simp add: frame_id_to_index_def Let_def)
qed

lemma mod_near:
  fixes x n :: int
  assumes "- n \<le> x" "x < 2 * n"
  shows "x mod n = (if x < 0 then x + n else if x < n then x else x - n)"
proof -
  consider "x < 0" | "0 \<le> x" "x < n" | "n \<le> x" "0 \<le> x - n" "x - n < n" using assms by linarith
  then show ?thesis
  proof cases
    case 3
    then have "(x - n) mod n = x - n" by (intro mod_pos_pos_trivial)
    then have "x mod n = x - n" by (simp only: minus_mod_self2)
    moreover have "\<not> x < 0" "\<not> x < n" using 3 assms by linarith+
    ultimately show ?thesis by (simp only: if_False)
  qed (use assms in \<open>auto simp: mod_below_zero\<close>)
qed

text \<open>
  The positions that the insertion of a frame clears are those of the skipped frames, as seen from
  the new window.
\<close>

lemma cleared_positions:
  fixes prev cur x n :: int
  assumes "prev < cur" "cur < prev + n" "cur - n < x" "x < cur"
  shows "(if prev mod n < cur mod n then prev mod n < x mod n \<and> x mod n < cur mod n
      else prev mod n < x mod n \<or> x mod n < cur mod n) \<longleftrightarrow> prev < x"
proof -
  define l where "l = prev mod n"
  let ?k = "cur - prev" and ?d = "x - prev"
  have n: "0 < n" using assms by linarith
  then have l: "0 \<le> l" "l < n" by (simp_all add: l_def)
  have shift: "y mod n = (l + (y - prev)) mod n" for y unfolding l_def by (metis add_diff_cancel_left' add_diff_eq mod_add_left_eq)
  have cur: "cur mod n = (if l + ?k < n then l + ?k else l + ?k - n)"
    unfolding shift [of cur] using mod_near [of n "l + ?k"] l assms by simp
  have x: "x mod n = (if l + ?d < 0 then l + ?d + n else if l + ?d < n then l + ?d else l + ?d - n)"
    unfolding shift [of x] using l assms by (intro mod_near) linarith+
  show ?thesis unfolding cur x l_def [symmetric] using l assms by (auto split: if_splits)
qed

lemma same_position: "cur - n < x \<Longrightarrow> x < cur \<Longrightarrow> x mod n \<noteq> cur mod n" for cur x n :: int
  by (metis diff_less_eq less_diff_eq mod_eq_dvd_iff zdvd_not_zless diff_gt_0_iff_gt add.commute)

lemma fill_nth:
  assumes "fill a b buffer = Some buffer'" "j < length buffer"
  shows "buffer' ! j = (if a \<le> int j \<and> int j < b then False else buffer ! j)"
proof -
  have ab: "0 \<le> a" "a \<le> b" "b \<le> int (length buffer)" and buffer': "buffer' = take (nat a) buffer @
      replicate (nat (b - a)) False @ drop (nat b) buffer"
    using assms(1) by (auto simp: fill_def split: if_splits)
  obtain m k where m: "a = int m" "b = int (m + k)"
    using ab by (metis nonneg_int_cases of_nat_add add_diff_cancel_left' le_add_diff_inverse diff_ge_0_iff_ge)
  then have "nat a = m" "nat (b - a) = k" "nat b = m + k" "m + k \<le> length buffer" using ab by auto
  with assms(2) show "buffer' ! j = (if a \<le> int j \<and> int j < b then False else buffer ! j)"
    unfolding buffer' m by (auto simp: nth_append)
qed

text \<open>The buffer represents the frames \<open>ids\<close> inserted since the last \<^verbatim>\<open>Clear\<close>, the latest first.\<close>

definition dh_rep :: "nat \<Rightarrow> int list \<Rightarrow> decoded_history \<Rightarrow> bool" where
  "dh_rep n ids h \<longleftrightarrow> dh_window_size h = n \<and> length (dh_buffer h) = n \<and>
     dh_last_id h = (case ids of [] \<Rightarrow> None | x # xs \<Rightarrow> Some x) \<and>
     (\<forall>x\<in>set ids. indexable n x \<and> x \<le> hd ids) \<and> (ids = [] \<longrightarrow> dh_buffer h = replicate n False) \<and>
     (\<forall>x. ids \<noteq> [] \<and> hd ids - int n < x \<and> x \<le> hd ids \<longrightarrow>
        (dh_buffer h ! nat (x mod int n) \<longleftrightarrow> x \<in> set ids))"

lemma fill_length: "fill a b buffer = Some buffer' \<Longrightarrow> length buffer' = length buffer"
  by (auto simp: fill_def split: if_splits)

lemma fill_defined: "0 \<le> a \<Longrightarrow> a \<le> b \<Longrightarrow> b \<le> int (length buffer) \<Longrightarrow> \<exists>buffer'. fill a b buffer = Some buffer'"
  by (simp add: fill_def)


text \<open>What the clearing phase of an insertion leaves in the buffer.\<close>

definition dh_cleared :: "int \<Rightarrow> decoded_history \<Rightarrow> bool list option" where
  "dh_cleared frame_id h =
     (case dh_last_id h of
         None \<Rightarrow> Some (dh_buffer h)
       | Some last_id \<Rightarrow>
           if last_id < frame_id then do {
             new_index \<leftarrow> frame_id_to_index frame_id (dh_buffer h);
             last_index \<leftarrow> frame_id_to_index last_id (dh_buffer h);
             if frame_id - last_id \<ge> int (dh_window_size h) then fill 0 (int (length (dh_buffer h))) (dh_buffer h)
             else if new_index > last_index then fill (last_index + 1) new_index (dh_buffer h)
             else do {
               b \<leftarrow> fill (last_index + 1) (int (length (dh_buffer h))) (dh_buffer h);
               fill 0 new_index b } }
           else None)"

lemma dh_insert_frame_cleared:
  "dh_insert_frame frame_id timestamp h = do {
     new_index \<leftarrow> frame_id_to_index frame_id (dh_buffer h);
     buffer \<leftarrow> dh_cleared frame_id h;
     buffer \<leftarrow> put_true new_index buffer;
     Some (h\<lparr>dh_buffer := buffer, dh_last_id := Some frame_id, dh_last_timestamp := Some timestamp\<rparr>) }"
  by (cases "frame_id_to_index frame_id (dh_buffer h)")
    (auto simp: dh_insert_frame_def dh_cleared_def split: option.splits)

lemma dh_cleared_within:
  assumes "dh_window_size h = n" "length (dh_buffer h) = n" "dh_last_id h = Some prev"
    "frame_id_to_index frame_id (dh_buffer h) = Some w" "frame_id_to_index prev (dh_buffer h) = Some l"
    "prev < frame_id" "\<not> frame_id - prev \<ge> int n" "0 \<le> w" "w < int n" "0 \<le> l" "l < int n"
  shows "\<exists>b. dh_cleared frame_id h = Some b \<and> length b = n \<and>
    (\<forall>j<n. b ! j \<longleftrightarrow> dh_buffer h ! j \<and> \<not> (if l < w then l < int j \<and> int j < w else l < int j \<or> int j < w))"
proof (cases "l < w")
  case True
  then obtain b where b: "dh_cleared frame_id h = Some b" "fill (l + 1) w (dh_buffer h) = Some b"
    using assms fill_defined [of "l + 1" w "dh_buffer h"] by (auto simp: dh_cleared_def)
  then show ?thesis using fill_nth [OF b(2)] fill_length [OF b(2)] assms(2,9) True by auto
next
  case False
  obtain a where a: "fill (l + 1) (int n) (dh_buffer h) = Some a" "length a = n"
    using fill_defined [of "l + 1" "int n" "dh_buffer h"] fill_length [of "l + 1" "int n" "dh_buffer h"] assms by force
  moreover obtain b where b: "fill 0 w a = Some b" using fill_defined [of 0 w a] assms a(2) by auto
  ultimately have "dh_cleared frame_id h = Some b" using assms False by (simp add: dh_cleared_def)
  then show ?thesis using fill_nth [OF a(1)] fill_nth [OF b] fill_length [OF b] a(2) assms(2,9) False by auto
qed

lemma dh_cleared_rep:
  assumes rep: "dh_rep n ids h" and new: "indexable n frame_id" "\<forall>x\<in>set ids. x < frame_id"
  shows "\<exists>b. dh_cleared frame_id h = Some b \<and> length b = n \<and>
    (\<forall>x. frame_id - int n < x \<and> x < frame_id \<longrightarrow> (b ! nat (x mod int n) \<longleftrightarrow> x \<in> set ids))"
proof (cases ids)
  case Nil
  then show ?thesis using rep new(1) by (simp add: dh_rep_def dh_cleared_def indexable_def nat_less_iff)
next
  case (Cons prev rest)
  have n: "0 < int n" using new(1) by (simp add: indexable_def)
  have h: "dh_window_size h = n" "length (dh_buffer h) = n" "dh_last_id h = Some prev" "indexable n prev"
    "prev < frame_id" and old: "\<And>x. prev - int n < x \<Longrightarrow> x \<le> prev \<Longrightarrow> dh_buffer h ! nat (x mod int n) \<longleftrightarrow> x \<in> set ids"
    and le: "\<And>x. x \<in> set ids \<Longrightarrow> x \<le> prev"
    using rep new(2) Cons by (auto simp: dh_rep_def)
  have pos: "0 \<le> x mod int n" "x mod int n < int n" "nat (x mod int n) < n" for x using n by (simp_all add: nat_less_iff)
  have idx: "frame_id_to_index frame_id (dh_buffer h) = Some (frame_id mod int n)"
    "frame_id_to_index prev (dh_buffer h) = Some (prev mod int n)"
    using frame_id_to_index_mod [of "dh_buffer h"] new(1) h by simp_all
  show ?thesis
  proof (cases "frame_id - prev \<ge> int n")
    case True
    then obtain b where b: "dh_cleared frame_id h = Some b" "fill 0 (int n) (dh_buffer h) = Some b"
      using h idx fill_defined [of 0 "int n" "dh_buffer h"] by (auto simp: dh_cleared_def)
    have "\<not> b ! nat (x mod int n)" for x using fill_nth [OF b(2)] pos h(2) by simp
    moreover have "x \<notin> set ids" if "frame_id - int n < x" for x using that True le by force
    ultimately show ?thesis using b fill_length [OF b(2)] h(2) n by (metis of_nat_0_less_iff)
  next
    case False
    obtain b where b: "dh_cleared frame_id h = Some b" "length b = n"
      "\<And>j. j < n \<Longrightarrow> b ! j \<longleftrightarrow> dh_buffer h ! j \<and>
        \<not> (if prev mod int n < frame_id mod int n then prev mod int n < int j \<and> int j < frame_id mod int n
           else prev mod int n < int j \<or> int j < frame_id mod int n)"
      using dh_cleared_within [OF h(1,2,3) idx h(5) False pos(1,2) pos(1,2)] by blast
    have "b ! nat (x mod int n) \<longleftrightarrow> x \<in> set ids" if x: "frame_id - int n < x" "x < frame_id" for x
    proof -
      have "b ! nat (x mod int n) \<longleftrightarrow> dh_buffer h ! nat (x mod int n) \<and> \<not> prev < x"
        unfolding b(3) [OF pos(3)] int_nat_eq [of "x mod int n"] if_P [OF pos(1)]
        by (subst cleared_positions [of prev frame_id "int n" x]) (use h(5) False x in auto)
      then show ?thesis using old [of x] le [of x] x h(5) by fastforce
    qed
    with b show ?thesis by blast
  qed
qed

lemma dh_insert_rep:
  assumes rep: "dh_rep n ids h" and new: "indexable n frame_id" "\<forall>x\<in>set ids. x < frame_id"
  shows "\<exists>h'. dh_insert_frame frame_id timestamp h = Some h' \<and> dh_rep n (frame_id # ids) h'"
proof -
  obtain b where b: "dh_cleared frame_id h = Some b" "length b = n"
    "\<And>x. frame_id - int n < x \<Longrightarrow> x < frame_id \<Longrightarrow> b ! nat (x mod int n) \<longleftrightarrow> x \<in> set ids"
    using dh_cleared_rep [OF assms] by blast
  have n: "0 < int n" using new(1) by (simp add: indexable_def)
  have idx: "frame_id_to_index frame_id (dh_buffer h) = Some (frame_id mod int n)"
    using frame_id_to_index_mod [of "dh_buffer h"] new(1) rep by (simp add: dh_rep_def)
  let ?b = "b[nat (frame_id mod int n) := True]"
  have "?b ! nat (x mod int n) \<longleftrightarrow> x \<in> set (frame_id # ids)" if x: "frame_id - int n < x" "x \<le> frame_id" for x
  proof (cases "x = frame_id")
    case False
    with x have "x mod int n \<noteq> frame_id mod int n" by (intro same_position) auto
    then have "nat (x mod int n) \<noteq> nat (frame_id mod int n)" using n by (simp add: nat_eq_iff2)
    with False x b(3) show ?thesis by simp
  qed (use b(2) n in \<open>simp add: nat_less_iff\<close>)
  then show ?thesis
    using b idx n rep new by (auto simp: dh_insert_frame_cleared put_true_def dh_rep_def)
qed

lemma dh_was_decoded_rep:
  assumes "dh_rep n ids h" "indexable n x"
  shows "dh_was_decoded x h = Some (ids \<noteq> [] \<and> hd ids - int n < x \<and> x \<in> set ids)"
proof (cases ids)
  case (Cons prev rest)
  have n: "0 < int n" using assms(2) by (simp add: indexable_def)
  show ?thesis
    using assms frame_id_to_index_mod [of "dh_buffer h" x] Cons n
    by (auto simp: dh_rep_def dh_was_decoded_def not_le nat_less_iff)
qed (use assms in \<open>simp add: dh_rep_def dh_was_decoded_def\<close>)

lemma dh_clear_rep: "dh_rep n ids h \<Longrightarrow> dh_rep n [] (dh_clear h)"
  by (simp add: dh_rep_def dh_clear_def)

section \<open>Refinement\<close>

datatype history_op = InsertFrame int u32 | ClearHistory

primrec dh_step :: "history_op \<Rightarrow> decoded_history \<Rightarrow> decoded_history option" where
  "dh_step (InsertFrame x t) h = dh_insert_frame x t h"
| "dh_step ClearHistory h = Some (dh_clear h)"

fun dh_run :: "history_op list \<Rightarrow> decoded_history \<Rightarrow> decoded_history option" where
  "dh_run [] h = Some h"
| "dh_run (op # ops) h = Option.bind (dh_step op h) (dh_run ops)"

text \<open>
  The specification keeps every inserted frame, the latest first; a decoder inserts frames in
  increasing order.
\<close>

primrec spec_step :: "nat \<Rightarrow> history_op \<Rightarrow> int list \<Rightarrow> int list option" where
  "spec_step n (InsertFrame x t) ids = (if indexable n x \<and> (\<forall>y\<in>set ids. y < x) then Some (x # ids) else None)"
| "spec_step n ClearHistory ids = Some []"

fun spec_run :: "nat \<Rightarrow> history_op list \<Rightarrow> int list \<Rightarrow> int list option" where
  "spec_run n [] ids = Some ids"
| "spec_run n (op # ops) ids = Option.bind (spec_step n op ids) (spec_run n ops)"

lemma dh_run_rep:
  assumes "dh_rep n ids h" "spec_run n ops ids = Some ids'"
  shows "\<exists>h'. dh_run ops h = Some h' \<and> dh_rep n ids' h'"
  using assms
proof (induction ops arbitrary: ids h)
  case (Cons op ops)
  obtain ids1 where ids1: "spec_step n op ids = Some ids1" "spec_run n ops ids1 = Some ids'"
    using Cons.prems(2) by (auto split: Option.bind_splits)
  have "\<exists>h1. dh_step op h = Some h1 \<and> dh_rep n ids1 h1"
    using ids1(1) dh_insert_rep [OF Cons.prems(1)] dh_clear_rep [OF Cons.prems(1)]
    by (cases op) (auto split: if_splits)
  with Cons.IH [OF _ ids1(2)] show ?case by auto
qed simp

text \<open>
  C11. The history is a refinement of the set of inserted frames: after any sequence of insertions of
  increasing frames and of clearings, no operation aborts, and \<^verbatim>\<open>WasDecoded\<close> says yes exactly for
  the frames that were inserted since the last clearing and lie in the window of the latest one.
\<close>

theorem decoded_history_refines:
  assumes "0 < n" "spec_run n ops [] = Some ids" "indexable n x"
  shows "\<exists>h. dh_run ops (dh_new n) = Some h \<and>
    dh_was_decoded x h = Some (ids \<noteq> [] \<and> hd ids - int n < x \<and> x \<in> set ids)"
proof -
  have "dh_rep n [] (dh_new n)" by (simp add: dh_rep_def dh_new_def)
  from dh_run_rep [OF this assms(2)] dh_was_decoded_rep [OF _ assms(3)] show ?thesis by blast
qed

theorem decoded_history_refines_witness:
  "\<exists>h. dh_run [InsertFrame 1 10, ClearHistory, InsertFrame 6 20, InsertFrame 9 30] (dh_new 4) = Some h \<and>
    dh_was_decoded 6 h = Some ([9, 6 :: int] \<noteq> [] \<and> hd [9, 6] - int 4 < 6 \<and> (6 :: int) \<in> set [9, 6])"
  by (rule decoded_history_refines) (simp_all add: indexable_def)


text \<open>
  Outside the ids that \<open>indexable\<close> admits the buffer is wrong: the conversion to an unsigned number
  makes frames \<open>-1\<close> and \<open>0\<close> share a slot when the window is not a power of two, so that a frame
  that was never inserted is reported as decoded. The branch for negative remainders is dead code.
\<close>

lemma negative_frame_ids_collide:
  "\<exists>h. dh_insert_frame 0 t (dh_new 3) = Some h \<and> dh_was_decoded (- 1) h = Some True"
proof -
  have "unat (- 1 :: u64) = 18446744073709551615" by (simp add: unsigned_minus_1_eq_mask mask_eq_exp_minus_1)
  then show ?thesis
    by (simp add: dh_insert_frame_def dh_new_def frame_id_to_index_def put_true_def dh_was_decoded_def Let_def)
qed

end
