(* ===== verification/ArrivalMap.thy ===== *)
theory ArrivalMap
  imports Prelude
begin

text \<open>
  The receive-side map of packet arrival times,
  \<^verbatim>\<open>src/rtc/congestion_control/receive_side/packet_arrival_time_map.cpp\<close>: a deque of arrival times
  that starts at the packet \<^verbatim>\<open>begin_packet_id_\<close>, with the arrival time 0 as the placeholder of a
  packet that was not received. It refines a finite map from packet ids to arrival times.

  Packet ids and times are \<^verbatim>\<open>int64_t\<close> values far from the ends of their range and are modelled as
  integers. A failed assertion is \<open>None\<close>.
\<close>

section \<open>The class\<close>

record arrival_map =
  am_arrival_times :: "int list"
  am_begin_packet_id :: int
  am_has_received_packet :: bool

definition kMaxNumberOfPackets :: nat where "kMaxNumberOfPackets = 32768"
definition kPacketIdPlaceholder :: int where "kPacketIdPlaceholder = 0"

definition am_new :: arrival_map where
  "am_new = \<lparr>am_arrival_times = [], am_begin_packet_id = 0, am_has_received_packet = False\<rparr>"

definition am_end_packet_id :: "arrival_map \<Rightarrow> int" where
  "am_end_packet_id m = am_begin_packet_id m + int (length (am_arrival_times m))"

text \<open>\<^verbatim>\<open>at\<close>; \<open>None\<close> is the exception \<^verbatim>\<open>std::out_of_range\<close>.\<close>

definition am_at :: "int \<Rightarrow> arrival_map \<Rightarrow> int option" where
  "am_at packet_id m =
     (let offset = packet_id - am_begin_packet_id m
      in if offset < 0 \<or> offset \<ge> int (length (am_arrival_times m)) then None
         else Some (am_arrival_times m ! nat offset))"

definition am_has_received :: "int \<Rightarrow> arrival_map \<Rightarrow> bool" where
  "am_has_received packet_id m =
     (let offset = packet_id - am_begin_packet_id m
      in offset \<ge> 0 \<and> offset < int (length (am_arrival_times m)) \<and>
         am_arrival_times m ! nat offset \<noteq> kPacketIdPlaceholder)"

text \<open>The loop that also removes the placeholders that would come first.\<close>

function skip_placeholders :: "nat \<Rightarrow> int list \<Rightarrow> nat" where
  "skip_placeholders n arrivals =
     (if n < length arrivals \<and> arrivals ! n = kPacketIdPlaceholder then skip_placeholders (n + 1) arrivals else n)"
  by pat_completeness auto
termination
  by (relation "measure (\<lambda>(n, arrivals). length arrivals - n)") auto

declare skip_placeholders.simps [simp del]

text \<open>The step that makes room at the front for a packet after the end of the queue.\<close>

definition am_make_room :: "int \<Rightarrow> int \<Rightarrow> arrival_map \<Rightarrow> (int \<times> arrival_map) option" where
  "am_make_room packet_id offset m =
     (if offset \<ge> int kMaxNumberOfPackets then
        (let packets_to_remove = nat offset - kMaxNumberOfPackets + 1
         in if packets_to_remove \<ge> length (am_arrival_times m) then
              Some (0, m\<lparr>am_arrival_times := [], am_begin_packet_id := packet_id\<rparr>)
            else (let n = skip_placeholders packets_to_remove (am_arrival_times m);
                      m' = m\<lparr>am_arrival_times := drop n (am_arrival_times m),
                             am_begin_packet_id := am_begin_packet_id m + int n\<rparr>;
                      offset' = offset - int n
                  in if offset' \<ge> int (length (am_arrival_times m')) then Some (offset', m') else None))
      else Some (offset, m))"

definition am_add_packet :: "int \<Rightarrow> int \<Rightarrow> arrival_map \<Rightarrow> arrival_map option" where
  "am_add_packet packet_id arrival_time_ms m =
     (if \<not> am_has_received_packet m then
        Some (m\<lparr>am_has_received_packet := True, am_begin_packet_id := packet_id,
                am_arrival_times := am_arrival_times m @ [arrival_time_ms]\<rparr>)
      else (let offset = packet_id - am_begin_packet_id m
        in if offset \<ge> 0 \<and> offset < int (length (am_arrival_times m)) then
             Some (m\<lparr>am_arrival_times := (am_arrival_times m)[nat offset := arrival_time_ms]\<rparr>)
           else if offset < 0 then
             (let missing_packets = nat (- offset)
              in if missing_packets + length (am_arrival_times m) > kMaxNumberOfPackets then Some m
                 else Some (m\<lparr>am_arrival_times := (replicate missing_packets kPacketIdPlaceholder @ am_arrival_times m)
                                 [0 := arrival_time_ms],
                              am_begin_packet_id := packet_id\<rparr>))
           else do {
             (offset, m) \<leftarrow> am_make_room packet_id offset m;
             let missing_gap_packets = nat offset - length (am_arrival_times m);
             let arrivals = am_arrival_times m @ replicate missing_gap_packets kPacketIdPlaceholder;
             if int (length arrivals) = offset then
               (let arrivals = arrivals @ [arrival_time_ms]
                in if length arrivals \<le> kMaxNumberOfPackets then Some (m\<lparr>am_arrival_times := arrivals\<rparr>) else None)
             else None }))"

definition am_erase_to :: "int \<Rightarrow> arrival_map \<Rightarrow> arrival_map" where
  "am_erase_to packet_id m =
     (if packet_id > am_begin_packet_id m then
        (let packets_to_remove = min (nat (packet_id - am_begin_packet_id m)) (length (am_arrival_times m))
         in m\<lparr>am_arrival_times := drop packets_to_remove (am_arrival_times m),
              am_begin_packet_id := am_begin_packet_id m + int packets_to_remove\<rparr>)
      else m)"

text \<open>The loop of \<^verbatim>\<open>RemoveOldPackets\<close> on the queue and its first id.\<close>

fun pop_old :: "int \<Rightarrow> int \<Rightarrow> int list \<Rightarrow> int \<Rightarrow> int list \<times> int" where
  "pop_old packet_id t [] b = ([], b)"
| "pop_old packet_id t (x # xs) b =
     (if b < packet_id \<and> x \<le> t then pop_old packet_id t xs (b + 1) else (x # xs, b))"

definition am_remove_old_packets :: "int \<Rightarrow> int \<Rightarrow> arrival_map \<Rightarrow> arrival_map" where
  "am_remove_old_packets packet_id arrival_time_ms m =
     (case pop_old packet_id arrival_time_ms (am_arrival_times m) (am_begin_packet_id m) of
        (arrivals, b) \<Rightarrow> m\<lparr>am_arrival_times := arrivals, am_begin_packet_id := b\<rparr>)"

definition am_clamp :: "int \<Rightarrow> arrival_map \<Rightarrow> int" where
  "am_clamp packet_id m = min (am_end_packet_id m) (max packet_id (am_begin_packet_id m))"

section \<open>The abstract map\<close>

text \<open>The times that a queue starting at \<open>b\<close> records.\<close>

definition times_at :: "int \<Rightarrow> int list \<Rightarrow> int \<rightharpoonup> int" where
  "times_at b arrivals = (\<lambda>x. if b \<le> x \<and> x < b + int (length arrivals) \<and> arrivals ! nat (x - b) \<noteq> 0
     then Some (arrivals ! nat (x - b)) else None)"

definition am_abs :: "arrival_map \<Rightarrow> int \<rightharpoonup> int" where
  "am_abs m = times_at (am_begin_packet_id m) (am_arrival_times m)"

lemma times_at_update:
  assumes "b \<le> x" "x < b + int (length arrivals)" "t \<noteq> 0"
  shows "times_at b (arrivals[nat (x - b) := t]) = (times_at b arrivals)(x \<mapsto> t)"
  using assms by (auto simp: times_at_def fun_eq_iff nth_list_update nat_eq_iff)

lemma times_at_append: "times_at b (xs @ ys) = times_at b xs ++ times_at (b + int (length xs)) ys"
proof
  fix x
  have "nat (x - b) - length xs = nat (x - (b + int (length xs)))" by linarith
  then show "times_at b (xs @ ys) x = (times_at b xs ++ times_at (b + int (length xs)) ys) x"
    by (auto simp: times_at_def map_add_def nth_append nat_less_iff)
qed

lemma times_at_placeholders [simp]: "times_at b (replicate n 0) = Map.empty"
  by (auto simp: times_at_def fun_eq_iff)

lemma times_at_Nil [simp]: "times_at b [] = Map.empty"
  by (auto simp: times_at_def)

lemma times_at_single: "t \<noteq> 0 \<Longrightarrow> times_at b [t] = [b \<mapsto> t]"
  by (auto simp: times_at_def fun_eq_iff)

lemma times_at_drop: "n \<le> length arrivals \<Longrightarrow> times_at (b + int n) (drop n arrivals) = (times_at b arrivals) |` {x. b + int n \<le> x}"
proof
  fix x
  assume n: "n \<le> length arrivals"
  have "n + nat (x - (b + int n)) = nat (x - b)" if "b + int n \<le> x" using that by linarith
  with n show "times_at (b + int n) (drop n arrivals) x = ((times_at b arrivals) |` {x. b + int n \<le> x}) x"
    by (auto simp: times_at_def restrict_map_def)
qed

section \<open>Refinement\<close>

definition am_inv :: "arrival_map \<Rightarrow> bool" where
  "am_inv m \<longleftrightarrow> length (am_arrival_times m) \<le> kMaxNumberOfPackets \<and>
     (\<not> am_has_received_packet m \<longrightarrow> am_arrival_times m = [])"

lemma skip_placeholders_spec:
  assumes "n \<le> length arrivals"
  shows "n \<le> skip_placeholders n arrivals \<and> skip_placeholders n arrivals \<le> length arrivals \<and>
    (\<forall>i. n \<le> i \<and> i < skip_placeholders n arrivals \<longrightarrow> arrivals ! i = 0)"
  using assms
proof (induction n arrivals rule: skip_placeholders.induct)
  case (1 n arrivals)
  show ?case
  proof (cases "n < length arrivals \<and> arrivals ! n = kPacketIdPlaceholder")
    case True
    then have "skip_placeholders n arrivals = skip_placeholders (n + 1) arrivals"
      by (simp add: skip_placeholders.simps [of n])
    moreover have "arrivals ! i = 0" if "n \<le> i" "i < skip_placeholders (n + 1) arrivals" for i
      using 1(1) [OF True] True that by (cases "i = n") (auto simp: kPacketIdPlaceholder_def)
    ultimately show ?thesis using 1(1) [OF True] True by auto
  next
    case False
    have "skip_placeholders n arrivals = n" by (subst skip_placeholders.simps) (rule if_not_P [OF False])
    with 1(2) show ?thesis by simp
  qed
qed

lemma restrict_over_placeholders:
  assumes "a \<le> k" "k \<le> length arrivals" "\<forall>i. a \<le> i \<and> i < k \<longrightarrow> arrivals ! i = 0"
  shows "(times_at b arrivals) |` {x. b + int k \<le> x} = (times_at b arrivals) |` {x. b + int a \<le> x}"
proof
  fix x
  show "((times_at b arrivals) |` {x. b + int k \<le> x}) x = ((times_at b arrivals) |` {x. b + int a \<le> x}) x"
  proof (cases "b + int a \<le> x \<and> x < b + int k")
    case True
    then have "arrivals ! nat (x - b) = 0" using assms(3) by (simp add: nat_less_iff le_nat_iff)
    with True show ?thesis by (simp add: restrict_map_def times_at_def)
  qed (use assms(1) in \<open>auto simp: restrict_map_def\<close>)
qed

lemma am_make_room_spec:
  assumes inv: "am_inv m" and off: "offset = packet_id - am_begin_packet_id m"
    "int (length (am_arrival_times m)) \<le> offset"
  shows "\<exists>offset' m'. am_make_room packet_id offset m = Some (offset', m') \<and>
    offset' = packet_id - am_begin_packet_id m' \<and> int (length (am_arrival_times m')) \<le> offset' \<and>
    offset' < int kMaxNumberOfPackets \<and> am_has_received_packet m' = am_has_received_packet m \<and>
    am_abs m' = am_abs m |` {x. packet_id - int kMaxNumberOfPackets < x}"
proof -
  let ?ts = "am_arrival_times m" and ?b = "am_begin_packet_id m" and ?max = "int kMaxNumberOfPackets"
  let ?n = "nat offset - kMaxNumberOfPackets + 1"
  have pos: "0 < ?max" by (simp add: kMaxNumberOfPackets_def)
  consider "offset < ?max" | "?max \<le> offset" "length ?ts \<le> ?n" | "?max \<le> offset" "?n < length ?ts" by linarith
  then show ?thesis
  proof cases
    case 1
    moreover have "am_abs m |` {x. packet_id - ?max < x} = am_abs m"
      using 1 off by (auto simp: am_abs_def times_at_def restrict_map_def fun_eq_iff)
    ultimately show ?thesis using off by (simp add: am_make_room_def)
  next
    case 2
    then have "am_abs m |` {x. packet_id - ?max < x} = Map.empty"
      using off by (auto simp: am_abs_def times_at_def restrict_map_def fun_eq_iff)
    with 2 pos show ?thesis by (simp add: am_make_room_def am_abs_def)
  next
    case 3
    let ?k = "skip_placeholders ?n ?ts"
    have k: "?n \<le> ?k" "?k \<le> length ?ts" "\<forall>i. ?n \<le> i \<and> i < ?k \<longrightarrow> ?ts ! i = 0"
      using skip_placeholders_spec [of ?n ?ts] 3 by simp_all
    have "{x. ?b + int ?n \<le> x} = {x. packet_id - ?max < x}" using 3 off by auto
    with restrict_over_placeholders [OF k] times_at_drop [OF k(2)]
    have "times_at (?b + int ?k) (drop ?k ?ts) = am_abs m |` {x. packet_id - ?max < x}" by (simp add: am_abs_def)
    moreover have "offset - int ?k < ?max" using k(1) 3(1) by linarith
    ultimately show ?thesis using 3 k off by (simp add: am_make_room_def Let_def am_abs_def)
  qed
qed


text \<open>The packets that do not fit: those before the queue that would make it too long.\<close>

definition am_dropped :: "int \<Rightarrow> arrival_map \<Rightarrow> bool" where
  "am_dropped packet_id m \<longleftrightarrow> am_has_received_packet m \<and> packet_id < am_begin_packet_id m \<and>
     am_end_packet_id m - packet_id > int kMaxNumberOfPackets"

lemma am_add_packet_spec:
  assumes inv: "am_inv m" and t: "t \<noteq> 0"
  shows "\<exists>m'. am_add_packet packet_id t m = Some m' \<and> am_inv m' \<and>
    am_abs m' = (if am_dropped packet_id m then am_abs m
      else (am_abs m |` {x. packet_id - int kMaxNumberOfPackets < x})(packet_id \<mapsto> t))"
proof (cases "am_has_received_packet m")
  case False
  then show ?thesis
    using inv t by (auto simp: am_add_packet_def am_inv_def am_dropped_def am_abs_def times_at_single
        kMaxNumberOfPackets_def)
next
  case True
  let ?ts = "am_arrival_times m" and ?b = "am_begin_packet_id m" and ?max = "int kMaxNumberOfPackets"
  let ?off = "packet_id - ?b"
  have len: "length ?ts \<le> kMaxNumberOfPackets" using inv by (simp add: am_inv_def)
  have all: "am_abs m |` {x. packet_id - ?max < x} = am_abs m" if "packet_id < ?b + int (length ?ts)"
    using that len by (auto simp: am_abs_def times_at_def restrict_map_def fun_eq_iff)
  consider "0 \<le> ?off" "?off < int (length ?ts)" | "?off < 0" "nat (- ?off) + length ?ts > kMaxNumberOfPackets"
    | "?off < 0" "nat (- ?off) + length ?ts \<le> kMaxNumberOfPackets" | "0 \<le> ?off" "int (length ?ts) \<le> ?off" by linarith
  then show ?thesis
  proof cases
    case 1
    then show ?thesis
      using True len t all times_at_update [of ?b packet_id ?ts t]
      by (auto simp: am_add_packet_def am_inv_def am_dropped_def am_abs_def)
  next
    case 2
    then have "am_dropped packet_id m" using True unfolding am_dropped_def am_end_packet_id_def by linarith
    moreover have "am_add_packet packet_id t m = Some m" using 2 True by (simp add: am_add_packet_def Let_def)
    ultimately show ?thesis using inv by simp
  next
    case 3
    obtain k where k: "nat (- ?off) = Suc k" using 3(1) by (cases "nat (- ?off)") auto
    then have b: "?b = packet_id + int (Suc k)" using 3 by linarith
    then have none: "am_abs m packet_id = None" by (simp add: am_abs_def times_at_def)
    have "times_at packet_id (([t] @ replicate k 0) @ ?ts) = [packet_id \<mapsto> t] ++ am_abs m"
      unfolding times_at_append by (simp add: times_at_single [OF t] am_abs_def b add.assoc)
    also have "\<dots> = (am_abs m)(packet_id \<mapsto> t)" using none by (auto simp: map_add_def fun_eq_iff split: option.split)
    finally have "times_at packet_id (t # replicate k 0 @ ?ts) = (am_abs m)(packet_id \<mapsto> t)" by simp
    moreover have "\<not> am_dropped packet_id m" using 3 unfolding am_dropped_def am_end_packet_id_def by linarith
    moreover have "am_add_packet packet_id t m =
        Some (m\<lparr>am_arrival_times := t # replicate k 0 @ ?ts, am_begin_packet_id := packet_id\<rparr>)"
      using 3 k True by (simp add: am_add_packet_def Let_def kPacketIdPlaceholder_def)
    ultimately show ?thesis using 3 k True all by (simp add: am_inv_def am_abs_def)
  next
    case 4
    obtain offset' m' where m': "am_make_room packet_id ?off m = Some (offset', m')"
      "offset' = packet_id - am_begin_packet_id m'" "int (length (am_arrival_times m')) \<le> offset'" "offset' < ?max"
      "am_has_received_packet m'" "am_abs m' = am_abs m |` {x. packet_id - ?max < x}"
      using am_make_room_spec [OF inv refl 4(2)] True by blast
    let ?gap = "nat offset' - length (am_arrival_times m')"
    have "times_at (am_begin_packet_id m') ((am_arrival_times m' @ replicate ?gap 0) @ [t]) = (am_abs m')(packet_id \<mapsto> t)"
      unfolding times_at_append using m'(2,3) by (simp add: am_abs_def times_at_single [OF t])
    moreover have "int (length (am_arrival_times m') + ?gap) = offset'"
      "length (am_arrival_times m') + ?gap + 1 \<le> kMaxNumberOfPackets" using m'(3,4) by linarith+
    moreover from this have "am_add_packet packet_id t m =
        Some (m'\<lparr>am_arrival_times := (am_arrival_times m' @ replicate ?gap 0) @ [t]\<rparr>)"
      using m'(1) 4 True by (simp add: am_add_packet_def Let_def kPacketIdPlaceholder_def)
    moreover have "\<not> am_dropped packet_id m" using 4(1) by (simp add: am_dropped_def)
    ultimately show ?thesis using m'(5,6) by (simp add: am_inv_def am_abs_def)
  qed
qed

lemma am_erase_to_spec:
  assumes "am_inv m"
  shows "am_inv (am_erase_to packet_id m) \<and> am_abs (am_erase_to packet_id m) = am_abs m |` {x. packet_id \<le> x}"
proof (cases "packet_id > am_begin_packet_id m")
  case True
  let ?k = "min (nat (packet_id - am_begin_packet_id m)) (length (am_arrival_times m))"
  have "times_at (am_begin_packet_id m) (am_arrival_times m) |` {x. am_begin_packet_id m + int ?k \<le> x} =
      times_at (am_begin_packet_id m) (am_arrival_times m) |` {x. packet_id \<le> x}"
    using True by (auto simp: restrict_map_def times_at_def fun_eq_iff min_def)
  with times_at_drop [of ?k "am_arrival_times m" "am_begin_packet_id m"] True assms show ?thesis
    by (simp add: am_erase_to_def Let_def am_abs_def am_inv_def) linarith
next
  case False
  then have "am_abs m |` {x. packet_id \<le> x} = am_abs m"
    by (auto simp: am_abs_def times_at_def restrict_map_def fun_eq_iff)
  with False assms show ?thesis by (simp add: am_erase_to_def)
qed

text \<open>The entries that are too old: before \<open>packet_id\<close> and with nothing newer than \<open>t\<close> up to them.\<close>

definition outdated :: "int \<Rightarrow> int \<Rightarrow> (int \<rightharpoonup> int) \<Rightarrow> int set" where
  "outdated packet_id t f = {x. x < packet_id \<and> (\<forall>y s. y \<le> x \<longrightarrow> f y = Some s \<longrightarrow> s \<le> t)}"

lemma times_at_Cons: "times_at b (x # xs) = (if x = 0 then times_at (b + 1) xs else (times_at (b + 1) xs)(b \<mapsto> x))"
proof (cases "x = 0")
  case True
  then show ?thesis using times_at_append [of b "[0]" xs] times_at_placeholders [of b 1] by (simp add: numeral_eq_Suc)
next
  case False
  have "times_at (b + 1) xs b = None" by (simp add: times_at_def)
  then show ?thesis
    using times_at_append [of b "[x]" xs] False
    by (auto simp: times_at_single map_add_def fun_eq_iff split: option.split)
qed

lemma times_at_below: "y < b \<Longrightarrow> times_at b xs y = None"
  by (simp add: times_at_def)

lemma pop_old_spec:
  assumes "0 \<le> t" "pop_old packet_id t xs b = (ys, c)"
  shows "times_at c ys = times_at b xs |` (- outdated packet_id t (times_at b xs)) \<and> length ys \<le> length xs"
  using assms(2)
proof (induction xs arbitrary: b)
  case (Cons x xs)
  let ?f = "times_at b (x # xs)" and ?g = "times_at (b + 1) xs"
  show ?case
  proof (cases "b < packet_id \<and> x \<le> t")
    case True
    with Cons have IH: "times_at c ys = ?g |` (- outdated packet_id t ?g)" "length ys \<le> length xs" by auto
    have f: "?f y = (if y = b \<and> x \<noteq> 0 then Some x else ?g y)" for y
      by (simp add: times_at_Cons times_at_below)
    have "(\<forall>y s. y \<le> z \<longrightarrow> ?f y = Some s \<longrightarrow> s \<le> t) \<longleftrightarrow> (\<forall>y s. y \<le> z \<longrightarrow> ?g y = Some s \<longrightarrow> s \<le> t)" for z
      unfolding f using True times_at_below [of b "b + 1" xs] by (metis less_add_one option.distinct(1) option.inject)
    then have same: "outdated packet_id t ?f = outdated packet_id t ?g" by (simp add: outdated_def)
    have "b \<in> outdated packet_id t ?g" using True by (auto simp: outdated_def times_at_below)
    then show ?thesis
      unfolding IH(1) same using IH(2) by (auto simp: restrict_map_def fun_eq_iff f)
  next
    case False
    then have "ys = x # xs" "c = b" using Cons.prems by auto
    moreover have "?f y = None \<or> y \<notin> outdated packet_id t ?f" for y
    proof (cases "b \<le> y")
      case b: True
      have "\<not> b < packet_id \<or> ?f b = Some x \<and> t < x" using False assms(1) by (auto simp: times_at_Cons)
      with b show ?thesis by (force simp: outdated_def)
    qed (simp add: times_at_below)
    ultimately show ?thesis by (auto simp: restrict_map_def fun_eq_iff)
  qed
qed simp

lemma am_remove_old_spec:
  assumes "am_inv m" "0 \<le> t"
  shows "am_inv (am_remove_old_packets packet_id t m) \<and>
    am_abs (am_remove_old_packets packet_id t m) = am_abs m |` (- outdated packet_id t (am_abs m))"
  using assms pop_old_spec [OF assms(2), of packet_id "am_arrival_times m" "am_begin_packet_id m"]
  by (auto simp: am_remove_old_packets_def am_inv_def am_abs_def split: prod.splits)

section \<open>Reachable states\<close>

text \<open>The states of a map under its operations, with received times other than the placeholder.\<close>

inductive am_reach :: "arrival_map \<Rightarrow> bool" where
  new: "am_reach am_new"
| add: "am_reach m \<Longrightarrow> t \<noteq> 0 \<Longrightarrow> am_add_packet packet_id t m = Some m' \<Longrightarrow> am_reach m'"
| erase: "am_reach m \<Longrightarrow> am_reach (am_erase_to packet_id m)"
| remove_old: "am_reach m \<Longrightarrow> 0 \<le> t \<Longrightarrow> am_reach (am_remove_old_packets packet_id t m)"

lemma am_reach_inv: "am_reach m \<Longrightarrow> am_inv m"
proof (induction rule: am_reach.induct)
  case (add m t packet_id m')
  with am_add_packet_spec [of m t packet_id] show ?case by auto
next
  case new
  then show ?case by (simp add: am_inv_def am_new_def)
qed (simp_all add: am_erase_to_spec am_remove_old_spec)

text \<open>
  C7. In every reachable state adding a packet succeeds, within the size limit, and its effect on
  the recorded times is that of a map: the packet gets its time, packets more than the limit
  behind it are forgotten and all others are kept; a packet that would need more room before the
  queue than the limit leaves is ignored.
\<close>

theorem arrival_map_add_refines:
  assumes "am_reach m" "t \<noteq> 0"
  shows "\<exists>m'. am_add_packet packet_id t m = Some m' \<and> length (am_arrival_times m') \<le> kMaxNumberOfPackets \<and>
    am_abs m' = (if am_has_received_packet m \<and> packet_id < am_begin_packet_id m \<and>
        am_end_packet_id m - packet_id > int kMaxNumberOfPackets then am_abs m
      else (am_abs m |` {x. packet_id - int kMaxNumberOfPackets < x})(packet_id \<mapsto> t))"
  using am_add_packet_spec [OF am_reach_inv [OF assms(1)] assms(2), of packet_id]
  by (auto simp: am_dropped_def am_inv_def)

theorem arrival_map_add_refines_witness:
  "\<exists>m'. am_add_packet 5 70 am_new = Some m' \<and> length (am_arrival_times m') \<le> kMaxNumberOfPackets \<and>
    am_abs m' = (if am_has_received_packet am_new \<and> 5 < am_begin_packet_id am_new \<and>
        am_end_packet_id am_new - 5 > int kMaxNumberOfPackets then am_abs am_new
      else (am_abs am_new |` {x. 5 - int kMaxNumberOfPackets < x})(5 \<mapsto> 70))"
  by (rule arrival_map_add_refines) (auto intro: am_reach.new)

text \<open>
  C25. The other operations are those of the map too: \<^verbatim>\<open>HasReceived\<close> is membership, \<^verbatim>\<open>at\<close> returns the
  recorded time of a received packet, \<^verbatim>\<open>EraseTo\<close> forgets what is before a packet, and
  \<^verbatim>\<open>RemoveOldPackets\<close> forgets the packets before it up to the first that is newer than the limit.
\<close>

theorem arrival_map_queries_refine:
  assumes "am_reach m" "0 \<le> t"
  shows "am_has_received packet_id m = (packet_id \<in> dom (am_abs m)) \<and>
    (\<forall>s. am_abs m packet_id = Some s \<longleftrightarrow> am_at packet_id m = Some s \<and> s \<noteq> 0) \<and>
    am_abs (am_erase_to packet_id m) = am_abs m |` {x. packet_id \<le> x} \<and>
    am_abs (am_remove_old_packets packet_id t m) =
      am_abs m |` {x. packet_id \<le> x \<or> (\<exists>y s. y \<le> x \<and> am_abs m y = Some s \<and> t < s)}"
proof -
  have "- outdated packet_id t (am_abs m) = {x. packet_id \<le> x \<or> (\<exists>y s. y \<le> x \<and> am_abs m y = Some s \<and> t < s)}"
    by (auto simp: outdated_def not_le not_less)
  then show ?thesis
    using am_erase_to_spec am_remove_old_spec [OF am_reach_inv [OF assms(1)] assms(2), of packet_id] am_reach_inv [OF assms(1)]
    by (auto simp: am_has_received_def am_at_def am_abs_def times_at_def Let_def kPacketIdPlaceholder_def dom_def split: if_splits)
qed

theorem arrival_map_queries_refine_witness:
  "am_has_received 3 am_new = (3 \<in> dom (am_abs am_new)) \<and>
    (\<forall>s. am_abs am_new 3 = Some s \<longleftrightarrow> am_at 3 am_new = Some s \<and> s \<noteq> 0) \<and>
    am_abs (am_erase_to 3 am_new) = am_abs am_new |` {x. 3 \<le> x} \<and>
    am_abs (am_remove_old_packets 3 9 am_new) =
      am_abs am_new |` {x. 3 \<le> x \<or> (\<exists>y s. y \<le> x \<and> am_abs am_new y = Some s \<and> 9 < s)}"
  by (rule arrival_map_queries_refine) (auto intro: am_reach.new)

end
