(* ===== verification/NackModule.thy ===== *)
theory NackModule
  imports SeqNum
begin

text \<open>
  The receiver's loss bookkeeping, \<^verbatim>\<open>rtp_rtcp/rtp/receiver/nack_module_impl.cpp\<close>: which
  sequence numbers are missing, when to ask for them and when to give up.

  The ordered containers keyed by \<^verbatim>\<open>OlderThan\<close> are lists in comparator order;
  \<^verbatim>\<open>erase(begin, lower_bound(k))\<close> drops the leading keys older than \<open>k\<close>. For the NACK list
  this is the behaviour of the tree because its keys lie in one window of the comparator, which
  is part of the invariant below. No theorem relies on the order of the key frame and recovered
  sets: they are arbitrary in every statement. A lookup in the recovered set is membership of the
  list, which a search of the tree finds as long as its keys lie in one window; the set is pruned only
  when another packet is recovered, so stale keys can break that, and then the tree may miss a member.

  The clock is read once for every packet that is added to the NACK list, the argument \<open>created\<close>, which
  gives the time read for a sequence number, and once more when the list to send is computed, the
  argument \<open>now\<close>; times are in milliseconds.
\<close>

section \<open>State\<close>

definition kMaxPacketAge :: nat where "kMaxPacketAge = 10000"
definition kMaxNackPacketCount :: nat where "kMaxNackPacketCount = 1000"
definition kDefaultRttMs :: int where "kDefaultRttMs = 100"
definition kMaxNackRetries :: nat where "kMaxNackRetries = 10"

record nack_info =
  ni_seq_num :: u16
  created_time :: int
  sent_time :: "int option"
  retries :: nat

type_synonym nack_entries = "(u16 \<times> nack_info) list"

record nack_module =
  send_nack_delay_ms :: int
  nm_initialized :: bool
  rtt_ms :: int
  newest_seq_num :: u16
  keyframe_list :: "u16 list"
  recovered_list :: "u16 list"
  nack_list :: nack_entries

record insert_result =
  nacks_sent_for_seq_num :: nat
  keyframe_requested :: bool
  nack_list_to_send :: "u16 list"

datatype nack_filter = SEQ_NUM | TIME

definition new_nack_info :: "u16 \<Rightarrow> int \<Rightarrow> nack_info" where
  "new_nack_info s now = \<lparr>ni_seq_num = s, created_time = now, sent_time = None, retries = 0\<rparr>"

definition new_nack_module :: "int \<Rightarrow> nack_module" where
  "new_nack_module delay =
     \<lparr>send_nack_delay_ms = delay, nm_initialized = False, rtt_ms = kDefaultRttMs,
      newest_seq_num = 0, keyframe_list = [], recovered_list = [], nack_list = []\<rparr>"

definition empty_result :: insert_result where
  "empty_result = \<lparr>nacks_sent_for_seq_num = 0, keyframe_requested = False, nack_list_to_send = []\<rparr>"

section \<open>Ordered containers\<close>

definition set_erase_below :: "u16 \<Rightarrow> u16 list \<Rightarrow> u16 list" where
  "set_erase_below k xs = dropWhile (\<lambda>x. older_than x k) xs"

definition map_erase_below :: "u16 \<Rightarrow> nack_entries \<Rightarrow> nack_entries" where
  "map_erase_below k xs = dropWhile (\<lambda>x. older_than (fst x) k) xs"

definition map_set :: "u16 \<Rightarrow> nack_info \<Rightarrow> nack_entries \<Rightarrow> nack_entries" where
  "map_set k v xs =
     (let lo = takeWhile (\<lambda>x. older_than (fst x) k) xs; hi = dropWhile (\<lambda>x. older_than (fst x) k) xs
      in lo @ (k, v) # (if hi \<noteq> [] \<and> fst (hd hi) = k then tl hi else hi))"

definition map_erase :: "u16 \<Rightarrow> nack_entries \<Rightarrow> nack_entries" where
  "map_erase k xs = filter (\<lambda>x. fst x \<noteq> k) xs"

section \<open>Operations\<close>

definition clear_up_to :: "nack_module \<Rightarrow> u16 \<Rightarrow> nack_module" where
  "clear_up_to m s =
     m\<lparr>nack_list := map_erase_below s (nack_list m),
       keyframe_list := set_erase_below s (keyframe_list m),
       recovered_list := set_erase_below s (recovered_list m)\<rparr>"

definition update_rtt :: "nack_module \<Rightarrow> int \<Rightarrow> nack_module" where
  "update_rtt m rtt = m\<lparr>rtt_ms := rtt\<rparr>"

definition nack_due :: "nack_filter \<Rightarrow> u16 \<Rightarrow> int \<Rightarrow> int \<Rightarrow> int \<Rightarrow> nack_info \<Rightarrow> bool" where
  "nack_due filter_type s now delay rtt i =
     (let delay_timed_out = now - created_time i \<ge> delay;
          nack_on_rtt_passed =
            (case sent_time i of Some t \<Rightarrow> filter_type = TIME \<and> now - t \<ge> rtt | None \<Rightarrow> False);
          nack_on_seq_num_passed =
            (filter_type = SEQ_NUM \<and> sent_time i = None \<and> ahead_or_at s (ni_seq_num i))
      in delay_timed_out \<and> (nack_on_rtt_passed \<or> nack_on_seq_num_passed))"

fun to_send_loop ::
  "nack_filter \<Rightarrow> u16 \<Rightarrow> int \<Rightarrow> int \<Rightarrow> int \<Rightarrow> nack_entries \<Rightarrow> u16 list \<times> nack_entries" where
  "to_send_loop ft s now delay rtt [] = ([], [])"
| "to_send_loop ft s now delay rtt ((k, i) # rest) =
     (let (out, rest') = to_send_loop ft s now delay rtt rest
      in if nack_due ft s now delay rtt i
         then let i' = i\<lparr>retries := retries i + 1, sent_time := Some now\<rparr>
              in (ni_seq_num i # out,
                  if retries i' \<ge> kMaxNackRetries then rest' else (k, i') # rest')
         else (out, (k, i) # rest'))"

definition nack_list_to_send_op ::
  "nack_module \<Rightarrow> nack_filter \<Rightarrow> u16 \<Rightarrow> int \<Rightarrow> u16 list \<times> nack_module" where
  "nack_list_to_send_op m ft s now =
     (let (out, nl) = to_send_loop ft s now (send_nack_delay_ms m) (rtt_ms m) (nack_list m)
      in (out, m\<lparr>nack_list := nl\<rparr>))"

definition nack_list_up_to :: "nack_module \<Rightarrow> u16 \<Rightarrow> int \<Rightarrow> u16 list \<times> nack_module" where
  "nack_list_up_to m s now = nack_list_to_send_op m SEQ_NUM s now"

definition nack_list_on_rtt_passed :: "nack_module \<Rightarrow> int \<Rightarrow> u16 list \<times> nack_module" where
  "nack_list_on_rtt_passed m now = nack_list_to_send_op m TIME (newest_seq_num m) now"

fun remove_packets_until_key_frame ::
  "u16 list \<Rightarrow> nack_entries \<Rightarrow> bool \<times> u16 list \<times> nack_entries" where
  "remove_packets_until_key_frame [] nl = (False, [], nl)"
| "remove_packets_until_key_frame (kf # kfs) nl =
     (let rest = map_erase_below kf nl
      in if length rest \<noteq> length nl then (True, kf # kfs, rest)
         else remove_packets_until_key_frame kfs nl)"

lemma map_erase_below_length: "length (map_erase_below k nl) \<le> length nl"
  by (simp add: map_erase_below_def length_dropWhile_le)

lemma remove_packets_shrinks:
  "remove_packets_until_key_frame kfs nl = (True, kfs', nl') \<Longrightarrow> length nl' < length nl"
proof (induction kfs nl rule: remove_packets_until_key_frame.induct)
  case (2 kf kfs nl)
  then show ?case
    using map_erase_below_length [of kf nl] by (auto simp: Let_def split: if_splits)
qed simp

function make_room_loop :: "nat \<Rightarrow> u16 list \<Rightarrow> nack_entries \<Rightarrow> u16 list \<times> nack_entries" where
  "make_room_loop num_new kfs nl =
     (case remove_packets_until_key_frame kfs nl of (ok, kfs', nl') \<Rightarrow>
        if ok \<and> length nl' + num_new > kMaxNackPacketCount
        then make_room_loop num_new kfs' nl' else (kfs', nl'))"
  by pat_completeness auto
termination
  by (relation "measure (\<lambda>(_, _, nl). length nl)") (auto dest: remove_packets_shrinks [OF sym])

declare make_room_loop.simps [simp del]

function add_nack_loop ::
  "u16 \<Rightarrow> u16 \<Rightarrow> (u16 \<Rightarrow> int) \<Rightarrow> u16 list \<Rightarrow> nack_entries \<Rightarrow> nack_entries" where
  "add_nack_loop s e created recovered nl =
     (if s = e then nl
      else if s \<in> set recovered then add_nack_loop (s + 1) e created recovered nl
      else add_nack_loop (s + 1) e created recovered (map_set s (new_nack_info s (created s)) nl))"
  by pat_completeness auto
termination
  by (relation "measure (\<lambda>(s, e, _). unat (e - s))") (simp_all add: forward_step_less)

declare add_nack_loop.simps [simp del]

definition add_packets_to_nack ::
  "nack_module \<Rightarrow> u16 \<Rightarrow> u16 \<Rightarrow> (u16 \<Rightarrow> int) \<Rightarrow> bool \<times> nack_module" where
  "add_packets_to_nack m s e created =
     (let nl = map_erase_below (e - of_nat kMaxPacketAge) (nack_list m);
          num_new_nacks = unat (forward_diff s e);
          full = length nl + num_new_nacks > kMaxNackPacketCount;
          (kfs, nl') = (if full then make_room_loop num_new_nacks (keyframe_list m) nl
                        else (keyframe_list m, nl))
      in if full \<and> length nl' + num_new_nacks > kMaxNackPacketCount
         then (False, m\<lparr>keyframe_list := kfs, nack_list := []\<rparr>)
         else (True, m\<lparr>keyframe_list := kfs,
                       nack_list := add_nack_loop s e created (recovered_list m) nl'\<rparr>))"

definition nack_insert_packet ::
  "nack_module \<Rightarrow> u16 \<Rightarrow> bool \<Rightarrow> bool \<Rightarrow> (u16 \<Rightarrow> int) \<Rightarrow> int \<Rightarrow> insert_result \<times> nack_module" where
  "nack_insert_packet m s is_keyframe is_recovered created now =
     (if \<not> nm_initialized m then
        (empty_result,
         m\<lparr>newest_seq_num := s,
           keyframe_list := (if is_keyframe then set_insert s (keyframe_list m) else keyframe_list m),
           nm_initialized := True\<rparr>)
      else if s = newest_seq_num m then (empty_result, m)
      else if ahead_of (newest_seq_num m) s then
        (case map_of (nack_list m) s of
           None \<Rightarrow> (empty_result, m)
         | Some i \<Rightarrow> (empty_result\<lparr>nacks_sent_for_seq_num := retries i\<rparr>,
                      m\<lparr>nack_list := map_erase s (nack_list m)\<rparr>))
      else
        (let kfs = (if is_keyframe then set_insert s (keyframe_list m) else keyframe_list m);
             m1 = m\<lparr>keyframe_list := set_erase_below (s - of_nat kMaxPacketAge) kfs\<rparr>
         in if is_recovered then
              (empty_result,
               m1\<lparr>recovered_list := set_erase_below (s - of_nat kMaxPacketAge)
                                      (set_insert s (recovered_list m))\<rparr>)
            else
              (let (ok, m2) = add_packets_to_nack m1 (newest_seq_num m + 1) s created;
                   (out, m3) = nack_list_up_to (m2\<lparr>newest_seq_num := s\<rparr>) s now
               in (empty_result\<lparr>keyframe_requested := \<not> ok, nack_list_to_send := out\<rparr>, m3))))"

section \<open>Aging\<close>

lemma older_packet_age:
  "seq_age s k < 42768 \<Longrightarrow> older_than k (s - of_nat kMaxPacketAge) \<longleftrightarrow> kMaxPacketAge < seq_age s k"
  by (rule older_age_limit) (simp_all add: kMaxPacketAge_def)

section \<open>Invariant\<close>

definition nack_entry_ok :: "u16 \<Rightarrow> u16 \<times> nack_info \<Rightarrow> bool" where
  "nack_entry_ok newest = (\<lambda>(k, i).
     ni_seq_num i = k \<and> 1 \<le> seq_age newest k \<and> seq_age newest k \<le> kMaxPacketAge \<and>
     retries i < kMaxNackRetries \<and> (sent_time i = None \<longleftrightarrow> retries i = 0))"

definition age_sorted :: "u16 \<Rightarrow> nack_entries \<Rightarrow> bool" where
  "age_sorted newest nl = sorted_wrt (\<lambda>x y. seq_age newest (fst x) > seq_age newest (fst y)) nl"

definition nack_entries_ok :: "u16 \<Rightarrow> nack_entries \<Rightarrow> bool" where
  "nack_entries_ok newest nl \<longleftrightarrow> age_sorted newest nl \<and> list_all (nack_entry_ok newest) nl"

definition nm_inv :: "nack_module \<Rightarrow> bool" where
  "nm_inv m \<longleftrightarrow> nack_entries_ok (newest_seq_num m) (nack_list m) \<and>
     length (nack_list m) \<le> kMaxNackPacketCount \<and> (nm_initialized m \<or> nack_list m = [])"

lemma nack_entries_ok_Nil [simp]: "nack_entries_ok n []"
  by (simp add: nack_entries_ok_def age_sorted_def)

lemma nack_entries_ok_filter: "nack_entries_ok n nl \<Longrightarrow> nack_entries_ok n (filter P nl)"
  by (auto simp: nack_entries_ok_def age_sorted_def sorted_wrt_filter list_all_iff)

lemma nack_entries_ok_drop: "nack_entries_ok n nl \<Longrightarrow> nack_entries_ok n (drop j nl)"
  by (auto simp: nack_entries_ok_def age_sorted_def sorted_wrt_drop list_all_iff dest: in_set_dropD)

lemma nack_entries_ok_dropWhile: "nack_entries_ok n nl \<Longrightarrow> nack_entries_ok n (dropWhile P nl)"
  by (simp add: dropWhile_eq_drop nack_entries_ok_drop)

lemma nack_entry_age:
  "nack_entry_ok n x \<Longrightarrow> 1 \<le> seq_age n (fst x) \<and> seq_age n (fst x) \<le> kMaxPacketAge"
  by (auto simp: nack_entry_ok_def)

lemma nack_advance:
  assumes "nack_entry_ok n x" "seq_age s n \<le> 32768"
  shows "seq_age s (fst x) = seq_age s n + seq_age n (fst x)"
  using nack_entry_age [OF assms(1)] assms(2)
  by (intro seq_age_chain) (simp add: kMaxPacketAge_def)

lemma age_sorted_advance:
  assumes "nack_entries_ok n nl" "seq_age s n \<le> 32768"
  shows "age_sorted s nl"
proof -
  have "seq_age s (fst x) = seq_age s n + seq_age n (fst x)" if "x \<in> set nl" for x
    using assms that nack_advance by (auto simp: nack_entries_ok_def list_all_iff)
  moreover have "sorted_wrt (\<lambda>x y. seq_age n (fst x) > seq_age n (fst y)) nl"
    using assms(1) by (simp add: nack_entries_ok_def age_sorted_def)
  ultimately show ?thesis
    unfolding age_sorted_def by (elim sorted_wrt_mono_rel [rotated]) simp
qed

lemma dropWhile_sorted_filter:
  "sorted_wrt (\<lambda>x y. f x > f y) xs \<Longrightarrow> dropWhile (\<lambda>x. lim < f x) xs = filter (\<lambda>x. f x \<le> lim) xs"
  for f :: "'a \<Rightarrow> nat"
  by (induction xs) (auto simp: not_less intro!: filter_True [symmetric])

lemma erase_below_age:
  assumes "nack_entries_ok n nl" "seq_age s n < 32768"
  shows "map_erase_below (s - of_nat kMaxPacketAge) nl =
    filter (\<lambda>x. seq_age s (fst x) \<le> kMaxPacketAge) nl"
proof -
  have "older_than (fst x) (s - of_nat kMaxPacketAge) \<longleftrightarrow> kMaxPacketAge < seq_age s (fst x)"
    if "x \<in> set nl" for x
  proof (rule older_packet_age)
    have ok: "nack_entry_ok n x" using assms(1) that by (simp add: nack_entries_ok_def list_all_iff)
    show "seq_age s (fst x) < 42768"
      using nack_advance [OF ok, of s] nack_entry_age [OF ok] assms(2)
      by (simp add: kMaxPacketAge_def)
  qed
  then have "map_erase_below (s - of_nat kMaxPacketAge) nl =
      dropWhile (\<lambda>x. kMaxPacketAge < seq_age s (fst x)) nl"
    unfolding map_erase_below_def by (intro dropWhile_cong) auto
  also have "\<dots> = filter (\<lambda>x. seq_age s (fst x) \<le> kMaxPacketAge) nl"
    using age_sorted_advance [OF assms(1), of s] assms(2)
    by (intro dropWhile_sorted_filter) (simp add: age_sorted_def)
  finally show ?thesis .
qed

lemma nack_entries_ok_advance:
  assumes "nack_entries_ok n nl" "seq_age s n < 32768"
  shows "nack_entries_ok s (filter (\<lambda>x. seq_age s (fst x) \<le> kMaxPacketAge) nl)"
proof -
  have "nack_entry_ok s x" if "x \<in> set nl" "seq_age s (fst x) \<le> kMaxPacketAge" for x
  proof -
    have ok: "nack_entry_ok n x" using assms(1) that by (simp add: nack_entries_ok_def list_all_iff)
    show ?thesis
      using that ok nack_advance [OF ok, of s] assms(2)
      by (auto simp: nack_entry_ok_def split: prod.splits)
  qed
  moreover have "age_sorted s nl" using age_sorted_advance [OF assms(1), of s] assms(2) by simp
  ultimately show ?thesis
    by (auto simp: nack_entries_ok_def age_sorted_def sorted_wrt_filter list_all_iff)
qed

section \<open>Listing the missing packets\<close>

definition missing_between :: "u16 \<Rightarrow> u16 \<Rightarrow> u16 list" where
  "missing_between s e = map (\<lambda>j. s + of_nat j) [0..<unat (e - s)]"

lemma missing_between_step:
  assumes "s \<noteq> e"
  shows "missing_between s e = s # missing_between (s + 1) e"
proof -
  have "unat (e - s) = Suc (unat (e - (s + 1)))"
  proof -
    have "e - s \<noteq> 0" using assms by simp
    then have "unat (e - s - 1) = unat (e - s) - 1" "0 < unat (e - s)"
      by (simp_all add: unat_minus_one unat_gt_0)
    then show ?thesis by (simp add: diff_diff_eq)
  qed
  then show ?thesis
    unfolding missing_between_def
    by (simp del: upt_Suc add: upt_conv_Cons map_Suc_upt [symmetric] add.assoc)
qed

lemma missing_between_self [simp]: "missing_between s s = []"
  by (simp add: missing_between_def)

lemma map_set_append:
  "\<forall>x\<in>set nl. older_than (fst x) k \<Longrightarrow> map_set k v nl = nl @ [(k, v)]"
proof -
  assume "\<forall>x\<in>set nl. older_than (fst x) k"
  then have "takeWhile (\<lambda>x. older_than (fst x) k) nl = nl" by simp
  moreover from this have "dropWhile (\<lambda>x. older_than (fst x) k) nl = []"
    by (simp add: dropWhile_eq_Nil_conv takeWhile_eq_all_conv)
  ultimately show ?thesis by (simp add: map_set_def)
qed

lemma add_nack_loop_closed:
  assumes "unat (e - s) \<le> 10000" "\<forall>x\<in>set nl. unat (e - s) < seq_age e (fst x) \<and> seq_age e (fst x) < 32768"
  shows "add_nack_loop s e created rec nl =
    nl @ map (\<lambda>k. (k, new_nack_info k (created k))) (filter (\<lambda>k. k \<notin> set rec) (missing_between s e))"
  using assms
proof (induction s e created rec nl rule: add_nack_loop.induct)
  case (1 s e created rec nl)
  show ?case
  proof (cases "s = e")
    case True
    then show ?thesis by (simp add: add_nack_loop.simps [of e e])
  next
    case False
    note step = forward_step_less [OF False]
    have older: "older_than (fst x) s" if "x \<in> set nl" for x
    proof -
      have a: "unat (e - s) < seq_age e (fst x)" "seq_age e (fst x) < 32768" using 1(4) that by auto
      have "unat (s - fst x) = unat (e - fst x) - unat (e - s)"
        using a(1) by (subst unat_sub [symmetric]) (auto simp: seq_age_def word_le_nat_alt)
      then have "seq_age s (fst x) < 32768" "0 < seq_age s (fst x)"
        using a by (auto simp: seq_age_def)
      then show ?thesis using older_near [of s "fst x"] by (cases "s = fst x") auto
    qed
    then have app: "map_set s (new_nack_info s (created s)) nl = nl @ [(s, new_nack_info s (created s))]"
      by (simp add: map_set_append)
    have here: "unat (e - (s + 1)) < seq_age e s" "seq_age e s < 32768"
      using step 1(3) by (auto simp: seq_age_def)
    show ?thesis
    proof (cases "s \<in> set rec")
      case True
      have "\<forall>x\<in>set nl. unat (e - (s + 1)) < seq_age e (fst x) \<and> seq_age e (fst x) < 32768"
        using 1(4) step by force
      with True show ?thesis
        using False step 1(1) 1(3) by (simp add: add_nack_loop.simps [of s e] missing_between_step)
    next
      case nr: False
      have "\<forall>x\<in>set (map_set s (new_nack_info s (created s)) nl).
          unat (e - (s + 1)) < seq_age e (fst x) \<and> seq_age e (fst x) < 32768"
        using app 1(4) step here by auto
      with nr show ?thesis
        using False step 1(2) 1(3) app
        by (auto simp: add_nack_loop.simps [of s e] missing_between_step)
    qed
  qed
qed

definition fresh_nacks :: "u16 \<Rightarrow> u16 \<Rightarrow> u16 list \<Rightarrow> (u16 \<Rightarrow> int) \<Rightarrow> nack_entries" where
  "fresh_nacks s e recovered created =
     map (\<lambda>k. (k, new_nack_info k (created k))) (filter (\<lambda>k. k \<notin> set recovered) (missing_between s e))"

lemma age_missing:
  assumes "j < unat (e - s)"
  shows "seq_age e (s + of_nat j) = unat (e - s) - j"
proof -
  have small: "unat (of_nat j :: u16) = j"
    using less_trans [OF assms unsigned_less] by (intro unat_of_nat_small) simp
  have "seq_age e (s + of_nat j) = unat ((e - s) - of_nat j)"
    by (simp add: seq_age_def diff_diff_eq)
  also have "\<dots> = unat (e - s) - j"
    using assms small by (subst unat_sub) (auto simp: word_le_nat_alt)
  finally show ?thesis .
qed

lemma fresh_nacks_ok:
  assumes "unat (e - s) \<le> kMaxPacketAge"
  shows "nack_entries_ok e (fresh_nacks s e recovered created)"
    and "x \<in> set (fresh_nacks s e recovered created) \<Longrightarrow> seq_age e (fst x) \<le> unat (e - s)"
    and "length (fresh_nacks s e recovered created) \<le> unat (e - s)"
proof -
  let ?ks = "missing_between s e"
  have srt: "sorted_wrt (\<lambda>x y. seq_age e x > seq_age e y) ?ks"
    by (auto simp: missing_between_def sorted_wrt_map sorted_wrt_iff_nth_less age_missing)
  have ages: "1 \<le> seq_age e k \<and> seq_age e k \<le> unat (e - s)" if "k \<in> set ?ks" for k
    using that by (auto simp: missing_between_def age_missing)
  show "nack_entries_ok e (fresh_nacks s e recovered created)"
    using sorted_wrt_filter [OF srt, of "\<lambda>k. k \<notin> set recovered"] ages assms
    by (fastforce simp: nack_entries_ok_def age_sorted_def fresh_nacks_def sorted_wrt_map
        list_all_iff nack_entry_ok_def new_nack_info_def kMaxNackRetries_def)
  show "x \<in> set (fresh_nacks s e recovered created) \<Longrightarrow> seq_age e (fst x) \<le> unat (e - s)"
    using ages by (auto simp: fresh_nacks_def)
  show "length (fresh_nacks s e recovered created) \<le> unat (e - s)"
    by (simp add: fresh_nacks_def missing_between_def order.trans [OF length_filter_le])
qed

lemma nack_entries_ok_append:
  assumes "nack_entries_ok n xs" "nack_entries_ok n ys"
    and "\<And>x y. x \<in> set xs \<Longrightarrow> y \<in> set ys \<Longrightarrow> seq_age n (fst x) > seq_age n (fst y)"
  shows "nack_entries_ok n (xs @ ys)"
  using assms by (simp add: nack_entries_ok_def age_sorted_def sorted_wrt_append)

section \<open>Making room\<close>

lemma remove_packets_suffix:
  "remove_packets_until_key_frame kfs nl = (ok, kfs', nl') \<Longrightarrow> \<exists>j. nl' = drop j nl"
proof (induction kfs nl rule: remove_packets_until_key_frame.induct)
  case (1 nl)
  then show ?case by (auto intro: exI [of _ 0])
next
  case (2 kf kfs nl)
  then show ?case
    by (auto simp: Let_def map_erase_below_def dropWhile_eq_drop split: if_splits)
qed

lemma make_room_suffix: "make_room_loop c kfs nl = (kfs', nl') \<Longrightarrow> \<exists>j. nl' = drop j nl"
proof (induction c kfs nl rule: make_room_loop.induct)
  case (1 c kfs nl)
  obtain ok ks xs where r: "remove_packets_until_key_frame kfs nl = (ok, ks, xs)"
    by (metis prod_cases3)
  obtain j where j: "xs = drop j nl" using remove_packets_suffix [OF r] by blast
  show ?case
    using 1(1) [OF r [symmetric] refl] 1(2) j
    by (auto simp: make_room_loop.simps [of c kfs nl] r split: if_splits)
qed

text \<open>With no key frame to fall back to, nothing can be dropped.\<close>

lemma make_room_no_keyframe [simp]: "make_room_loop c [] nl = ([], nl)"
  by (simp add: make_room_loop.simps)

lemma gap_count: "ahead_of s n \<Longrightarrow> unat (forward_diff (n + 1) s) = seq_age s n - 1"
proof -
  assume "ahead_of s n"
  then have "s - n \<noteq> 0" by auto
  then show ?thesis by (simp add: forward_diff_def seq_age_def diff_diff_eq [symmetric] unat_minus_one)
qed

definition kept_nacks :: "u16 \<Rightarrow> nack_entries \<Rightarrow> nack_entries" where
  "kept_nacks s nl = filter (\<lambda>x. seq_age s (fst x) \<le> kMaxPacketAge) nl"

lemma add_packets_cleared:
  assumes "ahead_of s n" "kMaxNackPacketCount < seq_age s n - 1"
  shows "\<exists>kfs. add_packets_to_nack m (n + 1) s created = (False, m\<lparr>keyframe_list := kfs, nack_list := []\<rparr>)"
  using assms by (auto simp: add_packets_to_nack_def gap_count Let_def split: prod.splits)

lemma add_loop_after_gap:
  assumes "nack_entries_ok n nl" "ahead_of s n" "seq_age s n - 1 \<le> kMaxNackPacketCount"
    and "set xs \<subseteq> set (kept_nacks s nl)"
  shows "add_nack_loop (n + 1) s created recovered xs = xs @ fresh_nacks (n + 1) s recovered created"
  unfolding fresh_nacks_def
proof (rule add_nack_loop_closed)
  have c: "unat (s - (n + 1)) = seq_age s n - 1"
    using gap_count [OF assms(2)] by (simp add: forward_diff_def)
  then show "unat (s - (n + 1)) \<le> 10000" using assms(3) by (simp add: kMaxNackPacketCount_def)
  show "\<forall>x\<in>set xs. unat (s - (n + 1)) < seq_age s (fst x) \<and> seq_age s (fst x) < 32768"
  proof
    fix x assume "x \<in> set xs"
    then have "x \<in> set nl" "seq_age s (fst x) \<le> kMaxPacketAge"
      using assms(4) by (auto simp: kept_nacks_def)
    moreover from this have "nack_entry_ok n x"
      using assms(1) by (simp add: nack_entries_ok_def list_all_iff)
    ultimately show "unat (s - (n + 1)) < seq_age s (fst x) \<and> seq_age s (fst x) < 32768"
      using nack_advance [of n x s] nack_entry_age [of n x] ahead_age [OF assms(2)] c
      by (simp add: kMaxPacketAge_def)
  qed
qed

lemma gap_near: "ahead_of s n \<Longrightarrow> seq_age s n - 1 \<le> kMaxNackPacketCount \<Longrightarrow> seq_age s n < 32768"
  by (simp add: kMaxNackPacketCount_def)

lemma add_packets_fits:
  assumes "nack_entries_ok n (nack_list m)" "ahead_of s n"
    and "length (kept_nacks s (nack_list m)) + (seq_age s n - 1) \<le> kMaxNackPacketCount"
  shows "add_packets_to_nack m (n + 1) s created =
    (True, m\<lparr>nack_list := kept_nacks s (nack_list m) @ fresh_nacks (n + 1) s (recovered_list m) created\<rparr>)"
proof -
  have near: "seq_age s n - 1 \<le> kMaxNackPacketCount" using assms(3) by simp
  have "map_erase_below (s - of_nat kMaxPacketAge) (nack_list m) = kept_nacks s (nack_list m)"
    unfolding kept_nacks_def by (rule erase_below_age [OF assms(1) gap_near [OF assms(2) near]])
  with assms near show ?thesis
    by (simp add: add_packets_to_nack_def gap_count Let_def add_loop_after_gap)
qed

lemma add_packets_result:
  assumes "nack_entries_ok n (nack_list m)" "ahead_of s n"
    and "add_packets_to_nack m (n + 1) s created = (ok, m')"
  shows "(\<exists>kfs. m' = m\<lparr>keyframe_list := kfs, nack_list := nack_list m'\<rparr>) \<and>
    (if ok then seq_age s n - 1 \<le> kMaxNackPacketCount \<and>
       (\<exists>j. nack_list m' = drop j (kept_nacks s (nack_list m)) @
                           fresh_nacks (n + 1) s (recovered_list m) created \<and>
            length (drop j (kept_nacks s (nack_list m))) + (seq_age s n - 1) \<le> kMaxNackPacketCount)
     else nack_list m' = [])"
proof (cases "kMaxNackPacketCount < seq_age s n - 1")
  case True
  then show ?thesis using add_packets_cleared [OF assms(2) True, of m created] assms(3) by force
next
  case False
  then have near: "seq_age s n - 1 \<le> kMaxNackPacketCount" by simp
  have k: "map_erase_below (s - of_nat kMaxPacketAge) (nack_list m) = kept_nacks s (nack_list m)"
    unfolding kept_nacks_def by (rule erase_below_age [OF assms(1) gap_near [OF assms(2) near]])
  show ?thesis
  proof (cases "length (kept_nacks s (nack_list m)) + (seq_age s n - 1) \<le> kMaxNackPacketCount")
    case True
    then show ?thesis
      using add_packets_fits [OF assms(1,2) True, of created] assms(3) near
      by (auto intro!: exI [of _ 0] exI [of _ "keyframe_list m"])
  next
    case full: False
    obtain kfs nl' where r:
      "make_room_loop (seq_age s n - 1) (keyframe_list m) (kept_nacks s (nack_list m)) = (kfs, nl')"
      by (metis surj_pair)
    obtain j where j: "nl' = drop j (kept_nacks s (nack_list m))"
      using make_room_suffix [OF r] by blast
    then have sub: "set nl' \<subseteq> set (kept_nacks s (nack_list m))" by (simp add: set_drop_subset)
    show ?thesis
    proof (cases "length nl' + (seq_age s n - 1) \<le> kMaxNackPacketCount")
      case True
      then show ?thesis
        using assms full r near add_loop_after_gap [OF assms(1,2) near sub]
        by (auto simp: add_packets_to_nack_def gap_count Let_def k intro!: exI [of _ j] simp: j)
    next
      case False
      then show ?thesis
        using assms full r by (auto simp: add_packets_to_nack_def gap_count Let_def k)
    qed
  qed
qed

lemma kept_fresh_ok:
  assumes "nack_entries_ok n nl" "ahead_of s n" "seq_age s n - 1 \<le> kMaxNackPacketCount"
  shows "nack_entries_ok s (drop j (kept_nacks s nl) @ fresh_nacks (n + 1) s recovered created)"
proof (rule nack_entries_ok_append)
  have c: "unat (s - (n + 1)) = seq_age s n - 1"
    using gap_count [OF assms(2)] by (simp add: forward_diff_def)
  then have lim: "unat (s - (n + 1)) \<le> kMaxPacketAge"
    using assms(3) by (simp add: kMaxNackPacketCount_def kMaxPacketAge_def)
  show "nack_entries_ok s (drop j (kept_nacks s nl))"
    using nack_entries_ok_advance [OF assms(1) gap_near [OF assms(2,3)]]
    by (simp add: kept_nacks_def nack_entries_ok_drop)
  show "nack_entries_ok s (fresh_nacks (n + 1) s recovered created)" by (rule fresh_nacks_ok [OF lim])
  fix x y
  assume "x \<in> set (drop j (kept_nacks s nl))" and y: "y \<in> set (fresh_nacks (n + 1) s recovered created)"
  then have "x \<in> set nl" by (auto simp: kept_nacks_def dest: in_set_dropD)
  then have "nack_entry_ok n x" using assms(1) by (simp add: nack_entries_ok_def list_all_iff)
  then have "seq_age s n < seq_age s (fst x)"
    using nack_advance [of n x s] nack_entry_age [of n x] ahead_age [OF assms(2)] by simp
  with fresh_nacks_ok(2) [OF lim y] c show "seq_age s (fst y) < seq_age s (fst x)" by simp
qed

section \<open>Sending\<close>

definition bump_nack :: "(nack_info \<Rightarrow> bool) \<Rightarrow> int \<Rightarrow> u16 \<times> nack_info \<Rightarrow> u16 \<times> nack_info" where
  "bump_nack due now = (\<lambda>(k, i).
     (k, if due i then i\<lparr>retries := retries i + 1, sent_time := Some now\<rparr> else i))"

definition gives_up :: "(nack_info \<Rightarrow> bool) \<Rightarrow> u16 \<times> nack_info \<Rightarrow> bool" where
  "gives_up due = (\<lambda>(k, i). due i \<and> kMaxNackRetries \<le> retries i + 1)"

lemma to_send_loop_closed:
  "to_send_loop ft s now delay rtt nl =
     (let due = nack_due ft s now delay rtt
      in (map (\<lambda>x. ni_seq_num (snd x)) (filter (\<lambda>x. due (snd x)) nl),
          map (bump_nack due now) (filter (\<lambda>x. \<not> gives_up due x) nl)))"
  by (induction nl) (auto simp: Let_def bump_nack_def gives_up_def split: prod.splits)

lemma fst_bump_nack [simp]: "fst (bump_nack due now x) = fst x"
  by (simp add: bump_nack_def split: prod.splits)

lemma to_send_loop_ok:
  assumes "nack_entries_ok n nl"
  shows "nack_entries_ok n (snd (to_send_loop ft s now delay rtt nl))"
    and "length (snd (to_send_loop ft s now delay rtt nl)) \<le> length nl"
proof -
  let ?due = "nack_due ft s now delay rtt"
  let ?kept = "filter (\<lambda>x. \<not> gives_up ?due x) nl"
  have "nack_entry_ok n (bump_nack ?due now x)" if "x \<in> set ?kept" for x
    using that assms
    by (auto simp: nack_entry_ok_def bump_nack_def gives_up_def nack_entries_ok_def list_all_iff
        split: prod.splits)
  moreover have "age_sorted n (map (bump_nack ?due now) ?kept)"
    using nack_entries_ok_filter [OF assms, of "\<lambda>x. \<not> gives_up ?due x"]
    by (simp add: nack_entries_ok_def age_sorted_def sorted_wrt_map)
  ultimately show "nack_entries_ok n (snd (to_send_loop ft s now delay rtt nl))"
    by (auto simp: to_send_loop_closed Let_def nack_entries_ok_def list_all_iff)
  show "length (snd (to_send_loop ft s now delay rtt nl)) \<le> length nl"
    by (simp add: to_send_loop_closed Let_def)
qed

lemma nack_list_to_send_op_eq:
  "nack_list_to_send_op m ft s now =
     (fst (to_send_loop ft s now (send_nack_delay_ms m) (rtt_ms m) (nack_list m)),
      m\<lparr>nack_list := snd (to_send_loop ft s now (send_nack_delay_ms m) (rtt_ms m) (nack_list m))\<rparr>)"
  by (simp add: nack_list_to_send_op_def split: prod.splits)

lemma nm_inv_send: "nm_inv m \<Longrightarrow> nm_inv (snd (nack_list_to_send_op m ft s now))"
proof -
  assume inv: "nm_inv m"
  then have ok: "nack_entries_ok (newest_seq_num m) (nack_list m)" by (simp add: nm_inv_def)
  show ?thesis
    using inv to_send_loop_ok(1) [OF ok] order.trans [OF to_send_loop_ok(2) [OF ok]]
    by (auto simp: nm_inv_def nack_list_to_send_op_eq)
qed

lemma nm_inv_clear: "nm_inv m \<Longrightarrow> nm_inv (clear_up_to m s)"
  using map_erase_below_length [of s "nack_list m"]
  by (auto simp: nm_inv_def clear_up_to_def map_erase_below_def nack_entries_ok_dropWhile)

lemma nm_inv_add:
  assumes "nm_inv m" "nm_initialized m" "ahead_of s (newest_seq_num m)"
    and "add_packets_to_nack m (newest_seq_num m + 1) s created = (ok, m')"
  shows "nm_inv (m'\<lparr>newest_seq_num := s\<rparr>) \<and> nm_initialized m'"
proof -
  let ?n = "newest_seq_num m"
  have ent: "nack_entries_ok ?n (nack_list m)" using assms(1) by (simp add: nm_inv_def)
  note res = add_packets_result [OF ent assms(3,4)]
  then have ini: "nm_initialized m'"
    using assms(2) by (metis nack_module.select_convs(2) nack_module.surjective nack_module.update_convs(5,7))
  show ?thesis
  proof (cases ok)
    case True
    then obtain j where near: "seq_age s ?n - 1 \<le> kMaxNackPacketCount"
      and nl: "nack_list m' = drop j (kept_nacks s (nack_list m)) @
                 fresh_nacks (?n + 1) s (recovered_list m) created"
      and len: "length (drop j (kept_nacks s (nack_list m))) + (seq_age s ?n - 1) \<le> kMaxNackPacketCount"
      using res by auto
    have c: "unat (s - (?n + 1)) = seq_age s ?n - 1"
      using gap_count [OF assms(3)] by (simp add: forward_diff_def)
    then have "unat (s - (?n + 1)) \<le> kMaxPacketAge"
      using near by (simp add: kMaxNackPacketCount_def kMaxPacketAge_def)
    from fresh_nacks_ok(3) [OF this, of "recovered_list m" created] c len
    have "length (nack_list m') \<le> kMaxNackPacketCount" by (simp add: nl)
    with kept_fresh_ok [OF ent assms(3) near] ini show ?thesis by (simp add: nm_inv_def nl)
  next
    case False
    with res ini show ?thesis by (simp add: nm_inv_def)
  qed
qed

lemma nm_inv_insert: "nm_inv m \<Longrightarrow> nm_inv (snd (nack_insert_packet m s kf rc created now))"
proof -
  assume inv: "nm_inv m"
  consider (first) "\<not> nm_initialized m"
    | (old) "nm_initialized m" "s = newest_seq_num m \<or> ahead_of (newest_seq_num m) s"
    | (new) "nm_initialized m" "s \<noteq> newest_seq_num m" "\<not> ahead_of (newest_seq_num m) s"
    by blast
  then show ?thesis
  proof cases
    case first
    then show ?thesis using inv by (simp add: nack_insert_packet_def nm_inv_def)
  next
    case old
    then show ?thesis
      using inv
      by (auto intro!: order.trans [OF length_filter_le] simp: nack_insert_packet_def nm_inv_def map_erase_def nack_entries_ok_filter
          split: option.splits)
  next
    case new
    let ?kfs = "set_erase_below (s - of_nat kMaxPacketAge)
        (if kf then set_insert s (keyframe_list m) else keyframe_list m)"
    let ?m1 = "m\<lparr>keyframe_list := ?kfs\<rparr>"
    have a: "ahead_of s (newest_seq_num m)" using new ahead_of_flip by blast
    obtain ok m2 where r: "add_packets_to_nack ?m1 (newest_seq_num m + 1) s created = (ok, m2)"
      by (metis surj_pair)
    have "nm_inv ?m1" using inv by (simp add: nm_inv_def)
    from nm_inv_add [OF this] new a r have "nm_inv (m2\<lparr>newest_seq_num := s\<rparr>)" by simp
    from nm_inv_send [OF this, of SEQ_NUM s now] show ?thesis
      using inv new r
      by (auto simp: nack_insert_packet_def Let_def nack_list_up_to_def nm_inv_def
          split: prod.splits)
  qed
qed

section \<open>Reachable states\<close>

inductive nm_reach :: "nack_module \<Rightarrow> bool" where
  reach_new: "nm_reach (new_nack_module delay)"
| reach_insert: "nm_reach m \<Longrightarrow> nm_reach (snd (nack_insert_packet m s is_keyframe is_recovered created now))"
| reach_clear: "nm_reach m \<Longrightarrow> nm_reach (clear_up_to m s)"
| reach_rtt: "nm_reach m \<Longrightarrow> nm_reach (update_rtt m rtt)"
| reach_poll: "nm_reach m \<Longrightarrow> nm_reach (snd (nack_list_on_rtt_passed m now))"

lemma nm_reach_inv: "nm_reach m \<Longrightarrow> nm_inv m"
proof (induction rule: nm_reach.induct)
  case (reach_poll m now)
  then show ?case by (simp add: nack_list_on_rtt_passed_def nm_inv_send)
qed (simp_all add: nm_inv_insert nm_inv_clear, simp_all add: nm_inv_def new_nack_module_def update_rtt_def)

lemma age_order_is_older:
  assumes "seq_age n b < seq_age n a" "seq_age n a \<le> kMaxPacketAge"
  shows "older_than a b"
proof -
  have "unat (b - a) = unat ((n - a) - (n - b))" by simp
  also have "\<dots> = unat (n - a) - unat (n - b)"
    using assms(1) by (subst unat_sub) (auto simp: seq_age_def word_le_nat_alt)
  finally have "seq_age b a = seq_age n a - seq_age n b" by (simp add: seq_age_def)
  then have "0 < seq_age b a" "seq_age b a < 32768"
    using assms by (auto simp: kMaxPacketAge_def)
  then show ?thesis using older_near [of b a] by (cases "b = a") auto
qed

lemma nack_entries_sorted:
  assumes "nack_entries_ok n nl"
  shows "sorted_wrt older_than (map fst nl)" and "distinct (map fst nl)"
proof -
  have srt: "sorted_wrt (\<lambda>x y. seq_age n (fst x) > seq_age n (fst y)) nl"
    and ok: "\<forall>x\<in>set nl. nack_entry_ok n x"
    using assms by (auto simp: nack_entries_ok_def age_sorted_def list_all_iff)
  have "sorted_wrt (\<lambda>x y. older_than (fst x) (fst y)) nl"
    using srt
  proof (rule sorted_wrt_mono_rel [rotated])
    fix x y assume "x \<in> set nl" and lt: "seq_age n (fst y) < seq_age n (fst x)"
    then have "seq_age n (fst x) \<le> kMaxPacketAge" using ok nack_entry_age by blast
    with lt show "older_than (fst x) (fst y)" by (rule age_order_is_older)
  qed
  then show "sorted_wrt older_than (map fst nl)" by (simp add: sorted_wrt_map)
  have "distinct (map (seq_age n) (map fst nl))"
    using srt by (induction nl) fastforce+
  then show "distinct (map fst nl)" by (rule distinct_map [THEN iffD1, THEN conjunct1])
qed

lemma nack_entry_okD:
  assumes "nack_entries_ok n nl" "(k, i) \<in> set nl"
  shows "ni_seq_num i = k" "1 \<le> seq_age n k" "seq_age n k \<le> kMaxPacketAge"
    "retries i < kMaxNackRetries" "sent_time i = None \<longleftrightarrow> retries i = 0"
  using assms by (auto simp: nack_entries_ok_def list_all_iff nack_entry_ok_def)

text \<open>
  C22. In every state the module can reach, whatever packets arrive in whatever order, the NACK list
  has at most a thousand entries, its keys are in the order of the comparator (so distinct), each
  lies at most ten thousand behind the newest sequence number, and none was asked for ten times.
\<close>

theorem nack_module_invariant:
  assumes "nm_reach m"
  shows "length (nack_list m) \<le> 1000 \<and> sorted_wrt older_than (map fst (nack_list m)) \<and>
    distinct (map fst (nack_list m)) \<and>
    (\<forall>(k, i)\<in>set (nack_list m). ni_seq_num i = k \<and>
       1 \<le> unat (newest_seq_num m - k) \<and> unat (newest_seq_num m - k) \<le> 10000 \<and>
       retries i < 10 \<and> (sent_time i = None \<longleftrightarrow> retries i = 0))"
proof -
  have inv: "nm_inv m" using assms by (rule nm_reach_inv)
  then have ok: "nack_entries_ok (newest_seq_num m) (nack_list m)" by (simp add: nm_inv_def)
  have "length (nack_list m) \<le> 1000" using inv by (simp add: nm_inv_def kMaxNackPacketCount_def)
  then show ?thesis
    using nack_entries_sorted [OF ok] nack_entry_okD [OF ok]
    by (auto simp: seq_age_def kMaxPacketAge_def kMaxNackRetries_def)
qed

section \<open>A gap in the sequence\<close>

lemma seq_filter_never_gives_up:
  assumes "nack_entries_ok n nl" "x \<in> set nl"
  shows "\<not> gives_up (nack_due SEQ_NUM s now delay rtt) x"
proof (cases x)
  case (Pair k i)
  have "sent_time i = None \<Longrightarrow> retries i = 0"
    using nack_entry_okD(5) [OF assms(1)] assms(2) Pair by blast
  then show ?thesis
    by (auto simp: Pair gives_up_def nack_due_def kMaxNackRetries_def split: option.splits)
qed

lemma newest_passed: "seq_age s k \<le> kMaxPacketAge \<Longrightarrow> ahead_or_at s k"
  using older_near [of s k]
  by (cases "s = k") (auto simp: ahead_of_def older_than_def kMaxPacketAge_def ahead_or_at_iff)

lemma up_to_newest:
  assumes "nack_entries_ok s nl"
  shows "fst (to_send_loop SEQ_NUM s now delay rtt nl) =
      map fst (filter (\<lambda>(k, i). sent_time i = None \<and> delay \<le> now - created_time i) nl)"
    and "map fst (snd (to_send_loop SEQ_NUM s now delay rtt nl)) = map fst nl"
proof -
  let ?due = "nack_due SEQ_NUM s now delay rtt"
  have "?due i \<longleftrightarrow> sent_time i = None \<and> delay \<le> now - created_time i" "ni_seq_num i = k"
    if "(k, i) \<in> set nl" for k i
    using nack_entry_okD [OF assms that] newest_passed [of s k]
    by (auto simp: nack_due_def split: option.splits)
  then show "fst (to_send_loop SEQ_NUM s now delay rtt nl) =
      map fst (filter (\<lambda>(k, i). sent_time i = None \<and> delay \<le> now - created_time i) nl)"
    unfolding to_send_loop_closed Let_def fst_conv
    by (intro map_cong filter_cong) auto
  have "filter (\<lambda>x. \<not> gives_up ?due x) nl = nl"
    using seq_filter_never_gives_up [OF assms] by simp
  then show "map fst (snd (to_send_loop SEQ_NUM s now delay rtt nl)) = map fst nl"
    by (simp add: to_send_loop_closed Let_def)
qed

lemma insert_new_packet:
  assumes "nm_initialized m" "ahead_of s (newest_seq_num m)"
    and "add_packets_to_nack (m\<lparr>keyframe_list := set_erase_below (s - of_nat kMaxPacketAge)
           (if kf then set_insert s (keyframe_list m) else keyframe_list m)\<rparr>)
           (newest_seq_num m + 1) s created = (ok, m2)"
  shows "nack_insert_packet m s kf False created now =
    (let (out, m3) = nack_list_up_to (m2\<lparr>newest_seq_num := s\<rparr>) s now
     in (empty_result\<lparr>keyframe_requested := \<not> ok, nack_list_to_send := out\<rparr>, m3))"
proof -
  have ne: "s \<noteq> newest_seq_num m" using assms(2) by auto
  moreover have "\<not> ahead_of (newest_seq_num m) s" using assms(2) ahead_of_flip [OF ne] by simp
  ultimately show ?thesis
    using assms by (auto simp: nack_insert_packet_def Let_def split: prod.splits)
qed

text \<open>
  C5. A packet ahead of the newest one that leaves a gap: when the entries still young enough and
  the gap fit in the list, no key frame is requested, the list holds the young entries followed by
  the skipped sequence numbers that were not recovered, in order, and those that were never asked
  for and whose delay has passed, since they were added, are returned for sending. (The packet itself
  is not a recovered one.)
\<close>

theorem nack_gap_listed:
  assumes "nm_reach m" "nm_initialized m" "ahead_of s (newest_seq_num m)"
    and "kept = filter (\<lambda>x. unat (s - fst x) \<le> 10000) (nack_list m)"
    and "skipped = filter (\<lambda>k. k \<notin> set (recovered_list m))
           (map (\<lambda>j. newest_seq_num m + 1 + of_nat j) [0..<unat (s - newest_seq_num m) - 1])"
    and "length kept + (unat (s - newest_seq_num m) - 1) \<le> 1000"
    and "nack_insert_packet m s is_keyframe False created now = (r, m')"
  shows "\<not> keyframe_requested r \<and> newest_seq_num m' = s \<and>
    map fst (nack_list m') = map fst kept @ skipped \<and>
    nack_list_to_send r =
      map fst (filter (\<lambda>(k, i). sent_time i = None \<and> send_nack_delay_ms m \<le> now - created_time i) kept) @
      filter (\<lambda>k. send_nack_delay_ms m \<le> now - created k) skipped"
proof -
  let ?n = "newest_seq_num m"
  let ?m1 = "m\<lparr>keyframe_list := set_erase_below (s - of_nat kMaxPacketAge)
           (if is_keyframe then set_insert s (keyframe_list m) else keyframe_list m)\<rparr>"
  let ?fresh = "fresh_nacks (?n + 1) s (recovered_list m) created"
  have kept: "kept = kept_nacks s (nack_list m)"
    by (simp add: assms(4) kept_nacks_def seq_age_def kMaxPacketAge_def)
  have gap: "unat (s - (?n + 1)) = unat (s - ?n) - 1"
    using gap_count [OF assms(3)] by (simp add: forward_diff_def seq_age_def)
  have keys: "map fst ?fresh = skipped"
    by (simp add: fresh_nacks_def assms(5) missing_between_def gap comp_def)
  have ent: "nack_entries_ok ?n (nack_list ?m1)"
    using nm_reach_inv [OF assms(1)] by (simp add: nm_inv_def)
  have fits: "length (kept_nacks s (nack_list ?m1)) + (seq_age s ?n - 1) \<le> kMaxNackPacketCount"
    using assms(6) kept by (simp add: seq_age_def kMaxNackPacketCount_def)
  note add = add_packets_fits [OF ent assms(3) fits, of created]
  have ok: "nack_entries_ok s (kept @ ?fresh)"
    using kept_fresh_ok [OF ent assms(3), of 0] fits kept by simp
  have unsent: "map fst (filter (\<lambda>(k, i). sent_time i = None \<and> send_nack_delay_ms m \<le> now - created_time i) ?fresh)
      = filter (\<lambda>k. send_nack_delay_ms m \<le> now - created k) skipped"
    unfolding keys [symmetric] by (simp add: fresh_nacks_def new_nack_info_def filter_map comp_def)
  show ?thesis
    using assms(7) unfolding insert_new_packet [OF assms(2,3) add]
    using up_to_newest [OF ok, of now "send_nack_delay_ms m" "rtt_ms m"] keys
    by (auto simp: nack_list_up_to_def nack_list_to_send_op_eq empty_result_def kept unsent)
qed

definition nack_example :: nack_module where
  "nack_example = snd (nack_insert_packet (new_nack_module 0) 65534 True False (\<lambda>_. 0) 0)"

theorem nack_gap_listed_witness:
  "\<exists>r m'. nack_insert_packet nack_example 2 False False (\<lambda>_. 7) 7 = (r, m') \<and> \<not> keyframe_requested r \<and>
     newest_seq_num m' = 2 \<and> map fst (nack_list m') = [65535, 0, 1] \<and>
     nack_list_to_send r = [65535, 0, 1]"
proof -
  have ex: "nm_initialized nack_example" "newest_seq_num nack_example = 65534"
    "nack_list nack_example = []" "recovered_list nack_example = []"
    "send_nack_delay_ms nack_example = 0"
    by (simp_all add: nack_example_def nack_insert_packet_def new_nack_module_def)
  have reach: "nm_reach nack_example"
    unfolding nack_example_def by (intro nm_reach.intros)
  have up: "[0..<3] = [0, 1, 2 :: nat]" by (simp add: upt_rec)
  have a: "ahead_of 2 (newest_seq_num nack_example)" by (simp add: ex ahead_of_iff)
  obtain r m' where r: "nack_insert_packet nack_example 2 False False (\<lambda>_. 7) 7 = (r, m')" by (metis surj_pair)
  show ?thesis
    using nack_gap_listed [OF reach ex(1) a refl refl _ r] r by (simp add: ex up)
qed

text \<open>
  C35. A gap of more than a thousand packets, whatever key frames are known, empties the NACK list and
  requests a key frame; nothing is sent.
\<close>

theorem nack_gap_overflow:
  assumes "nm_initialized m" "ahead_of s (newest_seq_num m)"
    and "1000 < unat (s - newest_seq_num m) - 1"
    and "nack_insert_packet m s is_keyframe False created now = (r, m')"
  shows "keyframe_requested r \<and> nack_list m' = [] \<and> newest_seq_num m' = s \<and> nack_list_to_send r = []"
proof -
  let ?m1 = "m\<lparr>keyframe_list := set_erase_below (s - of_nat kMaxPacketAge)
           (if is_keyframe then set_insert s (keyframe_list m) else keyframe_list m)\<rparr>"
  have big: "kMaxNackPacketCount < seq_age s (newest_seq_num m) - 1"
    using assms(3) by (simp add: seq_age_def kMaxNackPacketCount_def)
  obtain kfs where "add_packets_to_nack ?m1 (newest_seq_num m + 1) s created =
      (False, ?m1\<lparr>keyframe_list := kfs, nack_list := []\<rparr>)"
    using add_packets_cleared [OF assms(2) big, of ?m1 created] by blast
  from insert_new_packet [OF assms(1,2) this] assms(4) show ?thesis
    by (auto simp: nack_list_up_to_def nack_list_to_send_op_eq empty_result_def)
qed

theorem nack_gap_overflow_witness:
  "\<exists>r m'. nack_insert_packet nack_example 2000 False False (\<lambda>_. 7) 7 = (r, m') \<and> keyframe_requested r \<and>
     nack_list m' = [] \<and> newest_seq_num m' = 2000 \<and> nack_list_to_send r = []"
proof -
  have ex: "nm_initialized nack_example" "newest_seq_num nack_example = 65534"
    by (simp_all add: nack_example_def nack_insert_packet_def new_nack_module_def)
  have a: "ahead_of 2000 (newest_seq_num nack_example)" by (simp add: ex ahead_of_iff)
  obtain r m' where r: "nack_insert_packet nack_example 2000 False False (\<lambda>_. 7) 7 = (r, m')" by (metis surj_pair)
  show ?thesis using nack_gap_overflow [OF ex(1) a _ r] r by (simp add: ex)
qed

section \<open>Retransmissions end\<close>

fun rtt_polls :: "nack_module \<Rightarrow> int list \<Rightarrow> u16 list list \<times> nack_module" where
  "rtt_polls m [] = ([], m)"
| "rtt_polls m (now # ts) =
     (let (out, m') = nack_list_on_rtt_passed m now; (outs, m'') = rtt_polls m' ts in (out # outs, m''))"

fun spaced :: "int \<Rightarrow> int \<Rightarrow> int list \<Rightarrow> bool" where
  "spaced rtt t [] = True"
| "spaced rtt t (now # ts) = (rtt \<le> now - t \<and> spaced rtt now ts)"

lemma poll_eq:
  "nack_list_on_rtt_passed m now =
     (let due = nack_due TIME (newest_seq_num m) now (send_nack_delay_ms m) (rtt_ms m)
      in (map (\<lambda>x. ni_seq_num (snd x)) (filter (\<lambda>x. due (snd x)) (nack_list m)),
          m\<lparr>nack_list := map (bump_nack due now) (filter (\<lambda>x. \<not> gives_up due x) (nack_list m))\<rparr>))"
  by (simp add: nack_list_on_rtt_passed_def nack_list_to_send_op_eq to_send_loop_closed Let_def)

lemma poll_inv: "nm_inv m \<Longrightarrow> nm_inv (snd (nack_list_on_rtt_passed m now))"
  by (simp add: nack_list_on_rtt_passed_def nm_inv_send)

lemma poll_absent:
  assumes "nm_inv m" "k \<notin> fst ` set (nack_list m)" "nack_list_on_rtt_passed m now = (out, m')"
  shows "k \<notin> set out \<and> k \<notin> fst ` set (nack_list m')"
proof -
  have "ni_seq_num (snd x) = fst x" if "x \<in> set (nack_list m)" for x
    using nack_entry_okD(1) [of _ "nack_list m" "fst x" "snd x"] assms(1) that
    by (auto simp: nm_inv_def)
  then have "set out \<subseteq> fst ` set (nack_list m)"
    using assms(3) by (auto simp: poll_eq Let_def) (metis fst_conv image_eqI)
  moreover have "map fst (nack_list m') = map fst (filter (\<lambda>x. \<not> gives_up
      (nack_due TIME (newest_seq_num m) now (send_nack_delay_ms m) (rtt_ms m)) x) (nack_list m))"
    using assms(3) by (auto simp: poll_eq Let_def)
  then have "fst ` set (nack_list m') \<subseteq> fst ` set (nack_list m)"
    by (metis filter_is_subset image_mono list.set_map)
  ultimately show ?thesis using assms(2) by blast
qed

lemma poll_present:
  assumes inv: "nm_inv m" and ki: "(k, i) \<in> set (nack_list m)" "sent_time i = Some t"
    and t: "rtt_ms m \<le> now - t" "send_nack_delay_ms m \<le> now - created_time i"
    and r: "nack_list_on_rtt_passed m now = (out, m')"
  shows "k \<in> set out"
    and "retries i + 1 < kMaxNackRetries \<Longrightarrow>
      (k, i\<lparr>retries := retries i + 1, sent_time := Some now\<rparr>) \<in> set (nack_list m')"
    and "kMaxNackRetries \<le> retries i + 1 \<Longrightarrow> k \<notin> fst ` set (nack_list m')"
    and "rtt_ms m' = rtt_ms m" "send_nack_delay_ms m' = send_nack_delay_ms m"
proof -
  let ?due = "nack_due TIME (newest_seq_num m) now (send_nack_delay_ms m) (rtt_ms m)"
  have ent: "nack_entries_ok (newest_seq_num m) (nack_list m)" using inv by (simp add: nm_inv_def)
  have due: "?due i" using ki t by (simp add: nack_due_def)
  have m': "out = map (\<lambda>x. ni_seq_num (snd x)) (filter (\<lambda>x. ?due (snd x)) (nack_list m))"
    "m' = m\<lparr>nack_list := map (bump_nack ?due now) (filter (\<lambda>x. \<not> gives_up ?due x) (nack_list m))\<rparr>"
    using r by (simp_all add: poll_eq Let_def)
  show "k \<in> set out" using ki due nack_entry_okD(1) [OF ent ki(1)] by (force simp: m'(1))
  show "rtt_ms m' = rtt_ms m" "send_nack_delay_ms m' = send_nack_delay_ms m" by (simp_all add: m'(2))
  show "(k, i\<lparr>retries := retries i + 1, sent_time := Some now\<rparr>) \<in> set (nack_list m')"
    if "retries i + 1 < kMaxNackRetries"
    using ki(1) due that by (force simp: m'(2) gives_up_def bump_nack_def)
  show "k \<notin> fst ` set (nack_list m')" if "kMaxNackRetries \<le> retries i + 1"
  proof
    assume "k \<in> fst ` set (nack_list m')"
    then obtain i' where i': "(k, i') \<in> set (nack_list m)" "\<not> gives_up ?due (k, i')"
      by (auto simp: m'(2))
    then have "i' = i" using nack_entries_sorted(2) [OF ent] ki(1) by (metis eq_key_imp_eq_value)
    with i'(2) that due show False by (simp add: gives_up_def)
  qed
qed

lemma polls_absent:
  "nm_inv m \<Longrightarrow> k \<notin> fst ` set (nack_list m) \<Longrightarrow> rtt_polls m ts = (outs, m') \<Longrightarrow>
   filter (\<lambda>out. k \<in> set out) outs = [] \<and> k \<notin> fst ` set (nack_list m')"
proof (induction ts arbitrary: m outs)
  case (Cons now ts)
  obtain out m1 where r: "nack_list_on_rtt_passed m now = (out, m1)" by (metis surj_pair)
  obtain os where os: "rtt_polls m1 ts = (os, m')" "outs = out # os"
    using Cons.prems(3) r by (auto split: prod.splits)
  have "nm_inv m1" using poll_inv [OF Cons.prems(1), of now] r by simp
  from Cons.IH [OF this _ os(1)] poll_absent [OF Cons.prems(1,2) r] os(2)
  show ?case by simp
qed simp

lemma polls_present:
  assumes "nm_inv m" "(k, i) \<in> set (nack_list m)" "sent_time i = Some t" "0 \<le> rtt_ms m"
    and "send_nack_delay_ms m \<le> t - created_time i" "spaced (rtt_ms m) t ts"
    and "rtt_polls m ts = (outs, m')"
  shows "length (filter (\<lambda>out. k \<in> set out) outs) = min (length ts) (kMaxNackRetries - retries i) \<and>
    (k \<in> fst ` set (nack_list m') \<longleftrightarrow> retries i + length ts < kMaxNackRetries)"
  using assms
proof (induction ts arbitrary: m i t outs)
  case Nil
  have "retries i < kMaxNackRetries"
    using nack_entry_okD(4) [OF _ Nil(2)] Nil(1) by (auto simp: nm_inv_def)
  with Nil show ?case by (force simp: image_iff)
next
  case (Cons now ts)
  obtain out m1 where r: "nack_list_on_rtt_passed m now = (out, m1)" by (metis surj_pair)
  obtain os where os: "rtt_polls m1 ts = (os, m')" "outs = out # os"
    using Cons.prems(7) r by (auto split: prod.splits)
  have inv1: "nm_inv m1" using poll_inv [OF Cons.prems(1), of now] r by simp
  have lt: "retries i < kMaxNackRetries"
    using nack_entry_okD(4) [OF _ Cons.prems(2)] Cons.prems(1) by (auto simp: nm_inv_def)
  have t: "rtt_ms m \<le> now - t" "send_nack_delay_ms m \<le> now - created_time i"
    "spaced (rtt_ms m) now ts"
    using Cons.prems(4-6) by auto
  note here = poll_present [OF Cons.prems(1-3) t(1,2) r]
  show ?case
  proof (cases "retries i + 1 < kMaxNackRetries")
    case True
    from Cons.IH [OF inv1 here(2) [OF True] _ _ _ _ os(1), of now] True here t Cons.prems(4) os(2)
    show ?thesis by simp
  next
    case False
    with lt have "kMaxNackRetries - retries i = 1" by simp
    with polls_absent [OF inv1 here(3) os(1)] here(1) os(2) lt False show ?thesis by simp
  qed
qed

text \<open>
  C13. A packet that was asked for is asked for again on every poll made at least a round trip after
  the previous one, until it was asked for ten times in all; then it leaves the list and is never
  asked for again. (The polls are those of the RTT timer; no packet arrives in between.)
\<close>

theorem nack_retransmission_ends:
  assumes "nm_reach m" "(k, i) \<in> set (nack_list m)" "sent_time i = Some t" "0 \<le> rtt_ms m"
    and "send_nack_delay_ms m \<le> t - created_time i" "spaced (rtt_ms m) t ts"
    and "rtt_polls m ts = (outs, m')"
  shows "length (filter (\<lambda>out. k \<in> set out) outs) = min (length ts) (10 - retries i) \<and>
    (k \<in> fst ` set (nack_list m') \<longleftrightarrow> retries i + length ts < 10)"
  using polls_present [OF nm_reach_inv [OF assms(1)] assms(2-7)]
  by (simp add: kMaxNackRetries_def)

definition nack_example_sent :: nack_module where
  "nack_example_sent = snd (nack_insert_packet nack_example 0 False False (\<lambda>_. 7) 7)"

theorem nack_retransmission_ends_witness:
  "\<exists>outs m'. rtt_polls nack_example_sent [107, 250] = (outs, m') \<and>
     length (filter (\<lambda>out. 65535 \<in> set out) outs) = 2 \<and> 65535 \<in> fst ` set (nack_list m')"
proof -
  let ?i = "\<lparr>ni_seq_num = 65535, created_time = 7, sent_time = Some 7, retries = 1\<rparr>"
  have reach: "nm_reach nack_example_sent"
    unfolding nack_example_sent_def nack_example_def by (intro nm_reach.intros)
  have fd: "unat (forward_diff (65535 :: u16) 0) = 1" by (simp add: forward_diff_def)
  have ag: "ahead_or_at (0 :: u16) 65535" "\<not> ahead_of (65534 :: u16) 0"
    by (simp_all add: ahead_or_at_iff ahead_of_iff)
  have wrap: "65535 + 1 = (0 :: u16)" by simp
  have loop: "add_nack_loop 65535 0 (\<lambda>_. 7) [] [] = [(65535, new_nack_info 65535 7)]"
    unfolding add_nack_loop.simps [of 65535 0] wrap by (simp add: add_nack_loop.simps [of 0 0] map_set_def)
  have m: "nack_list nack_example_sent = [(65535, ?i)]" "rtt_ms nack_example_sent = 100"
    "send_nack_delay_ms nack_example_sent = 0"
    by (simp_all add: nack_example_sent_def nack_example_def nack_insert_packet_def
        new_nack_module_def kDefaultRttMs_def add_packets_to_nack_def nack_list_up_to_def fd ag
        nack_list_to_send_op_def map_erase_below_def Let_def kMaxNackPacketCount_def
        loop new_nack_info_def nack_due_def kMaxNackRetries_def)
  obtain outs m' where r: "rtt_polls nack_example_sent [107, 250] = (outs, m')" by (metis surj_pair)
  have "(65535, ?i) \<in> set (nack_list nack_example_sent)" by (simp add: m)
  from nack_retransmission_ends [OF reach this _ _ _ _ r, of 7] r show ?thesis by (simp add: m)
qed

theorem nack_module_invariant_witness:
  "length (nack_list nack_example_sent) \<le> 1000 \<and>
   sorted_wrt older_than (map fst (nack_list nack_example_sent)) \<and>
   distinct (map fst (nack_list nack_example_sent))"
proof -
  have "nm_reach nack_example_sent"
    unfolding nack_example_sent_def nack_example_def by (intro nm_reach.intros)
  from nack_module_invariant [OF this] show ?thesis by blast
qed

end
