(* ===== verification/BitIO.thy ===== *)
theory BitIO
  imports Prelude
begin

text \<open>
  The bit reader and writer of \<^verbatim>\<open>base/memory/bit_io.cpp\<close>, \<^verbatim>\<open>bit_io_reader.hpp\<close>,
  \<^verbatim>\<open>bit_io_reader.cpp\<close> and \<^verbatim>\<open>bit_io_writer.cpp\<close>, with Exp-Golomb codes.

  The specification of both is the bit stream of the buffer, most significant bit first: the
  reader returns a slice of it and the writer replaces one.
\<close>

section \<open>Helpers\<close>

definition right_most_bits :: "u8 \<Rightarrow> nat \<Rightarrow> u8 option" where
  "right_most_bits b n = (if n \<le> 8 then Some (b AND (push_bit n 1 - 1)) else None)"

definition left_most_bits :: "u8 \<Rightarrow> nat \<Rightarrow> u8 option" where
  "left_most_bits b n =
     (if n \<le> 8 then (let shift = 8 - n; m = push_bit shift 0xFF in Some (drop_bit shift (b AND m)))
      else None)"

definition left_most_byte :: "u64 \<Rightarrow> u8" where
  "left_most_byte v = ucast (drop_bit 56 v)"

function count_bits :: "u64 \<Rightarrow> nat" where
  "count_bits v = (if v \<noteq> 0 then count_bits (drop_bit 1 v) + 1 else 0)"
  by pat_completeness auto
termination
proof (relation "measure unat")
  fix v :: u64
  assume "v \<noteq> 0"
  then have "0 < unat v" by (simp add: unat_gt_0)
  then show "(drop_bit 1 v, v) \<in> measure unat" by (simp add: drop_bit_eq_div unat_div)
qed simp

declare count_bits.simps [simp del]

section \<open>The reader\<close>

record bit_reader =
  br_bytes :: "byte list"
  br_byte_offset :: nat
  br_bit_offset :: nat

definition new_bit_reader :: "byte list \<Rightarrow> bit_reader" where
  "new_bit_reader bytes = \<lparr>br_bytes = bytes, br_byte_offset = 0, br_bit_offset = 0\<rparr>"

definition br_remaining_bit_count :: "bit_reader \<Rightarrow> nat" where
  "br_remaining_bit_count r = (length (br_bytes r) - br_byte_offset r) * 8 - br_bit_offset r"

definition br_consume_bits :: "nat \<Rightarrow> bit_reader \<Rightarrow> bool \<times> bit_reader" where
  "br_consume_bits n r =
     (if n > br_remaining_bit_count r then (False, r)
      else (let new_bit_offset = br_bit_offset r + n
            in (True, r\<lparr>br_byte_offset := br_byte_offset r + new_bit_offset div 8,
                        br_bit_offset := new_bit_offset mod 8\<rparr>)))"

definition br_seek :: "nat \<Rightarrow> nat \<Rightarrow> bit_reader \<Rightarrow> bool \<times> bit_reader" where
  "br_seek byte_offset bit_offset r =
     (if byte_offset > length (br_bytes r) \<or> bit_offset > 7 \<or>
         (byte_offset = length (br_bytes r) \<and> bit_offset > 0)
      then (False, r)
      else (True, r\<lparr>br_byte_offset := byte_offset, br_bit_offset := bit_offset\<rparr>))"

fun peek_loop :: "byte list \<Rightarrow> nat \<Rightarrow> nat \<Rightarrow> 'a::len word \<Rightarrow> 'a word option" where
  "peek_loop bytes i n bits =
     (if 8 \<le> n then do {
        b \<leftarrow> rd bytes i;
        peek_loop bytes (i + 1) (n - 8) (push_bit 8 bits OR ucast b) }
      else if 0 < n then do {
        b \<leftarrow> rd bytes i;
        l \<leftarrow> left_most_bits b n;
        Some (push_bit n bits OR ucast l) }
      else Some bits)"

declare peek_loop.simps [simp del]

definition br_peek_bits :: "nat \<Rightarrow> bit_reader \<Rightarrow> ('a::len word) option option" where
  "br_peek_bits n r =
     (if n > br_remaining_bit_count r \<or> n > LENGTH('a) then Some None
      else do {
        let remaining = 8 - br_bit_offset r;
        b \<leftarrow> rd (br_bytes r) (br_byte_offset r);
        bits \<leftarrow> right_most_bits b remaining;
        if n < remaining then do {
          l \<leftarrow> left_most_bits bits (br_bit_offset r + n);
          Some (Some (ucast l)) }
        else do {
          v \<leftarrow> peek_loop (br_bytes r) (br_byte_offset r + 1) (n - remaining) (ucast bits);
          Some (Some v) } })"

definition br_read_bits :: "nat \<Rightarrow> bit_reader \<Rightarrow> (('a::len word) option \<times> bit_reader) option" where
  "br_read_bits n r = do {
     p \<leftarrow> br_peek_bits n r;
     Some (case p of
       None \<Rightarrow> (None, r)
     | Some v \<Rightarrow> (case br_consume_bits n r of (ok, r') \<Rightarrow> (if ok then Some v else None, r'))) }"

definition br_read_byte :: "bit_reader \<Rightarrow> (('a::len word) option \<times> bit_reader) option" where
  "br_read_byte r = br_read_bits LENGTH('a) r"

lemma consume_one_less:
  "br_remaining_bit_count r \<noteq> 0 \<Longrightarrow>
   br_remaining_bit_count (snd (br_consume_bits 1 r)) < br_remaining_bit_count r"
proof -
  assume "br_remaining_bit_count r \<noteq> 0"
  moreover have "(br_bit_offset r + 1) div 8 * 8 + (br_bit_offset r + 1) mod 8 = br_bit_offset r + 1"
    by (rule div_mult_mod_eq)
  ultimately show ?thesis
    by (auto simp: br_remaining_bit_count_def br_consume_bits_def Let_def diff_mult_distrib)
qed

function exp_golomb_zeros :: "bit_reader \<Rightarrow> nat \<Rightarrow> (nat \<times> bit_reader) option" where
  "exp_golomb_zeros r zero_bit_count = do {
     p \<leftarrow> br_peek_bits 1 r;
     if p = Some (0 :: u32) then exp_golomb_zeros (snd (br_consume_bits 1 r)) (zero_bit_count + 1)
     else Some (zero_bit_count, r) }"
  by pat_completeness auto
termination
  by (relation "measure (\<lambda>(r, _). br_remaining_bit_count r)")
    (auto intro!: consume_one_less [simplified] simp: br_peek_bits_def split: if_splits)

declare exp_golomb_zeros.simps [simp del]

definition br_read_exp_golomb :: "bit_reader \<Rightarrow> (u32 option \<times> bit_reader) option" where
  "br_read_exp_golomb r = do {
     (zero_bit_count, r1) \<leftarrow> exp_golomb_zeros r 0;
     let value_bit_count = zero_bit_count + 1;
     (v, r2) \<leftarrow> (if value_bit_count > 32 then Some (None, r1) else br_read_bits value_bit_count r1);
     Some (case v of
       None \<Rightarrow> (None, snd (br_seek (br_byte_offset r) (br_bit_offset r) r2))
     | Some x \<Rightarrow> (Some (x - 1), r2)) }"

definition br_read_signed_exp_golomb :: "bit_reader \<Rightarrow> (u32 option \<times> bit_reader) option" where
  "br_read_signed_exp_golomb r = do {
     (v, r') \<leftarrow> br_read_exp_golomb r;
     Some (map_option (\<lambda>u. if u AND 1 = 0 then - (u div 2) else (u + 1) div 2) v, r') }"

section \<open>The writer\<close>

record bit_writer =
  bw_bytes :: "byte list"
  bw_byte_offset :: nat
  bw_bit_offset :: nat

definition new_bit_writer :: "byte list \<Rightarrow> bit_writer" where
  "new_bit_writer bytes = \<lparr>bw_bytes = bytes, bw_byte_offset = 0, bw_bit_offset = 0\<rparr>"

definition bw_remaining_bit_count :: "bit_writer \<Rightarrow> nat" where
  "bw_remaining_bit_count w = (length (bw_bytes w) - bw_byte_offset w) * 8 - bw_bit_offset w"

definition bw_consume_bits :: "nat \<Rightarrow> bit_writer \<Rightarrow> bool \<times> bit_writer" where
  "bw_consume_bits n w =
     (if n > bw_remaining_bit_count w then (False, w)
      else (let new_bit_offset = bw_bit_offset w + n
            in (True, w\<lparr>bw_byte_offset := bw_byte_offset w + new_bit_offset div 8,
                        bw_bit_offset := new_bit_offset mod 8\<rparr>)))"

definition bw_seek :: "nat \<Rightarrow> nat \<Rightarrow> bit_writer \<Rightarrow> bool \<times> bit_writer" where
  "bw_seek byte_offset bit_offset w =
     (if byte_offset > length (bw_bytes w) \<or> bit_offset > 7 \<or>
         (byte_offset = length (bw_bytes w) \<and> bit_offset > 0)
      then (False, w)
      else (True, w\<lparr>bw_byte_offset := byte_offset, bw_bit_offset := bit_offset\<rparr>))"

definition write_partial_byte :: "u8 \<Rightarrow> nat \<Rightarrow> u8 \<Rightarrow> nat \<Rightarrow> u8 option" where
  "write_partial_byte source source_bit_count target target_bit_offset =
     (if target_bit_offset < 8 \<and> source_bit_count < 9 \<and> source_bit_count \<le> 8 - target_bit_offset
      then (let m = drop_bit target_bit_offset (push_bit (8 - source_bit_count) 0xFF)
            in Some ((target AND NOT m) OR drop_bit target_bit_offset source))
      else None)"

definition put_byte :: "nat \<Rightarrow> byte \<Rightarrow> byte list \<Rightarrow> byte list option" where
  "put_byte i b bytes = (if i < length bytes then Some (bytes[i := b]) else None)"

fun write_loop :: "u64 \<Rightarrow> nat \<Rightarrow> nat \<Rightarrow> byte list \<Rightarrow> byte list option" where
  "write_loop v n i bytes =
     (if 8 \<le> n then do {
        bytes \<leftarrow> put_byte i (left_most_byte v) bytes;
        write_loop (push_bit 8 v) (n - 8) (i + 1) bytes }
      else if 0 < n then do {
        b \<leftarrow> rd bytes i;
        b' \<leftarrow> write_partial_byte (left_most_byte v) n b 0;
        put_byte i b' bytes }
      else Some bytes)"

declare write_loop.simps [simp del]

text \<open>A shift by the width of the type or more is undefined, so \<open>bit_count\<close> is between 1 and 64.\<close>

definition bw_write_bits :: "u64 \<Rightarrow> nat \<Rightarrow> bit_writer \<Rightarrow> (bool \<times> bit_writer) option" where
  "bw_write_bits v n w =
     (if n > bw_remaining_bit_count w then Some (False, w)
      else if n = 0 \<or> n > 64 then None
      else do {
        let v = push_bit (64 - n) v;
        let remaining = 8 - bw_bit_offset w;
        let first = min n remaining;
        b \<leftarrow> rd (bw_bytes w) (bw_byte_offset w);
        b' \<leftarrow> write_partial_byte (left_most_byte v) first b (bw_bit_offset w);
        bytes \<leftarrow> put_byte (bw_byte_offset w) b' (bw_bytes w);
        if n \<le> remaining then Some (bw_consume_bits n (w\<lparr>bw_bytes := bytes\<rparr>))
        else do {
          bytes \<leftarrow> write_loop (push_bit first v) (n - first) (bw_byte_offset w + 1) bytes;
          Some (bw_consume_bits n (w\<lparr>bw_bytes := bytes\<rparr>)) } })"

definition bw_write_exp_golomb :: "u32 \<Rightarrow> bit_writer \<Rightarrow> (bool \<times> bit_writer) option" where
  "bw_write_exp_golomb v w =
     (if v = - 1 then Some (False, w)
      else (let val_to_encode = ucast v + 1 :: u64
            in bw_write_bits val_to_encode (count_bits val_to_encode * 2 - 1) w))"

definition bw_write_signed_exp_golomb :: "u32 \<Rightarrow> bit_writer \<Rightarrow> (bool \<times> bit_writer) option" where
  "bw_write_signed_exp_golomb v w =
     (if v = 0 then bw_write_exp_golomb 0 w
      else if sint v > 0 then bw_write_exp_golomb (v * 2 - 1) w
      else if v = 0x80000000 then Some (False, w)
      else bw_write_exp_golomb (- v * 2) w)"

section \<open>Bit streams\<close>

definition msb_bits :: "'a::len word \<Rightarrow> bool list" where
  "msb_bits w = map (\<lambda>i. bit w (LENGTH('a) - 1 - i)) [0..<LENGTH('a)]"

definition bits_word :: "bool list \<Rightarrow> 'a::len word" where
  "bits_word bs = horner_sum of_bool 2 (rev bs)"

definition stream :: "byte list \<Rightarrow> bool list" where
  "stream bytes = concat (map msb_bits bytes)"

lemma length_msb_bits [simp]: "length (msb_bits (w :: 'a::len word)) = LENGTH('a)"
  by (simp add: msb_bits_def)

lemma nth_msb_bits [simp]: "i < LENGTH('a) \<Longrightarrow> msb_bits (w :: 'a::len word) ! i = bit w (LENGTH('a) - 1 - i)"
  by (simp add: msb_bits_def)

lemma bit_bits_word:
  "bit (bits_word bs :: 'a::len word) n \<longleftrightarrow> n < LENGTH('a) \<and> n < length bs \<and> bs ! (length bs - 1 - n)"
  by (auto simp: bits_word_def bit_horner_sum_bit_iff rev_nth)

lemma length_stream [simp]: "length (stream bytes) = 8 * length bytes"
  by (induction bytes) (simp_all add: stream_def)

lemma stream_Cons: "stream (b # bytes) = msb_bits b @ stream bytes"
  by (simp add: stream_def)

lemma stream_append: "stream (xs @ ys) = stream xs @ stream ys"
  by (simp add: stream_def)

lemma stream_drop: "stream (drop i bytes) = drop (8 * i) (stream bytes)"
proof (induction bytes arbitrary: i)
  case (Cons b bytes)
  then show ?case by (cases i) (simp_all add: stream_Cons)
qed (simp add: stream_def)

lemma stream_take: "stream (take i bytes) = take (8 * i) (stream bytes)"
proof (induction bytes arbitrary: i)
  case (Cons b bytes)
  then show ?case by (cases i) (simp_all add: stream_Cons stream_def)
qed (simp add: stream_def)

lemma stream_update:
  assumes "i < length bytes"
  shows "stream (bytes[i := b]) = take (8 * i) (stream bytes) @ msb_bits b @ drop (8 * i + 8) (stream bytes)"
proof -
  have "bytes[i := b] = take i bytes @ b # drop (Suc i) bytes"
    using assms by (rule upd_conv_take_nth_drop)
  then show ?thesis by (simp add: stream_append stream_Cons stream_take stream_drop add.commute)
qed

text \<open>Shifting in more bits appends them, whatever the width: the excess falls off at the top.\<close>

lemma bits_word_append:
  assumes "length cs \<le> 8"
  shows "push_bit (length cs) (bits_word bs) OR ucast (bits_word cs :: u8) = (bits_word (bs @ cs) :: 'a::len word)"
proof (rule bit_word_eqI)
  fix n assume "n < LENGTH('a)"
  then show "bit (push_bit (length cs) (bits_word bs) OR ucast (bits_word cs :: u8) :: 'a word) n =
      bit (bits_word (bs @ cs) :: 'a word) n"
    using assms
    by (auto simp: bit_or_iff bit_push_bit_iff bit_ucast_iff bit_bits_word nth_append)
qed

lemma bits_word_byte: "(bits_word (msb_bits b) :: u8) = b" for b :: u8
  by (rule bit_word_eqI) (auto simp: bit_bits_word)

lemma right_most_bits_word: "n \<le> 8 \<Longrightarrow> right_most_bits b n = Some (bits_word (drop (8 - n) (msb_bits b)))"
proof -
  assume n: "n \<le> 8"
  have m: "push_bit n 1 - 1 = (mask n :: u8)" by (simp add: mask_eq_exp_minus_1)
  have "b AND mask n = bits_word (drop (8 - n) (msb_bits b))"
    by (rule bit_word_eqI) (use n in \<open>auto simp: bit_and_iff bit_mask_iff bit_bits_word\<close>)
  with n show ?thesis unfolding right_most_bits_def m by simp
qed

lemma left_most_bits_word: "n \<le> 8 \<Longrightarrow> left_most_bits b n = Some (bits_word (take n (msb_bits b)))"
proof -
  assume n: "n \<le> 8"
  have ff: "0xFF = (- 1 :: u8)" by simp
  have "drop_bit (8 - n) (b AND push_bit (8 - n) 0xFF) = bits_word (take n (msb_bits b))"
    unfolding ff
    by (rule bit_word_eqI) (use n in \<open>auto simp: bit_simps bit_bits_word dest: bit_imp_le_length\<close>)
  with n show ?thesis by (simp add: left_most_bits_def Let_def)
qed

lemma msb_bits_word: "length bs \<le> 8 \<Longrightarrow> msb_bits (bits_word bs :: u8) = replicate (8 - length bs) False @ bs"
  by (rule nth_equalityI) (auto simp: bit_bits_word nth_append add.commute [of _ "length bs"])

lemma ucast_bits_word: "length bs \<le> 8 \<Longrightarrow> ucast (bits_word bs :: u8) = (bits_word bs :: 'a::len word)"
  by (rule bit_word_eqI) (auto simp: bit_ucast_iff bit_bits_word)

lemma bits_word_leading: "bits_word (replicate k False @ bs) = bits_word bs"
  by (rule bit_word_eqI) (auto simp: bit_bits_word nth_append)

lemma stream_at:
  assumes "i < length bytes"
  shows "stream (drop i bytes) = msb_bits (bytes ! i) @ stream (drop (i + 1) bytes)"
proof -
  have "drop i bytes = bytes ! i # drop (i + 1) bytes" using assms by (simp add: Cons_nth_drop_Suc)
  then show ?thesis by (simp only: stream_Cons)
qed

section \<open>The reader returns slices\<close>

definition br_pos :: "bit_reader \<Rightarrow> nat" where
  "br_pos r = 8 * br_byte_offset r + br_bit_offset r"

definition br_ok :: "bit_reader \<Rightarrow> bool" where
  "br_ok r \<longleftrightarrow> br_bit_offset r < 8 \<and> br_pos r \<le> 8 * length (br_bytes r)"

lemma br_remaining: "br_remaining_bit_count r = 8 * length (br_bytes r) - br_pos r"
  by (simp add: br_remaining_bit_count_def br_pos_def diff_mult_distrib)

lemma peek_loop_stream:
  "n \<le> 8 * (length bytes - i) \<Longrightarrow>
   peek_loop bytes i n (bits_word bs :: 'a::len word) = Some (bits_word (bs @ take n (stream (drop i bytes))))"
proof (induction bytes i n "bits_word bs :: 'a word" arbitrary: bs rule: peek_loop.induct)
  case (1 bytes i n)
  show ?case
  proof (cases "n = 0")
    case True
    then show ?thesis by (simp add: peek_loop.simps)
  next
    case False
    then have i: "i < length bytes" using 1(2) by auto
    note here = stream_at [OF i]
    have rd: "rd bytes i = Some (bytes ! i)" using i by (simp add: rd_def)
    show ?thesis
    proof (cases "8 \<le> n")
      case True
      have app: "push_bit 8 (bits_word bs) OR ucast (bytes ! i) = (bits_word (bs @ msb_bits (bytes ! i)) :: 'a word)"
        using bits_word_append [of "msb_bits (bytes ! i)" bs] by (simp add: bits_word_byte)
      have "n - 8 \<le> 8 * (length bytes - (i + 1))" using 1(2) by simp
      with True 1(1) [OF True rd app] rd app here show ?thesis
        by (simp add: peek_loop.simps [of bytes i n])
    next
      case l: False
      let ?t = "take n (msb_bits (bytes ! i))"
      have "push_bit n (bits_word bs) OR ucast (bits_word ?t :: u8) = (bits_word (bs @ ?t) :: 'a word)"
        using bits_word_append [of ?t bs] l by (simp add: min_def)
      with l False rd here left_most_bits_word [of n "bytes ! i"] show ?thesis
        by (simp add: peek_loop.simps [of bytes i n])
    qed
  qed
qed

lemma br_peek_stream:
  assumes "br_ok r" "0 < n" "n \<le> br_remaining_bit_count r" "n \<le> LENGTH('a)"
  shows "br_peek_bits n r =
    Some (Some (bits_word (take n (drop (br_pos r) (stream (br_bytes r)))) :: 'a::len word))"
proof -
  let ?o = "br_byte_offset r" and ?k = "br_bit_offset r" and ?bs = "br_bytes r"
  have o: "?o < length ?bs" and k: "?k < 8"
    using assms(1-3) by (auto simp: br_ok_def br_remaining br_pos_def)
  let ?b = "?bs ! ?o"
  have "drop (br_pos r) (stream ?bs) = drop ?k (stream (drop ?o ?bs))"
    by (simp add: br_pos_def stream_drop add.commute)
  then have s: "drop (br_pos r) (stream ?bs) = drop ?k (msb_bits ?b) @ stream (drop (?o + 1) ?bs)"
    using k by (simp only: stream_at [OF o]) simp
  have rd: "rd ?bs ?o = Some ?b" using o by (simp add: rd_def)
  have rm: "right_most_bits ?b (8 - ?k) = Some (bits_word (drop ?k (msb_bits ?b)))"
    using right_most_bits_word [of "8 - ?k" ?b] k by simp
  show ?thesis
  proof (cases "n < 8 - ?k")
    case True
    have "left_most_bits (bits_word (drop ?k (msb_bits ?b))) (?k + n) =
        Some (bits_word (replicate ?k False @ take n (drop ?k (msb_bits ?b))))"
      using True k by (subst left_most_bits_word) (simp_all add: msb_bits_word)
    then show ?thesis
      using True assms rd rm k
      by (simp add: br_peek_bits_def s bits_word_leading ucast_bits_word)
  next
    case False
    have "n - (8 - ?k) \<le> 8 * (length ?bs - (?o + 1))"
      using assms(3) k by (simp add: br_remaining br_pos_def)
    from peek_loop_stream [OF this, of "drop ?k (msb_bits ?b)", where 'a = 'a] False assms rd rm k
    show ?thesis by (simp add: br_peek_bits_def s ucast_bits_word)
  qed
qed

lemma br_consume_pos:
  assumes "br_ok r" "n \<le> br_remaining_bit_count r"
  shows "\<exists>r'. br_consume_bits n r = (True, r') \<and> br_ok r' \<and> br_pos r' = br_pos r + n \<and>
    br_bytes r' = br_bytes r"
proof -
  have "(br_bit_offset r + n) div 8 * 8 + (br_bit_offset r + n) mod 8 = br_bit_offset r + n"
    by (rule div_mult_mod_eq)
  then show ?thesis
    using assms by (auto simp: br_consume_bits_def Let_def br_ok_def br_remaining br_pos_def)
qed

lemma br_read_stream:
  assumes "br_ok r" "0 < n" "n \<le> br_remaining_bit_count r" "n \<le> LENGTH('a)"
  shows "\<exists>r'. br_read_bits n r =
      Some (Some (bits_word (take n (drop (br_pos r) (stream (br_bytes r)))) :: 'a::len word), r') \<and>
    br_ok r' \<and> br_pos r' = br_pos r + n \<and> br_bytes r' = br_bytes r"
  using br_consume_pos [OF assms(1,3)] br_peek_stream [OF assms] by (auto simp: br_read_bits_def)

lemma br_read_short:
  "br_remaining_bit_count r < n \<Longrightarrow> br_read_bits n r = Some (None, r)"
  by (simp add: br_read_bits_def br_peek_bits_def)

section \<open>The writer replaces slices\<close>

lemma msb_bits_push: "k \<le> LENGTH('a) \<Longrightarrow> msb_bits (push_bit k w) = drop k (msb_bits w) @ replicate k False"
  for w :: "'a::len word"
  by (rule nth_equalityI) (auto simp: bit_push_bit_iff nth_append add.commute [of k])

lemma msb_left_most_byte: "msb_bits (left_most_byte v) = take 8 (msb_bits v)"
  by (rule nth_equalityI) (auto simp: left_most_byte_def bit_ucast_iff bit_drop_bit_eq)

lemma write_partial_bits:
  assumes "k < 8" "n \<le> 8 - k" "n = 8 - k \<or> True \<notin> set (drop n (msb_bits src))"
  shows "\<exists>b. write_partial_byte src n target k = Some b \<and>
    msb_bits b = take k (msb_bits target) @ take n (msb_bits src) @ drop (k + n) (msb_bits target)"
proof -
  let ?m = "drop_bit k (push_bit (8 - n) 0xFF) :: u8"
  let ?b = "(target AND NOT ?m) OR drop_bit k src"
  have ff: "0xFF = (- 1 :: u8)" by simp
  have m: "bit ?m p \<longleftrightarrow> 8 - n \<le> k + p \<and> k + p < 8" for p
    unfolding ff using assms by (auto simp: bit_simps)
  have clear: "\<not> bit src p" if "p < 8 - n" "n \<noteq> 8 - k" for p
  proof -
    have "msb_bits src ! (7 - p) \<in> set (drop n (msb_bits src))"
      using that(1) by (auto simp: in_set_conv_nth intro!: exI [of _ "7 - p - n"])
    with assms(3) that show ?thesis by auto
  qed
  have "msb_bits ?b = take k (msb_bits target) @ take n (msb_bits src) @ drop (k + n) (msb_bits target)"
  proof (rule nth_equalityI)
    fix i assume "i < length (msb_bits ?b)"
    then have i: "i < 8" by simp
    have b: "msb_bits ?b ! i \<longleftrightarrow> bit target (7 - i) \<and> \<not> bit ?m (7 - i) \<or> bit src (k + (7 - i))"
      using i by (auto simp: bit_or_iff bit_and_iff bit_not_iff bit_drop_bit_eq)
    consider "i < k" | "k \<le> i" "i < k + n" | "k + n \<le> i" by linarith
    then show "msb_bits ?b ! i =
      (take k (msb_bits target) @ take n (msb_bits src) @ drop (k + n) (msb_bits target)) ! i"
    proof cases
      case 1
      then have "\<not> bit src (k + (7 - i))" using i by (auto dest: bit_imp_le_length)
      moreover have "\<not> k + (7 - i) < 8" using 1 i by auto
      ultimately show ?thesis unfolding b m using 1 i assms(1) by (simp add: nth_append)
    next
      case 2
      then have "7 - (i - k) = k + (7 - i)" "8 - n \<le> k + (7 - i)" "k + (7 - i) < 8" using i by auto
      moreover have "i - k < n" "i - k < 8" using 2 i by auto
      ultimately show ?thesis unfolding b m using 2 i assms(1) by (simp add: nth_append)
    next
      case 3
      then have "\<not> bit src (k + (7 - i))" using i assms(2) by (intro clear) auto
      with 3 i assms(1,2) show ?thesis unfolding b m by (auto simp: nth_append)
    qed
  qed (use assms in simp)
  with assms show ?thesis by (simp add: write_partial_byte_def Let_def)
qed

lemma stream_put:
  "i < length bytes \<Longrightarrow> \<exists>bytes'. put_byte i b bytes = Some bytes' \<and> length bytes' = length bytes \<and>
     stream bytes' = take (8 * i) (stream bytes) @ msb_bits b @ drop (8 * i + 8) (stream bytes)"
  by (simp add: put_byte_def stream_update)

lemma stream_put_slice:
  assumes "i < length bytes" "k + n \<le> 8" "length bs = n"
    and "msb_bits b = take k (msb_bits (bytes ! i)) @ bs @ drop (k + n) (msb_bits (bytes ! i))"
  shows "\<exists>bytes'. put_byte i b bytes = Some bytes' \<and> length bytes' = length bytes \<and>
     stream bytes' = take (8 * i + k) (stream bytes) @ bs @ drop (8 * i + k + n) (stream bytes)"
proof -
  have s: "drop (8 * i) (stream bytes) = msb_bits (bytes ! i) @ drop (8 * i + 8) (stream bytes)"
    using stream_at [OF assms(1)] by (simp add: stream_drop add.commute)
  have "take (8 * i + k) (stream bytes) = take (8 * i) (stream bytes) @ take k (msb_bits (bytes ! i))"
    using assms(2) by (simp add: take_add s)
  moreover have "drop (8 * i + k + n) (stream bytes) =
      drop (k + n) (msb_bits (bytes ! i)) @ drop (8 * i + 8) (stream bytes)"
  proof -
    have "drop (8 * i + k + n) (stream bytes) = drop (k + n) (drop (8 * i) (stream bytes))"
      by (simp add: ac_simps)
    then show ?thesis using assms(2) by (simp only: s) simp
  qed
  ultimately show ?thesis using stream_put [OF assms(1), of b] assms(4) by simp
qed

lemma write_loop_stream:
  "n \<le> 64 \<Longrightarrow> n \<le> 8 * (length bytes - i) \<Longrightarrow> True \<notin> set (drop n (msb_bits v)) \<Longrightarrow>
   \<exists>bytes'. write_loop v n i bytes = Some bytes' \<and> length bytes' = length bytes \<and>
     stream bytes' = take (8 * i) (stream bytes) @ take n (msb_bits v) @ drop (8 * i + n) (stream bytes)"
proof (induction v n i bytes rule: write_loop.induct)
  case (1 v n i bytes)
  show ?case
  proof (cases "n = 0")
    case True
    then show ?thesis by (simp add: write_loop.simps)
  next
    case False
    then have i: "i < length bytes" using 1(3) by auto
    show ?thesis
    proof (cases "8 \<le> n")
      case True
      obtain bytes1 where p: "put_byte i (left_most_byte v) bytes = Some bytes1"
        "length bytes1 = length bytes"
        "stream bytes1 = take (8 * i) (stream bytes) @ take 8 (msb_bits v) @ drop (8 * i + 8) (stream bytes)"
        using stream_put [OF i, of "left_most_byte v"] msb_left_most_byte by auto
      have v: "msb_bits (push_bit 8 v) = drop 8 (msb_bits v) @ replicate 8 False"
        by (simp add: msb_bits_push)
      then have "True \<notin> set (drop (n - 8) (msb_bits (push_bit 8 v)))"
        using 1(2,4) True by simp
      moreover have "n - 8 \<le> 64" "n - 8 \<le> 8 * (length bytes1 - (i + 1))"
        using 1(2,3) p(2) by auto
      ultimately obtain bytes2 where
        w: "write_loop (push_bit 8 v) (n - 8) (i + 1) bytes1 = Some bytes2" "length bytes2 = length bytes"
        "stream bytes2 = take (8 * (i + 1)) (stream bytes1) @ take (n - 8) (msb_bits (push_bit 8 v)) @
           drop (8 * (i + 1) + (n - 8)) (stream bytes1)"
        using 1(1) [OF True p(1)] p(2) by metis
      have a: "take (8 * (i + 1)) (stream bytes1) = take (8 * i) (stream bytes) @ take 8 (msb_bits v)"
        using i by (simp add: p(3))
      have b: "take (n - 8) (msb_bits (push_bit 8 v)) = take (n - 8) (drop 8 (msb_bits v))"
        using 1(2) True by (simp add: v)
      have c: "drop (8 * (i + 1) + (n - 8)) (stream bytes1) = drop (8 * i + n) (stream bytes)"
        using i True by (simp add: p(3) add.commute)
      have d: "take 8 (msb_bits v) @ take (n - 8) (drop 8 (msb_bits v)) = take n (msb_bits v)"
        using True by (metis le_add_diff_inverse take_add)
      have "stream bytes2 = take (8 * i) (stream bytes) @ take n (msb_bits v) @ drop (8 * i + n) (stream bytes)"
        unfolding w(3) a b c d [symmetric] by simp
      with True p(1) w(1,2) show ?thesis by (simp add: write_loop.simps [of v n i bytes])
    next
      case l: False
      have "True \<notin> set (drop n (msb_bits (left_most_byte v)))"
        using 1(4) unfolding msb_left_most_byte drop_take by (meson in_set_takeD)
      then obtain b where b: "write_partial_byte (left_most_byte v) n (bytes ! i) 0 = Some b"
        "msb_bits b = take 0 (msb_bits (bytes ! i)) @ take n (msb_bits (left_most_byte v)) @
           drop (0 + n) (msb_bits (bytes ! i))"
        using write_partial_bits [of 0 n "left_most_byte v" "bytes ! i"] l by auto
      have "take n (msb_bits (left_most_byte v)) = take n (msb_bits v)"
        using l by (simp add: msb_left_most_byte min_def)
      with stream_put_slice [OF i _ _ b(2)] l False b(1) i show ?thesis
        by (auto simp: write_loop.simps [of v n i bytes] rd_def)
    qed
  qed
qed

definition bw_pos :: "bit_writer \<Rightarrow> nat" where
  "bw_pos w = 8 * bw_byte_offset w + bw_bit_offset w"

definition bw_ok :: "bit_writer \<Rightarrow> bool" where
  "bw_ok w \<longleftrightarrow> bw_bit_offset w < 8 \<and> bw_pos w \<le> 8 * length (bw_bytes w)"

lemma bw_remaining: "bw_remaining_bit_count w = 8 * length (bw_bytes w) - bw_pos w"
  by (simp add: bw_remaining_bit_count_def bw_pos_def diff_mult_distrib)

lemma bw_consume_pos:
  assumes "bw_ok w" "n \<le> bw_remaining_bit_count w"
  shows "\<exists>w'. bw_consume_bits n w = (True, w') \<and> bw_ok w' \<and> bw_pos w' = bw_pos w + n \<and>
    bw_bytes w' = bw_bytes w"
proof -
  have "(bw_bit_offset w + n) div 8 * 8 + (bw_bit_offset w + n) mod 8 = bw_bit_offset w + n"
    by (rule div_mult_mod_eq)
  then show ?thesis
    using assms by (auto simp: bw_consume_bits_def Let_def bw_ok_def bw_remaining bw_pos_def)
qed

definition low_bits :: "nat \<Rightarrow> u64 \<Rightarrow> bool list" where
  "low_bits n v = drop (64 - n) (msb_bits v)"

lemma length_low_bits [simp]: "n \<le> 64 \<Longrightarrow> length (low_bits n v) = n"
  by (simp add: low_bits_def)

lemma take_take_append: "f \<le> m \<Longrightarrow> f \<le> length xs \<Longrightarrow> take f (take m (xs @ ys)) = take f xs"
  by (simp add: min_def)

lemma bw_write_bytes:
  assumes "bw_ok w" "0 < n" "n \<le> 64" "n \<le> bw_remaining_bit_count w"
  shows "\<exists>bytes. bw_write_bits v n w = Some (bw_consume_bits n (w\<lparr>bw_bytes := bytes\<rparr>)) \<and>
    length bytes = length (bw_bytes w) \<and>
    stream bytes = take (bw_pos w) (stream (bw_bytes w)) @ low_bits n v @
      drop (bw_pos w + n) (stream (bw_bytes w))"
proof -
  let ?o = "bw_byte_offset w" and ?k = "bw_bit_offset w" and ?bs = "bw_bytes w"
  let ?V = "push_bit (64 - n) v" and ?f = "min n (8 - bw_bit_offset w)"
  have o: "?o < length ?bs" and k: "?k < 8"
    using assms(1,2,4) by (auto simp: bw_ok_def bw_remaining bw_pos_def)
  have V: "msb_bits ?V = low_bits n v @ replicate (64 - n) False"
    using assms(3) by (simp add: msb_bits_push low_bits_def)
  have rd: "rd ?bs ?o = Some (?bs ! ?o)" using o by (simp add: rd_def)
  have "?f = 8 - ?k \<or> True \<notin> set (drop ?f (msb_bits (left_most_byte ?V)))"
  proof (cases "n \<le> 8 - ?k")
    case True
    then have "drop ?f (msb_bits (left_most_byte ?V)) = take (8 - n) (replicate (64 - n) False)"
      using assms(3) by (simp add: msb_left_most_byte V drop_take)
    then show ?thesis by (auto dest: in_set_takeD)
  qed simp
  then obtain b where b: "write_partial_byte (left_most_byte ?V) ?f (?bs ! ?o) ?k = Some b"
    "msb_bits b = take ?k (msb_bits (?bs ! ?o)) @ take ?f (msb_bits (left_most_byte ?V)) @
       drop (?k + ?f) (msb_bits (?bs ! ?o))"
    using write_partial_bits [of ?k ?f "left_most_byte ?V" "?bs ! ?o"] k by auto
  have first: "take ?f (msb_bits (left_most_byte ?V)) = take ?f (low_bits n v)"
    unfolding msb_left_most_byte V using assms(3) by (intro take_take_append) auto
  have fit: "?k + ?f \<le> 8" "length (take ?f (low_bits n v)) = ?f" using k assms(3) by auto
  obtain bytes1 where p: "put_byte ?o b ?bs = Some bytes1" "length bytes1 = length ?bs"
    "stream bytes1 = take (8 * ?o + ?k) (stream ?bs) @ take ?f (low_bits n v) @
       drop (8 * ?o + ?k + ?f) (stream ?bs)"
    using stream_put_slice [OF o fit b(2) [unfolded first]] by blast
  show ?thesis
  proof (cases "n \<le> 8 - ?k")
    case True
    with p assms rd b(1) show ?thesis
      by (simp add: bw_write_bits_def bw_pos_def min_def) (rule exI [of _ bytes1], simp)
  next
    case False
    let ?V' = "push_bit ?f ?V"
    have f: "?f = 8 - ?k" "8 * ?o + ?k + ?f = 8 * (?o + 1)" using False k by auto
    have V': "msb_bits ?V' = drop ?f (low_bits n v) @ replicate (64 - n + ?f) False"
    proof -
      have "msb_bits ?V' = drop ?f (low_bits n v @ replicate (64 - n) False) @ replicate ?f False"
        unfolding V [symmetric] by (rule msb_bits_push) simp
      then show ?thesis unfolding replicate_add using assms(3) by simp
    qed
    have "n - ?f \<le> 64" "n - ?f \<le> 8 * (length bytes1 - (?o + 1))"
      "True \<notin> set (drop (n - ?f) (msb_bits ?V'))"
      using assms(3,4) f p(2) V' by (auto simp: bw_remaining bw_pos_def)
    from write_loop_stream [OF this] obtain bytes2 where
      w2: "write_loop ?V' (n - ?f) (?o + 1) bytes1 = Some bytes2" "length bytes2 = length bytes1"
      "stream bytes2 = take (8 * (?o + 1)) (stream bytes1) @ take (n - ?f) (msb_bits ?V') @
         drop (8 * (?o + 1) + (n - ?f)) (stream bytes1)"
      by blast
    have a: "take (8 * (?o + 1)) (stream bytes1) = take (bw_pos w) (stream ?bs) @ take ?f (low_bits n v)"
      using o k f assms(3) by (simp add: p(3) bw_pos_def)
    have c: "drop (8 * (?o + 1) + (n - ?f)) (stream bytes1) = drop (bw_pos w + n) (stream ?bs)"
      using o k f assms(3) False by (simp add: p(3) bw_pos_def ac_simps)
    have d: "take (n - ?f) (msb_bits ?V') = drop ?f (low_bits n v)"
      unfolding V' using assms(3) by simp
    have "stream bytes2 = take (bw_pos w) (stream ?bs) @ low_bits n v @ drop (bw_pos w + n) (stream ?bs)"
      unfolding w2(3) a c d by (metis append.assoc append_take_drop_id)
    with w2(1,2) p(1,2) rd b(1) assms False show ?thesis
      by (simp add: bw_write_bits_def) (rule exI [of _ bytes2], simp)
  qed
qed

lemma bw_write_stream:
  assumes "bw_ok w" "0 < n" "n \<le> 64" "n \<le> bw_remaining_bit_count w"
  shows "\<exists>w'. bw_write_bits v n w = Some (True, w') \<and> bw_ok w' \<and> bw_pos w' = bw_pos w + n \<and>
    length (bw_bytes w') = length (bw_bytes w) \<and>
    stream (bw_bytes w') = take (bw_pos w) (stream (bw_bytes w)) @ low_bits n v @
      drop (bw_pos w + n) (stream (bw_bytes w))"
proof -
  obtain bytes where b: "bw_write_bits v n w = Some (bw_consume_bits n (w\<lparr>bw_bytes := bytes\<rparr>))"
    "length bytes = length (bw_bytes w)"
    "stream bytes = take (bw_pos w) (stream (bw_bytes w)) @ low_bits n v @
       drop (bw_pos w + n) (stream (bw_bytes w))"
    using bw_write_bytes [OF assms] by blast
  have "bw_ok (w\<lparr>bw_bytes := bytes\<rparr>)" "n \<le> bw_remaining_bit_count (w\<lparr>bw_bytes := bytes\<rparr>)"
    using assms b(2) by (simp_all add: bw_ok_def bw_pos_def bw_remaining)
  from bw_consume_pos [OF this] b show ?thesis by (auto simp: bw_pos_def)
qed

section \<open>Writing, then reading\<close>

lemma bits_word_low: "n \<le> 64 \<Longrightarrow> bits_word (low_bits n v) = (ucast (take_bit n v) :: 'a::len word)"
  by (rule bit_word_eqI) (auto simp: bit_bits_word low_bits_def bit_ucast_iff bit_take_bit_iff)

lemma seek_written:
  assumes "bw_ok w" "length bytes = length (bw_bytes w)"
  shows "\<exists>r. br_seek (bw_byte_offset w) (bw_bit_offset w) (new_bit_reader bytes) = (True, r) \<and>
    br_ok r \<and> br_pos r = bw_pos w \<and> br_bytes r = bytes"
  using assms by (auto simp: bw_ok_def bw_pos_def br_seek_def new_bit_reader_def br_ok_def br_pos_def)

lemma same_pos_same_offsets:
  "8 * a + (b :: nat) = 8 * c + d \<Longrightarrow> b < 8 \<Longrightarrow> d < 8 \<Longrightarrow> a = c \<and> b = d"
  by presburger

text \<open>
  Bits written are bits read: with room for them, \<^verbatim>\<open>WriteBits\<close> replaces exactly the next \<open>n\<close> bits
  of the buffer by the low \<open>n\<close> bits of the value, whatever the alignment, and a reader placed
  where the writer was returns those bits and stops where the writer stopped.
\<close>

theorem bit_io_roundtrip:
  fixes w :: bit_writer and v :: u64
  assumes "bw_bit_offset w < 8" "0 < n" "n \<le> LENGTH('a)" "n \<le> 64"
    and "8 * bw_byte_offset w + bw_bit_offset w + n \<le> 8 * length (bw_bytes w)"
  shows "\<exists>w' r r'. bw_write_bits v n w = Some (True, w') \<and>
    stream (bw_bytes w') =
      take (8 * bw_byte_offset w + bw_bit_offset w) (stream (bw_bytes w)) @ low_bits n v @
      drop (8 * bw_byte_offset w + bw_bit_offset w + n) (stream (bw_bytes w)) \<and>
    br_seek (bw_byte_offset w) (bw_bit_offset w) (new_bit_reader (bw_bytes w')) = (True, r) \<and>
    br_read_bits n r = Some (Some (ucast (take_bit n v) :: 'a::len word), r') \<and>
    br_byte_offset r' = bw_byte_offset w' \<and> br_bit_offset r' = bw_bit_offset w'"
proof -
  have ok: "bw_ok w" "n \<le> bw_remaining_bit_count w"
    using assms by (auto simp: bw_ok_def bw_pos_def bw_remaining)
  obtain w' where w': "bw_write_bits v n w = Some (True, w')" "bw_ok w'" "bw_pos w' = bw_pos w + n"
    "length (bw_bytes w') = length (bw_bytes w)"
    "stream (bw_bytes w') = take (bw_pos w) (stream (bw_bytes w)) @ low_bits n v @
      drop (bw_pos w + n) (stream (bw_bytes w))"
    using bw_write_stream [OF ok(1) assms(2,4) ok(2)] by blast
  obtain r where r: "br_seek (bw_byte_offset w) (bw_bit_offset w) (new_bit_reader (bw_bytes w')) = (True, r)"
    "br_ok r" "br_pos r = bw_pos w" "br_bytes r = bw_bytes w'"
    using seek_written [OF ok(1) w'(4)] by blast
  have rem: "n \<le> br_remaining_bit_count r" using ok(2) r w'(4) by (simp add: br_remaining bw_remaining)
  have slice: "take n (drop (br_pos r) (stream (br_bytes r))) = low_bits n v"
    using ok assms(4) by (simp add: r w'(5) bw_ok_def min_absorb2)
  obtain r' where r': "br_read_bits n r = Some (Some (bits_word (low_bits n v) :: 'a word), r')"
    "br_ok r'" "br_pos r' = br_pos r + n"
    using br_read_stream [OF r(2) assms(2) rem assms(3)] unfolding slice by blast
  have "br_byte_offset r' = bw_byte_offset w' \<and> br_bit_offset r' = bw_bit_offset w'"
    using r' w' r(3) by (intro same_pos_same_offsets) (auto simp: br_ok_def bw_ok_def br_pos_def bw_pos_def)
  with w' r r'(1) assms(4) show ?thesis by (simp add: bits_word_low bw_pos_def)
qed

theorem bit_io_roundtrip_witness:
  "\<exists>w' r r'. bw_write_bits 0x2A5 10 \<lparr>bw_bytes = [0xFF, 0, 0x55], bw_byte_offset = 0, bw_bit_offset = 5\<rparr> = Some (True, w') \<and>
    br_seek 0 5 (new_bit_reader (bw_bytes w')) = (True, r) \<and>
    br_read_bits 10 r = Some (Some (0x2A5 :: u16), r') \<and>
    br_byte_offset r' = bw_byte_offset w' \<and> br_bit_offset r' = bw_bit_offset w'"
proof -
  have v: "ucast (take_bit 10 0x2A5 :: u64) = (0x2A5 :: u16)" by simp
  show ?thesis
    using bit_io_roundtrip [of "\<lparr>bw_bytes = [0xFF, 0, 0x55], bw_byte_offset = 0, bw_bit_offset = 5\<rparr>" 10 "0x2A5",
        where 'a = 16] unfolding v by auto
qed

section \<open>Exp-Golomb codes\<close>

lemma count_bits_bound: "bit v j \<Longrightarrow> j < count_bits v"
proof (induction v arbitrary: j rule: count_bits.induct)
  case (1 v)
  then have "v \<noteq> 0" by auto
  with 1 show ?case
    by (cases j) (auto simp: count_bits.simps [of v] bit_drop_bit_eq)
qed

lemma count_bits_pos: "v \<noteq> 0 \<Longrightarrow> 0 < count_bits v"
  by (simp add: count_bits.simps [of v])

lemma nth_low_bits: "i < n \<Longrightarrow> n \<le> 64 \<Longrightarrow> low_bits n v ! i = bit v (n - 1 - i)"
  by (simp add: low_bits_def)

lemma count_bits_top: "v \<noteq> 0 \<Longrightarrow> bit v (count_bits v - 1)"
proof (induction v rule: count_bits.induct)
  case (1 v)
  show ?case
  proof (cases "drop_bit 1 v = 0")
    case True
    obtain j where j: "bit v j" using 1(2) by (metis bit_eq_iff bit_0_eq bot_apply bot_bool_def)
    have "j = 0"
    proof (rule ccontr)
      assume "j \<noteq> 0"
      then have "bit (drop_bit 1 v) (j - 1)" using j by (simp add: bit_drop_bit_eq)
      with True show False by simp
    qed
    with j True 1(2) show ?thesis by (simp add: count_bits.simps [of v] count_bits.simps [of 0])
  next
    case False
    then have "0 < count_bits (drop_bit 1 v)" by (rule count_bits_pos)
    with 1 False show ?thesis by (simp add: count_bits.simps [of v] bit_drop_bit_eq)
  qed
qed

lemma exp_golomb_code:
  assumes "v \<noteq> 0" "v < 2 ^ 32" "c = count_bits v"
  shows "0 < c" "c \<le> 32" "low_bits (c * 2 - 1) v = replicate (c - 1) False @ low_bits c v"
    "\<exists>rest. low_bits c v = True # rest"
proof -
  have top: "bit v (c - 1)" using count_bits_top [OF assms(1)] assms(3) by simp
  show c: "0 < c" using assms count_bits_pos by simp
  show "c \<le> 32" using bit_below [OF top assms(2)] by simp
  have "\<not> bit v j" if "c \<le> j" for j using count_bits_bound [of v j] assms(3) that by auto
  with c \<open>c \<le> 32\<close> show "low_bits (c * 2 - 1) v = replicate (c - 1) False @ low_bits c v"
    by (intro nth_equalityI) (auto simp: nth_low_bits nth_append mult_2_right)
  have "low_bits c v \<noteq> []" "hd (low_bits c v)"
    using c \<open>c \<le> 32\<close> top by (auto simp: low_bits_def hd_drop_conv_nth)
  then show "\<exists>rest. low_bits c v = True # rest" by (cases "low_bits c v") auto
qed

lemma peek_one:
  assumes "br_ok r" "drop (br_pos r) (stream (br_bytes r)) = b # rest"
  shows "br_peek_bits 1 r = Some (Some (of_bool b :: u32))" "1 \<le> br_remaining_bit_count r"
proof -
  have "br_pos r < length (stream (br_bytes r))"
    using assms(2) by (metis drop_all leI list.distinct(1))
  then show rem: "1 \<le> br_remaining_bit_count r" by (simp add: br_remaining)
  have "(bits_word [b] :: u32) = of_bool b" by (simp add: bits_word_def)
  with br_peek_stream [OF assms(1) _ rem, where 'a = 32] assms(2)
  show "br_peek_bits 1 r = Some (Some (of_bool b :: u32))" by simp
qed

lemma exp_golomb_zeros_stream:
  assumes "br_ok r" "drop (br_pos r) (stream (br_bytes r)) = replicate z False @ True # rest"
  shows "\<exists>r'. exp_golomb_zeros r a = Some (a + z, r') \<and> br_ok r' \<and> br_pos r' = br_pos r + z \<and>
    br_bytes r' = br_bytes r"
  using assms
proof (induction z arbitrary: r a)
  case 0
  then show ?case using peek_one(1) [of r True rest] by (simp add: exp_golomb_zeros.simps [of r])
next
  case (Suc z)
  then have here: "drop (br_pos r) (stream (br_bytes r)) = False # replicate z False @ True # rest" by simp
  obtain r1 where r1: "br_consume_bits 1 r = (True, r1)" "br_ok r1" "br_pos r1 = br_pos r + 1"
    "br_bytes r1 = br_bytes r"
    using br_consume_pos [OF Suc.prems(1) peek_one(2) [OF Suc.prems(1) here]] by blast
  have "drop (br_pos r1) (stream (br_bytes r1)) = replicate z False @ True # rest"
    using here by (simp add: r1 drop_Suc drop_tl)
  from Suc.IH [OF r1(2) this, of "a + 1"] show ?case
    using peek_one(1) [OF Suc.prems(1) here] r1 by (simp add: exp_golomb_zeros.simps [of r])
qed

lemma read_exp_golomb_stream:
  assumes "br_ok r" "drop (br_pos r) (stream (br_bytes r)) = replicate (c - 1) False @ code @ rest"
    and "code = True # tail" "length code = c" "c \<le> 32"
  shows "\<exists>r'. br_read_exp_golomb r = Some (Some (bits_word code - 1), r') \<and> br_ok r' \<and>
    br_pos r' = br_pos r + (c * 2 - 1)"
proof -
  have z: "drop (br_pos r) (stream (br_bytes r)) = replicate (c - 1) False @ True # (tail @ rest)"
    using assms(2,3) by simp
  obtain r1 where r1: "exp_golomb_zeros r 0 = Some (0 + (c - 1), r1)" "br_ok r1"
    "br_pos r1 = br_pos r + (c - 1)" "br_bytes r1 = br_bytes r"
    using exp_golomb_zeros_stream [OF assms(1) z, of 0] by blast
  have "drop (br_pos r1) (stream (br_bytes r1)) = drop (c - 1) (drop (br_pos r) (stream (br_bytes r)))"
    by (simp add: r1 add.commute)
  then have s: "drop (br_pos r1) (stream (br_bytes r1)) = code @ rest" by (simp add: assms(2))
  have c: "0 < c" using assms(3,4) by auto
  have "length (drop (br_pos r1) (stream (br_bytes r1))) = c + length rest" using s assms(4) by simp
  then have rem: "c \<le> br_remaining_bit_count r1" by (simp add: br_remaining)
  obtain r2 where "br_read_bits c r1 = Some (Some (bits_word code :: u32), r2)" "br_ok r2"
    "br_pos r2 = br_pos r1 + c"
    using br_read_stream [OF r1(2) c rem, where 'a = 32] s assms(4,5) by auto
  with r1 c assms(5) show ?thesis by (simp add: br_read_exp_golomb_def) linarith
qed

lemma encode_value:
  "v \<noteq> - 1 \<Longrightarrow> (ucast (v :: u32) + 1 :: u64) \<noteq> 0 \<and> (ucast v + 1 :: u64) < 2 ^ 32 \<and>
     ucast (ucast v + 1 :: u64) = v + 1"
proof -
  assume v: "v \<noteq> - 1"
  have max: "uint (- 1 :: u32) = 4294967295" by (simp add: unsigned_minus_1_eq_mask mask_eq_exp_minus_1)
  have "uint v < 4294967296" using uint_lt2p [of v] by simp
  moreover have "uint v \<noteq> 4294967295" using v max by (metis word_uint_eq_iff)
  ultimately have lt: "uint v < 4294967295" by linarith
  have u: "uint (ucast v + 1 :: u64) = uint v + 1"
    using lt uint_ge_0 [of v] by (subst uint_add_lem [THEN iffD1]) (auto simp: unsigned_ucast_eq take_bit_int_eq_self)
  have "uint (ucast v + 1 :: u64) \<noteq> 0" using u uint_ge_0 [of v] by linarith
  then have "(ucast v + 1 :: u64) \<noteq> 0" by auto
  moreover have "(ucast v + 1 :: u64) < 2 ^ 32" using u lt by (simp add: word_less_def)
  moreover have "ucast (ucast v + 1 :: u64) = v + 1"
    by (rule word_uint_eqI) (use u lt uint_ge_0 [of v] in \<open>simp add: unsigned_ucast_eq uint_word_ariths take_bit_eq_mod\<close>)
  ultimately show ?thesis by blast
qed

definition exp_golomb_size :: "u32 \<Rightarrow> nat" where
  "exp_golomb_size v = count_bits (ucast v + 1) * 2 - 1"

lemma write_read_exp_golomb:
  assumes "v \<noteq> - 1" "bw_ok w" "exp_golomb_size v \<le> bw_remaining_bit_count w"
  shows "\<exists>w' r r'. bw_write_exp_golomb v w = Some (True, w') \<and>
    br_seek (bw_byte_offset w) (bw_bit_offset w) (new_bit_reader (bw_bytes w')) = (True, r) \<and>
    br_read_exp_golomb r = Some (Some v, r') \<and>
    br_byte_offset r' = bw_byte_offset w' \<and> br_bit_offset r' = bw_bit_offset w'"
proof -
  let ?e = "ucast v + 1 :: u64"
  define c where "c = count_bits ?e"
  note e = encode_value [OF assms(1)]
  note code = exp_golomb_code [OF conjunct1 [OF e] conjunct1 [OF conjunct2 [OF e]] c_def]
  obtain tail where tail: "low_bits c ?e = True # tail" using code(4) by blast
  have n: "0 < c * 2 - 1" "c * 2 - 1 \<le> 64" "c * 2 - 1 \<le> bw_remaining_bit_count w"
    using code(1,2) assms(3) by (auto simp: exp_golomb_size_def c_def)
  obtain w' where w': "bw_write_bits ?e (c * 2 - 1) w = Some (True, w')" "bw_ok w'"
    "bw_pos w' = bw_pos w + (c * 2 - 1)" "length (bw_bytes w') = length (bw_bytes w)"
    "stream (bw_bytes w') = take (bw_pos w) (stream (bw_bytes w)) @ low_bits (c * 2 - 1) ?e @
      drop (bw_pos w + (c * 2 - 1)) (stream (bw_bytes w))"
    using bw_write_stream [OF assms(2) n] by blast
  obtain r where r: "br_seek (bw_byte_offset w) (bw_bit_offset w) (new_bit_reader (bw_bytes w')) = (True, r)"
    "br_ok r" "br_pos r = bw_pos w" "br_bytes r = bw_bytes w'"
    using seek_written [OF assms(2) w'(4)] by blast
  have "drop (br_pos r) (stream (br_bytes r)) = replicate (c - 1) False @ low_bits c ?e @
      drop (bw_pos w + (c * 2 - 1)) (stream (bw_bytes w))"
    using assms(2) code(3) by (simp add: r w'(5) bw_ok_def min_absorb2)
  from read_exp_golomb_stream [OF r(2) this tail _ code(2)] code(2) obtain r' where
    r': "br_read_exp_golomb r = Some (Some (bits_word (low_bits c ?e) - 1), r')" "br_ok r'"
    "br_pos r' = br_pos r + (c * 2 - 1)"
    by auto
  have "take_bit c ?e = ?e"
    using count_bits_bound [of ?e] c_def by (intro bit_word_eqI) (auto simp: bit_take_bit_iff)
  then have val: "bits_word (low_bits c ?e) - 1 = v" using code(2) e by (simp add: bits_word_low)
  have "br_byte_offset r' = bw_byte_offset w' \<and> br_bit_offset r' = bw_bit_offset w'"
    using r' w' r(3) by (intro same_pos_same_offsets) (auto simp: br_ok_def bw_ok_def br_pos_def bw_pos_def)
  with w'(1) r(1) r'(1) val assms(1) show ?thesis
    by (simp add: bw_write_exp_golomb_def c_def)
qed

text \<open>
  C36. Exp-Golomb codes: every value but the one the writer refuses is read back by a reader placed
  where the writer was, and the reader stops where the writer stopped.
\<close>

theorem exp_golomb_roundtrip:
  assumes "v \<noteq> - 1" "bw_bit_offset w < 8"
    and "8 * bw_byte_offset w + bw_bit_offset w + exp_golomb_size v \<le> 8 * length (bw_bytes w)"
  shows "\<exists>w' r r'. bw_write_exp_golomb v w = Some (True, w') \<and>
    br_seek (bw_byte_offset w) (bw_bit_offset w) (new_bit_reader (bw_bytes w')) = (True, r) \<and>
    br_read_exp_golomb r = Some (Some v, r') \<and>
    br_byte_offset r' = bw_byte_offset w' \<and> br_bit_offset r' = bw_bit_offset w'"
  using assms by (intro write_read_exp_golomb) (auto simp: bw_ok_def bw_pos_def bw_remaining)

definition signed_code :: "u32 \<Rightarrow> u32" where
  "signed_code s = (if s = 0 then 0 else if sint s > 0 then s * 2 - 1 else - s * 2)"

lemma write_signed_code:
  "s \<noteq> 0x80000000 \<Longrightarrow> bw_write_signed_exp_golomb s w = bw_write_exp_golomb (signed_code s) w"
  by (simp add: bw_write_signed_exp_golomb_def signed_code_def)

lemma uint_word_of_int_32: "0 \<le> e \<Longrightarrow> e < 4294967296 \<Longrightarrow> uint (word_of_int e :: u32) = e"
  by (simp add: unsigned_of_int take_bit_int_eq_self)

lemma even_word_of_int: "(word_of_int e :: u32) AND 1 = 0 \<longleftrightarrow> even e"
  by transfer (auto simp: and_one_eq mod_2_eq_odd)

lemma half_word_of_int: "0 \<le> e \<Longrightarrow> e < 4294967296 \<Longrightarrow> (word_of_int e :: u32) div 2 = word_of_int (e div 2)"
  by (rule word_uint_eqI) (simp add: uint_div uint_word_of_int_32)

lemma signed_code_decodes:
  assumes "s \<noteq> 0x80000000"
  shows "signed_code s \<noteq> - 1 \<and>
    (if signed_code s AND 1 = 0 then - (signed_code s div 2) else (signed_code s + 1) div 2) = s"
proof -
  define x where "x = sint s"
  have s: "s = word_of_int x" by (simp add: x_def)
  have "x \<noteq> - 2147483648" using assms s by auto
  moreover have "- 2147483648 \<le> x" "x < 2147483648"
    using sint_greater_eq [of s] sint_less [of s] by (simp_all add: x_def)
  ultimately have x: "- 2147483648 < x" "x < 2147483648" by auto
  define e where "e = (if x > 0 then 2 * x - 1 else - (2 * x))"
  have e: "0 \<le> e" "e < 4294967295" using x by (auto simp: e_def)
  have z: "s = 0 \<longleftrightarrow> x = 0"
  proof
    assume "x = 0"
    then show "s = 0" by (subst s) simp
  qed (simp add: x_def)
  have code: "signed_code s = word_of_int e"
    unfolding signed_code_def x_def [symmetric] z e_def using s by auto
  have "signed_code s \<noteq> - 1"
    using uint_word_of_int_32 [of e] e unfolding code
    by (auto simp: unsigned_minus_1_eq_mask mask_eq_exp_minus_1)
  moreover have "(if even e then - (word_of_int e div 2) else (word_of_int e + 1) div 2) = s"
  proof (cases "x > 0")
    case True
    then have "odd e" "(e + 1) div 2 = x" by (auto simp: e_def)
    moreover have "word_of_int e + 1 = (word_of_int (e + 1) :: u32)" by simp
    ultimately show ?thesis using half_word_of_int [of "e + 1"] e s by simp
  next
    case False
    then have "even e" "- (e div 2) = x" by (auto simp: e_def)
    moreover have "- word_of_int (e div 2) = (word_of_int (- (e div 2)) :: u32)" by simp
    ultimately show ?thesis using half_word_of_int [of e] e s by simp
  qed
  ultimately show ?thesis unfolding code even_word_of_int by simp
qed

theorem exp_golomb_roundtrip_witness:
  "\<exists>w' r r'. bw_write_exp_golomb 5 \<lparr>bw_bytes = [0xFF, 0], bw_byte_offset = 0, bw_bit_offset = 6\<rparr> = Some (True, w') \<and>
    br_seek 0 6 (new_bit_reader (bw_bytes w')) = (True, r) \<and>
    br_read_exp_golomb r = Some (Some 5, r') \<and>
    br_byte_offset r' = bw_byte_offset w' \<and> br_bit_offset r' = bw_bit_offset w'"
proof -
  have d: "drop_bit 1 6 = (3 :: u64)" "drop_bit 1 3 = (1 :: u64)" "drop_bit 1 1 = (0 :: u64)" by simp_all
  have "count_bits 6 = 3"
    unfolding count_bits.simps [of 6] d count_bits.simps [of 3] count_bits.simps [of 1] count_bits.simps [of 0] by simp
  then have "exp_golomb_size 5 = 5" by (simp add: exp_golomb_size_def)
  then show ?thesis
    using exp_golomb_roundtrip [of 5 "\<lparr>bw_bytes = [0xFF, 0], bw_byte_offset = 0, bw_bit_offset = 6\<rparr>"]
    by simp
qed

text \<open>The signed codes go through the unsigned ones, at the code number of the signed value.\<close>

lemma signed_exp_golomb_roundtrip:
  assumes "s \<noteq> 0x80000000" "bw_ok w" "exp_golomb_size (signed_code s) \<le> bw_remaining_bit_count w"
  shows "\<exists>w' r r'. bw_write_signed_exp_golomb s w = Some (True, w') \<and>
    br_seek (bw_byte_offset w) (bw_bit_offset w) (new_bit_reader (bw_bytes w')) = (True, r) \<and>
    br_read_signed_exp_golomb r = Some (Some s, r') \<and>
    br_byte_offset r' = bw_byte_offset w' \<and> br_bit_offset r' = bw_bit_offset w'"
  using write_read_exp_golomb [OF _ assms(2,3)] signed_code_decodes [OF assms(1)]
  by (fastforce simp: write_signed_code [OF assms(1)] br_read_signed_exp_golomb_def)

end
