(* ===== verification/PacketBuffer.thy ===== *)
theory PacketBuffer
  imports SeqNum
begin

text \<open>
  The jitter buffer's packet buffer, \<^verbatim>\<open>rtp_rtcp/rtp/receiver/video/jitter/packet_buffer.cpp\<close>:
  packets of video frames arrive in any order and leave as complete frames.

  The buffer is a list of slots; a packet is stored at its sequence number modulo the number of
  slots. The set of missing packets, ordered by \<^verbatim>\<open>OlderThan\<close>, is a list in comparator order.
  \<open>None\<close> is a null pointer dereference, an access outside a container, a failed assertion or the
  exception of \<^verbatim>\<open>std::get\<close> on the wrong alternative.
\<close>

section \<open>Data\<close>

datatype codec_type = GENERIC | H264 | VP8 | VP9 | AV1 | MULTIPLEX

datatype frame_type = FT_EMPTY | FT_KEY | FT_DELTA

record h264_info =
  nalu_count :: nat
  has_sps :: bool
  has_pps :: bool
  has_idr :: bool

record vb_packet =
  vp_width :: int
  vp_height :: int
  vp_frame_type :: frame_type
  vp_codec :: codec_type
  vp_is_first :: bool
  vp_is_last :: bool
  vp_h264 :: "h264_info option"
  vp_payload :: "byte list"
  vp_continuous :: bool
  vp_seq_num :: u16
  vp_timestamp :: u32
  vp_received_time_ms :: int
  vp_times_nacked :: int

record vb_frame =
  vf_width :: int
  vf_height :: int
  vf_frame_type :: frame_type
  vf_codec :: codec_type
  vf_seq_num_start :: u16
  vf_seq_num_end :: u16
  vf_timestamp :: u32
  vf_times_nacked :: int
  vf_min_received_time_ms :: int
  vf_max_received_time_ms :: int
  vf_num_packets :: nat
  vf_bitstream :: "byte list"

type_synonym slots = "vb_packet option list"

record packet_buffer =
  pb_max_size :: nat
  pb_slots :: slots
  pb_first_seq_num :: u16
  pb_first_packet_received :: bool
  pb_is_cleared :: bool
  pb_sps_pps_idr_is_keyframe :: bool
  pb_newest_inserted :: "u16 option"
  pb_missing :: "u16 list"

record pb_result =
  assembled_frames :: "vb_frame list"
  pb_keyframe_requested :: bool

definition kMaxMissingPacketCount :: nat where "kMaxMissingPacketCount = 1000"
definition kMaxNaluNumPerPacket :: nat where "kMaxNaluNumPerPacket = 10"

definition new_packet_buffer :: "nat \<Rightarrow> nat \<Rightarrow> packet_buffer" where
  "new_packet_buffer initial_size max_size =
     \<lparr>pb_max_size = max_size, pb_slots = replicate initial_size None, pb_first_seq_num = 0,
      pb_first_packet_received = False, pb_is_cleared = False, pb_sps_pps_idr_is_keyframe = True,
      pb_newest_inserted = None, pb_missing = []\<rparr>"

section \<open>Slots and the set of missing packets\<close>

definition slot_index :: "slots \<Rightarrow> u16 \<Rightarrow> nat option" where
  "slot_index s seq = (if s = [] then None else Some (unat seq mod length s))"

definition prev_index :: "slots \<Rightarrow> nat \<Rightarrow> nat" where
  "prev_index s i = (if i > 0 then i - 1 else length s - 1)"

definition get_slot :: "slots \<Rightarrow> nat \<Rightarrow> vb_packet option option" where
  "get_slot s i = (if i < length s then Some (s ! i) else None)"

text \<open>A slot that is dereferenced.\<close>

definition get_packet :: "slots \<Rightarrow> nat \<Rightarrow> vb_packet option" where
  "get_packet s i = Option.bind (get_slot s i) (\<lambda>p. p)"

definition missing_below_upper :: "u16 \<Rightarrow> u16 list \<Rightarrow> u16 list" where
  "missing_below_upper k xs = takeWhile (\<lambda>x. \<not> older_than k x) xs"

section \<open>Continuity\<close>

definition is_continuous :: "u16 \<Rightarrow> slots \<Rightarrow> bool option" where
  "is_continuous seq s = do {
     i \<leftarrow> slot_index s seq;
     c \<leftarrow> get_slot s i;
     case c of
       None \<Rightarrow> Some False
     | Some p \<Rightarrow>
         if vp_seq_num p \<noteq> seq then Some False
         else if vp_is_first p then Some True
         else do {
           q \<leftarrow> get_slot s (prev_index s i);
           Some (case q of
             None \<Rightarrow> False
           | Some q \<Rightarrow>
               if vp_seq_num q \<noteq> vp_seq_num p - 1 then False
               else if vp_timestamp q \<noteq> vp_timestamp p then False
               else vp_continuous q) } }"

section \<open>Assembling one frame\<close>

record scan_state =
  sc_size :: nat
  sc_sps :: bool
  sc_pps :: bool
  sc_idr :: bool
  sc_keyframe :: bool
  sc_idr_width :: int
  sc_idr_height :: int

definition scan_start :: scan_state where
  "scan_start = \<lparr>sc_size = 0, sc_sps = False, sc_pps = False, sc_idr = False, sc_keyframe = False,
     sc_idr_width = - 1, sc_idr_height = - 1\<rparr>"

definition scan_h264 :: "bool \<Rightarrow> vb_packet \<Rightarrow> h264_info \<Rightarrow> scan_state \<Rightarrow> scan_state" where
  "scan_h264 sps_pps_idr p h a =
     (let a = a\<lparr>sc_sps := sc_sps a \<or> has_sps h, sc_pps := sc_pps a \<or> has_pps h,
                sc_idr := sc_idr a \<or> has_idr h\<rparr>
      in if (sps_pps_idr \<and> sc_sps a \<and> sc_pps a \<and> sc_idr a) \<or> (\<not> sps_pps_idr \<and> sc_idr a)
         then (let a = a\<lparr>sc_keyframe := True\<rparr>
               in if vp_width p > 0 \<and> vp_height p > 0
                  then a\<lparr>sc_idr_width := vp_width p, sc_idr_height := vp_height p\<rparr> else a)
         else a)"

text \<open>
  The loop back to the first packet of the frame. The number is that of the slots not yet tested;
  \<open>Inl\<close> is the return of the whole function on a packet with too many units.
\<close>

primrec scan_frame ::
  "nat \<Rightarrow> bool \<Rightarrow> bool \<Rightarrow> u32 \<Rightarrow> slots \<Rightarrow> nat \<Rightarrow> u16 \<Rightarrow> scan_state \<Rightarrow> (unit + u16 \<times> scan_state) option" where
  "scan_frame 0 sps_pps_idr is_h264 ts s i start a = None"
| "scan_frame (Suc untested) sps_pps_idr is_h264 ts s i start a = do {
     p \<leftarrow> get_packet s i;
     let a = a\<lparr>sc_size := sc_size a + length (vp_payload p)\<rparr>;
     if \<not> is_h264 \<and> vp_is_first p then Some (Inr (start, a))
     else do {
       r \<leftarrow> (if \<not> is_h264 then Some (Some a)
            else case vp_h264 p of
                None \<Rightarrow> None
              | Some h \<Rightarrow> Some (if nalu_count h \<ge> kMaxNaluNumPerPacket then None
                               else Some (scan_h264 sps_pps_idr p h a)));
       case r of
         None \<Rightarrow> Some (Inl ())
       | Some a \<Rightarrow>
           if untested = 0 then Some (Inr (start, a))
           else do {
             let i = prev_index s i;
             q \<leftarrow> get_slot s i;
             if is_h264 \<and> (case q of None \<Rightarrow> True | Some q \<Rightarrow> vp_timestamp q \<noteq> ts)
             then Some (Inr (start, a))
             else scan_frame untested sps_pps_idr is_h264 ts s i (start - 1) a } } }"

text \<open>The type and resolution of an H.264 frame are stored in its first packet.\<close>

definition mark_first :: "scan_state \<Rightarrow> u16 \<Rightarrow> slots \<Rightarrow> slots option" where
  "mark_first a start s = do {
     i \<leftarrow> slot_index s start;
     p \<leftarrow> get_packet s i;
     Some (s[i := Some (if sc_keyframe a
       then (let p = p\<lparr>vp_frame_type := FT_KEY\<rparr>
             in if sc_idr_width a > 0 \<and> sc_idr_height a > 0
                then p\<lparr>vp_width := sc_idr_width a, vp_height := sc_idr_height a\<rparr> else p)
       else p\<lparr>vp_frame_type := FT_DELTA\<rparr>)]) }"

definition frame_of_first :: "vb_packet \<Rightarrow> vb_frame \<Rightarrow> vb_frame" where
  "frame_of_first p f = f\<lparr>
     vf_width := vp_width p, vf_height := vp_height p, vf_codec := vp_codec p,
     vf_frame_type := vp_frame_type p, vf_seq_num_start := vp_seq_num p,
     vf_timestamp := vp_timestamp p, vf_times_nacked := vp_times_nacked p,
     vf_min_received_time_ms := vp_received_time_ms p,
     vf_max_received_time_ms := vp_received_time_ms p\<rparr>"

definition add_packet :: "u16 \<Rightarrow> u16 \<Rightarrow> u16 \<Rightarrow> vb_packet \<Rightarrow> nat \<Rightarrow> vb_frame \<Rightarrow> vb_frame option" where
  "add_packet i start seq p at_pos f = do {
     let f = (if i = start then frame_of_first p f else f);
     let f = (if i = seq then f\<lparr>vf_seq_num_end := vp_seq_num p\<rparr> else f);
     let f = f\<lparr>vf_times_nacked := max (vf_times_nacked f) (vf_times_nacked f),
               vf_min_received_time_ms := min (vf_min_received_time_ms f) (vp_received_time_ms p),
               vf_max_received_time_ms := max (vf_max_received_time_ms f) (vp_received_time_ms p)\<rparr>;
     bits \<leftarrow> wr at_pos (vp_payload p) (vf_bitstream f);
     Some (f\<lparr>vf_bitstream := bits\<rparr>) }"

function copy_packets ::
  "u16 \<Rightarrow> u16 \<Rightarrow> u16 \<Rightarrow> u16 \<Rightarrow> nat \<Rightarrow> slots \<Rightarrow> vb_frame \<Rightarrow> (nat \<times> slots \<times> vb_frame) option" where
  "copy_packets i e start seq at_pos s f =
     (if i = e then Some (at_pos, s, f)
      else do {
        j \<leftarrow> slot_index s i;
        p \<leftarrow> get_packet s j;
        if vp_seq_num p \<noteq> i then None
        else do {
          f \<leftarrow> add_packet i start seq p at_pos f;
          copy_packets (i + 1) e start seq (at_pos + length (vp_payload p)) (s[j := None]) f } })"
  by pat_completeness auto
termination
  by (relation "measure (\<lambda>(i, e, _). unat (e - i))") (simp_all add: forward_step_less)

declare copy_packets.simps [simp del]

definition blank_frame :: "nat \<Rightarrow> nat \<Rightarrow> vb_frame" where
  "blank_frame num_packets frame_size =
     \<lparr>vf_width = 0, vf_height = 0, vf_frame_type = FT_EMPTY, vf_codec = GENERIC,
      vf_seq_num_start = 0, vf_seq_num_end = 0, vf_timestamp = 0, vf_times_nacked = - 1,
      vf_min_received_time_ms = - 1, vf_max_received_time_ms = - 1, vf_num_packets = num_packets,
      vf_bitstream = replicate frame_size 0\<rparr>"

text \<open>The part of the loop body run at the last packet of a frame; \<open>Inl\<close> returns from the function.\<close>

definition assemble_frame :: "u16 \<Rightarrow> packet_buffer \<Rightarrow> (packet_buffer + vb_frame \<times> packet_buffer) option" where
  "assemble_frame seq b = do {
     let s = pb_slots b;
     index \<leftarrow> slot_index s seq;
     p \<leftarrow> get_packet s index;
     let is_h264 = (vp_codec p = H264);
     r \<leftarrow> scan_frame (length s) (pb_sps_pps_idr_is_keyframe b) is_h264 (vp_timestamp p) s index seq scan_start;
     case r of
       Inl _ \<Rightarrow> Some (Inl b)
     | Inr (start, a) \<Rightarrow> do {
         s \<leftarrow> (if is_h264 then mark_first a start s else Some s);
         let b = b\<lparr>pb_slots := s\<rparr>;
         if is_h264 \<and> \<not> sc_keyframe a \<and> missing_below_upper start (pb_missing b) \<noteq> []
         then Some (Inl b)
         else do {
           let num_packets = unat (seq + 1 - start);
           (n, s, f) \<leftarrow> copy_packets start (seq + 1) start seq 0 s (blank_frame num_packets (sc_size a));
           Some (Inr (f, b\<lparr>pb_slots := s,
             pb_missing := dropWhile (\<lambda>x. \<not> older_than seq x) (pb_missing b)\<rparr>)) } } }"

definition set_continuous :: "nat \<Rightarrow> slots \<Rightarrow> slots option" where
  "set_continuous i s = map_option (\<lambda>p. s[i := Some (p\<lparr>vp_continuous := True\<rparr>)]) (get_packet s i)"

primrec assemble_loop ::
  "nat \<Rightarrow> u16 \<Rightarrow> packet_buffer \<Rightarrow> vb_frame list \<Rightarrow> (vb_frame list \<times> packet_buffer) option" where
  "assemble_loop 0 seq b frames = Some (frames, b)"
| "assemble_loop (Suc n) seq b frames = do {
     ok \<leftarrow> is_continuous seq (pb_slots b);
     if \<not> ok then Some (frames, b)
     else do {
       i \<leftarrow> slot_index (pb_slots b) seq;
       s \<leftarrow> set_continuous i (pb_slots b);
       p \<leftarrow> get_packet s i;
       let b = b\<lparr>pb_slots := s\<rparr>;
       if vp_is_last p then do {
         r \<leftarrow> assemble_frame seq b;
         case r of
           Inl b \<Rightarrow> Some (frames, b)
         | Inr (f, b) \<Rightarrow> assemble_loop n (seq + 1) b (frames @ [f]) }
       else assemble_loop n (seq + 1) b frames } }"

definition try_to_assemble_frames :: "u16 \<Rightarrow> packet_buffer \<Rightarrow> (vb_frame list \<times> packet_buffer) option" where
  "try_to_assemble_frames seq b = assemble_loop (length (pb_slots b)) seq b []"

section \<open>Missing packets\<close>

function insert_missing_loop :: "u16 \<Rightarrow> u16 \<Rightarrow> u16 list \<Rightarrow> u16 \<times> u16 list" where
  "insert_missing_loop seq newest ms =
     (let newest = newest + 1
      in if ahead_of seq newest then insert_missing_loop seq newest (set_insert newest ms)
         else (newest, ms))"
  by pat_completeness auto
termination
proof (relation "measure (\<lambda>(seq, newest, _). unat (seq - newest))")
  fix seq newest newest' :: u16 and ms
  assume a: "newest' = newest + 1" "ahead_of seq newest'"
  have "newest \<noteq> seq"
  proof
    assume "newest = seq"
    with a have "ahead_of seq (seq + 1)" by simp
    then show False
      using uint_half_bounds [of seq]
      by (auto simp: ahead_of_iff uint_half_range uint_word_ariths mod_add_if_z split: if_splits)
  qed
  with a(1) show "((seq, newest', set_insert newest' ms), (seq, newest, ms)) \<in>
      measure (\<lambda>(seq, newest, _). unat (seq - newest))"
    by (simp add: forward_step_less)
qed simp

declare insert_missing_loop.simps [simp del]

definition update_missing_packets :: "u16 \<Rightarrow> nat \<Rightarrow> packet_buffer \<Rightarrow> packet_buffer" where
  "update_missing_packets seq window_size b =
     (let newest = (case pb_newest_inserted b of None \<Rightarrow> seq | Some n \<Rightarrow> n)
      in if ahead_of seq newest then
           (let old_seq = seq - of_nat window_size;
                ms = dropWhile (\<lambda>x. older_than x old_seq) (pb_missing b);
                newest = (if ahead_of old_seq newest then old_seq else newest);
                (newest, ms) = insert_missing_loop seq newest ms
            in b\<lparr>pb_newest_inserted := Some newest, pb_missing := ms\<rparr>)
         else b\<lparr>pb_newest_inserted := Some newest, pb_missing := filter (\<lambda>x. x \<noteq> seq) (pb_missing b)\<rparr>)"

section \<open>Growing the buffer\<close>

text \<open>
  The loop that looks for a size: \<open>None\<close> is a division by zero, \<open>Some None\<close> that no size up to the
  maximum will do. The comparison is that of the source: the remainder of the stored packet's
  sequence number against the whole sequence number of the new one.
\<close>

function expand_size :: "nat \<Rightarrow> slots \<Rightarrow> u16 \<Rightarrow> nat \<Rightarrow> nat option option" where
  "expand_size max_size s seq new_size =
     (if new_size \<le> max_size then
        if new_size = 0 then None
        else if list_ex (\<lambda>c. case c of None \<Rightarrow> False
               | Some p \<Rightarrow> unat (vp_seq_num p) mod new_size = unat seq) s
        then (if new_size < max_size then expand_size max_size s seq (min max_size (2 * new_size))
              else Some None)
        else Some (Some new_size)
      else Some (Some new_size))"
  by pat_completeness auto
termination
  by (relation "measure (\<lambda>(max_size, _, _, new_size). max_size - new_size)") auto

declare expand_size.simps [simp del]

fun rehash :: "nat \<Rightarrow> slots \<Rightarrow> slots \<Rightarrow> slots" where
  "rehash new_size [] new = new"
| "rehash new_size (c # s) new =
     rehash new_size s (case c of None \<Rightarrow> new | Some p \<Rightarrow> new[unat (vp_seq_num p) mod new_size := Some p])"

definition expand_packet_buffer :: "nat \<Rightarrow> packet_buffer \<Rightarrow> packet_buffer" where
  "expand_packet_buffer new_size b =
     (if length (pb_slots b) = pb_max_size b then b
      else (let new_size = min (pb_max_size b) new_size
            in b\<lparr>pb_slots := rehash new_size (pb_slots b) (replicate new_size None)\<rparr>))"

definition expand_if_necessary :: "u16 \<Rightarrow> packet_buffer \<Rightarrow> (bool \<times> packet_buffer) option" where
  "expand_if_necessary seq b = do {
     i \<leftarrow> slot_index (pb_slots b) seq;
     c \<leftarrow> get_slot (pb_slots b) i;
     if c = None then Some (True, b)
     else if length (pb_slots b) = pb_max_size b then Some (False, b)
     else do {
       r \<leftarrow> expand_size (pb_max_size b) (pb_slots b) seq (min (pb_max_size b) (2 * length (pb_slots b)));
       Some (case r of None \<Rightarrow> (False, b) | Some n \<Rightarrow> (True, expand_packet_buffer n b)) } }"

section \<open>Operations\<close>

definition pb_clear :: "packet_buffer \<Rightarrow> packet_buffer" where
  "pb_clear b = b\<lparr>pb_slots := map (\<lambda>_. None) (pb_slots b), pb_first_packet_received := False,
     pb_is_cleared := False, pb_newest_inserted := None, pb_missing := []\<rparr>"

definition set_sps_pps_idr_is_h264_keyframe :: "bool \<Rightarrow> packet_buffer \<Rightarrow> packet_buffer" where
  "set_sps_pps_idr_is_h264_keyframe flag b = b\<lparr>pb_sps_pps_idr_is_keyframe := flag\<rparr>"

definition store_packet :: "vb_packet \<Rightarrow> packet_buffer \<Rightarrow> (pb_result \<times> packet_buffer) option" where
  "store_packet p b = do {
     let seq = vp_seq_num p;
     i \<leftarrow> slot_index (pb_slots b) seq;
     let b = b\<lparr>pb_slots := (pb_slots b)[i := Some (p\<lparr>vp_continuous := False\<rparr>)]\<rparr>;
     let b = update_missing_packets seq kMaxMissingPacketCount b;
     (frames, b) \<leftarrow> try_to_assemble_frames seq b;
     Some (\<lparr>assembled_frames = frames, pb_keyframe_requested = False\<rparr>, b) }"

definition update_first_seq_num :: "u16 \<Rightarrow> packet_buffer \<Rightarrow> packet_buffer" where
  "update_first_seq_num seq b =
     (if \<not> pb_first_packet_received b
      then b\<lparr>pb_first_seq_num := seq, pb_first_packet_received := True\<rparr>
      else if ahead_of (pb_first_seq_num b) seq then b\<lparr>pb_first_seq_num := seq\<rparr> else b)"

definition pb_insert_packet :: "vb_packet \<Rightarrow> packet_buffer \<Rightarrow> (pb_result \<times> packet_buffer) option" where
  "pb_insert_packet p b = do {
     let seq = vp_seq_num p;
     let nothing = \<lparr>assembled_frames = [], pb_keyframe_requested = False\<rparr>;
     index \<leftarrow> slot_index (pb_slots b) seq;
     if pb_first_packet_received b \<and> ahead_of (pb_first_seq_num b) seq \<and> pb_is_cleared b
     then Some (nothing, b)
     else do {
       let b = update_first_seq_num seq b;
       c \<leftarrow> get_slot (pb_slots b) index;
       case c of
         None \<Rightarrow> store_packet p b
       | Some q \<Rightarrow>
           if vp_seq_num q = seq then Some (nothing, b)
           else do {
             (ok, b) \<leftarrow> expand_if_necessary seq b;
             if \<not> ok then Some (\<lparr>assembled_frames = [], pb_keyframe_requested = True\<rparr>, pb_clear b)
             else store_packet p b } } }"

definition pb_insert_padding :: "u16 \<Rightarrow> packet_buffer \<Rightarrow> (pb_result \<times> packet_buffer) option" where
  "pb_insert_padding seq b = do {
     let b = update_missing_packets seq kMaxMissingPacketCount b;
     (frames, b) \<leftarrow> try_to_assemble_frames (seq + 1) b;
     Some (\<lparr>assembled_frames = frames, pb_keyframe_requested = False\<rparr>, b) }"

primrec clear_slots :: "nat \<Rightarrow> u16 \<Rightarrow> u16 \<Rightarrow> slots \<Rightarrow> slots" where
  "clear_slots 0 seq first s = s"
| "clear_slots (Suc n) seq first s =
     (let i = unat first mod length s
      in clear_slots n seq (first + 1)
           (case s ! i of
              None \<Rightarrow> s
            | Some p \<Rightarrow> if ahead_of seq (vp_seq_num p) then s[i := None] else s))"

definition pb_clear_to :: "u16 \<Rightarrow> packet_buffer \<Rightarrow> packet_buffer" where
  "pb_clear_to seq b =
     (if pb_is_cleared b \<and> ahead_of (pb_first_seq_num b) seq then b
      else if \<not> pb_first_packet_received b then b
      else
        (let seq = seq + 1;
             diff = unat (forward_diff (pb_first_seq_num b) seq);
             iterations = min diff (length (pb_slots b));
             below = missing_below_upper seq (pb_missing b)
         in b\<lparr>pb_slots := clear_slots iterations seq (pb_first_seq_num b) (pb_slots b),
              pb_first_seq_num := seq, pb_is_cleared := True,
              pb_missing := (if below = [] then pb_missing b
                             else drop (length below - 1) (pb_missing b))\<rparr>))"

section \<open>Slots by offset\<close>

text \<open>
  For a buffer whose size divides the range of sequence numbers, the slots are a function of the
  offset of a sequence number from a base, and the operations update that function.
\<close>

definition slot_pos :: "u16 \<Rightarrow> nat \<Rightarrow> nat \<Rightarrow> nat" where
  "slot_pos base n j = (unat base + j) mod n"

definition layout :: "u16 \<Rightarrow> nat \<Rightarrow> (nat \<Rightarrow> vb_packet option) \<Rightarrow> slots" where
  "layout base n g = map (\<lambda>i. g ((i + (n - unat base mod n)) mod n)) [0..<n]"

lemma length_layout [simp]: "length (layout base n g) = n"
  by (simp add: layout_def)

lemma layout_Nil [simp]: "layout base n g = [] \<longleftrightarrow> n = 0"
  by (simp add: layout_def)

lemma slot_pos_less [simp]: "0 < n \<Longrightarrow> slot_pos base n j < n"
  by (simp add: slot_pos_def)

lemma slot_pos_back:
  assumes "j < n"
  shows "(slot_pos base n j + (n - unat base mod n)) mod n = j"
proof -
  have n: "0 < n" using assms by simp
  have "(slot_pos base n j + (n - unat base mod n)) mod n =
      (unat base mod n + j + (n - unat base mod n)) mod n"
    by (simp only: slot_pos_def mod_add_left_eq add.assoc)
  also have "unat base mod n + j + (n - unat base mod n) = j + n"
    using mod_less_divisor [OF n, of "unat base"] by linarith
  finally show ?thesis using assms by simp
qed

lemma slot_pos_inj: "i < n \<Longrightarrow> j < n \<Longrightarrow> slot_pos base n i = slot_pos base n j \<longleftrightarrow> i = j"
  using slot_pos_back by metis

lemma layout_nth: "j < n \<Longrightarrow> layout base n g ! slot_pos base n j = g j"
  using slot_pos_back [of j n base] by (simp add: layout_def)

lemma offset_of_slot:
  assumes "i < n"
  obtains j where "j < n" "i = slot_pos base n j"
proof
  let ?j = "(i + (n - unat base mod n)) mod n"
  show "?j < n" using assms by simp
  have "slot_pos base n ?j = (unat base mod n + (i + (n - unat base mod n))) mod n"
    by (simp add: slot_pos_def mod_simps)
  also have "unat base mod n + (i + (n - unat base mod n)) = i + n"
    using mod_less_divisor [of n "unat base"] assms by linarith
  finally show "i = slot_pos base n ?j" using assms by simp
qed

lemma layout_eqI: "(\<And>j. j < n \<Longrightarrow> g j = h j) \<Longrightarrow> layout base n g = layout base n h"
  by (simp add: layout_def)

lemma layout_update: "j < n \<Longrightarrow> (layout base n g)[slot_pos base n j := x] = layout base n (g(j := x))"
proof (rule nth_equalityI)
  fix i assume j: "j < n" and "i < length ((layout base n g)[slot_pos base n j := x])"
  then have "i < n" by simp
  then obtain k where "k < n" "i = slot_pos base n k" by (rule offset_of_slot)
  with j show "(layout base n g)[slot_pos base n j := x] ! i = layout base n (g(j := x)) ! i"
    by (auto simp: layout_nth nth_list_update slot_pos_inj)
qed simp

lemma slot_pos_prev: "0 < n \<Longrightarrow> prev_index (layout base n g) (slot_pos base n (Suc j)) = slot_pos base n j"
  by (auto simp: prev_index_def slot_pos_def mod_Suc)

lemma slot_pos_wrap [simp]: "slot_pos base n n = slot_pos base n 0"
  by (simp add: slot_pos_def)

lemma slot_index_layout:
  assumes "n dvd 65536" "0 < n"
  shows "slot_index (layout base n g) (base + of_nat j) = Some (slot_pos base n j)"
proof -
  have "unat (base + of_nat j :: u16) mod n = (unat base + j) mod 65536 mod n"
    by (simp add: unat_word_ariths unat_of_nat mod_simps)
  also have "\<dots> = (unat base + j) mod n" using assms(1) by (rule mod_mod_cancel)
  finally show ?thesis using assms(2) by (simp add: slot_index_def slot_pos_def)
qed

lemma get_slot_layout: "j < n \<Longrightarrow> get_slot (layout base n g) (slot_pos base n j) = Some (g j)"
  by (simp add: get_slot_def layout_nth)

lemma get_packet_layout: "j < n \<Longrightarrow> get_packet (layout base n g) (slot_pos base n j) = g j"
  by (simp add: get_packet_def get_slot_layout)

lemma offsets_differ: "i < 65536 \<Longrightarrow> j < 65536 \<Longrightarrow> base + of_nat i = base + of_nat j \<longleftrightarrow> i = j" for base :: u16
proof
  assume ij: "i < 65536" "j < 65536" and "base + of_nat i = base + of_nat j"
  then have "unat (of_nat i :: u16) = unat (of_nat j :: u16)" by simp
  then show "i = j"
    using ij unat_of_nat_small [of i, where 'a = 16] unat_of_nat_small [of j, where 'a = 16] by simp
qed simp

section \<open>The packets of one frame\<close>

text \<open>
  The packets of one frame, of H.264 or of another codec, at consecutive sequence numbers from \<open>base\<close>.
  An H.264 packet carries its list of units, shorter than the limit of the assembler.
\<close>

definition is_frame :: "bool \<Rightarrow> u16 \<Rightarrow> u32 \<Rightarrow> vb_packet list \<Rightarrow> bool" where
  "is_frame h264 base ts ps \<longleftrightarrow> ps \<noteq> [] \<and> length ps < 65536 \<and>
     (\<forall>j<length ps. vp_seq_num (ps ! j) = base + of_nat j \<and> vp_timestamp (ps ! j) = ts \<and>
        (vp_codec (ps ! j) = H264 \<longleftrightarrow> h264) \<and> (vp_is_first (ps ! j) \<longleftrightarrow> j = 0) \<and>
        (vp_is_last (ps ! j) \<longleftrightarrow> j = length ps - 1) \<and>
        (h264 \<longrightarrow> (case vp_h264 (ps ! j) of None \<Rightarrow> False | Some h \<Rightarrow> nalu_count h < kMaxNaluNumPerPacket)))"

definition carries :: "(h264_info \<Rightarrow> bool) \<Rightarrow> vb_packet list \<Rightarrow> bool" where
  "carries has ps \<longleftrightarrow> list_ex (\<lambda>p. case vp_h264 p of None \<Rightarrow> False | Some h \<Rightarrow> has h) ps"

text \<open>An H.264 frame is a key frame when it has an IDR unit and, if the flag asks for it, both parameter sets.\<close>

definition key_frame :: "bool \<Rightarrow> vb_packet list \<Rightarrow> bool" where
  "key_frame sps_pps_idr ps \<longleftrightarrow> carries has_idr ps \<and> (sps_pps_idr \<longrightarrow> carries has_sps ps \<and> carries has_pps ps)"

definition payload_upto :: "vb_packet list \<Rightarrow> nat \<Rightarrow> byte list" where
  "payload_upto ps k = concat (map vp_payload (take k ps))"

lemma payload_upto_0 [simp]: "payload_upto ps 0 = []"
  by (simp add: payload_upto_def)

lemma payload_upto_Suc:
  "k < length ps \<Longrightarrow> payload_upto ps (Suc k) = payload_upto ps k @ vp_payload (ps ! k)"
  by (simp add: payload_upto_def take_Suc_conv_app_nth)

lemma payload_upto_mono: "k \<le> m \<Longrightarrow> length (payload_upto ps k) \<le> length (payload_upto ps m)"
proof -
  assume "k \<le> m"
  then obtain d where "m = k + d" using le_Suc_ex by blast
  then show ?thesis by (simp add: payload_upto_def take_add)
qed

text \<open>
  Every packet of the frame from offset \<open>k\<close> on is stored, up to its continuity flag, and for the
  first packet its frame type and resolution.
\<close>

definition same_packet :: "vb_packet \<Rightarrow> vb_packet \<Rightarrow> bool" where
  "same_packet p q \<longleftrightarrow> vp_seq_num q = vp_seq_num p \<and> vp_timestamp q = vp_timestamp p \<and>
     vp_codec q = vp_codec p \<and> vp_is_first q = vp_is_first p \<and> vp_h264 q = vp_h264 p \<and> vp_payload q = vp_payload p"

definition stores_all :: "vb_packet list \<Rightarrow> (nat \<Rightarrow> vb_packet option) \<Rightarrow> nat \<Rightarrow> bool" where
  "stores_all ps g k \<longleftrightarrow> (\<forall>j. k \<le> j \<and> j < length ps \<longrightarrow> (\<exists>q. g j = Some q \<and> same_packet (ps ! j) q))"

lemma stores_allD: "stores_all ps g k \<Longrightarrow> k \<le> j \<Longrightarrow> j < length ps \<Longrightarrow> \<exists>q. g j = Some q \<and> same_packet (ps ! j) q"
  by (simp add: stores_all_def)

lemma is_frameD:
  assumes "is_frame h264 base ts ps" "j < length ps"
  shows "vp_seq_num (ps ! j) = base + of_nat j" "vp_timestamp (ps ! j) = ts"
    "vp_codec (ps ! j) = H264 \<longleftrightarrow> h264" "vp_is_first (ps ! j) \<longleftrightarrow> j = 0"
    "vp_is_last (ps ! j) \<longleftrightarrow> j = length ps - 1"
  using assms by (auto simp: is_frame_def)

lemma is_frame_units:
  assumes "is_frame True base ts ps" "j < length ps"
  obtains h where "vp_h264 (ps ! j) = Some h" "nalu_count h < kMaxNaluNumPerPacket"
  using assms by (auto simp: is_frame_def split: option.splits)

subsection \<open>The scan back to the first packet\<close>

lemma scan_step_back:
  assumes "get_packet s i = Some p" "\<not> vp_is_first p" "u \<noteq> 0" "prev_index s i < length s"
  shows "scan_frame (Suc u) fl False ts s i start a =
    scan_frame u fl False ts s (prev_index s i) (start - 1) (a\<lparr>sc_size := sc_size a + length (vp_payload p)\<rparr>)"
  using assms by (simp add: get_slot_def)

lemma scan_layout:
  assumes "is_frame False base ts ps" "length ps \<le> n" "stores_all ps g 0" "j < length ps" "j \<le> u"
  shows "scan_frame (Suc u) fl False ts (layout base n g) (slot_pos base n j) (base + of_nat j) a =
    Some (Inr (base, a\<lparr>sc_size := sc_size a + length (payload_upto ps (Suc j))\<rparr>))"
  using assms(4,5)
proof (induction j arbitrary: u a)
  case 0
  then obtain q where "g 0 = Some q" "same_packet (ps ! 0) q" using stores_allD [OF assms(3)] by auto
  with 0 assms show ?case
    by (simp add: get_packet_layout is_frameD(4) [OF assms(1)] payload_upto_Suc same_packet_def)
next
  case (Suc j)
  obtain v where v: "u = Suc v" "j \<le> v" using Suc.prems(2) by (cases u) auto
  have n: "0 < n" "Suc j < n" using Suc.prems(1) assms(2) by auto
  obtain q where q: "g (Suc j) = Some q" "same_packet (ps ! Suc j) q"
    using stores_allD [OF assms(3)] Suc.prems(1) by blast
  have sub: "base + of_nat (Suc j) - 1 = base + of_nat j" by simp
  let ?a = "a\<lparr>sc_size := sc_size a + length (vp_payload (ps ! Suc j))\<rparr>"
  have "scan_frame (Suc u) fl False ts (layout base n g) (slot_pos base n (Suc j)) (base + of_nat (Suc j)) a =
      scan_frame (Suc v) fl False ts (layout base n g) (slot_pos base n j) (base + of_nat j) ?a"
    using q n is_frameD(4) [OF assms(1) Suc.prems(1)] unfolding v(1) sub [symmetric]
    by (subst scan_step_back [where p = q]) (simp_all add: get_packet_layout slot_pos_prev same_packet_def)
  also have "\<dots> = Some (Inr (base, ?a\<lparr>sc_size := sc_size ?a + length (payload_upto ps (Suc j))\<rparr>))"
    using Suc.prems(1) v(2) by (intro Suc.IH) auto
  finally show ?case using Suc.prems(1) by (simp add: payload_upto_Suc [of "Suc j"] ac_simps)
qed

text \<open>The scan of an H.264 frame also collects its kinds of units, which decide whether it is a key frame.\<close>

definition scan_decided :: "bool \<Rightarrow> scan_state \<Rightarrow> bool" where
  "scan_decided fl a \<longleftrightarrow> (sc_keyframe a \<longleftrightarrow> sc_idr a \<and> (fl \<longrightarrow> sc_sps a \<and> sc_pps a))"

definition scan_collects :: "vb_packet list \<Rightarrow> scan_state \<Rightarrow> scan_state \<Rightarrow> bool" where
  "scan_collects ps a a' \<longleftrightarrow> sc_size a' = sc_size a + length (concat (map vp_payload ps)) \<and>
     (sc_sps a' \<longleftrightarrow> sc_sps a \<or> carries has_sps ps) \<and> (sc_pps a' \<longleftrightarrow> sc_pps a \<or> carries has_pps ps) \<and>
     (sc_idr a' \<longleftrightarrow> sc_idr a \<or> carries has_idr ps)"

lemma scan_h264_step:
  assumes "vp_h264 p = Some h" "scan_decided fl a"
    and "a' = scan_h264 fl q h (a\<lparr>sc_size := sc_size a + length (vp_payload p)\<rparr>)"
  shows "scan_decided fl a' \<and> scan_collects [p] a a'"
  using assms by (auto simp: scan_h264_def scan_decided_def scan_collects_def carries_def Let_def)

lemma scan_collects_append:
  "scan_collects ps a a' \<Longrightarrow> scan_collects rest a' a'' \<Longrightarrow> scan_collects (rest @ ps) a a''"
  by (auto simp: scan_collects_def carries_def)

lemma scan_step_h264:
  assumes "get_packet s i = Some p" "vp_h264 p = Some h" "nalu_count h < kMaxNaluNumPerPacket"
    and "prev_index s i < length s"
    and "a' = scan_h264 fl p h (a\<lparr>sc_size := sc_size a + length (vp_payload p)\<rparr>)"
  shows "scan_frame (Suc u) fl True ts s i start a =
    (if u = 0 \<or> (case s ! prev_index s i of None \<Rightarrow> True | Some q \<Rightarrow> vp_timestamp q \<noteq> ts) then Some (Inr (start, a'))
     else scan_frame u fl True ts s (prev_index s i) (start - 1) a')"
  using assms by (simp add: get_slot_def)

lemma scan_layout_h264:
  assumes "is_frame True base ts ps" "length ps \<le> n" "stores_all ps g 0" "j < length ps" "j \<le> u"
    and "u = j \<or> g (n - 1) = None" "scan_decided fl a"
  shows "\<exists>a'. scan_frame (Suc u) fl True ts (layout base n g) (slot_pos base n j) (base + of_nat j) a = Some (Inr (base, a')) \<and>
    scan_decided fl a' \<and> scan_collects (take (Suc j) ps) a a'"
  using assms(4-7)
proof (induction j arbitrary: u a)
  case 0
  have n: "0 < n" using order.strict_trans2 [OF 0(1) assms(2)] .
  obtain q where q: "g 0 = Some q" "same_packet (ps ! 0) q" using stores_allD [OF assms(3) _ 0(1)] by auto
  obtain h where h: "vp_h264 (ps ! 0) = Some h" "nalu_count h < kMaxNaluNumPerPacket"
    using is_frame_units [OF assms(1) 0(1)] .
  let ?a = "scan_h264 fl q h (a\<lparr>sc_size := sc_size a + length (vp_payload q)\<rparr>)"
  have prev: "prev_index (layout base n g) (slot_pos base n 0) = slot_pos base n (n - 1)"
    using slot_pos_prev [OF n, of base g "n - 1"] n by simp
  have "scan_frame (Suc u) fl True ts (layout base n g) (slot_pos base n 0) (base + of_nat 0) a = Some (Inr (base, ?a))"
    using 0(3) q h n prev
    by (subst scan_step_h264 [where p = q and h = h]) (auto simp: get_packet_layout same_packet_def layout_nth)
  moreover have "scan_decided fl ?a \<and> scan_collects [ps ! 0] a ?a"
    using scan_h264_step [OF h(1) 0(4)] q(2) by (simp add: same_packet_def)
  moreover have "take (Suc 0) ps = [ps ! 0]" using 0(1) by (cases ps) simp_all
  ultimately show ?case by auto
next
  case (Suc j)
  obtain v where v: "u = Suc v" "j \<le> v" using Suc.prems(2) by (cases u) auto
  have n: "0 < n" "Suc j < n" "j < n" "j < length ps" using Suc.prems(1) assms(2) by auto
  obtain q where q: "g (Suc j) = Some q" "same_packet (ps ! Suc j) q"
    using stores_allD [OF assms(3)] Suc.prems(1) by blast
  obtain q' where q': "g j = Some q'" "same_packet (ps ! j) q'" using stores_allD [OF assms(3) _ n(4)] by blast
  obtain h where h: "vp_h264 (ps ! Suc j) = Some h" "nalu_count h < kMaxNaluNumPerPacket"
    using is_frame_units [OF assms(1) Suc.prems(1)] .
  let ?a = "scan_h264 fl q h (a\<lparr>sc_size := sc_size a + length (vp_payload q)\<rparr>)"
  have a: "scan_decided fl ?a" "scan_collects [ps ! Suc j] a ?a"
    using scan_h264_step [OF h(1) Suc.prems(4)] q(2) by (simp_all add: same_packet_def)
  have ts': "vp_timestamp q' = ts" using q'(2) is_frameD(2) [OF assms(1) n(4)] by (simp add: same_packet_def)
  have sub: "base + of_nat (Suc j) - 1 = base + of_nat j" by simp
  have step: "scan_frame (Suc u) fl True ts (layout base n g) (slot_pos base n (Suc j)) (base + of_nat (Suc j)) a =
      scan_frame (Suc v) fl True ts (layout base n g) (slot_pos base n j) (base + of_nat j) ?a"
    using q h n q'(1) ts' unfolding v(1) sub [symmetric]
    by (subst scan_step_h264 [where p = q and h = h]) (simp_all add: get_packet_layout slot_pos_prev same_packet_def layout_nth)
  have "v = j \<or> g (n - 1) = None" using Suc.prems(3) v(1) by auto
  from Suc.IH [OF n(4) v(2) this a(1)] obtain a' where a':
    "scan_frame (Suc v) fl True ts (layout base n g) (slot_pos base n j) (base + of_nat j) ?a = Some (Inr (base, a'))"
    "scan_decided fl a'" "scan_collects (take (Suc j) ps) ?a a'" by blast
  have "scan_collects (take (Suc (Suc j)) ps) a a'"
    using scan_collects_append [OF a(2) a'(3)] Suc.prems(1) by (simp only: take_Suc_conv_app_nth)
  with a'(1,2) show ?case unfolding step by blast
qed

lemma scan_frame_finds:
  assumes "is_frame h264 base ts ps" "length ps = Suc l" "Suc l \<le> n" "stores_all ps g 0"
    and "n = Suc l \<or> g (n - 1) = None"
  shows "\<exists>a. scan_frame n fl h264 ts (layout base n g) (slot_pos base n l) (base + of_nat l) scan_start = Some (Inr (base, a)) \<and>
    sc_size a = length (payload_upto ps (length ps)) \<and> (h264 \<longrightarrow> (sc_keyframe a \<longleftrightarrow> key_frame fl ps))"
proof -
  obtain u where u: "n = Suc u" "l \<le> u" using assms(3) by (cases n) auto
  have st: "scan_decided fl scan_start" by (simp add: scan_decided_def scan_start_def)
  show ?thesis
  proof (cases h264)
    case True
    have "u = l \<or> g (n - 1) = None" using assms(5) u(1) by auto
    then obtain a where "scan_frame (Suc u) fl True ts (layout base n g) (slot_pos base n l) (base + of_nat l) scan_start = Some (Inr (base, a))"
      "scan_decided fl a" "scan_collects (take (Suc l) ps) scan_start a"
      using scan_layout_h264 [of base ts ps n g l u fl scan_start] assms True u(2) st by auto
    then show ?thesis
      using True assms(2) u(1)
      by (auto simp: scan_decided_def scan_collects_def key_frame_def scan_start_def payload_upto_def)
  next
    case False
    with scan_layout [of base ts ps n g l u fl scan_start] assms u show ?thesis by (auto simp: scan_start_def)
  qed
qed

lemma mark_first_layout:
  assumes "0 < n" "n dvd 65536" "g 0 = Some p"
  shows "\<exists>q. mark_first a base (layout base n g) = Some (layout base n (g(0 := Some q))) \<and> same_packet p q \<and>
    vp_frame_type q = (if sc_keyframe a then FT_KEY else FT_DELTA)"
proof -
  have "slot_index (layout base n g) base = Some (slot_pos base n 0)"
    using slot_index_layout [OF assms(2,1), of base g 0] by simp
  with assms show ?thesis
    by (auto simp: mark_first_def get_packet_layout layout_update Let_def same_packet_def)
qed

subsection \<open>Copying the packets\<close>

lemma add_packet_writes:
  assumes "vf_bitstream f = payload_upto ps k @ replicate (length (payload_upto ps m) - length (payload_upto ps k)) 0"
    and "k < m" "m \<le> length ps" "vp_payload p = vp_payload (ps ! k)"
  shows "\<exists>f'. add_packet i start seq p (length (payload_upto ps k)) f = Some f' \<and>
    vf_bitstream f' = payload_upto ps (Suc k) @ replicate (length (payload_upto ps m) - length (payload_upto ps (Suc k))) 0 \<and>
    vf_num_packets f' = vf_num_packets f \<and>
    vf_seq_num_end f' = (if i = seq then vp_seq_num p else vf_seq_num_end f) \<and>
    vf_seq_num_start f' = (if i = start then vp_seq_num p else vf_seq_num_start f) \<and>
    vf_timestamp f' = (if i = start then vp_timestamp p else vf_timestamp f) \<and>
    vf_frame_type f' = (if i = start then vp_frame_type p else vf_frame_type f)"
proof -
  have pk: "payload_upto ps (Suc k) = payload_upto ps k @ vp_payload p"
    using assms(2-4) by (simp add: payload_upto_Suc)
  have le: "length (payload_upto ps (Suc k)) \<le> length (payload_upto ps m)"
    using assms(2) by (intro payload_upto_mono) simp
  then have "wr (length (payload_upto ps k)) (vp_payload p) (vf_bitstream f) =
      Some (payload_upto ps (Suc k) @ replicate (length (payload_upto ps m) - length (payload_upto ps (Suc k))) 0)"
    using assms(1) by (simp add: wr_def pk)
  moreover have "vf_bitstream (if i = start then frame_of_first p f else f) = vf_bitstream f"
    by (simp add: frame_of_first_def)
  ultimately show ?thesis by (auto simp: add_packet_def Let_def frame_of_first_def)
qed

lemma copy_layout:
  assumes frame: "is_frame h264 base ts ps" and n: "length ps \<le> n" "n dvd 65536"
    and q: "stop = base + of_nat (length ps)" "lastq = base + of_nat (length ps - 1)"
    and st: "stores_all ps g k" and k: "k \<le> length ps"
    and bits: "vf_bitstream f = payload_upto ps k @
      replicate (length (payload_upto ps (length ps)) - length (payload_upto ps k)) 0"
  shows "\<exists>f'. copy_packets (base + of_nat k) (stop) base (lastq)
        (length (payload_upto ps k)) (layout base n g) f =
      Some (length (payload_upto ps (length ps)), layout base n (\<lambda>j. if k \<le> j \<and> j < length ps then None else g j), f') \<and>
    vf_bitstream f' = payload_upto ps (length ps) \<and> vf_num_packets f' = vf_num_packets f \<and>
    vf_seq_num_start f' = (if k = 0 then base else vf_seq_num_start f) \<and>
    vf_timestamp f' = (if k = 0 then ts else vf_timestamp f) \<and>
    vf_frame_type f' = (if k = 0 then vp_frame_type (the (g 0)) else vf_frame_type f) \<and>
    vf_seq_num_end f' = (if k < length ps then lastq else vf_seq_num_end f)"
  using st k bits
proof (induction "length ps - k" arbitrary: k g f)
  case 0
  then have "k = length ps" by simp
  moreover have "0 < length ps" using frame by (auto simp: is_frame_def)
  ultimately show ?case
    using 0(4) q(1) by (auto simp: copy_packets.simps intro!: layout_eqI)
next
  case (Suc d)
  then have k: "k < length ps" by simp
  have m: "length ps < 65536" using frame by (simp add: is_frame_def)
  obtain p where c: "g k = Some p" "same_packet (ps ! k) p" using stores_allD [OF Suc.prems(1) _ k] by blast
  obtain f1 where f1: "add_packet (base + of_nat k) base (lastq) p
      (length (payload_upto ps k)) f = Some f1"
    "vf_bitstream f1 = payload_upto ps (Suc k) @
       replicate (length (payload_upto ps (length ps)) - length (payload_upto ps (Suc k))) 0"
    "vf_num_packets f1 = vf_num_packets f"
    "vf_seq_num_end f1 = (if base + of_nat k = lastq then vp_seq_num p else vf_seq_num_end f)"
    "vf_seq_num_start f1 = (if base + of_nat k = base then vp_seq_num p else vf_seq_num_start f)"
    "vf_timestamp f1 = (if base + of_nat k = base then vp_timestamp p else vf_timestamp f)"
    "vf_frame_type f1 = (if base + of_nat k = base then vp_frame_type p else vf_frame_type f)"
    using add_packet_writes [OF Suc.prems(3) k order.refl, of p "base + of_nat k" base "lastq"] c(2)
    by (auto simp: same_packet_def)
  have seq: "vp_seq_num p = base + of_nat k" "vp_timestamp p = ts" "vp_payload p = vp_payload (ps ! k)"
    using is_frameD [OF frame k] c(2) by (auto simp: same_packet_def)
  have ne: "base + of_nat k \<noteq> stop" unfolding q(1) using k m by (subst offsets_differ) auto
  have first: "base + of_nat k = base \<longleftrightarrow> k = 0" using offsets_differ [of k 0 base] k m by simp
  have fin: "base + of_nat k = lastq \<longleftrightarrow> k = length ps - 1"
    unfolding q(2) using k m by (subst offsets_differ) auto
  have st': "stores_all ps (g(k := None)) (Suc k)" using Suc.prems(1) by (auto simp: stores_all_def)
  have dk: "d = length ps - Suc k" using Suc.hyps(2) by simp
  obtain f' where f': "copy_packets (base + of_nat (Suc k)) (stop) base (lastq)
        (length (payload_upto ps (Suc k))) (layout base n (g(k := None))) f1 =
      Some (length (payload_upto ps (length ps)),
        layout base n (\<lambda>j. if Suc k \<le> j \<and> j < length ps then None else (g(k := None)) j), f')"
    "vf_bitstream f' = payload_upto ps (length ps)" "vf_num_packets f' = vf_num_packets f1"
    "vf_seq_num_start f' = vf_seq_num_start f1" "vf_timestamp f' = vf_timestamp f1"
    "vf_frame_type f' = vf_frame_type f1"
    "vf_seq_num_end f' = (if Suc k < length ps then lastq else vf_seq_num_end f1)"
    using Suc.hyps(1) [OF _ st' _ f1(2)] dk k by (auto simp del: of_nat_Suc)
  have lay: "layout base n (\<lambda>j. if Suc k \<le> j \<and> j < length ps then None else (g(k := None)) j) =
      layout base n (\<lambda>j. if k \<le> j \<and> j < length ps then None else g j)"
    using k by (intro layout_eqI) auto
  have step: "base + of_nat k + 1 = base + of_nat (Suc k)" by simp
  have "copy_packets (base + of_nat k) (stop) base (lastq)
        (length (payload_upto ps k)) (layout base n g) f =
      copy_packets (base + of_nat (Suc k)) (stop) base (lastq)
        (length (payload_upto ps (Suc k))) (layout base n (g(k := None))) f1"
    unfolding copy_packets.simps [of "base + of_nat k"] step
    using ne k n c(1) f1(1) seq slot_index_layout [OF n(2), of base g k]
    by (simp add: get_packet_layout layout_update payload_upto_Suc del: of_nat_Suc)
  with f' f1 seq first fin k lay c(1) show ?case by (auto simp del: of_nat_Suc)
qed

definition frame_of :: "bool \<Rightarrow> bool \<Rightarrow> u16 \<Rightarrow> u32 \<Rightarrow> vb_packet list \<Rightarrow> vb_frame \<Rightarrow> bool" where
  "frame_of fl h264 base ts ps f \<longleftrightarrow> vf_bitstream f = concat (map vp_payload ps) \<and> vf_num_packets f = length ps \<and>
     vf_seq_num_start f = base \<and> vf_seq_num_end f = base + of_nat (length ps - 1) \<and> vf_timestamp f = ts \<and>
     vf_frame_type f = (if \<not> h264 then vp_frame_type (ps ! 0) else if key_frame fl ps then FT_KEY else FT_DELTA)"

lemma copy_all_layout:
  assumes "is_frame h264 base ts ps" "length ps \<le> n" "n dvd 65536" "length ps = Suc l" "stores_all ps g 0"
  shows "\<exists>f k. copy_packets base (base + of_nat l + 1) base (base + of_nat l) 0 (layout base n g)
        (blank_frame (length ps) (length (payload_upto ps (length ps)))) =
      Some (k, layout base n (\<lambda>j. if j < length ps then None else g j), f) \<and>
    vf_bitstream f = concat (map vp_payload ps) \<and> vf_num_packets f = length ps \<and> vf_seq_num_start f = base \<and>
    vf_seq_num_end f = base + of_nat l \<and> vf_timestamp f = ts \<and> vf_frame_type f = vp_frame_type (the (g 0))"
proof -
  have q: "base + of_nat l + 1 = base + of_nat (length ps)" "base + of_nat l = base + of_nat (length ps - 1)"
    by (simp_all add: assms(4))
  have pay: "payload_upto ps (length ps) = concat (map vp_payload ps)" by (simp add: payload_upto_def)
  then have "payload_upto ps (Suc l) = concat (map vp_payload ps)" using assms(4) by simp
  then show ?thesis
    using copy_layout [OF assms(1-3) q assms(5), of "blank_frame (length ps) (length (payload_upto ps (length ps)))"] assms(4)
    by (auto simp: blank_frame_def pay)
qed

lemma assemble_layout:
  assumes frame: "is_frame h264 base ts ps" and n: "length ps \<le> n" "n dvd 65536"
    and st: "stores_all ps g 0" and l: "length ps = Suc l" and b: "pb_slots b = layout base n g"
    and free: "n = length ps \<or> g (n - 1) = None" and ty: "vp_frame_type (the (g 0)) = vp_frame_type (ps ! 0)"
    and gate: "h264 \<and> \<not> key_frame (pb_sps_pps_idr_is_keyframe b) ps \<longrightarrow> pb_missing b = []"
  shows "\<exists>f. assemble_frame (base + of_nat l) b =
      Some (Inr (f, b\<lparr>pb_slots := layout base n (\<lambda>j. if j < length ps then None else g j),
        pb_missing := dropWhile (\<lambda>x. \<not> older_than (base + of_nat l) x) (pb_missing b)\<rparr>)) \<and>
    frame_of (pb_sps_pps_idr_is_keyframe b) h264 base ts ps f"
proof -
  let ?fl = "pb_sps_pps_idr_is_keyframe b" and ?m = "length ps"
  define q where "q = base + of_nat l"
  have m: "0 < n" "l < n" "?m < 65536" "l < ?m" using frame l n(1) by (auto simp: is_frame_def)
  obtain p where p: "g l = Some p" "same_packet (ps ! l) p" using stores_allD [OF st _ m(4)] by blast
  obtain p0 where p0: "g 0 = Some p0" "same_packet (ps ! 0) p0" using stores_allD [OF st, of 0] l by auto
  have code: "vp_codec p = H264 \<longleftrightarrow> h264" "vp_timestamp p = ts"
    using p(2) is_frameD [OF frame m(4)] by (auto simp: same_packet_def)
  obtain a where a: "scan_frame n ?fl h264 ts (layout base n g) (slot_pos base n l) q scan_start = Some (Inr (base, a))"
    "sc_size a = length (payload_upto ps ?m)" "h264 \<longrightarrow> (sc_keyframe a \<longleftrightarrow> key_frame ?fl ps)"
    using scan_frame_finds [OF frame l _ st, of n ?fl] n(1) l free by (auto simp: q_def)
  obtain g1 where g1: "(if h264 then mark_first a base (layout base n g) else Some (layout base n g)) = Some (layout base n g1)"
    "stores_all ps g1 0" "\<forall>j. 0 < j \<longrightarrow> g1 j = g j"
    "vp_frame_type (the (g1 0)) = (if \<not> h264 then vp_frame_type (ps ! 0) else if key_frame ?fl ps then FT_KEY else FT_DELTA)"
  proof (cases h264)
    case True
    obtain p1 where "mark_first a base (layout base n g) = Some (layout base n (g(0 := Some p1)))" "same_packet p0 p1"
      "vp_frame_type p1 = (if sc_keyframe a then FT_KEY else FT_DELTA)"
      using mark_first_layout [where n = n and g = g and p = p0 and a = a and base = base] m(1) n(2) p0(1) by blast
    then show ?thesis
      using that [of "g(0 := Some p1)"] True st p0 a(3) by (auto simp: stores_all_def same_packet_def)
  qed (use that [of g] st ty in auto)
  obtain f k where f: "copy_packets base (q + 1) base q 0 (layout base n g1) (blank_frame ?m (length (payload_upto ps ?m))) =
      Some (k, layout base n (\<lambda>j. if j < ?m then None else g1 j), f)"
    "frame_of ?fl h264 base ts ps f"
    using copy_all_layout [OF frame n l g1(2)] g1(4) l by (auto simp: q_def frame_of_def)
  have lay: "layout base n (\<lambda>j. if j < ?m then None else g1 j) = layout base n (\<lambda>j. if j < ?m then None else g j)"
    using g1(3) l by (intro layout_eqI) auto
  have idx: "slot_index (layout base n g) q = Some (slot_pos base n l)"
    using slot_index_layout [OF n(2) m(1)] by (simp add: q_def)
  have gp: "get_packet (layout base n g) (slot_pos base n l) = Some p" using p m(2) by (simp add: get_packet_layout)
  have num: "unat (q + 1 - base) = ?m"
  proof -
    have "q + 1 - base = of_nat ?m" by (simp add: q_def l)
    then show ?thesis using m(3) by (simp add: unat_of_nat_small)
  qed
  have pass: "\<not> (h264 \<and> \<not> sc_keyframe a \<and> missing_below_upper base (pb_missing b) \<noteq> [])"
    using gate a(3) by (auto simp: missing_below_upper_def)
  have "assemble_frame q b = Some (Inr (f, b\<lparr>pb_slots := layout base n (\<lambda>j. if j < ?m then None else g j),
      pb_missing := dropWhile (\<lambda>x. \<not> older_than q x) (pb_missing b)\<rparr>))"
    using idx gp code a(1,2) g1(1) f(1) num pass lay by (simp add: assemble_frame_def b Let_def)
  with f(2) show ?thesis unfolding q_def by blast
qed

section \<open>The loop over continuous packets\<close>

text \<open>
  \<open>arrived ps A\<close> is the buffer after the packets at the offsets \<open>A\<close> have arrived: a packet is continuous
  when all before it have arrived. \<open>walk ps A k\<close> is an intermediate state, with the flag
  set up to offset \<open>k\<close>.
\<close>

definition arrived :: "vb_packet list \<Rightarrow> nat set \<Rightarrow> nat \<Rightarrow> vb_packet option" where
  "arrived ps A j = (if j \<in> A then Some ((ps ! j)\<lparr>vp_continuous := ({..j} \<subseteq> A)\<rparr>) else None)"

definition walk :: "vb_packet list \<Rightarrow> nat set \<Rightarrow> nat \<Rightarrow> nat \<Rightarrow> vb_packet option" where
  "walk ps A k j = (if j \<in> A then Some ((ps ! j)\<lparr>vp_continuous := (j < k)\<rparr>) else None)"

lemma walk_stuck: "{..<k} \<subseteq> A \<Longrightarrow> k \<notin> A \<Longrightarrow> walk ps A k j = arrived ps A j"
proof -
  assume k: "{..<k} \<subseteq> A" "k \<notin> A"
  have "j < k \<longleftrightarrow> {..j} \<subseteq> A" using k by (metis atMost_iff lessThan_iff not_le_imp_less order_le_less_trans subset_iff order.refl)
  then show ?thesis by (simp add: walk_def arrived_def)
qed

lemma walk_flag: "k \<in> A \<Longrightarrow> (walk ps A k)(k := Some ((ps ! k)\<lparr>vp_continuous := True\<rparr>)) = walk ps A (Suc k)"
  by (auto simp: walk_def fun_eq_iff less_Suc_eq)

lemma is_continuous_walk:
  assumes "is_frame h264 base ts ps" "length ps \<le> n" "n dvd 65536" "A \<subseteq> {..<length ps}" "{..<k} \<subseteq> A" "k < n"
  shows "is_continuous (base + of_nat k) (layout base n (walk ps A k)) = Some (k \<in> A)"
proof -
  have n: "0 < n" using assms(6) by simp
  note idx = slot_index_layout [OF assms(3) n, of base "walk ps A k"]
  show ?thesis
  proof (cases "k \<in> A")
    case False
    then show ?thesis
      using idx [of k] assms(6) by (simp add: is_continuous_def get_slot_layout walk_def)
  next
    case True
    then have k: "k < length ps" using assms(4) by auto
    note f = is_frameD [OF assms(1) k]
    show ?thesis
    proof (cases k)
      case 0
      then show ?thesis
        using True idx [of k] assms(6) f by (simp add: is_continuous_def get_slot_layout walk_def)
    next
      case (Suc i)
      have i: "i < length ps" "i < n" "i \<in> A" using k Suc assms(2,5) by auto
      note fi = is_frameD [OF assms(1) i(1)]
      show ?thesis
        using True idx [of k] assms(6) f fi i n Suc
        by (simp add: is_continuous_def get_slot_layout walk_def slot_pos_prev)
    qed
  qed
qed

lemma is_continuous_empty:
  "0 < n \<Longrightarrow> is_continuous seq (layout base n (\<lambda>j. None)) = Some False"
  by (simp add: is_continuous_def slot_index_def get_slot_def layout_def)

lemma set_continuous_layout:
  assumes "k < n" "g k = Some p"
  shows "set_continuous (slot_pos base n k) (layout base n g) = Some (layout base n (g(k := Some (p\<lparr>vp_continuous := True\<rparr>))))"
  using assms by (simp add: set_continuous_def get_packet_layout layout_update)

lemma assemble_loop_step:
  assumes "is_frame h264 base ts ps" "length ps \<le> n" "n dvd 65536" "A \<subseteq> {..<length ps}" "{..<k} \<subseteq> A"
    and "k \<in> A" "pb_slots b = layout base n (walk ps A k)"
  shows "assemble_loop (Suc m) (base + of_nat k) b frames =
    (let b = b\<lparr>pb_slots := layout base n (walk ps A (Suc k))\<rparr>
     in if Suc k = length ps then Option.bind (assemble_frame (base + of_nat k) b) (\<lambda>r. case r of
           Inl b \<Rightarrow> Some (frames, b)
         | Inr (f, b) \<Rightarrow> assemble_loop m (base + of_nat (Suc k)) b (frames @ [f]))
        else assemble_loop m (base + of_nat (Suc k)) b frames)"
proof -
  have k: "k < length ps" "k < n" using assms by auto
  have idx: "slot_index (layout base n (walk ps A k)) (base + of_nat k) = Some (slot_pos base n k)"
    using slot_index_layout [OF assms(3)] k by simp
  have set: "set_continuous (slot_pos base n k) (layout base n (walk ps A k)) = Some (layout base n (walk ps A (Suc k)))"
  proof -
    have "walk ps A k k = Some ((ps ! k)\<lparr>vp_continuous := False\<rparr>)" using assms(6) by (simp add: walk_def)
    from set_continuous_layout [of k n "walk ps A k" _ base, OF k(2) this] show ?thesis by (simp add: walk_flag [OF assms(6)])
  qed
  have get: "get_packet (layout base n (walk ps A (Suc k))) (slot_pos base n k) = Some ((ps ! k)\<lparr>vp_continuous := True\<rparr>)"
    using k assms(6) by (simp add: get_packet_layout walk_def)
  have step: "base + of_nat k + 1 = base + of_nat (Suc k)" by simp
  have fin: "vp_is_last (ps ! k) \<longleftrightarrow> Suc k = length ps" using is_frameD(5) [OF assms(1) k(1)] k by auto
  define q where "q = base + of_nat k"
  define q' where "q' = base + of_nat (Suc k)"
  have cont: "is_continuous q (layout base n (walk ps A k)) = Some True"
    using is_continuous_walk [OF assms(1-5) k(2)] assms(6) by (simp add: q_def)
  show ?thesis
    using cont idx set get fin step unfolding q_def [symmetric] q'_def [symmetric]
    by (simp add: assms(7) Let_def)
qed

lemma assemble_loop_walk:
  assumes "is_frame h264 base ts ps" "length ps \<le> n" "n dvd 65536" "A \<subseteq> {..<length ps}"
    and "{..<k} \<subseteq> A" "k < length ps" "length ps - k \<le> m" "pb_slots b = layout base n (walk ps A k)"
    and "h264 \<and> \<not> key_frame (pb_sps_pps_idr_is_keyframe b) ps \<and> A = {..<length ps} \<longrightarrow> pb_missing b = []"
  shows "if A = {..<length ps}
     then \<exists>f. assemble_loop m (base + of_nat k) b frames = Some (frames @ [f],
         b\<lparr>pb_slots := layout base n (\<lambda>j. None),
           pb_missing := dropWhile (\<lambda>x. \<not> older_than (base + of_nat (length ps - 1)) x) (pb_missing b)\<rparr>) \<and>
       frame_of (pb_sps_pps_idr_is_keyframe b) h264 base ts ps f
     else assemble_loop m (base + of_nat k) b frames = Some (frames, b\<lparr>pb_slots := layout base n (arrived ps A)\<rparr>)"
  using assms(5-9)
proof (induction m arbitrary: k b)
  case 0
  then show ?case by simp
next
  case (Suc m)
  have kn: "k < n" using Suc.prems(2) assms(2) by simp
  show ?case
  proof (cases "k \<in> A")
    case False
    have "A \<noteq> {..<length ps}" using False Suc.prems(2) by auto
    moreover have "layout base n (walk ps A k) = layout base n (arrived ps A)"
      using walk_stuck [OF Suc.prems(1) False] by (intro layout_eqI) simp
    ultimately show ?thesis
      using is_continuous_walk [OF assms(1-4) Suc.prems(1) kn] False Suc.prems(4) by (auto intro: packet_buffer.equality)
  next
    case True
    note step = assemble_loop_step [OF assms(1-4) Suc.prems(1) True Suc.prems(4), of m frames]
    let ?b = "b\<lparr>pb_slots := layout base n (walk ps A (Suc k))\<rparr>"
    have pre: "{..<Suc k} \<subseteq> A" using Suc.prems(1) True by (auto simp: less_Suc_eq)
    show ?thesis
    proof (cases "Suc k = length ps")
      case last: False
      then have "Suc k < length ps" "length ps - Suc k \<le> m" using Suc.prems by auto
      note ih = Suc.IH [OF pre this, of ?b]
      have go: "assemble_loop (Suc m) (base + of_nat k) b frames = assemble_loop m (base + of_nat (Suc k)) ?b frames"
        unfolding step using last by (simp only: Let_def if_False)
      show ?thesis unfolding go using ih Suc.prems(5) by (cases "A = {..<length ps}") (simp_all del: of_nat_Suc)
    next
      case last: True
      then have all: "A = {..<length ps}" using pre assms(4) by auto
      have st: "stores_all ps (walk ps A (Suc k)) 0"
        using all by (auto simp: stores_all_def walk_def same_packet_def)
      have free: "n = length ps \<or> walk ps A (Suc k) (n - 1) = None"
        using all assms(2) by (auto simp: walk_def)
      have ty: "vp_frame_type (the (walk ps A (Suc k) 0)) = vp_frame_type (ps ! 0)"
        using all last by (auto simp: walk_def)
      obtain f where f: "assemble_frame (base + of_nat k) ?b =
          Some (Inr (f, ?b\<lparr>pb_slots := layout base n (\<lambda>j. if j < length ps then None else walk ps A (Suc k) j),
            pb_missing := dropWhile (\<lambda>x. \<not> older_than (base + of_nat k) x) (pb_missing ?b)\<rparr>))"
        "frame_of (pb_sps_pps_idr_is_keyframe ?b) h264 base ts ps f"
        using assemble_layout [OF assms(1-3) st last [symmetric], of ?b] free ty Suc.prems(5) all by auto
      have lay: "layout base n (\<lambda>j. if j < length ps then None else walk ps A (Suc k) j) = layout base n (\<lambda>j. None)"
        using all by (intro layout_eqI) (simp add: walk_def)
      have kl: "base + of_nat (length ps - 1) = base + of_nat k" using last [symmetric] by simp
      let ?b' = "b\<lparr>pb_slots := layout base n (\<lambda>j. None),
        pb_missing := dropWhile (\<lambda>x. \<not> older_than (base + of_nat k) x) (pb_missing b)\<rparr>"
      have "assemble_loop m q ?b' fs = Some (fs, ?b')" for q fs
        using is_continuous_empty [of n q base] kn by (cases m) simp_all
      with f(1) last have "assemble_loop (Suc m) (base + of_nat k) b frames = Some (frames @ [f], ?b')"
        unfolding step lay by simp
      with f(2) all show ?thesis unfolding kl by (simp del: assemble_loop.simps)
    qed
  qed
qed

section \<open>Missing packets are tracked up to the newest\<close>

lemma update_missing_keeps [simp]:
  "pb_slots (update_missing_packets seq w b) = pb_slots b"
  "pb_is_cleared (update_missing_packets seq w b) = pb_is_cleared b"
  "pb_max_size (update_missing_packets seq w b) = pb_max_size b"
  "pb_first_seq_num (update_missing_packets seq w b) = pb_first_seq_num b"
  "pb_first_packet_received (update_missing_packets seq w b) = pb_first_packet_received b"
  "pb_sps_pps_idr_is_keyframe (update_missing_packets seq w b) = pb_sps_pps_idr_is_keyframe b"
  by (auto simp: update_missing_packets_def Let_def split: prod.splits)

lemma update_first_keeps [simp]:
  "pb_slots (update_first_seq_num seq b) = pb_slots b"
  "pb_is_cleared (update_first_seq_num seq b) = pb_is_cleared b"
  "pb_max_size (update_first_seq_num seq b) = pb_max_size b"
  "pb_first_packet_received (update_first_seq_num seq b)"
  "pb_sps_pps_idr_is_keyframe (update_first_seq_num seq b) = pb_sps_pps_idr_is_keyframe b"
  "pb_newest_inserted (update_first_seq_num seq b) = pb_newest_inserted b"
  "pb_missing (update_first_seq_num seq b) = pb_missing b"
  by (simp_all add: update_first_seq_num_def)

lemma set_set_insert: "set (set_insert k xs) = insert k (set xs)"
proof -
  let ?lo = "takeWhile (\<lambda>x. older_than x k) xs" and ?hi = "dropWhile (\<lambda>x. older_than x k) xs"
  have "set ?lo \<union> set ?hi = set xs" by (metis set_append takeWhile_dropWhile_id)
  moreover have "k \<in> set xs" if "?hi \<noteq> []" "hd ?hi = k" using that by (metis hd_in_set set_dropWhileD)
  ultimately show ?thesis by (auto simp: set_insert_def Let_def)
qed

lemma ahead_of_age: "seq_age a b < 32768 \<Longrightarrow> ahead_of a b \<longleftrightarrow> a \<noteq> b"
  using older_near [of a b] by (simp add: older_than_def)

lemma seq_age_pred: "a \<noteq> b \<Longrightarrow> seq_age a (b + 1) = seq_age a b - 1"
proof -
  assume "a \<noteq> b"
  then have "a - b \<noteq> 0" by simp
  then show ?thesis by (simp add: seq_age_def diff_diff_eq [symmetric] unat_minus_one)
qed

definition newest_before :: "u16 \<Rightarrow> nat \<Rightarrow> u16 set" where
  "newest_before seq d = (\<lambda>k. seq - of_nat k) ` {1..<d}"

lemma insert_missing_loop_ends:
  assumes "newest \<noteq> seq" "seq_age seq newest \<le> 32768"
  shows "\<exists>ms'. insert_missing_loop seq newest ms = (seq, ms') \<and>
    set ms' = set ms \<union> newest_before seq (seq_age seq newest)"
  using assms
proof (induction seq newest ms rule: insert_missing_loop.induct)
  case (1 seq newest ms)
  have age: "seq_age seq (newest + 1) = seq_age seq newest - 1" using 1(2) by (intro seq_age_pred) simp
  have pos: "0 < seq_age seq newest" using 1(2) by (metis seq_age_0 neq0_conv)
  have ah: "ahead_of seq (newest + 1) \<longleftrightarrow> newest + 1 \<noteq> seq"
    using age 1(3) pos by (subst ahead_of_age) auto
  show ?case
  proof (cases "newest + 1 = seq")
    case True
    then have "seq_age seq newest = 1" using age pos by simp
    with True show ?thesis
      by (simp add: insert_missing_loop.simps [of seq newest] ah newest_before_def)
  next
    case False
    have here: "newest + 1 = seq - of_nat (seq_age seq newest - 1)"
    proof -
      have "seq - (newest + 1) = of_nat (seq_age seq (newest + 1))" by (simp add: seq_age_def)
      then show ?thesis by (simp only: age) (simp add: algebra_simps)
    qed
    have "{1..<seq_age seq newest} = insert (seq_age seq newest - 1) {1..<seq_age seq newest - 1}"
    proof -
      have "seq_age seq (newest + 1) \<noteq> 0" using False by auto
      with age show ?thesis by auto
    qed
    then have nb: "newest_before seq (seq_age seq newest) =
        insert (newest + 1) (newest_before seq (seq_age seq (newest + 1)))"
      unfolding newest_before_def age by (simp only: image_insert here)
    have le: "seq_age seq (newest + 1) \<le> 32768" using age 1(3) by simp
    obtain ms' where "insert_missing_loop seq (newest + 1) (set_insert (newest + 1) ms) = (seq, ms')"
      "set ms' = set (set_insert (newest + 1) ms) \<union> newest_before seq (seq_age seq (newest + 1))"
      using 1(1) [OF refl] ah False le by auto
    with False nb show ?thesis
      by (auto simp: insert_missing_loop.simps [of seq newest] ah set_set_insert)
  qed
qed

lemma window_jump:
  assumes "ahead_of seq newest" "old = seq - of_nat kMaxMissingPacketCount"
  shows "(if ahead_of old newest then old else newest) \<noteq> seq \<and>
    seq_age seq (if ahead_of old newest then old else newest) = min kMaxMissingPacketCount (seq_age seq newest)"
proof -
  have d: "0 < seq_age seq newest" "seq_age seq newest \<le> 32768" using ahead_age [OF assms(1)] by auto
  have old: "seq_age seq old = kMaxMissingPacketCount" by (simp add: assms(2) seq_age_def kMaxMissingPacketCount_def)
  have "ahead_of old newest \<longleftrightarrow> kMaxMissingPacketCount < seq_age seq newest"
    using older_age_limit [of kMaxMissingPacketCount seq newest] d(2)
    by (simp add: older_than_def assms(2) kMaxMissingPacketCount_def)
  moreover have "old \<noteq> seq" using old by (auto simp: kMaxMissingPacketCount_def)
  moreover have "newest \<noteq> seq" using assms(1) by auto
  ultimately show ?thesis using old by simp
qed

lemma update_missing_jump:
  assumes "pb_newest_inserted b = Some newest" "ahead_of seq newest"
    and "b' = update_missing_packets seq kMaxMissingPacketCount b"
  shows "pb_newest_inserted b' = Some seq \<and>
    set (pb_missing b') = set (dropWhile (\<lambda>x. older_than x (seq - 1000)) (pb_missing b)) \<union>
      newest_before seq (min 1000 (seq_age seq newest))"
proof -
  let ?old = "seq - of_nat kMaxMissingPacketCount"
  let ?start = "if ahead_of ?old newest then ?old else newest"
  have st: "?start \<noteq> seq" "seq_age seq ?start = min kMaxMissingPacketCount (seq_age seq newest)"
    using window_jump [OF assms(2) refl] by auto
  then have "seq_age seq ?start \<le> 32768" by (simp add: kMaxMissingPacketCount_def)
  from insert_missing_loop_ends [OF st(1) this, of "dropWhile (\<lambda>x. older_than x ?old) (pb_missing b)"]
  obtain ms' where "insert_missing_loop seq ?start (dropWhile (\<lambda>x. older_than x ?old) (pb_missing b)) = (seq, ms')"
    "set ms' = set (dropWhile (\<lambda>x. older_than x ?old) (pb_missing b)) \<union>
       newest_before seq (min kMaxMissingPacketCount (seq_age seq newest))"
    unfolding st(2) by blast
  moreover from this(1) have "b' = b\<lparr>pb_newest_inserted := Some seq, pb_missing := ms'\<rparr>"
    using assms by (simp add: update_missing_packets_def Let_def)
  ultimately show ?thesis by (simp add: kMaxMissingPacketCount_def)
qed

text \<open>
  While the packets of one frame arrive, the missing packets are packets of the frame that have not
  arrived, below the newest number inserted. It starts from a buffer that misses nothing: nothing was
  inserted yet, or the newest number is the one before the frame.
\<close>

definition no_gap :: "u16 \<Rightarrow> packet_buffer \<Rightarrow> bool" where
  "no_gap base b \<longleftrightarrow> pb_missing b = [] \<and> (pb_newest_inserted b = None \<or> pb_newest_inserted b = Some (base - 1))"

definition tracks :: "u16 \<Rightarrow> nat \<Rightarrow> nat set \<Rightarrow> packet_buffer \<Rightarrow> bool" where
  "tracks base len A b \<longleftrightarrow>
     (pb_newest_inserted b = None \<and> pb_missing b = [] \<and> A = {}) \<or>
     (\<exists>m\<le>len. pb_newest_inserted b = Some (base - 1 + of_nat m) \<and> A \<subseteq> {..<m} \<and>
        set (pb_missing b) \<subseteq> (\<lambda>i. base + of_nat i) ` ({..<m} - A))"

lemma tracks_start: "no_gap base b \<Longrightarrow> tracks base len {} b"
  by (auto simp: no_gap_def tracks_def)

lemma tracks_end: "tracks base len {..<len} b \<Longrightarrow> no_gap (base + of_nat len) b"
proof -
  assume "tracks base len {..<len} b"
  then consider "pb_newest_inserted b = None" "pb_missing b = []"
    | m where "m \<le> len" "{..<len} \<subseteq> {..<m}" "pb_newest_inserted b = Some (base - 1 + of_nat m)"
      "set (pb_missing b) \<subseteq> (\<lambda>i. base + of_nat i) ` ({..<m} - {..<len})"
    by (auto simp: tracks_def)
  then show ?thesis
  proof cases
    case (2 m)
    then have "m = len" by (simp add: lessThan_subset_iff)
    with 2 show ?thesis by (auto simp: no_gap_def)
  qed (simp add: no_gap_def)
qed

lemma seq_age_offset:
  assumes "m \<le> Suc j" "j < 32768"
  shows "seq_age (base + of_nat j) (base - 1 + of_nat m) = Suc j - m"
proof -
  have "base + of_nat j - (base - 1 + of_nat m) = (of_nat (Suc j) - of_nat m :: u16)" by simp
  also have "\<dots> = of_nat (Suc j - m)" using assms(1) by (simp only: of_nat_diff)
  finally have "seq_age (base + of_nat j) (base - 1 + of_nat m) = unat (of_nat (Suc j - m) :: u16)"
    by (simp only: seq_age_def)
  also have "\<dots> = Suc j - m" using assms(2) by (intro unat_of_nat_small) simp
  finally show ?thesis .
qed

lemma ahead_of_offset:
  fixes base :: u16
  assumes "m \<le> len" "len < 32768" "j < len"
  shows "ahead_of (base + of_nat j) (base - 1 + of_nat m) \<longleftrightarrow> m \<le> j"
proof (cases "m \<le> Suc j")
  case True
  define x y where "x = base + of_nat j" and "y = base - 1 + of_nat m"
  have age: "seq_age x y = Suc j - m" unfolding x_def y_def using seq_age_offset True assms by simp
  have "seq_age x y < 32768" using age assms by simp
  from ahead_of_age [OF this] have "ahead_of x y \<longleftrightarrow> seq_age x y \<noteq> 0" by (simp only: seq_age_0)
  then have "ahead_of x y \<longleftrightarrow> m \<le> j" using True by (auto simp only: age)
  then show ?thesis by (simp only: x_def y_def)
next
  case False
  define x y where "x = base + of_nat j" and "y = base - 1 + of_nat m"
  obtain k where k: "m = Suc k" "j < k" using False by (cases m) auto
  have eq: "y = base + of_nat k" "x = base - 1 + of_nat (Suc j)" by (simp_all add: k x_def y_def)
  have "seq_age y x = Suc k - Suc j" unfolding eq using k assms by (intro seq_age_offset) simp_all
  then have "seq_age y x < 32768" using k assms by simp
  from older_near_flip [OF this] False show ?thesis by (simp add: older_than_def x_def y_def)
qed

lemma tracks_insert:
  assumes "tracks base len A b" "len < 32768" "j < len" "j \<notin> A"
  shows "tracks base len (insert j A) (update_missing_packets (base + of_nat j) kMaxMissingPacketCount b)"
proof -
  let ?seq = "base + of_nat j" and ?off = "\<lambda>i. base + of_nat i"
  define b' where "b' = update_missing_packets ?seq kMaxMissingPacketCount b"
  have here: "?seq = base - 1 + of_nat (Suc j)" by simp
  from assms(1) consider "pb_newest_inserted b = None" "pb_missing b = []" "A = {}"
    | m where "m \<le> len" "pb_newest_inserted b = Some (base - 1 + of_nat m)" "A \<subseteq> {..<m}"
      "set (pb_missing b) \<subseteq> ?off ` ({..<m} - A)"
    by (auto simp: tracks_def)
  then have "\<exists>m\<le>len. pb_newest_inserted b' = Some (base - 1 + of_nat m) \<and> insert j A \<subseteq> {..<m} \<and>
      set (pb_missing b') \<subseteq> ?off ` ({..<m} - insert j A)"
  proof cases
    case 1
    then have "pb_newest_inserted b' = Some (base - 1 + of_nat (Suc j))" "pb_missing b' = []"
      by (simp_all add: b'_def update_missing_packets_def)
    with 1 assms(3) show ?thesis by (intro exI [of _ "Suc j"]) auto
  next
    case (2 m)
    show ?thesis
    proof (cases "m \<le> j")
      case True
      then have ah: "ahead_of ?seq (base - 1 + of_nat m)" using ahead_of_offset [OF 2(1) assms(2,3)] by simp
      have age: "seq_age ?seq (base - 1 + of_nat m) = Suc j - m" using True assms by (intro seq_age_offset) auto
      have new: "pb_newest_inserted b' = Some (base - 1 + of_nat (Suc j))"
        "set (pb_missing b') \<subseteq> set (pb_missing b) \<union> newest_before ?seq (Suc j - m)"
      proof -
        have sub: "newest_before ?seq (min 1000 (Suc j - m)) \<subseteq> newest_before ?seq (Suc j - m)"
          "set (dropWhile P (pb_missing b)) \<subseteq> set (pb_missing b)" for P
          unfolding newest_before_def by (intro image_mono) (auto dest: set_dropWhileD)
        have "set (pb_missing b') = set (dropWhile (\<lambda>x. older_than x (?seq - 1000)) (pb_missing b)) \<union>
            newest_before ?seq (min 1000 (Suc j - m))"
          using update_missing_jump [OF 2(2) ah b'_def] unfolding age by (rule conjunct2)
        then show "set (pb_missing b') \<subseteq> set (pb_missing b) \<union> newest_before ?seq (Suc j - m)"
          using Un_mono [OF sub(2,1)] by (simp only:)
        show "pb_newest_inserted b' = Some (base - 1 + of_nat (Suc j))"
          using update_missing_jump [OF 2(2) ah b'_def] by (simp only: here)
      qed
      have "newest_before ?seq (Suc j - m) \<subseteq> ?off ` {m..<j}"
      proof
        fix x assume "x \<in> newest_before ?seq (Suc j - m)"
        then obtain k where k: "x = ?seq - of_nat k" "1 \<le> k" "k < Suc j - m" by (auto simp: newest_before_def)
        then have "x = ?off (j - k)" "j - k \<in> {m..<j}" by (auto simp: of_nat_diff)
        then show "x \<in> ?off ` {m..<j}" by blast
      qed
      moreover have off: "{m..<j} \<subseteq> {..<Suc j} - insert j A" "{..<m} - A \<subseteq> {..<Suc j} - insert j A" "insert j A \<subseteq> {..<Suc j}"
        using 2(3) True by auto
      ultimately have "set (pb_missing b') \<subseteq> ?off ` ({..<Suc j} - insert j A)"
        using new(2) 2(4) image_mono [OF off(1), of ?off] image_mono [OF off(2), of ?off] by (meson Un_least order.trans)
      with new(1) off(3) assms(3) show ?thesis by (metis Suc_leI)
    next
      case False
      then have "\<not> ahead_of ?seq (base - 1 + of_nat m)" using ahead_of_offset [OF 2(1) assms(2,3)] by simp
      with 2(2) have "pb_newest_inserted b' = Some (base - 1 + of_nat m)" "set (pb_missing b') = set (pb_missing b) - {?seq}"
        by (auto simp: b'_def update_missing_packets_def)
      moreover have "?off ` ({..<m} - A) - {?seq} \<subseteq> ?off ` ({..<m} - insert j A)" by auto
      ultimately show ?thesis using 2(1,3,4) False by (intro exI [of _ m]) auto
    qed
  qed
  then show ?thesis by (simp add: tracks_def b'_def)
qed

section \<open>Arrival in any order\<close>

lemma layout_empty: "layout base n (\<lambda>j. None) = replicate n None"
  by (simp add: layout_def map_replicate_const)

lemma arrived_gap:
  assumes "is_frame h264 base ts ps" "length ps \<le> n" "n dvd 65536" "j < length ps" "\<not> {..<j} \<subseteq> A"
  shows "is_continuous (base + of_nat j) (layout base n ((arrived ps A)(j := Some ((ps ! j)\<lparr>vp_continuous := False\<rparr>)))) = Some False"
proof -
  obtain i where i: "j = Suc i" using assms(5) by (cases j) auto
  have n: "0 < n" "j < n" "i < n" using assms(2,4) i by auto
  have gap: "\<not> {..i} \<subseteq> A" using assms(5) i by (auto simp: lessThan_Suc_atMost)
  have idx: "slot_index (layout base n g) (base + of_nat j) = Some (slot_pos base n j)" for g
    using slot_index_layout [OF assms(3) n(1)] .
  have prev: "prev_index (layout base n g) (slot_pos base n j) = slot_pos base n i" for g
    using slot_pos_prev [OF n(1)] i by simp
  show ?thesis
    using n gap idx prev is_frameD [OF assms(1,4)] i
    by (auto simp: is_continuous_def get_slot_layout arrived_def)
qed

lemma arrived_insert_gap:
  assumes "j \<notin> A" "\<not> {..<j} \<subseteq> A"
  shows "((arrived ps A)(j := Some ((ps ! j)\<lparr>vp_continuous := False\<rparr>))) = arrived ps (insert j A)"
proof
  fix k
  have flag: "{..k} \<subseteq> insert j A \<longleftrightarrow> {..k} \<subseteq> A" if "k \<noteq> j"
  proof (cases "k < j")
    case True
    then show ?thesis by auto
  next
    case False
    with that have "j < k" by simp
    then have "{..<j} \<subseteq> {..k}" "j \<in> {..k}" by auto
    with assms show ?thesis by blast
  qed
  obtain i where "i < j" "i \<notin> A" using assms(2) by auto
  then have "i \<in> {..j}" "i \<notin> insert j A" by auto
  then have "\<not> {..j} \<subseteq> insert j A" by blast
  then show "((arrived ps A)(j := Some ((ps ! j)\<lparr>vp_continuous := False\<rparr>))) k = arrived ps (insert j A) k"
    using flag by (auto simp: arrived_def)
qed

lemma arrived_insert_front:
  assumes "j \<notin> A" "{..<j} \<subseteq> A"
  shows "((arrived ps A)(j := Some ((ps ! j)\<lparr>vp_continuous := False\<rparr>))) = walk ps (insert j A) j"
proof
  fix k
  have "k < j \<longleftrightarrow> {..k} \<subseteq> A" if "k \<in> A"
  proof (cases "k < j")
    case True
    then have "{..k} \<subseteq> {..<j}" by auto
    with assms(2) True show ?thesis by blast
  next
    case False
    then have "j \<in> {..k}" by simp
    with assms(1) False show ?thesis by blast
  qed
  then show "((arrived ps A)(j := Some ((ps ! j)\<lparr>vp_continuous := False\<rparr>))) k = walk ps (insert j A) j k"
    by (auto simp: arrived_def walk_def)
qed

lemma assemble_arrived:
  assumes "is_frame h264 base ts ps" "length ps \<le> n" "n dvd 65536" "A \<subseteq> {..<length ps}"
    and "j < length ps" "j \<notin> A"
    and b: "pb_slots b = layout base n ((arrived ps A)(j := Some ((ps ! j)\<lparr>vp_continuous := False\<rparr>)))"
    and gate: "h264 \<and> \<not> key_frame (pb_sps_pps_idr_is_keyframe b) ps \<and> insert j A = {..<length ps} \<longrightarrow> pb_missing b = []"
  shows "if insert j A = {..<length ps}
     then \<exists>f. try_to_assemble_frames (base + of_nat j) b = Some ([f], b\<lparr>pb_slots := layout base n (\<lambda>j. None),
         pb_missing := dropWhile (\<lambda>x. \<not> older_than (base + of_nat (length ps - 1)) x) (pb_missing b)\<rparr>) \<and>
       frame_of (pb_sps_pps_idr_is_keyframe b) h264 base ts ps f
     else try_to_assemble_frames (base + of_nat j) b = Some ([], b\<lparr>pb_slots := layout base n (arrived ps (insert j A))\<rparr>)"
proof -
  have len: "length (pb_slots b) = n" by (simp add: b)
  have A': "insert j A \<subseteq> {..<length ps}" using assms(4,5) by auto
  show ?thesis
  proof (cases "{..<j} \<subseteq> A")
    case True
    then have pre: "{..<j} \<subseteq> insert j A" by auto
    have "pb_slots b = layout base n (walk ps (insert j A) j)"
      using b arrived_insert_front [OF assms(6) True] by simp
    moreover have "length ps - j \<le> n" using assms(2) by simp
    ultimately show ?thesis
      using assemble_loop_walk [OF assms(1-3) A' pre assms(5), of n b "[]"] gate
      unfolding try_to_assemble_frames_def len append_Nil by blast
  next
    case False
    obtain m where m: "n = Suc m" using assms(2,5) by (cases n) auto
    obtain i where "i < j" "i \<notin> A" using False by auto
    then have "i \<in> {..<length ps}" "i \<notin> insert j A" using assms(5) by auto
    then have "insert j A \<noteq> {..<length ps}" by blast
    moreover have "try_to_assemble_frames (base + of_nat j) b = Some ([], b)"
      using arrived_gap [OF assms(1-3,5) False] unfolding try_to_assemble_frames_def len m
      by (simp add: b m)
    ultimately show ?thesis using b arrived_insert_gap [OF assms(6) False] by (simp add: packet_buffer.equality)
  qed
qed

text \<open>
  A buffer that was cleared up to some number takes the frame when none of its packets is older.
  \<open>in_progress\<close> is the state after the packets at the offsets \<open>A\<close> have arrived; \<open>t\<close> says that the
  missing packets are tracked as well.
\<close>

definition accepts :: "u16 \<Rightarrow> nat \<Rightarrow> packet_buffer \<Rightarrow> bool" where
  "accepts base len b \<longleftrightarrow> (pb_is_cleared b \<longrightarrow> pb_first_packet_received b \<and>
     (\<forall>j<len. \<not> ahead_of (pb_first_seq_num b) (base + of_nat j)))"

definition in_progress :: "bool \<Rightarrow> bool \<Rightarrow> u16 \<Rightarrow> vb_packet list \<Rightarrow> nat \<Rightarrow> nat set \<Rightarrow> packet_buffer \<Rightarrow> bool" where
  "in_progress t fl base ps n A b \<longleftrightarrow> pb_slots b = layout base n (arrived ps A) \<and> accepts base (length ps) b \<and>
     pb_sps_pps_idr_is_keyframe b = fl \<and> (t \<longrightarrow> length ps < 32768 \<and> tracks base (length ps) A b)"

lemma accepts_update [simp]:
  "accepts base len (update_missing_packets seq w b) = accepts base len b"
  "accepts base len (b\<lparr>pb_slots := s\<rparr>) = accepts base len b"
  "accepts base len (b\<lparr>pb_missing := ms\<rparr>) = accepts base len b"
  by (simp_all add: accepts_def)

lemma accepts_first: "accepts base len b \<Longrightarrow> j < len \<Longrightarrow> accepts base len (update_first_seq_num (base + of_nat j) b)"
  by (auto simp: accepts_def update_first_seq_num_def)

lemma tracks_cong:
  "pb_newest_inserted b' = pb_newest_inserted b \<Longrightarrow> pb_missing b' = pb_missing b \<Longrightarrow> tracks base len A b' = tracks base len A b"
  by (simp add: tracks_def)

lemma no_gap_slots [simp]: "no_gap base (b\<lparr>pb_slots := s\<rparr>) = no_gap base b"
  by (simp add: no_gap_def)

lemma insert_stores:
  assumes "is_frame h264 base ts ps" "length ps \<le> n" "n dvd 65536" "j < length ps" "j \<notin> A"
    and "in_progress t fl base ps n A b"
  obtains b2 where "pb_insert_packet (ps ! j) b = Option.bind (try_to_assemble_frames (base + of_nat j) b2)
      (\<lambda>(fs, b). Some (\<lparr>assembled_frames = fs, pb_keyframe_requested = False\<rparr>, b))"
    "pb_slots b2 = layout base n ((arrived ps A)(j := Some ((ps ! j)\<lparr>vp_continuous := False\<rparr>)))"
    "accepts base (length ps) b2" "pb_sps_pps_idr_is_keyframe b2 = fl"
    "t \<longrightarrow> length ps < 32768 \<and> tracks base (length ps) (insert j A) b2"
proof -
  have jn: "j < n" "0 < n" using assms(2,4) by auto
  have st: "pb_slots b = layout base n (arrived ps A)" "accepts base (length ps) b" "pb_sps_pps_idr_is_keyframe b = fl"
    "t \<longrightarrow> length ps < 32768 \<and> tracks base (length ps) A b"
    using assms(6) by (auto simp: in_progress_def)
  have seq: "vp_seq_num (ps ! j) = base + of_nat j" using is_frameD [OF assms(1,4)] by simp
  have idx: "slot_index (layout base n g) (base + of_nat j) = Some (slot_pos base n j)" for g
    using slot_index_layout [OF assms(3) jn(2)] .
  define b1 where "b1 = update_first_seq_num (base + of_nat j) b"
  have b1: "pb_slots b1 = layout base n (arrived ps A)" "accepts base (length ps) b1" "pb_sps_pps_idr_is_keyframe b1 = fl"
    using st accepts_first [OF st(2) assms(4)] by (simp_all add: b1_def)
  let ?g = "(arrived ps A)(j := Some ((ps ! j)\<lparr>vp_continuous := False\<rparr>))"
  define b2 where "b2 = update_missing_packets (base + of_nat j) kMaxMissingPacketCount (b1\<lparr>pb_slots := layout base n ?g\<rparr>)"
  have b2: "pb_slots b2 = layout base n ?g" "accepts base (length ps) b2" "pb_sps_pps_idr_is_keyframe b2 = fl"
    using b1 by (simp_all add: b2_def)
  have "tracks base (length ps) A (b1\<lparr>pb_slots := layout base n ?g\<rparr>) = tracks base (length ps) A b"
    by (rule tracks_cong) (simp_all add: b1_def)
  then have tr: "t \<longrightarrow> length ps < 32768 \<and> tracks base (length ps) (insert j A) b2"
    using st(4) tracks_insert [OF _ _ assms(4,5)] unfolding b2_def by blast
  have store: "store_packet (ps ! j) b1 = Option.bind (try_to_assemble_frames (base + of_nat j) b2)
      (\<lambda>(fs, b). Some (\<lparr>assembled_frames = fs, pb_keyframe_requested = False\<rparr>, b))"
    using jn idx by (simp add: store_packet_def seq b1(1) layout_update b2_def Let_def)
  have "get_slot (layout base n (arrived ps A)) (slot_pos base n j) = Some None"
    using jn assms(5) by (simp add: get_slot_layout arrived_def)
  moreover have "\<not> (ahead_of (pb_first_seq_num b) (base + of_nat j) \<and> pb_is_cleared b)"
    using st(2) assms(4) by (auto simp: accepts_def)
  ultimately have "pb_insert_packet (ps ! j) b = store_packet (ps ! j) b1"
    using idx st(1) by (auto simp: pb_insert_packet_def seq Let_def b1_def)
  with store b2 tr that show ?thesis by simp
qed

lemma insert_arrived:
  assumes "is_frame h264 base ts ps" "length ps \<le> n" "n dvd 65536" "A \<subseteq> {..<length ps}"
    and "j < length ps" "j \<notin> A" "in_progress t fl base ps n A b" "h264 \<and> \<not> key_frame fl ps \<longrightarrow> t"
  shows "\<exists>b' fs. pb_insert_packet (ps ! j) b =
      Some (\<lparr>assembled_frames = fs, pb_keyframe_requested = False\<rparr>, b') \<and>
    (if insert j A = {..<length ps}
     then pb_slots b' = layout base n (\<lambda>j. None) \<and> (t \<longrightarrow> no_gap (base + of_nat (length ps)) b') \<and>
       (\<exists>f. fs = [f] \<and> frame_of fl h264 base ts ps f)
     else fs = [] \<and> in_progress t fl base ps n (insert j A) b')"
proof -
  obtain b2 where b2: "pb_insert_packet (ps ! j) b = Option.bind (try_to_assemble_frames (base + of_nat j) b2)
      (\<lambda>(fs, b). Some (\<lparr>assembled_frames = fs, pb_keyframe_requested = False\<rparr>, b))"
    "pb_slots b2 = layout base n ((arrived ps A)(j := Some ((ps ! j)\<lparr>vp_continuous := False\<rparr>)))"
    "accepts base (length ps) b2" "pb_sps_pps_idr_is_keyframe b2 = fl"
    "t \<longrightarrow> length ps < 32768 \<and> tracks base (length ps) (insert j A) b2"
    using insert_stores [OF assms(1-3,5-7)] .
  have fin: "no_gap (base + of_nat (length ps)) b2" if "t" "insert j A = {..<length ps}"
    using tracks_end that b2(5) by metis
  then have gate: "h264 \<and> \<not> key_frame (pb_sps_pps_idr_is_keyframe b2) ps \<and> insert j A = {..<length ps} \<longrightarrow> pb_missing b2 = []"
    using assms(8) b2(4) by (auto simp: no_gap_def)
  note r = assemble_arrived [OF assms(1-6) b2(2) gate]
  show ?thesis
  proof (cases "insert j A = {..<length ps}")
    case True
    with r obtain f where "try_to_assemble_frames (base + of_nat j) b2 = Some ([f], b2\<lparr>pb_slots := layout base n (\<lambda>j. None),
         pb_missing := dropWhile (\<lambda>x. \<not> older_than (base + of_nat (length ps - 1)) x) (pb_missing b2)\<rparr>)"
      "frame_of fl h264 base ts ps f"
      unfolding b2(4) by auto
    with True b2(1) fin show ?thesis by (auto simp: no_gap_def)
  next
    case False
    let ?b = "b2\<lparr>pb_slots := layout base n (arrived ps (insert j A))\<rparr>"
    have "tracks base (length ps) (insert j A) ?b = tracks base (length ps) (insert j A) b2"
      by (rule tracks_cong) simp_all
    then have "in_progress t fl base ps n (insert j A) ?b" using b2(3-5) by (simp add: in_progress_def)
    with False r b2(1) show ?thesis by auto
  qed
qed

fun pb_insert_all :: "vb_packet list \<Rightarrow> packet_buffer \<Rightarrow> (vb_frame list \<times> packet_buffer) option" where
  "pb_insert_all [] b = Some ([], b)"
| "pb_insert_all (p # ps) b = do {
     (r, b) \<leftarrow> pb_insert_packet p b;
     (fs, b) \<leftarrow> pb_insert_all ps b;
     Some (assembled_frames r @ fs, b) }"

lemma insert_all_arrived:
  assumes "is_frame h264 base ts ps" "length ps \<le> n" "n dvd 65536" "h264 \<and> \<not> key_frame fl ps \<longrightarrow> t"
    and "distinct xs" "A \<inter> set xs = {}" "A \<union> set xs \<subset> {..<length ps}" "in_progress t fl base ps n A b"
  shows "\<exists>b'. pb_insert_all (map ((!) ps) xs) b = Some ([], b') \<and> in_progress t fl base ps n (A \<union> set xs) b'"
  using assms(5-8)
proof (induction xs arbitrary: A b)
  case (Cons x xs)
  have x: "x < length ps" "x \<notin> A" "A \<subseteq> {..<length ps}" "insert x A \<noteq> {..<length ps}"
    using Cons.prems(2,3) by auto
  obtain b1 where b1: "pb_insert_packet (ps ! x) b =
      Some (\<lparr>assembled_frames = [], pb_keyframe_requested = False\<rparr>, b1)" "in_progress t fl base ps n (insert x A) b1"
    using insert_arrived [OF assms(1-3) x(3,1,2) Cons.prems(4) assms(4)] x(4) by auto
  have "insert x A \<inter> set xs = {}" "insert x A \<union> set xs \<subset> {..<length ps}" "distinct xs"
    using Cons.prems(1-3) by auto
  from Cons.IH [OF this(3,1,2) b1(2)] b1(1) show ?case by auto
qed simp

text \<open>
  C6. Frames are reassembled whatever the order of arrival. The packets of one frame, of H.264 or of another
  codec, are inserted in any order, also across the wrap of the sequence number, into an empty
  buffer that has room for them, whose size divides 65536 and which was not cleared past any of them.
  An H.264 frame that is not a key frame must also follow without a gap and have fewer than 32768
  packets. Then no insertion aborts, nothing comes out before the last packet arrives, and that
  one yields exactly the frame: the payloads in the order of the sequence numbers, and for H.264 the type
  that its units tell. The buffer is empty again, and if it followed without a gap, so does the next frame.
\<close>

theorem frame_assembled_in_any_order:
  assumes "is_frame h264 base ts ps" "length ps \<le> n" "n dvd 65536"
    and "pb_slots b = replicate n None" "accepts base (length ps) b"
    and "h264 \<and> \<not> key_frame (pb_sps_pps_idr_is_keyframe b) ps \<longrightarrow> no_gap base b \<and> length ps < 32768"
    and "distinct (xs @ [x])" "set (xs @ [x]) = {..<length ps}"
  shows "\<exists>b1 b2 f. pb_insert_all (map ((!) ps) xs) b = Some ([], b1) \<and>
    pb_insert_packet (ps ! x) b1 = Some (\<lparr>assembled_frames = [f], pb_keyframe_requested = False\<rparr>, b2) \<and>
    vf_bitstream f = concat (map vp_payload ps) \<and> vf_num_packets f = length ps \<and>
    vf_seq_num_start f = base \<and> vf_seq_num_end f = base + of_nat (length ps - 1) \<and> vf_timestamp f = ts \<and>
    vf_frame_type f = (if \<not> h264 then vp_frame_type (ps ! 0)
      else if key_frame (pb_sps_pps_idr_is_keyframe b) ps then FT_KEY else FT_DELTA) \<and>
    pb_slots b2 = replicate n None \<and>
    (no_gap base b \<and> length ps < 32768 \<longrightarrow> no_gap (base + of_nat (length ps)) b2)"
proof -
  let ?fl = "pb_sps_pps_idr_is_keyframe b"
  define t where "t \<longleftrightarrow> no_gap base b \<and> length ps < 32768"
  have t: "h264 \<and> \<not> key_frame ?fl ps \<longrightarrow> t" using assms(6) by (simp add: t_def)
  have x: "x \<notin> set xs" "x < length ps" "insert x (set xs) = {..<length ps}" "distinct xs"
    using assms(7,8) by auto
  then have sub: "{} \<union> set xs \<subset> {..<length ps}" by auto
  have "pb_slots b = layout base n (arrived ps {})"
    unfolding assms(4) layout_empty [symmetric, of n base] by (intro layout_eqI) (simp add: arrived_def)
  then have start: "in_progress t ?fl base ps n {} b"
    using assms(5) tracks_start by (simp add: in_progress_def t_def)
  obtain b1 where b1: "pb_insert_all (map ((!) ps) xs) b = Some ([], b1)" "in_progress t ?fl base ps n (set xs) b1"
    using insert_all_arrived [OF assms(1-3) t x(4) _ sub start] by auto
  have "set xs \<subseteq> {..<length ps}" using x(3) by auto
  then obtain b2 f where "pb_insert_packet (ps ! x) b1 =
      Some (\<lparr>assembled_frames = [f], pb_keyframe_requested = False\<rparr>, b2)"
    "pb_slots b2 = layout base n (\<lambda>j. None)" "frame_of ?fl h264 base ts ps f"
    "t \<longrightarrow> no_gap (base + of_nat (length ps)) b2"
    using insert_arrived [OF assms(1-3) _ x(2,1) b1(2) t] x(3) by auto
  with b1(1) show ?thesis by (auto simp: layout_empty frame_of_def t_def)
qed

definition example_packet :: "u16 \<Rightarrow> bool \<Rightarrow> bool \<Rightarrow> byte list \<Rightarrow> vb_packet" where
  "example_packet seq is_first is_last bytes =
     \<lparr>vp_width = 0, vp_height = 0, vp_frame_type = FT_KEY, vp_codec = VP8, vp_is_first = is_first,
      vp_is_last = is_last, vp_h264 = None, vp_payload = bytes, vp_continuous = False,
      vp_seq_num = seq, vp_timestamp = 90, vp_received_time_ms = 5, vp_times_nacked = 0\<rparr>"

definition example_h264 :: "u16 \<Rightarrow> bool \<Rightarrow> bool \<Rightarrow> byte list \<Rightarrow> vb_packet" where
  "example_h264 seq is_first is_last bytes = (example_packet seq is_first is_last bytes)\<lparr>vp_codec := H264,
     vp_h264 := Some \<lparr>nalu_count = 1, has_sps = False, has_pps = False, has_idr = False\<rparr>\<rparr>"

definition example_frame :: "vb_packet list" where
  "example_frame = [example_h264 65535 True False [1, 2], example_h264 0 False False [3],
     example_h264 1 False True [4]]"

theorem frame_assembled_in_any_order_witness:
  "\<exists>b1 b2 f. pb_insert_all (map ((!) example_frame) [2, 0]) (new_packet_buffer 4 8) = Some ([], b1) \<and>
    pb_insert_packet (example_frame ! 1) b1 = Some (\<lparr>assembled_frames = [f], pb_keyframe_requested = False\<rparr>, b2) \<and>
    vf_bitstream f = [1, 2, 3, 4] \<and> vf_num_packets f = 3 \<and> vf_seq_num_start f = 65535 \<and>
    vf_seq_num_end f = 1 \<and> vf_timestamp f = 90 \<and> vf_frame_type f = FT_DELTA \<and>
    pb_slots b2 = replicate 4 None \<and> no_gap 2 b2"
proof -
  have len: "length example_frame = 3" by (simp add: example_frame_def)
  have "vp_seq_num (example_frame ! j) = 65535 + of_nat j \<and> vp_timestamp (example_frame ! j) = 90 \<and>
      vp_codec (example_frame ! j) = H264 \<and> (vp_is_first (example_frame ! j) \<longleftrightarrow> j = 0) \<and>
      (vp_is_last (example_frame ! j) \<longleftrightarrow> j = 2) \<and>
      (case vp_h264 (example_frame ! j) of None \<Rightarrow> False | Some h \<Rightarrow> nalu_count h < kMaxNaluNumPerPacket)" if "j < 3" for j
  proof -
    have "j = 0 \<or> j = 1 \<or> j = 2" using that by auto
    then show ?thesis by (auto simp: example_frame_def example_h264_def example_packet_def kMaxNaluNumPerPacket_def)
  qed
  then have fr: "is_frame True 65535 90 example_frame"
    using len by (auto simp: is_frame_def)
  let ?b = "new_packet_buffer 4 8"
  have set: "set ([2, 0] @ [1]) = {..<length example_frame}" unfolding len by auto
  have new: "length example_frame \<le> 4" "4 dvd (65536 :: nat)" "distinct ([2, 0] @ [1 :: nat])"
    "pb_slots ?b = replicate 4 None" "accepts 65535 (length example_frame) ?b" "no_gap 65535 ?b"
    by (simp_all add: len new_packet_buffer_def accepts_def no_gap_def)
  have key: "\<not> key_frame (pb_sps_pps_idr_is_keyframe ?b) example_frame"
    by (simp add: key_frame_def carries_def example_frame_def example_h264_def)
  have gap: "True \<and> \<not> key_frame (pb_sps_pps_idr_is_keyframe ?b) example_frame \<longrightarrow>
      no_gap 65535 ?b \<and> length example_frame < 32768"
    using new(6) len by simp
  have pay: "concat (map vp_payload example_frame) = [1, 2, 3, 4]"
    by (simp add: example_frame_def example_h264_def example_packet_def)
  have stop: "65535 + of_nat (3 - 1) = (1 :: u16)" "65535 + of_nat 3 = (2 :: u16)" by simp_all
  show ?thesis
    using frame_assembled_in_any_order [OF fr new(1,2,4,5) gap new(3) set] key new(6)
    unfolding pay len stop by simp
qed

section \<open>Invariant of the slots\<close>

definition placed :: "slots \<Rightarrow> bool" where
  "placed s \<longleftrightarrow> (\<forall>i<length s. \<forall>p. s ! i = Some p \<longrightarrow> unat (vp_seq_num p) mod length s = i)"

definition pb_inv :: "packet_buffer \<Rightarrow> bool" where
  "pb_inv b \<longleftrightarrow> 0 < length (pb_slots b) \<and> length (pb_slots b) \<le> pb_max_size b \<and> placed (pb_slots b)"

lemma nth_upd: "j < length s \<Longrightarrow> s[i := x] ! j = (if i = j then x else s ! j)"
  by auto

lemma placed_store:
  "placed s \<Longrightarrow> unat (vp_seq_num p) mod length s = i \<Longrightarrow> placed (s[i := Some p])"
  by (auto simp: placed_def nth_upd split: if_splits)

lemma placed_reset: "placed s \<Longrightarrow> placed (s[i := None])"
  by (auto simp: placed_def nth_upd split: if_splits)

lemma placed_replicate: "placed (replicate n None)"
  by (simp add: placed_def)

text \<open>Assembling frames changes a packet in place, without touching its sequence number, or removes it.\<close>

definition shrinks :: "slots \<Rightarrow> slots \<Rightarrow> bool" where
  "shrinks s s' \<longleftrightarrow> length s' = length s \<and>
     (\<forall>i<length s. \<forall>q. s' ! i = Some q \<longrightarrow> (\<exists>p. s ! i = Some p \<and> vp_seq_num q = vp_seq_num p))"

definition held :: "slots \<Rightarrow> u16 set" where
  "held s = {vp_seq_num p | p. Some p \<in> set s}"

lemma shrinks_refl [simp]: "shrinks s s"
  by (simp add: shrinks_def)

lemma shrinks_trans: "shrinks s s' \<Longrightarrow> shrinks s' s'' \<Longrightarrow> shrinks s s''"
  unfolding shrinks_def by metis

lemma shrinks_reset: "shrinks s (s[i := None])"
  by (auto simp: shrinks_def nth_upd)

lemma shrinks_replace:
  "get_packet s i = Some p \<Longrightarrow> vp_seq_num q = vp_seq_num p \<Longrightarrow> shrinks s (s[i := Some q])"
  by (auto simp: shrinks_def nth_upd get_packet_def get_slot_def split: if_splits)

lemma shrinks_placed: "shrinks s s' \<Longrightarrow> placed s \<Longrightarrow> placed s'"
  unfolding shrinks_def placed_def by metis

lemma shrinks_held:
  assumes "shrinks s s'"
  shows "held s' \<subseteq> held s"
proof
  fix x assume "x \<in> held s'"
  then obtain q i where "x = vp_seq_num q" "i < length s'" "s' ! i = Some q" by (auto simp: held_def in_set_conv_nth)
  with assms obtain p where "i < length s" "s ! i = Some p" "x = vp_seq_num p" by (auto simp: shrinks_def)
  then show "x \<in> held s" unfolding held_def by (metis (mono_tags, lifting) mem_Collect_eq nth_mem)
qed

lemma set_continuous_shrinks: "set_continuous i s = Some s' \<Longrightarrow> shrinks s s'"
  by (auto simp: set_continuous_def intro: shrinks_replace)

lemma mark_first_shrinks: "mark_first a start s = Some s' \<Longrightarrow> shrinks s s'"
  by (auto simp: mark_first_def Let_def intro!: shrinks_replace split: Option.bind_splits)

lemma copy_packets_shrinks: "copy_packets i e start seq pos s f = Some (n, s', f') \<Longrightarrow> shrinks s s'"
proof (induction i e start seq pos s f rule: copy_packets.induct)
  case (1 i e start seq pos s f)
  show ?case
  proof (cases "i = e")
    case True
    then show ?thesis using 1(2) by (simp add: copy_packets.simps [of e e])
  next
    case False
    obtain j p f1 where s: "slot_index s i = Some j" "get_packet s j = Some p" "vp_seq_num p = i"
      "add_packet i start seq p pos f = Some f1"
      and rest: "copy_packets (i + 1) e start seq (pos + length (vp_payload p)) (s[j := None]) f1 = Some (n, s', f')"
      using 1(2) False by (auto simp: copy_packets.simps [of i e] split: Option.bind_splits if_splits)
    from 1(1) [OF False s(1,2) _ s(4) rest] s(3) shrinks_trans [OF shrinks_reset] show ?thesis by blast
  qed
qed

fun rest_buffer :: "packet_buffer + vb_frame \<times> packet_buffer \<Rightarrow> packet_buffer" where
  "rest_buffer (Inl b) = b"
| "rest_buffer (Inr (f, b)) = b"

lemma assemble_frame_shrinks:
  assumes "assemble_frame seq b = Some r"
  shows "shrinks (pb_slots b) (pb_slots (rest_buffer r)) \<and> pb_max_size (rest_buffer r) = pb_max_size b"
proof -
  obtain p sc where sc: "get_packet (pb_slots b) (unat seq mod length (pb_slots b)) = Some p"
    "scan_frame (length (pb_slots b)) (pb_sps_pps_idr_is_keyframe b) (vp_codec p = H264) (vp_timestamp p) (pb_slots b)
       (unat seq mod length (pb_slots b)) seq scan_start = Some sc"
    using assms by (auto simp: assemble_frame_def slot_index_def Let_def split: Option.bind_splits if_splits)
  show ?thesis
  proof (cases sc)
    case (Inl u)
    then show ?thesis
      using assms sc by (auto simp: assemble_frame_def slot_index_def Let_def split: if_splits)
  next
    case (Inr sa)
    obtain start a where sa: "sa = (start, a)" by (cases sa)
    obtain s1 where s1: "(if vp_codec p = H264 then mark_first a start (pb_slots b) else Some (pb_slots b)) = Some s1"
      and r: "pb_max_size (rest_buffer r) = pb_max_size b"
        "pb_slots (rest_buffer r) = s1 \<or>
         (\<exists>n k f. copy_packets start (seq + 1) start seq 0 s1 k = Some (n, pb_slots (rest_buffer r), f))"
      using assms sc Inr sa
      by (auto simp: assemble_frame_def slot_index_def Let_def split: Option.bind_splits if_splits) blast+
    have "shrinks (pb_slots b) s1" using s1 mark_first_shrinks by (auto split: if_splits)
    with r show ?thesis using copy_packets_shrinks shrinks_trans by metis
  qed
qed

lemma assemble_loop_shrinks:
  "assemble_loop n seq b frames = Some (fs, b') \<Longrightarrow> shrinks (pb_slots b) (pb_slots b') \<and> pb_max_size b' = pb_max_size b"
proof (induction n arbitrary: seq b frames)
  case (Suc n)
  show ?case
  proof (cases "is_continuous seq (pb_slots b) = Some True")
    case False
    then show ?thesis using Suc.prems by (auto split: Option.bind_splits if_splits)
  next
    case True
    obtain i s p where s: "slot_index (pb_slots b) seq = Some i" "set_continuous i (pb_slots b) = Some s"
      "get_packet s i = Some p"
      using Suc.prems True by (auto split: Option.bind_splits)
    note ok = set_continuous_shrinks [OF s(2)]
    let ?b = "b\<lparr>pb_slots := s\<rparr>"
    show ?thesis
    proof (cases "vp_is_last p")
      case False
      then have "assemble_loop n (seq + 1) ?b frames = Some (fs, b')" using Suc.prems True s by simp
      from Suc.IH [OF this] shrinks_trans [OF ok] show ?thesis by simp
    next
      case last: True
      obtain r where r: "assemble_frame seq ?b = Some r" using Suc.prems True s last by (auto split: Option.bind_splits)
      have fr: "shrinks (pb_slots b) (pb_slots (rest_buffer r))" "pb_max_size (rest_buffer r) = pb_max_size b"
        using assemble_frame_shrinks [OF r] shrinks_trans [OF ok] by simp_all
      show ?thesis
      proof (cases r)
        case (Inl b1)
        then show ?thesis using Suc.prems True s last r fr by simp
      next
        case (Inr fb)
        obtain f b1 where fb: "fb = (f, b1)" by (cases fb)
        have "assemble_loop n (seq + 1) b1 (frames @ [f]) = Some (fs, b')"
          using Suc.prems True s last r Inr fb by simp
        from Suc.IH [OF this] shrinks_trans [OF fr(1)] fr(2) Inr fb show ?thesis by simp
      qed
    qed
  qed
qed simp

lemma rehash_placed:
  "placed new \<Longrightarrow> length new = n \<Longrightarrow> placed (rehash n s new) \<and> length (rehash n s new) = n"
proof (induction s arbitrary: new)
  case (Cons c s)
  show ?case
  proof (cases c)
    case None
    then show ?thesis using Cons.IH [OF Cons.prems] by simp
  next
    case (Some p)
    have "placed (new[unat (vp_seq_num p) mod n := Some p])" using Cons.prems by (intro placed_store) auto
    from Cons.IH [OF this] Cons.prems(2) Some show ?thesis by simp
  qed
qed simp

lemma expand_size_bound:
  "expand_size m s seq n = Some (Some k) \<Longrightarrow> n \<le> m \<Longrightarrow> 0 < k \<and> k \<le> m"
proof (induction m s seq n rule: expand_size.induct)
  case (1 m s seq n)
  then show ?case by (subst (asm) expand_size.simps [of m s seq n]) (auto split: if_splits)
qed

lemma expand_if_necessary_inv:
  assumes "expand_if_necessary seq b = Some (ok, b')" "pb_inv b"
  shows "pb_inv b'"
proof -
  have "pb_inv (expand_packet_buffer k b)" if "0 < k" "k \<le> pb_max_size b" for k
    using assms(2) that rehash_placed [OF placed_replicate, of k k "pb_slots b"]
    by (auto simp: pb_inv_def expand_packet_buffer_def Let_def min_def)
  moreover have "b' = b \<or> (\<exists>k. expand_size (pb_max_size b) (pb_slots b) seq
      (min (pb_max_size b) (2 * length (pb_slots b))) = Some (Some k) \<and> b' = expand_packet_buffer k b)"
    using assms(1) by (auto simp: expand_if_necessary_def split: Option.bind_splits if_splits option.splits)
  ultimately show ?thesis using assms(2) expand_size_bound by fastforce
qed

lemma try_to_assemble_inv: "try_to_assemble_frames seq b = Some (fs, b') \<Longrightarrow> pb_inv b \<Longrightarrow> pb_inv b'"
  using assemble_loop_shrinks [of "length (pb_slots b)" seq b "[]" fs b'] shrinks_placed
  by (auto simp: try_to_assemble_frames_def pb_inv_def shrinks_def)

lemma update_missing_inv: "pb_inv b \<Longrightarrow> pb_inv (update_missing_packets seq w b)"
  by (simp add: pb_inv_def)

lemma store_packet_inv:
  assumes "store_packet p b = Some (r, b')" "pb_inv b"
  shows "pb_inv b'"
proof -
  let ?i = "unat (vp_seq_num p) mod length (pb_slots b)"
  let ?b = "b\<lparr>pb_slots := (pb_slots b)[?i := Some (p\<lparr>vp_continuous := False\<rparr>)]\<rparr>"
  have "pb_inv ?b" using assms(2) by (auto simp: pb_inv_def intro: placed_store)
  moreover obtain fs where
    "try_to_assemble_frames (vp_seq_num p) (update_missing_packets (vp_seq_num p) kMaxMissingPacketCount ?b) = Some (fs, b')"
    using assms(1) by (auto simp: store_packet_def slot_index_def Let_def split: Option.bind_splits if_splits)
  ultimately show ?thesis using try_to_assemble_inv update_missing_inv by blast
qed

lemma pb_clear_inv: "pb_inv b \<Longrightarrow> pb_inv (pb_clear b)"
  by (auto simp: pb_inv_def pb_clear_def placed_def)

lemma pb_insert_inv:
  assumes "pb_insert_packet p b = Some (r, b')" "pb_inv b"
  shows "pb_inv b'"
proof -
  define b1 where "b1 = update_first_seq_num (vp_seq_num p) b"
  have inv: "pb_inv b1" using assms(2) by (simp add: b1_def pb_inv_def)
  have "b' = b \<or> b' = b1 \<or> store_packet p b1 = Some (r, b') \<or>
      (\<exists>ok b2. expand_if_necessary (vp_seq_num p) b1 = Some (ok, b2) \<and>
         (b' = pb_clear b2 \<or> store_packet p b2 = Some (r, b')))"
    using assms(1) unfolding pb_insert_packet_def Let_def b1_def [symmetric]
    by (auto split: Option.bind_splits if_splits option.splits)
  then show ?thesis
    using inv assms(2) store_packet_inv expand_if_necessary_inv pb_clear_inv by blast
qed

lemma pb_padding_inv: "pb_insert_padding seq b = Some (r, b') \<Longrightarrow> pb_inv b \<Longrightarrow> pb_inv b'"
  by (auto simp: pb_insert_padding_def Let_def split: Option.bind_splits
      intro: try_to_assemble_inv [OF _ update_missing_inv])

lemma clear_slots_placed:
  "placed s \<Longrightarrow> placed (clear_slots n seq first s) \<and> length (clear_slots n seq first s) = length s"
proof (induction n arbitrary: first s)
  case (Suc n)
  let ?i = "unat first mod length s"
  let ?s = "case s ! ?i of None \<Rightarrow> s
            | Some p \<Rightarrow> if ahead_of seq (vp_seq_num p) then s[?i := None] else s"
  have "placed ?s" "length ?s = length s" using Suc.prems by (auto simp: placed_reset split: option.splits)
  with Suc.IH [of ?s "first + 1"] show ?case by (simp add: Let_def)
qed simp

lemma pb_clear_to_inv: "pb_inv b \<Longrightarrow> pb_inv (pb_clear_to seq b)"
  using clear_slots_placed [of "pb_slots b"] by (simp add: pb_inv_def pb_clear_to_def Let_def del: length_greater_0_conv)

inductive pb_reach :: "packet_buffer \<Rightarrow> bool" where
  start: "0 < n \<Longrightarrow> n \<le> m \<Longrightarrow> pb_reach (new_packet_buffer n m)"
| insert_packet: "pb_reach b \<Longrightarrow> pb_insert_packet p b = Some (r, b') \<Longrightarrow> pb_reach b'"
| insert_padding: "pb_reach b \<Longrightarrow> pb_insert_padding seq b = Some (r, b') \<Longrightarrow> pb_reach b'"
| clear_all: "pb_reach b \<Longrightarrow> pb_reach (pb_clear b)"
| clear_to: "pb_reach b \<Longrightarrow> pb_reach (pb_clear_to seq b)"
| set_flag: "pb_reach b \<Longrightarrow> pb_reach (set_sps_pps_idr_is_h264_keyframe flag b)"

lemma set_flag_inv: "pb_inv b \<Longrightarrow> pb_inv (set_sps_pps_idr_is_h264_keyframe flag b)"
  by (simp add: pb_inv_def set_sps_pps_idr_is_h264_keyframe_def)

lemma pb_reach_inv: "pb_reach b \<Longrightarrow> pb_inv b"
proof (induction rule: pb_reach.induct)
  case (start n m)
  then show ?case by (simp add: pb_inv_def new_packet_buffer_def placed_replicate)
qed (auto intro: pb_insert_inv pb_padding_inv pb_clear_inv pb_clear_to_inv set_flag_inv)

text \<open>
  C37. In every reachable state the buffer is not empty and within its maximal size, and each packet it
  holds is in the slot of its sequence number, so that no sequence number is held twice.
\<close>

theorem packet_buffer_invariant:
  assumes "pb_reach b"
  shows "0 < length (pb_slots b) \<and> length (pb_slots b) \<le> pb_max_size b \<and>
    (\<forall>i<length (pb_slots b). \<forall>p. pb_slots b ! i = Some p \<longrightarrow> unat (vp_seq_num p) mod length (pb_slots b) = i)"
  using pb_reach_inv [OF assms] by (simp add: pb_inv_def placed_def)

theorem packet_buffer_invariant_witness:
  "0 < length (pb_slots (pb_clear_to 3 (new_packet_buffer 4 8))) \<and>
   length (pb_slots (pb_clear_to 3 (new_packet_buffer 4 8))) \<le> pb_max_size (pb_clear_to 3 (new_packet_buffer 4 8))"
proof -
  have "pb_reach (pb_clear_to 3 (new_packet_buffer 4 8))" by (rule pb_reach.clear_to, rule pb_reach.start) simp_all
  from packet_buffer_invariant [OF this] show ?thesis by blast
qed

section \<open>Growing can lose a packet\<close>

lemma store_not_continuous:
  assumes "pb_slots b \<noteq> []" "i = unat (vp_seq_num p) mod length (pb_slots b)"
    and "is_continuous (vp_seq_num p) ((pb_slots b)[i := Some (p\<lparr>vp_continuous := False\<rparr>)]) = Some False"
  shows "\<exists>b'. store_packet p b = Some (\<lparr>assembled_frames = [], pb_keyframe_requested = False\<rparr>, b') \<and>
    pb_slots b' = (pb_slots b)[i := Some (p\<lparr>vp_continuous := False\<rparr>)] \<and> pb_max_size b' = pb_max_size b \<and>
    pb_is_cleared b' = pb_is_cleared b"
proof -
  obtain n where "length (pb_slots b) = Suc n" using assms(1) by (cases "pb_slots b") auto
  with assms show ?thesis
    by (simp add: store_packet_def slot_index_def Let_def try_to_assemble_frames_def)
qed

lemma placed_held:
  assumes "placed s" "x \<in> held s"
  shows "\<exists>p. s ! (unat x mod length s) = Some p \<and> vp_seq_num p = x"
proof -
  obtain p i where "x = vp_seq_num p" "i < length s" "s ! i = Some p"
    using assms(2) by (auto simp: held_def in_set_conv_nth)
  with assms(1) show ?thesis by (auto simp: placed_def)
qed

text \<open>The test for a collision cannot succeed when the new number is at least the new size.\<close>

lemma expand_size_blind:
  assumes "m \<le> unat seq" "0 < m" "m \<le> max_size"
  shows "expand_size max_size s seq m = Some (Some m)"
proof -
  have "unat (vp_seq_num p) mod m \<noteq> unat seq" for p
    using mod_less_divisor [OF assms(2), of "unat (vp_seq_num p)"] assms(1) by linarith
  then have "\<not> list_ex (\<lambda>c. case c of None \<Rightarrow> False | Some p \<Rightarrow> unat (vp_seq_num p) mod m = unat seq) s"
    by (auto simp: list_ex_iff split: option.splits)
  then show ?thesis using assms(2,3) by (subst expand_size.simps) simp
qed

lemma expand_grows:
  assumes "pb_inv b" "length (pb_slots b) \<noteq> pb_max_size b" "m = min (pb_max_size b) (2 * length (pb_slots b))"
    and "m \<le> unat seq" "pb_slots b ! (unat seq mod length (pb_slots b)) \<noteq> None"
  shows "\<exists>b1. expand_if_necessary seq b = Some (True, b1) \<and> length (pb_slots b1) = m \<and> placed (pb_slots b1) \<and>
    pb_max_size b1 = pb_max_size b"
proof -
  have m: "0 < m" "m \<le> pb_max_size b" "0 < length (pb_slots b)" using assms(1,3) by (auto simp: pb_inv_def simp del: length_greater_0_conv)
  have "expand_size (pb_max_size b) (pb_slots b) seq (min (pb_max_size b) (2 * length (pb_slots b))) = Some (Some m)"
    unfolding assms(3) [symmetric] by (rule expand_size_blind [OF assms(4) m(1,2)])
  then have "expand_if_necessary seq b = Some (True, expand_packet_buffer m b)"
    using assms(2,5) m(3) by (auto simp: expand_if_necessary_def slot_index_def get_slot_def)
  then show ?thesis
    using rehash_placed [OF placed_replicate, of m m "pb_slots b"] assms(2) m(2)
    by (simp add: expand_packet_buffer_def Let_def min_absorb2)
qed

lemma store_overwrites:
  assumes "store_packet p b = Some (r, b')" "placed (pb_slots b)" "length (pb_slots b) = m" "0 < m"
    and "unat x mod m = unat (vp_seq_num p) mod m" "x \<noteq> vp_seq_num p"
  shows "\<not> pb_keyframe_requested r \<and> length (pb_slots b') = m \<and> x \<notin> held (pb_slots b') \<and>
    (\<exists>b1. x \<notin> held (pb_slots b1) \<and> try_to_assemble_frames (vp_seq_num p) b1 = Some (assembled_frames r, b'))"
proof -
  let ?i = "unat (vp_seq_num p) mod m" and ?p = "p\<lparr>vp_continuous := False\<rparr>"
  define b1 where "b1 = update_missing_packets (vp_seq_num p) kMaxMissingPacketCount (b\<lparr>pb_slots := (pb_slots b)[?i := Some ?p]\<rparr>)"
  have s1: "pb_slots b1 = (pb_slots b)[?i := Some ?p]" by (simp add: b1_def)
  have pl: "placed (pb_slots b1)" using assms(2,3) by (auto simp: s1 intro!: placed_store)
  have at: "pb_slots b1 ! ?i = Some ?p" using assms(3,4) by (simp add: s1)
  have gone: "x \<notin> held (pb_slots b1)"
    using placed_held [OF pl, of x] at assms(3,5,6) by (auto simp: s1)
  have r: "\<not> pb_keyframe_requested r" "try_to_assemble_frames (vp_seq_num p) b1 = Some (assembled_frames r, b')"
    using assms(1,3,4) by (auto simp: store_packet_def slot_index_def Let_def b1_def split: Option.bind_splits if_splits)
  then have "shrinks (pb_slots b1) (pb_slots b')"
    using assemble_loop_shrinks unfolding try_to_assemble_frames_def by blast
  from this shrinks_held [OF this] have "length (pb_slots b') = m" "x \<notin> held (pb_slots b')"
    using gone assms(3) by (auto simp: shrinks_def s1)
  with r gone show ?thesis by blast
qed

text \<open>
  C39. Growing loses packets: the test for a collision at the larger size compares a remainder with a
  whole sequence number. In any reachable buffer below its maximal size, let the slot of a new
  packet be taken by another one, and let the new sequence number be at least the next size, where the two
  share a slot again. If the insertion returns, the buffer has grown to that size and the other packet is
  overwritten: it is gone before frames are assembled and in no slot afterwards. No key frame is
  requested.
\<close>

theorem growing_loses_packet:
  assumes "pb_reach b" "pb_insert_packet p b = Some (r, b')"
    and "\<not> (pb_first_packet_received b \<and> ahead_of (pb_first_seq_num b) (vp_seq_num p) \<and> pb_is_cleared b)"
    and "n = length (pb_slots b)" "n \<noteq> pb_max_size b" "m = min (pb_max_size b) (2 * n)"
    and "pb_slots b ! (unat (vp_seq_num p) mod n) = Some q" "vp_seq_num q \<noteq> vp_seq_num p"
    and "m \<le> unat (vp_seq_num p)" "unat (vp_seq_num q) mod m = unat (vp_seq_num p) mod m"
  shows "\<not> pb_keyframe_requested r \<and> length (pb_slots b') = m \<and> vp_seq_num q \<notin> held (pb_slots b') \<and>
    (\<exists>b1. vp_seq_num q \<notin> held (pb_slots b1) \<and>
      try_to_assemble_frames (vp_seq_num p) b1 = Some (assembled_frames r, b'))"
proof -
  let ?seq = "vp_seq_num p"
  define b0 where "b0 = update_first_seq_num ?seq b"
  have s0: "pb_slots b0 = pb_slots b" "pb_max_size b0 = pb_max_size b" by (simp_all add: b0_def)
  have inv: "pb_inv b0" using pb_reach_inv [OF assms(1)] by (simp add: pb_inv_def s0)
  have m: "0 < m" "0 < n" using inv assms(4,6) by (auto simp: pb_inv_def s0 simp del: length_greater_0_conv)
  obtain b1 where b1: "expand_if_necessary ?seq b0 = Some (True, b1)" "length (pb_slots b1) = m" "placed (pb_slots b1)"
    using expand_grows [OF inv, of m ?seq] assms(4-7,9) by (auto simp: s0)
  have slot: "slot_index (pb_slots b) ?seq = Some (unat ?seq mod n)" "get_slot (pb_slots b0) (unat ?seq mod n) = Some (Some q)"
    using m(2) assms(4,7) by (auto simp: slot_index_def get_slot_def s0)
  have "store_packet p b1 = Some (r, b')"
    using assms(2,3,8) b1(1) unfolding pb_insert_packet_def Let_def b0_def [symmetric] slot(1)
    by (auto simp: slot(2) split: if_splits)
  from store_overwrites [OF this b1(3,2) m(1) assms(10,8)] show ?thesis .
qed

theorem growing_loses_packet_witness:
  "\<exists>b r b'. pb_reach b \<and> 2 \<in> held (pb_slots b) \<and>
     pb_insert_packet (example_packet 6 False False [7]) b = Some (r, b') \<and>
     assembled_frames r = [] \<and> \<not> pb_keyframe_requested r \<and> 2 \<notin> held (pb_slots b') \<and>
     length (pb_slots b') = 4 \<and> pb_max_size b' = 8"
proof -
  let ?q = "example_packet 2 False False [5]" and ?p = "example_packet 6 False False [7]"
  have q: "?q\<lparr>vp_continuous := False\<rparr> = ?q" "?p\<lparr>vp_continuous := False\<rparr> = ?p"
    "vp_seq_num ?q = 2" "vp_seq_num ?p = 6" "\<not> vp_is_first ?q" "\<not> vp_is_first ?p"
    by (simp_all add: example_packet_def)
  have mods: "2 mod Suc (Suc 0) = 0" "6 mod Suc (Suc 0) = 0" "6 mod Suc (Suc (Suc (Suc 0))) = 2"
    "2 mod Suc (Suc (Suc (Suc 0))) = 2"
    by (simp_all add: numeral_2_eq_2 [symmetric] Suc_nat_number_of_add)
  let ?b0 = "(new_packet_buffer 2 8)\<lparr>pb_first_seq_num := 2, pb_first_packet_received := True\<rparr>"
  have s0: "pb_slots ?b0 = [None, None]" by (simp add: new_packet_buffer_def numeral_2_eq_2)
  have c0: "is_continuous 2 [Some ?q, None] = Some False"
    by (simp add: is_continuous_def slot_index_def get_slot_def prev_index_def q mods)
  obtain b where b: "store_packet ?q ?b0 = Some (\<lparr>assembled_frames = [], pb_keyframe_requested = False\<rparr>, b)"
    "pb_slots b = [Some ?q, None]" "pb_max_size b = 8" "\<not> pb_is_cleared b"
    using store_not_continuous [of ?b0 0 ?q] c0 s0 by (auto simp: q mods new_packet_buffer_def)
  have ins: "pb_insert_packet ?q (new_packet_buffer 2 8) = Some (\<lparr>assembled_frames = [], pb_keyframe_requested = False\<rparr>, b)"
    using b(1) s0 by (simp add: pb_insert_packet_def slot_index_def get_slot_def q mods Let_def new_packet_buffer_def update_first_seq_num_def)
  have reach: "pb_reach b"
    by (rule pb_reach.insert_packet [OF pb_reach.start ins]) simp_all
  have b': "\<exists>b1. expand_if_necessary 6 b2 = Some (True, b1) \<and> pb_slots b1 = [None, None, Some ?q, None] \<and> pb_max_size b1 = 8"
    if "pb_slots b2 = [Some ?q, None]" "pb_max_size b2 = 8" for b2
  proof -
    have sz: "expand_size 8 [Some ?q, None] 6 4 = Some (Some 4)"
      by (subst expand_size.simps) (simp add: q)
    have re: "replicate 4 None = [None, None, None, None :: vb_packet option]" by (simp add: numeral_eq_Suc)
    have "rehash 4 [Some ?q, None] (replicate 4 None) = [None, None, Some ?q, None]"
      unfolding re by (simp add: q)
    with that sz show ?thesis
      by (simp add: expand_if_necessary_def slot_index_def get_slot_def mods expand_packet_buffer_def)
  qed
  have c1: "is_continuous 6 [None, None, Some ?p, None] = Some False"
    by (simp add: is_continuous_def slot_index_def get_slot_def prev_index_def q mods)
  have b3: "\<exists>b3. store_packet ?p b1 = Some (\<lparr>assembled_frames = [], pb_keyframe_requested = False\<rparr>, b3) \<and>
      pb_slots b3 = [None, None, Some ?p, None] \<and> pb_max_size b3 = 8"
    if "pb_slots b1 = [None, None, Some ?q, None]" "pb_max_size b1 = 8" for b1
    using store_not_continuous [of b1 2 ?p] c1 that by (auto simp: q mods)
  define b2 where "b2 = update_first_seq_num 6 b"
  have s2: "pb_slots b2 = [Some ?q, None]" "pb_max_size b2 = 8" using b by (simp_all add: b2_def)
  obtain b1 b3 where e: "expand_if_necessary 6 b2 = Some (True, b1)"
    "store_packet ?p b1 = Some (\<lparr>assembled_frames = [], pb_keyframe_requested = False\<rparr>, b3)"
    "pb_slots b3 = [None, None, Some ?p, None]" "pb_max_size b3 = 8"
    using b' [OF s2] b3 by blast
  have "pb_insert_packet ?p b = Some (\<lparr>assembled_frames = [], pb_keyframe_requested = False\<rparr>, b3)"
    using b s2 e unfolding pb_insert_packet_def Let_def q b2_def [symmetric]
    by (simp add: slot_index_def get_slot_def q mods)
  note run = this
  have "unat (2 :: u16) mod 4 = unat (6 :: u16) mod 4" by simp
  then have lost: "2 \<notin> held (pb_slots b3)"
    using growing_loses_packet [OF reach run, of 2 4 ?q] b q by (simp add: mods)
  have "2 \<in> held (pb_slots b)" using b(2) q(3) by (auto simp: held_def intro!: exI [of _ ?q])
  with reach run lost e(3,4) show ?thesis
    by (intro exI [of _ b] exI) auto
qed

section \<open>A jump of the sequence number\<close>

text \<open>
  C40. A jump of the sequence number: however large it is, the loop of \<^verbatim>\<open>UpdateMissingPackets\<close> ends with
  the newest number at the one inserted, and it has added exactly the numbers in between, at most
  the last 999 of them.
\<close>

theorem missing_update_ends:
  assumes "pb_newest_inserted b = Some newest" "ahead_of seq newest"
    and "b' = update_missing_packets seq kMaxMissingPacketCount b"
  shows "pb_newest_inserted b' = Some seq \<and>
    set (pb_missing b') = set (dropWhile (\<lambda>x. older_than x (seq - 1000)) (pb_missing b)) \<union>
      (\<lambda>k. seq - of_nat k) ` {1..<min 1000 (unat (seq - newest))}"
  using update_missing_jump [OF assms] by (simp add: newest_before_def seq_age_def)

theorem missing_update_ends_witness:
  "\<exists>b'. b' = update_missing_packets 2 kMaxMissingPacketCount
       ((new_packet_buffer 4 8)\<lparr>pb_newest_inserted := Some 65534\<rparr>) \<and>
     pb_newest_inserted b' = Some 2 \<and> set (pb_missing b') = {1, 0, 65535}"
proof -
  let ?b = "(new_packet_buffer 4 8)\<lparr>pb_newest_inserted := Some 65534\<rparr>"
  have a: "ahead_of (2 :: u16) 65534" by (simp add: ahead_of_iff)
  have up: "{1..<min 1000 (unat (2 - 65534 :: u16))} = {1, 2, 3}" by auto
  have im: "(\<lambda>k. (2 :: u16) - of_nat k) ` {1, 2, 3} = {1, 0, 65535}"
  proof -
    have "(2 :: u16) - 1 = 1" "(2 :: u16) - 2 = 0" "(2 :: u16) - 3 = 65535" by simp_all
    then show ?thesis by (simp only: image_insert image_empty of_nat_numeral of_nat_1)
  qed
  show ?thesis
    using missing_update_ends [OF _ a refl, of ?b] unfolding up im by (simp add: new_packet_buffer_def)
qed

end
