(* ===== verification/CowBuffer.thy ===== *)
theory CowBuffer
  imports Prelude
begin

text \<open>
  Byte buffers shared between owners and copied when one of them writes:
  \<^verbatim>\<open>src/rtc/base/copy_on_write_buffer.hpp\<close> and \<^verbatim>\<open>copy_on_write_buffer.cpp\<close>. Every
  \<^verbatim>\<open>CopyOnWriteBuffer\<close> holds a \<^verbatim>\<open>std::shared_ptr<BinaryBuffer>\<close>, so the model has an explicit
  store: a list of vectors, a pointer being a position in it, and a list of owners, each a pointer
  or null. The use count of a vector is the number of owners that point to it.

  The lemmas show that the store refines plain values: every operation changes what its own object
  holds, as the same operation on a private vector would, and nothing any other object holds.
  \<^verbatim>\<open>Swap\<close> is the exception, and the theory shows exactly when it goes wrong.
\<close>

section \<open>Vectors of bytes\<close>

text \<open>
  A \<^verbatim>\<open>std::vector<uint8_t>\<close> owns as many bytes of memory as its capacity says; the first
  \<open>v_size\<close> of them are its elements. Memory that is allocated and not yet used holds zeros in the
  model. A reallocation follows the doubling of the GNU library; \<^verbatim>\<open>reserve\<close> allocates what it was
  asked for.
\<close>

record vec =
  v_mem :: "byte list"
  v_size :: nat

definition v_capacity :: "vec \<Rightarrow> nat" where
  "v_capacity v = length (v_mem v)"

definition v_elems :: "vec \<Rightarrow> byte list" where
  "v_elems v = take (v_size v) (v_mem v)"

definition v_ok :: "vec \<Rightarrow> bool" where
  "v_ok v \<longleftrightarrow> v_size v \<le> length (v_mem v)"

definition vec_of :: "byte list \<Rightarrow> vec" where
  "vec_of bs = \<lparr>v_mem = bs, v_size = length bs\<rparr>"

definition vec_reserve :: "nat \<Rightarrow> vec \<Rightarrow> vec" where
  "vec_reserve n v =
     (if n \<le> v_capacity v then v else v\<lparr>v_mem := v_elems v @ replicate (n - v_size v) 0\<rparr>)"

definition vec_grow :: "nat \<Rightarrow> vec \<Rightarrow> vec" where
  "vec_grow n v =
     (if v_size v + n \<le> v_capacity v then v else vec_reserve (v_size v + max (v_size v) n) v)"

definition vec_set_elems :: "byte list \<Rightarrow> vec \<Rightarrow> vec" where
  "vec_set_elems bs v = v\<lparr>v_mem := bs @ drop (length bs) (v_mem v), v_size := length bs\<rparr>"

definition vec_resize :: "nat \<Rightarrow> vec \<Rightarrow> vec" where
  "vec_resize n v =
     (if n \<le> v_size v then v\<lparr>v_size := n\<rparr>
      else vec_set_elems (v_elems v @ replicate (n - v_size v) 0) (vec_grow (n - v_size v) v))"

definition vec_clear :: "vec \<Rightarrow> vec" where
  "vec_clear v = v\<lparr>v_size := 0\<rparr>"

definition vec_assign :: "byte list \<Rightarrow> vec \<Rightarrow> vec" where
  "vec_assign bs v = vec_set_elems bs (vec_reserve (length bs) (vec_clear v))"

definition vec_insert :: "nat \<Rightarrow> byte list \<Rightarrow> vec \<Rightarrow> vec option" where
  "vec_insert pos bs v =
     (if pos \<le> v_size v
      then Some (vec_set_elems (take pos (v_elems v) @ bs @ drop pos (v_elems v)) (vec_grow (length bs) v))
      else None)"

definition vec_write :: "nat \<Rightarrow> byte \<Rightarrow> vec \<Rightarrow> vec option" where
  "vec_write i b v = (if i < v_capacity v then Some (v\<lparr>v_mem := (v_mem v)[i := b]\<rparr>) else None)"

lemma v_elems_simps [simp]:
  "v_ok v \<Longrightarrow> length (v_elems v) = v_size v"
  "v_elems (vec_of bs) = bs" "v_capacity (vec_of bs) = length bs" "v_ok (vec_of bs)"
  "v_size (vec_of bs) = length bs"
  by (auto simp: v_elems_def vec_of_def v_capacity_def v_ok_def)

lemma vec_reserve_simps [simp]:
  assumes "v_ok v"
  shows "v_ok (vec_reserve n v)" "v_elems (vec_reserve n v) = v_elems v"
    "v_size (vec_reserve n v) = v_size v" "v_capacity (vec_reserve n v) = max (v_capacity v) n"
  using assms by (auto simp: vec_reserve_def v_ok_def v_elems_def v_capacity_def)

lemma vec_grow_simps [simp]:
  assumes "v_ok v"
  shows "v_ok (vec_grow n v)" "v_elems (vec_grow n v) = v_elems v" "v_size (vec_grow n v) = v_size v"
    "v_capacity (vec_grow n v) =
       (if v_size v + n \<le> v_capacity v then v_capacity v else v_size v + max (v_size v) n)"
  using assms by (auto simp: vec_grow_def)

lemma vec_set_elems_simps [simp]:
  assumes "length bs \<le> v_capacity v"
  shows "v_ok (vec_set_elems bs v)" "v_elems (vec_set_elems bs v) = bs"
    "v_size (vec_set_elems bs v) = length bs" "v_capacity (vec_set_elems bs v) = v_capacity v"
  using assms by (auto simp: vec_set_elems_def v_ok_def v_elems_def v_capacity_def)

lemma vec_clear_simps [simp]:
  "v_ok (vec_clear v)" "v_elems (vec_clear v) = []" "v_capacity (vec_clear v) = v_capacity v"
  "v_size (vec_clear v) = 0"
  by (auto simp: vec_clear_def v_ok_def v_elems_def v_capacity_def)

lemma vec_resize_simps [simp]:
  assumes "v_ok v"
  shows "v_ok (vec_resize n v)"
    and "v_elems (vec_resize n v) = take n (v_elems v) @ replicate (n - v_size v) 0"
    and "v_capacity (vec_resize n v) = (if n \<le> v_capacity v then v_capacity v else max (2 * v_size v) n)"
    and "v_size (vec_resize n v) = n"
proof -
  consider (shrink) "n \<le> v_size v" | (grow) "v_size v < n" by linarith
  then have "v_ok (vec_resize n v) \<and>
      v_elems (vec_resize n v) = take n (v_elems v) @ replicate (n - v_size v) 0 \<and>
      v_capacity (vec_resize n v) = (if n \<le> v_capacity v then v_capacity v else max (2 * v_size v) n) \<and>
      v_size (vec_resize n v) = n"
  proof cases
    case shrink
    with assms show ?thesis
      by (auto simp: vec_resize_def v_ok_def v_elems_def v_capacity_def)
  next
    case grow
    with assms show ?thesis
      by (auto simp: vec_resize_def max_def)
  qed
  then show "v_ok (vec_resize n v)"
    and "v_elems (vec_resize n v) = take n (v_elems v) @ replicate (n - v_size v) 0"
    and "v_capacity (vec_resize n v) = (if n \<le> v_capacity v then v_capacity v else max (2 * v_size v) n)"
    and "v_size (vec_resize n v) = n"
    by simp_all
qed

lemma vec_assign_simps [simp]:
  "v_ok (vec_assign bs v)" "v_elems (vec_assign bs v) = bs" "v_size (vec_assign bs v) = length bs"
  "v_capacity (vec_assign bs v) = max (v_capacity v) (length bs)"
  by (simp_all add: vec_assign_def)

lemma vec_insert_simps:
  assumes "v_ok v" "vec_insert pos bs v = Some v'"
  shows "v_ok v'" "v_elems v' = take pos (v_elems v) @ bs @ drop pos (v_elems v)"
    "v_size v' = v_size v + length bs"
    "v_capacity v' =
       (if v_size v + length bs \<le> v_capacity v then v_capacity v
        else v_size v + max (v_size v) (length bs))"
  using assms by (auto simp: vec_insert_def max_def split: if_splits)

lemma vec_write_simps:
  assumes "v_ok v" "vec_write i b v = Some v'"
  shows "v_ok v'" "v_elems v' = (v_elems v)[i := b]" "v_size v' = v_size v" "v_capacity v' = v_capacity v"
  using assms by (auto simp: vec_write_def v_ok_def v_elems_def v_capacity_def take_update_swap split: if_splits)

section \<open>The store\<close>

text \<open>
  Owners are named by their position. An owner that goes out of scope stays in the list as null.
\<close>

record store =
  vecs :: "vec list"
  owners :: "nat option list"

definition use_count :: "store \<Rightarrow> nat \<Rightarrow> nat" where
  "use_count s a = count_list (owners s) (Some a)"

definition point_to :: "nat \<Rightarrow> nat option \<Rightarrow> store \<Rightarrow> store" where
  "point_to h p s = s\<lparr>owners := (owners s)[h := p]\<rparr>"

definition make_shared :: "nat \<Rightarrow> vec \<Rightarrow> store \<Rightarrow> store" where
  "make_shared h v s = s\<lparr>vecs := vecs s @ [v], owners := (owners s)[h := Some (length (vecs s))]\<rparr>"

definition update_vec :: "nat \<Rightarrow> (vec \<Rightarrow> vec) \<Rightarrow> store \<Rightarrow> store" where
  "update_vec a f s = s\<lparr>vecs := (vecs s)[a := f (vecs s ! a)]\<rparr>"

subsection \<open>Copies on write\<close>

definition clone_if_necessary :: "nat \<Rightarrow> nat \<Rightarrow> store \<Rightarrow> store" where
  "clone_if_necessary h new_capacity s =
     (case owners s ! h of
        None \<Rightarrow> s
      | Some a \<Rightarrow>
          if use_count s a = 1
          then if new_capacity > v_capacity (vecs s ! a) then update_vec a (vec_reserve new_capacity) s else s
          else make_shared h (vec_reserve new_capacity (vec_of (v_elems (vecs s ! a)))) s)"

definition create_empty_buffer_if_necessary :: "nat \<Rightarrow> store \<Rightarrow> store" where
  "create_empty_buffer_if_necessary h s =
     (if owners s ! h = None then make_shared h (vec_of []) s else s)"

subsection \<open>Construction, assignment and destruction\<close>

definition cow_sized :: "nat \<Rightarrow> nat \<Rightarrow> store \<Rightarrow> store" where
  "cow_sized h sz s =
     (if sz > 0 then make_shared h (vec_of (replicate sz 0)) s else point_to h None s)"

definition cow_with_capacity :: "nat \<Rightarrow> nat \<Rightarrow> nat \<Rightarrow> store \<Rightarrow> store option" where
  "cow_with_capacity h sz cap s =
     (if sz > 0 \<or> cap > 0
      then if cap \<ge> sz then Some (make_shared h (vec_reserve cap (vec_of (replicate sz 0))) s) else None
      else Some (point_to h None s))"

definition cow_of_data :: "nat \<Rightarrow> byte list \<Rightarrow> nat \<Rightarrow> store \<Rightarrow> store option" where
  "cow_of_data h bs cap s = do {
     s \<leftarrow> cow_with_capacity h (length bs) cap s;
     case owners s ! h of
       None \<Rightarrow> Some s
     | Some a \<Rightarrow> Some (update_vec a (\<lambda>v. v\<lparr>v_mem := bs @ drop (length bs) (v_mem v)\<rparr>) s) }"

definition cow_of_buffer :: "nat \<Rightarrow> byte list \<Rightarrow> store \<Rightarrow> store" where
  "cow_of_buffer h bs s = make_shared h (vec_of bs) s"

definition cow_copy :: "nat \<Rightarrow> nat \<Rightarrow> store \<Rightarrow> store" where
  "cow_copy h g s = (if g \<noteq> h then point_to h (owners s ! g) s else s)"

definition cow_move :: "nat \<Rightarrow> nat \<Rightarrow> store \<Rightarrow> store" where
  "cow_move h g s = (if g \<noteq> h then point_to g None (point_to h (owners s ! g) s) else s)"

definition cow_destroy :: "nat \<Rightarrow> store \<Rightarrow> store" where
  "cow_destroy h s = point_to h None s"

subsection \<open>Reading\<close>

definition cow_vec :: "nat \<Rightarrow> store \<Rightarrow> vec option" where
  "cow_vec h s = map_option (\<lambda>a. vecs s ! a) (owners s ! h)"

definition cow_cdata :: "nat \<Rightarrow> store \<Rightarrow> byte list" where
  "cow_cdata h s = (case cow_vec h s of None \<Rightarrow> [] | Some v \<Rightarrow> v_elems v)"

definition cow_size :: "nat \<Rightarrow> store \<Rightarrow> nat" where
  "cow_size h s = (case cow_vec h s of None \<Rightarrow> 0 | Some v \<Rightarrow> v_size v)"

definition cow_capacity :: "nat \<Rightarrow> store \<Rightarrow> nat" where
  "cow_capacity h s = (case cow_vec h s of None \<Rightarrow> 0 | Some v \<Rightarrow> v_capacity v)"

definition cow_equal :: "nat \<Rightarrow> nat \<Rightarrow> store \<Rightarrow> bool" where
  "cow_equal h g s \<longleftrightarrow>
     cow_size h s = cow_size g s \<and> (owners s ! h = owners s ! g \<or> cow_cdata h s = cow_cdata g s)"

definition cow_at_const :: "nat \<Rightarrow> nat \<Rightarrow> store \<Rightarrow> byte option" where
  "cow_at_const h i s = do { v \<leftarrow> cow_vec h s; rd (v_elems v) i }"

subsection \<open>Writing\<close>

text \<open>
  \<^verbatim>\<open>data()\<close> and \<^verbatim>\<open>begin()\<close> make the object the only owner of its vector and give out a pointer to
  it; \<open>cow_put\<close> is an assignment through the reference \<^verbatim>\<open>at(index)\<close> gives out.
\<close>

definition cow_data :: "nat \<Rightarrow> store \<Rightarrow> store" where
  "cow_data h s = clone_if_necessary h (cow_capacity h s) s"

definition cow_begin :: "nat \<Rightarrow> store \<Rightarrow> store" where
  "cow_begin h s =
     (if owners s ! h = None then make_shared h (vec_of []) s
      else clone_if_necessary h (cow_capacity h s) s)"

definition cow_put :: "nat \<Rightarrow> nat \<Rightarrow> byte \<Rightarrow> store \<Rightarrow> store option" where
  "cow_put h i b s = do {
     a \<leftarrow> owners s ! h;
     if i < v_size (vecs s ! a) then do {
       s \<leftarrow> Some (cow_data h s);
       a \<leftarrow> owners s ! h;
       v \<leftarrow> vec_write i b (vecs s ! a);
       Some (update_vec a (\<lambda>_. v) s) }
     else None }"

definition cow_assign :: "nat \<Rightarrow> byte list \<Rightarrow> store \<Rightarrow> store" where
  "cow_assign h bs s =
     (case owners s ! h of
        None \<Rightarrow> if length bs > 0 then make_shared h (vec_of bs) s else point_to h None s
      | Some a \<Rightarrow>
          if use_count s a = 1
          then update_vec a (\<lambda>v. vec_assign bs (if length bs > v_capacity v then vec_reserve (length bs) v else v)) s
          else make_shared h (vec_reserve (max (v_capacity (vecs s ! a)) (length bs)) (vec_of bs)) s)"

text \<open>
  \<^verbatim>\<open>Insert\<close> takes an iterator: the position is an offset into the vector the object had when it gave
  the iterator out. On a shared vector \<^verbatim>\<open>CloneIfNecessary\<close> replaces that vector, and inserting into the
  copy through an iterator of the old one is undefined.
\<close>

definition cow_insert :: "nat \<Rightarrow> nat \<Rightarrow> byte list \<Rightarrow> store \<Rightarrow> store option" where
  "cow_insert h pos bs s = do {
     a \<leftarrow> owners s ! h;
     if use_count s a = 1 then do {
       s \<leftarrow> Some (clone_if_necessary h (cow_capacity h s) s);
       a \<leftarrow> owners s ! h;
       v \<leftarrow> vec_insert pos bs (vecs s ! a);
       Some (update_vec a (\<lambda>_. v) s) }
     else None }"

definition cow_append :: "nat \<Rightarrow> byte list \<Rightarrow> store \<Rightarrow> store option" where
  "cow_append h bs s =
     (if owners s ! h = None
      then Some (if length bs > 0 then make_shared h (vec_of bs) s else point_to h None s)
      else do {
        s \<leftarrow> Some (clone_if_necessary h (cow_capacity h s) s);
        a \<leftarrow> owners s ! h;
        v \<leftarrow> vec_insert (v_size (vecs s ! a)) bs (vecs s ! a);
        Some (update_vec a (\<lambda>_. v) s) })"

definition cow_append_range :: "nat \<Rightarrow> byte list \<Rightarrow> store \<Rightarrow> store option" where
  "cow_append_range h bs s =
     (if owners s ! h = None then Some (make_shared h (vec_of bs) s)
      else do {
        s \<leftarrow> Some (clone_if_necessary h (cow_capacity h s) s);
        a \<leftarrow> owners s ! h;
        v \<leftarrow> vec_insert (v_size (vecs s ! a)) bs (vecs s ! a);
        Some (update_vec a (\<lambda>_. v) s) })"

definition cow_resize :: "nat \<Rightarrow> nat \<Rightarrow> store \<Rightarrow> store" where
  "cow_resize h n s =
     (case owners s ! h of
        None \<Rightarrow> if n > 0 then make_shared h (vec_of (replicate n 0)) s else s
      | Some _ \<Rightarrow>
          let s = clone_if_necessary h (max (cow_capacity h s) n) s
          in case owners s ! h of None \<Rightarrow> s | Some a \<Rightarrow> update_vec a (vec_resize n) s)"

definition cow_clear :: "nat \<Rightarrow> store \<Rightarrow> store" where
  "cow_clear h s =
     (case owners s ! h of
        None \<Rightarrow> s
      | Some a \<Rightarrow>
          if use_count s a = 1 then update_vec a vec_clear s
          else make_shared h (vec_reserve (v_capacity (vecs s ! a)) (vec_of [])) s)"

definition cow_ensure_capacity :: "nat \<Rightarrow> nat \<Rightarrow> store \<Rightarrow> store" where
  "cow_ensure_capacity h n s =
     (if owners s ! h = None then make_shared h (vec_reserve n (vec_of [])) s
      else if n \<le> cow_capacity h s then s
      else clone_if_necessary h n s)"

definition cow_swap :: "nat \<Rightarrow> nat \<Rightarrow> store \<Rightarrow> store" where
  "cow_swap h g s =
     (case owners s ! h of
        None \<Rightarrow> point_to g None (point_to h (owners s ! g) s)
      | Some _ \<Rightarrow>
          let s = clone_if_necessary h (cow_capacity h s) s
          in case owners s ! h of
               None \<Rightarrow> s
             | Some a \<Rightarrow>
                 (case owners s ! g of
                    None \<Rightarrow> point_to h None (point_to g (Some a) s)
                  | Some b \<Rightarrow> s\<lparr>vecs := (vecs s)[a := vecs s ! b, b := vecs s ! a]\<rparr>))"

section \<open>What an object holds\<close>

type_synonym held = "(byte list \<times> nat) option"

definition view :: "vec \<Rightarrow> byte list \<times> nat" where
  "view v = (v_elems v, v_capacity v)"

definition holds :: "nat \<Rightarrow> store \<Rightarrow> held" where
  "holds h s = map_option view (cow_vec h s)"

definition held_by_all :: "store \<Rightarrow> held list" where
  "held_by_all s = map (map_option (\<lambda>a. view (vecs s ! a))) (owners s)"

definition store_ok :: "store \<Rightarrow> bool" where
  "store_ok s \<longleftrightarrow>
     list_all v_ok (vecs s) \<and> list_all (\<lambda>p. case p of None \<Rightarrow> True | Some a \<Rightarrow> a < length (vecs s)) (owners s)"

lemma length_held_by_all [simp]: "length (held_by_all s) = length (owners s)"
  by (simp add: held_by_all_def)

lemma held_by_all_nth: "h < length (owners s) \<Longrightarrow> held_by_all s ! h = holds h s"
  by (simp add: held_by_all_def holds_def cow_vec_def option.map_comp comp_def)

lemma store_ok_vec:
  assumes "store_ok s" "h < length (owners s)" "owners s ! h = Some a"
  shows "a < length (vecs s)" "v_ok (vecs s ! a)"
  using assms by (force simp: store_ok_def list_all_length)+

lemma v_size_capacity: "v_ok v \<Longrightarrow> v_size v \<le> v_capacity v"
  by (simp add: v_ok_def v_capacity_def)

lemma count_list_one:
  assumes "count_list xs x = 1" "i < length xs" "j < length xs" "xs ! i = x" "xs ! j = x"
  shows "i = j"
proof -
  have "card {k. k < length xs \<and> x = xs ! k} = 1"
    using assms(1) length_filter_conv_card [of "(=) x" xs] by (simp add: count_list_eq_length_filter)
  then obtain k where "{k. k < length xs \<and> x = xs ! k} = {k}"
    by (auto simp: card_1_singleton_iff)
  moreover have "i \<in> {k. k < length xs \<and> x = xs ! k}" "j \<in> {k. k < length xs \<and> x = xs ! k}"
    using assms(2-) by simp_all
  ultimately show ?thesis
    by simp
qed

subsection \<open>The steps all operations are made of\<close>

lemma length_owners [simp]:
  "length (owners (make_shared h v s)) = length (owners s)"
  "length (owners (point_to h p s)) = length (owners s)"
  "length (owners (update_vec a f s)) = length (owners s)"
  by (simp_all add: make_shared_def point_to_def update_vec_def)

lemma held_eqI:
  assumes "length (owners s') = length (owners s)"
    "\<And>g. g < length (owners s) \<Longrightarrow> holds g s' = (if g = h then w else holds g s)"
  shows "held_by_all s' = (held_by_all s)[h := w]"
  using assms by (intro nth_equalityI) (auto simp: held_by_all_nth nth_list_update)

lemma make_shared_held:
  assumes "store_ok s" "v_ok v" "h < length (owners s)"
  shows "store_ok (make_shared h v s)" "held_by_all (make_shared h v s) = (held_by_all s)[h := Some (view v)]"
proof -
  show "store_ok (make_shared h v s)"
    using assms by (auto simp: store_ok_def make_shared_def list_all_iff dest!: set_update_subset_insert [THEN subsetD]
        split: option.splits)
  show "held_by_all (make_shared h v s) = (held_by_all s)[h := Some (view v)]"
  proof (rule held_eqI)
    fix g assume g: "g < length (owners s)"
    then show "holds g (make_shared h v s) = (if g = h then Some (view v) else holds g s)"
      using assms store_ok_vec(1) [OF assms(1) g]
      by (cases "owners s ! g") (auto simp: holds_def cow_vec_def make_shared_def nth_append nth_list_update)
  qed (simp add: make_shared_def)
qed

lemma point_to_held:
  assumes "store_ok s" "h < length (owners s)" "\<And>a. p = Some a \<Longrightarrow> a < length (vecs s)"
  shows "store_ok (point_to h p s)"
    "held_by_all (point_to h p s) = (held_by_all s)[h := map_option (\<lambda>a. view (vecs s ! a)) p]"
proof -
  show "store_ok (point_to h p s)"
    using assms by (auto simp: store_ok_def point_to_def list_all_iff dest!: set_update_subset_insert [THEN subsetD]
        split: option.splits)
  show "held_by_all (point_to h p s) = (held_by_all s)[h := map_option (\<lambda>a. view (vecs s ! a)) p]"
    by (simp add: held_by_all_def point_to_def map_update)
qed

lemma update_vec_held:
  assumes "store_ok s" "h < length (owners s)" "owners s ! h = Some a" "use_count s a = 1" "v_ok (f (vecs s ! a))"
  shows "store_ok (update_vec a f s)"
    "held_by_all (update_vec a f s) = (held_by_all s)[h := Some (view (f (vecs s ! a)))]"
proof -
  note a = store_ok_vec(1) [OF assms(1-3)]
  show "store_ok (update_vec a f s)"
    using assms a by (auto simp: store_ok_def update_vec_def list_all_iff dest!: set_update_subset_insert [THEN subsetD]
        split: option.splits)
  show "held_by_all (update_vec a f s) = (held_by_all s)[h := Some (view (f (vecs s ! a)))]"
  proof (rule held_eqI)
    fix g assume g: "g < length (owners s)"
    have "owners s ! g = Some a \<Longrightarrow> g = h"
      using count_list_one [of "owners s" "Some a" g h] assms g by (simp add: use_count_def)
    with a assms(3) show "holds g (update_vec a f s) = (if g = h then Some (view (f (vecs s ! a))) else holds g s)"
      by (cases "owners s ! g") (auto simp: holds_def cow_vec_def update_vec_def nth_list_update)
  qed (simp add: update_vec_def)
qed

text \<open>Cloning leaves the object as the only owner of a vector with the same elements.\<close>

lemma use_count_fresh:
  assumes "store_ok s" "h < length (owners s)"
  shows "use_count (make_shared h v s) (length (vecs s)) = 1"
proof -
  have "Some (length (vecs s)) \<notin> set (owners s)"
    using assms(1) by (fastforce simp: store_ok_def list_all_iff)
  moreover from assms(2) have "owners s = take h (owners s) @ owners s ! h # drop (Suc h) (owners s)"
    by (simp add: id_take_nth_drop)
  ultimately have "Some (length (vecs s)) \<notin> set (take h (owners s)) \<union> set (drop (Suc h) (owners s))"
    by (metis UnE in_set_takeD in_set_dropD)
  with assms(2) show ?thesis
    by (auto simp: use_count_def make_shared_def upd_conv_take_nth_drop count_list_0_iff)
qed

lemma clone_held:
  assumes "store_ok s" "h < length (owners s)" "owners s ! h = Some a" "v_capacity (vecs s ! a) \<le> cap"
  obtains a' where "owners (clone_if_necessary h cap s) ! h = Some a'"
    "use_count (clone_if_necessary h cap s) a' = 1"
    "v_elems (vecs (clone_if_necessary h cap s) ! a') = v_elems (vecs s ! a)"
    "v_capacity (vecs (clone_if_necessary h cap s) ! a') = cap"
    "store_ok (clone_if_necessary h cap s)"
    "length (owners (clone_if_necessary h cap s)) = length (owners s)"
    "held_by_all (clone_if_necessary h cap s) = (held_by_all s)[h := Some (v_elems (vecs s ! a), cap)]"
proof -
  note a = store_ok_vec [OF assms(1-3)]
  note bound = v_size_capacity [OF a(2)]
  have own: "held_by_all s ! h = Some (v_elems (vecs s ! a), v_capacity (vecs s ! a))"
    using assms(2,3) by (simp add: held_by_all_nth holds_def cow_vec_def view_def)
  show thesis
  proof (cases "use_count s a = 1")
    case True
    show thesis
    proof (cases "cap > v_capacity (vecs s ! a)")
      case grow: True
      have "clone_if_necessary h cap s = update_vec a (vec_reserve cap) s"
        using True grow assms(3) by (simp add: clone_if_necessary_def)
      with update_vec_held [OF assms(1-3) True, of "vec_reserve cap"] assms(2,3) a True grow that [of a]
      show thesis
        by (simp add: view_def update_vec_def use_count_def)
    next
      case False
      have "(held_by_all s)[h := Some (v_elems (vecs s ! a), cap)] = held_by_all s"
        using own False assms(4) by (metis le_antisym linorder_not_less list_update_id)
      with True False assms that [of a] show thesis
        by (simp add: clone_if_necessary_def)
    qed
  next
    case False
    let ?v = "vec_reserve cap (vec_of (v_elems (vecs s ! a)))"
    have eq: "clone_if_necessary h cap s = make_shared h ?v s"
      using False assms(3) by (simp add: clone_if_necessary_def)
    have "max (v_size (vecs s ! a)) cap = cap"
      using bound assms(4) by simp
    then have "v_capacity ?v = cap" "v_elems ?v = v_elems (vecs s ! a)" "v_ok ?v"
      using a(2) by simp_all
    with make_shared_held [OF assms(1) \<open>v_ok ?v\<close> assms(2)] use_count_fresh [OF assms(1,2), of ?v]
      assms(2) that [of "length (vecs s)"] eq
    show thesis
      by (simp add: view_def) (simp add: make_shared_def)
  qed
qed

section \<open>Plain values\<close>

text \<open>
  The same operations on a private buffer: elements and capacity, or nothing at all. \<open>Insert\<close> is an
  insertion at \<^verbatim>\<open>begin() + pos\<close>, as the callers write it: \<^verbatim>\<open>begin()\<close> makes the object the only owner
  of its vector before \<^verbatim>\<open>Insert\<close> runs.
\<close>

datatype buffer_op =
    Data | Begin | CBegin | Put nat byte | Assign "byte list" | Insert nat "byte list"
  | Append "byte list" | AppendRange "byte list" | Resize nat | Clear | EnsureCapacity nat

definition room_for :: "nat \<Rightarrow> nat \<Rightarrow> nat \<Rightarrow> nat" where
  "room_for sz n cap = (if sz + n \<le> cap then cap else sz + max sz n)"

fun value_op :: "buffer_op \<Rightarrow> held \<Rightarrow> held option" where
  "value_op Data w = Some w"
| "value_op Begin w = Some (case w of None \<Rightarrow> Some ([], 0) | Some _ \<Rightarrow> w)"
| "value_op CBegin w = Some (case w of None \<Rightarrow> Some ([], 0) | Some _ \<Rightarrow> w)"
| "value_op (Put i b) None = None"
| "value_op (Put i b) (Some (es, cap)) = (if i < length es then Some (Some (es[i := b], cap)) else None)"
| "value_op (Assign bs) None = Some (if bs = [] then None else Some (bs, length bs))"
| "value_op (Assign bs) (Some (es, cap)) = Some (Some (bs, max cap (length bs)))"
| "value_op (Insert pos bs) None = (if pos = 0 then Some (Some (bs, length bs)) else None)"
| "value_op (Insert pos bs) (Some (es, cap)) =
     (if pos \<le> length es
      then Some (Some (take pos es @ bs @ drop pos es, room_for (length es) (length bs) cap)) else None)"
| "value_op (Append bs) None = Some (if bs = [] then None else Some (bs, length bs))"
| "value_op (Append bs) (Some (es, cap)) = Some (Some (es @ bs, room_for (length es) (length bs) cap))"
| "value_op (AppendRange bs) None = Some (Some (bs, length bs))"
| "value_op (AppendRange bs) (Some (es, cap)) = Some (Some (es @ bs, room_for (length es) (length bs) cap))"
| "value_op (Resize n) None = Some (if n = 0 then None else Some (replicate n 0, n))"
| "value_op (Resize n) (Some (es, cap)) = Some (Some (take n es @ replicate (n - length es) 0, max cap n))"
| "value_op Clear None = Some None"
| "value_op Clear (Some (es, cap)) = Some (Some ([], cap))"
| "value_op (EnsureCapacity n) None = Some (Some ([], n))"
| "value_op (EnsureCapacity n) (Some (es, cap)) = Some (Some (es, max cap n))"

fun cow_op :: "buffer_op \<Rightarrow> nat \<Rightarrow> store \<Rightarrow> store option" where
  "cow_op Data h s = Some (cow_data h s)"
| "cow_op Begin h s = Some (cow_begin h s)"
| "cow_op CBegin h s = Some (create_empty_buffer_if_necessary h s)"
| "cow_op (Put i b) h s = cow_put h i b s"
| "cow_op (Assign bs) h s = Some (cow_assign h bs s)"
| "cow_op (Insert pos bs) h s = cow_insert h pos bs (cow_begin h s)"
| "cow_op (Append bs) h s = cow_append h bs s"
| "cow_op (AppendRange bs) h s = cow_append_range h bs s"
| "cow_op (Resize n) h s = Some (cow_resize h n s)"
| "cow_op Clear h s = Some (cow_clear h s)"
| "cow_op (EnsureCapacity n) h s = Some (cow_ensure_capacity h n s)"

text \<open>
  The contract of an operation: it succeeds when the value operation does, changes its own object
  as the value operation says, and keeps the store well formed.
\<close>

definition keeps_others :: "(nat \<Rightarrow> store \<Rightarrow> store option) \<Rightarrow> (held \<Rightarrow> held option) \<Rightarrow> nat \<Rightarrow> store \<Rightarrow> bool" where
  "keeps_others f spec h s \<longleftrightarrow>
     (case f h s of
        None \<Rightarrow> spec (held_by_all s ! h) = None
      | Some s' \<Rightarrow> store_ok s' \<and> length (owners s') = length (owners s) \<and>
          (case spec (held_by_all s ! h) of
             None \<Rightarrow> False
           | Some w \<Rightarrow> held_by_all s' = (held_by_all s)[h := w]))"

lemma keeps_othersI:
  assumes "f h s = Some s'" "spec (held_by_all s ! h) = Some w" "store_ok s'"
    "held_by_all s' = (held_by_all s)[h := w]"
  shows "keeps_others f spec h s"
proof -
  have "length (owners s') = length (owners s)"
    using assms(4) by (metis length_held_by_all length_list_update)
  with assms show ?thesis
    by (simp add: keeps_others_def)
qed

lemma holds_null: "h < length (owners s) \<Longrightarrow> owners s ! h = None \<Longrightarrow> held_by_all s ! h = None"
  by (simp add: held_by_all_nth holds_def cow_vec_def)

lemma holds_vec:
  assumes "store_ok s" "h < length (owners s)" "owners s ! h = Some a"
  shows "held_by_all s ! h = Some (v_elems (vecs s ! a), v_capacity (vecs s ! a))"
    "cow_capacity h s = v_capacity (vecs s ! a)" "length (v_elems (vecs s ! a)) = v_size (vecs s ! a)"
  using assms store_ok_vec [OF assms] by (simp_all add: held_by_all_nth holds_def cow_vec_def view_def cow_capacity_def)

text \<open>An update of the vector after cloning.\<close>

lemma clone_update:
  assumes "store_ok s" "h < length (owners s)" "owners s ! h = Some a" "v_capacity (vecs s ! a) \<le> cap"
    "\<And>v. v_ok v \<Longrightarrow> v_elems v = v_elems (vecs s ! a) \<Longrightarrow> v_capacity v = cap \<Longrightarrow> v_size v = v_size (vecs s ! a) \<Longrightarrow>
       v_ok (g v) \<and> view (g v) = w"
  obtains a' where "owners (clone_if_necessary h cap s) ! h = Some a'"
    "v_elems (vecs (clone_if_necessary h cap s) ! a') = v_elems (vecs s ! a)"
    "v_size (vecs (clone_if_necessary h cap s) ! a') = v_size (vecs s ! a)"
    "v_capacity (vecs (clone_if_necessary h cap s) ! a') = cap"
    "store_ok (update_vec a' g (clone_if_necessary h cap s))"
    "held_by_all (update_vec a' g (clone_if_necessary h cap s)) = (held_by_all s)[h := Some w]"
proof -
  let ?s = "clone_if_necessary h cap s"
  from clone_held [OF assms(1-4)] obtain a' where a': "owners ?s ! h = Some a'" "use_count ?s a' = 1"
    "v_elems (vecs ?s ! a') = v_elems (vecs s ! a)" "v_capacity (vecs ?s ! a') = cap" "store_ok ?s"
    "length (owners ?s) = length (owners s)"
    "held_by_all ?s = (held_by_all s)[h := Some (v_elems (vecs s ! a), cap)]"
    by metis
  have ok: "v_ok (vecs ?s ! a')"
    using store_ok_vec(2) [OF a'(5) _ a'(1)] a'(6) assms(2) by simp
  have sz: "v_size (vecs ?s ! a') = v_size (vecs s ! a)"
    using a'(3) ok store_ok_vec(2) [OF assms(1-3)] v_elems_simps(1) by metis
  have g: "v_ok (g (vecs ?s ! a'))" "view (g (vecs ?s ! a')) = w"
    using assms(5) [OF ok a'(3,4) sz] by auto
  with update_vec_held [of ?s h a' g] a' assms(2) that [of a'] sz show thesis
    by simp
qed

lemma list_update_null: "xs ! h = None \<Longrightarrow> xs[h := None] = xs"
  by (metis list_update_id)

lemma cow_op_null:
  assumes "store_ok s" "h < length (owners s)" "owners s ! h = None" "\<And>pos bs. f \<noteq> Insert pos bs"
  shows "keeps_others (cow_op f) (value_op f) h s"
proof -
  have null: "held_by_all s ! h = None" "(held_by_all s)[h := None] = held_by_all s" "(owners s)[h := None] = owners s"
    using assms(1-3) holds_null by (simp_all add: list_update_null)
  note new = make_shared_held [OF assms(1) _ assms(2)]
  note defs = clone_if_necessary_def cow_data_def cow_begin_def create_empty_buffer_if_necessary_def cow_put_def
    cow_assign_def cow_append_def cow_append_range_def cow_resize_def cow_clear_def
    cow_ensure_capacity_def point_to_def
  show ?thesis
    by (cases f) (use assms null new in \<open>auto simp: keeps_others_def defs view_def\<close>)
qed

lemma cow_op_vec_pure:
  assumes "store_ok s" "h < length (owners s)" "owners s ! h = Some a"
  shows "keeps_others (cow_op Data) (value_op Data) h s"
    "keeps_others (cow_op Begin) (value_op Begin) h s"
    "keeps_others (cow_op CBegin) (value_op CBegin) h s"
    "keeps_others (cow_op (EnsureCapacity n)) (value_op (EnsureCapacity n)) h s"
proof -
  note held = holds_vec [OF assms]
  have same: "(held_by_all s)[h := Some (v_elems (vecs s ! a), v_capacity (vecs s ! a))] = held_by_all s"
    using held(1) by (metis list_update_id)
  have clone: "store_ok (clone_if_necessary h cap s)"
    "held_by_all (clone_if_necessary h cap s) = (held_by_all s)[h := Some (v_elems (vecs s ! a), cap)]"
    if "v_capacity (vecs s ! a) \<le> cap" for cap
    using clone_held [OF assms that] by metis+
  show "keeps_others (cow_op Data) (value_op Data) h s"
    by (rule keeps_othersI) (use clone [OF order_refl] held in \<open>auto simp: cow_data_def\<close>)
  show "keeps_others (cow_op Begin) (value_op Begin) h s"
    by (rule keeps_othersI) (use clone [OF order_refl] held assms(3) in \<open>auto simp: cow_begin_def\<close>)
  show "keeps_others (cow_op CBegin) (value_op CBegin) h s"
    by (rule keeps_othersI)
      (use held assms same in \<open>auto simp: create_empty_buffer_if_necessary_def\<close>)
  show "keeps_others (cow_op (EnsureCapacity n)) (value_op (EnsureCapacity n)) h s"
    by (rule keeps_othersI, simp, simp add: held)
      (use assms clone [of n] same in \<open>auto simp: cow_ensure_capacity_def held max_def\<close>)
qed

lemma cow_put_vec:
  assumes "store_ok s" "h < length (owners s)" "owners s ! h = Some a"
  shows "keeps_others (cow_op (Put i b)) (value_op (Put i b)) h s"
proof (cases "i < v_size (vecs s ! a)")
  case True
  note held = holds_vec [OF assms]
  let ?v = "vecs s ! a" and ?c = "clone_if_necessary h (v_capacity (vecs s ! a)) s"
  have step: "v_ok (the (vec_write i b v)) \<and> view (the (vec_write i b v)) = ((v_elems ?v)[i := b], v_capacity ?v)"
    if "v_ok v" "v_elems v = v_elems ?v" "v_capacity v = v_capacity ?v" "v_size v = v_size ?v" for v
  proof -
    have "i < v_capacity v"
      using that True v_size_capacity [of v] by simp
    then obtain v' where "vec_write i b v = Some v'"
      by (simp add: vec_write_def)
    with vec_write_simps [OF that(1) this] that show ?thesis
      by (simp add: view_def)
  qed
  let ?G = "\<lambda>v. the (vec_write i b v)" and ?W = "((v_elems ?v)[i := b], v_capacity ?v)"
  show ?thesis
  proof (rule clone_update [OF assms order_refl, where g = ?G and w = ?W])
    fix a' assume a': "owners ?c ! h = Some a'" "v_capacity (vecs ?c ! a') = v_capacity ?v"
      "store_ok (update_vec a' ?G ?c)" "held_by_all (update_vec a' ?G ?c) = (held_by_all s)[h := Some ?W]"
    have "i < v_capacity ?v"
      using True v_size_capacity [OF store_ok_vec(2) [OF assms]] by simp
    with a'(2) obtain v' where v': "vec_write i b (vecs ?c ! a') = Some v'"
      by (simp add: vec_write_def)
    then have "cow_put h i b s = Some (update_vec a' (\<lambda>_. v') ?c)"
      using True assms(3) a'(1) held(2) by (simp add: cow_put_def cow_data_def)
    moreover have "update_vec a' (\<lambda>_. v') ?c = update_vec a' ?G ?c"
      using v' by (simp add: update_vec_def)
    ultimately show ?thesis
      using a'(3,4) held True by (intro keeps_othersI) auto
  qed (rule step)
next
  case False
  with holds_vec [OF assms] assms(3) show ?thesis
    by (simp add: keeps_others_def cow_put_def)
qed

lemma vec_insert_view:
  assumes "v_ok v" "pos \<le> v_size v"
  shows "v_ok (the (vec_insert pos bs v))"
    "view (the (vec_insert pos bs v)) =
       (take pos (v_elems v) @ bs @ drop pos (v_elems v), room_for (v_size v) (length bs) (v_capacity v))"
proof -
  obtain v' where "vec_insert pos bs v = Some v'"
    using assms(2) by (simp add: vec_insert_def)
  with vec_insert_simps [OF assms(1) this] show "v_ok (the (vec_insert pos bs v))"
    "view (the (vec_insert pos bs v)) =
       (take pos (v_elems v) @ bs @ drop pos (v_elems v), room_for (v_size v) (length bs) (v_capacity v))"
    by (simp_all add: view_def room_for_def)
qed

lemma cow_append_vec:
  assumes "store_ok s" "h < length (owners s)" "owners s ! h = Some a"
  shows "keeps_others (cow_op (Append bs)) (value_op (Append bs)) h s" (is ?app)
    and "keeps_others (cow_op (AppendRange bs)) (value_op (AppendRange bs)) h s" (is ?range)
proof -
  note held = holds_vec [OF assms]
  let ?v = "vecs s ! a" and ?c = "clone_if_necessary h (v_capacity (vecs s ! a)) s"
  let ?W = "\<lambda>pos. (take pos (v_elems ?v) @ bs @ drop pos (v_elems ?v), room_for (v_size ?v) (length bs) (v_capacity ?v))"
  have all: "\<exists>a' v'. owners ?c ! h = Some a' \<and> v_size (vecs ?c ! a') = v_size ?v \<and>
      vec_insert pos bs (vecs ?c ! a') = Some v' \<and> store_ok (update_vec a' (\<lambda>_. v') ?c) \<and>
      held_by_all (update_vec a' (\<lambda>_. v') ?c) = (held_by_all s)[h := Some (?W pos)]"
    if pos: "pos \<le> v_size ?v" for pos
  proof (rule clone_update [OF assms order_refl, where g = "\<lambda>v. the (vec_insert pos bs v)" and w = "?W pos"])
    fix a' assume a': "owners ?c ! h = Some a'" "v_size (vecs ?c ! a') = v_size ?v"
      "store_ok (update_vec a' (\<lambda>v. the (vec_insert pos bs v)) ?c)"
      "held_by_all (update_vec a' (\<lambda>v. the (vec_insert pos bs v)) ?c) = (held_by_all s)[h := Some (?W pos)]"
    with pos obtain v' where v': "vec_insert pos bs (vecs ?c ! a') = Some v'"
      by (simp add: vec_insert_def)
    then have "update_vec a' (\<lambda>v. the (vec_insert pos bs v)) ?c = update_vec a' (\<lambda>_. v') ?c"
      by (simp add: update_vec_def)
    with a' v' show ?thesis
      by auto
  next
    fix v assume v: "v_ok v" "v_elems v = v_elems ?v" "v_capacity v = v_capacity ?v" "v_size v = v_size ?v"
    with pos show "v_ok (the (vec_insert pos bs v)) \<and> view (the (vec_insert pos bs v)) = ?W pos"
      using vec_insert_view [of v pos bs] by simp
  qed
  show ?app ?range
    using all [OF order_refl] held assms(3)
    by (auto intro!: keeps_othersI simp: cow_append_def cow_append_range_def)
qed

text \<open>After \<^verbatim>\<open>begin()\<close> the object is the only owner of its vector, and the insertion is one into that vector.\<close>

lemma cow_begin_owns:
  assumes "store_ok s" "h < length (owners s)"
  obtains a where "owners (cow_begin h s) ! h = Some a" "use_count (cow_begin h s) a = 1" "store_ok (cow_begin h s)"
    "length (owners (cow_begin h s)) = length (owners s)"
    "view (vecs (cow_begin h s) ! a) = (case held_by_all s ! h of None \<Rightarrow> ([], 0) | Some w \<Rightarrow> w)"
    "held_by_all (cow_begin h s) = (held_by_all s)[h := Some (view (vecs (cow_begin h s) ! a))]"
proof (cases "owners s ! h")
  case None
  have "cow_begin h s = make_shared h (vec_of []) s"
    using None by (simp add: cow_begin_def)
  with None that [of "length (vecs s)"] make_shared_held [OF assms(1) _ assms(2), of "vec_of []"]
    use_count_fresh [OF assms, of "vec_of []"] holds_null [OF assms(2) None] assms(2)
  show thesis
    by (simp add: view_def) (simp add: make_shared_def)
next
  case (Some a)
  note held = holds_vec [OF assms Some]
  have eq: "cow_begin h s = clone_if_necessary h (v_capacity (vecs s ! a)) s"
    using Some held(2) by (simp add: cow_begin_def)
  show thesis
    by (rule clone_held [OF assms Some order_refl]) (use that held(1) in \<open>simp add: eq view_def\<close>)
qed

lemma cow_insert_owned:
  assumes "store_ok s" "h < length (owners s)" "owners s ! h = Some a" "use_count s a = 1"
  shows "cow_insert h pos bs s =
    (if pos \<le> v_size (vecs s ! a) then Some (update_vec a (\<lambda>v. the (vec_insert pos bs v)) s) else None)"
proof -
  have "clone_if_necessary h (cow_capacity h s) s = s"
    using assms(3,4) holds_vec(2) [OF assms(1-3)] by (simp add: clone_if_necessary_def)
  with assms(3,4) show ?thesis
    by (auto simp: cow_insert_def vec_insert_def update_vec_def)
qed

lemma cow_insert_keeps_others:
  assumes "store_ok s" "h < length (owners s)"
  shows "keeps_others (cow_op (Insert pos bs)) (value_op (Insert pos bs)) h s"
proof (rule cow_begin_owns [OF assms])
  let ?s = "cow_begin h s"
  fix a assume a: "owners ?s ! h = Some a" "use_count ?s a = 1" "store_ok ?s" "length (owners ?s) = length (owners s)"
    "view (vecs ?s ! a) = (case held_by_all s ! h of None \<Rightarrow> ([], 0) | Some w \<Rightarrow> w)"
    "held_by_all ?s = (held_by_all s)[h := Some (view (vecs ?s ! a))]"
  have h: "h < length (owners ?s)"
    using assms(2) a(4) by simp
  note ok = store_ok_vec(2) [OF a(3) h a(1)]
  obtain es cap where w: "view (vecs ?s ! a) = (es, cap)" "v_size (vecs ?s ! a) = length es"
    using v_elems_simps(1) [OF ok] by (simp add: view_def)
  note run = cow_insert_owned [OF a(3) h a(1,2), of pos bs]
  show ?thesis
  proof (cases "pos \<le> length es")
    case True
    let ?f = "\<lambda>v. the (vec_insert pos bs v)" and ?r = "Some (take pos es @ bs @ drop pos es, room_for (length es) (length bs) cap)"
    have f: "v_ok (?f (vecs ?s ! a))" "Some (view (?f (vecs ?s ! a))) = ?r"
      using vec_insert_view [OF ok, of pos bs] True w by (simp_all add: view_def)
    have spec: "value_op (Insert pos bs) (held_by_all s ! h) = Some ?r"
      using a(5) w(1) True by (cases "held_by_all s ! h") (auto simp: room_for_def)
    show ?thesis
      using update_vec_held [OF a(3) h a(1,2), of ?f] f(1) a(6) run True w(2) f(2) spec
      by (intro keeps_othersI [where s' = "update_vec a ?f ?s" and w = ?r]) simp_all
  next
    case False
    with run w a(5) show ?thesis
      by (cases "held_by_all s ! h") (auto simp: keeps_others_def)
  qed
qed

lemma cow_rewrite_vec:
  assumes "store_ok s" "h < length (owners s)" "owners s ! h = Some a"
  shows "keeps_others (cow_op (Assign bs)) (value_op (Assign bs)) h s"
    and "keeps_others (cow_op Clear) (value_op Clear) h s"
proof -
  note held = holds_vec [OF assms] and ok = store_ok_vec [OF assms]
  note new = make_shared_held [OF assms(1) _ assms(2)]
  note upd = update_vec_held [OF assms]
  show "keeps_others (cow_op (Assign bs)) (value_op (Assign bs)) h s"
  proof (cases "use_count s a = 1")
    case True
    then show ?thesis
      using upd [OF True, of "\<lambda>v. vec_assign bs (if length bs > v_capacity v then vec_reserve (length bs) v else v)"]
        held assms(3) ok
      by (auto intro!: keeps_othersI simp: cow_assign_def view_def max_def)
  next
    case False
    then show ?thesis
      using new [of "vec_reserve (max (v_capacity (vecs s ! a)) (length bs)) (vec_of bs)"] held assms(3)
      by (auto intro!: keeps_othersI simp: cow_assign_def view_def max_def)
  qed
  show "keeps_others (cow_op Clear) (value_op Clear) h s"
  proof (cases "use_count s a = 1")
    case True
    then show ?thesis
      using upd [OF True, of vec_clear] held assms(3)
      by (auto intro!: keeps_othersI simp: cow_clear_def view_def)
  next
    case False
    then show ?thesis
      using new [of "vec_reserve (v_capacity (vecs s ! a)) (vec_of [])"] held assms(3)
      by (auto intro!: keeps_othersI simp: cow_clear_def view_def)
  qed
qed

lemma cow_resize_vec:
  assumes "store_ok s" "h < length (owners s)" "owners s ! h = Some a"
  shows "keeps_others (cow_op (Resize n)) (value_op (Resize n)) h s"
proof (rule clone_update [OF assms max.cobounded1, where g = "vec_resize n" and
      w = "(take n (v_elems (vecs s ! a)) @ replicate (n - v_size (vecs s ! a)) 0, max (v_capacity (vecs s ! a)) n)"])
  fix v assume "v_ok v" "v_elems v = v_elems (vecs s ! a)" "v_capacity v = max (v_capacity (vecs s ! a)) n"
    "v_size v = v_size (vecs s ! a)"
  then show "v_ok (vec_resize n v) \<and> view (vec_resize n v) =
      (take n (v_elems (vecs s ! a)) @ replicate (n - v_size (vecs s ! a)) 0, max (v_capacity (vecs s ! a)) n)"
    by (simp add: view_def)
next
  let ?c = "clone_if_necessary h (max (v_capacity (vecs s ! a)) n) s"
  fix a' assume "owners ?c ! h = Some a'" "store_ok (update_vec a' (vec_resize n) ?c)"
    "held_by_all (update_vec a' (vec_resize n) ?c) = (held_by_all s)[h := Some
       (take n (v_elems (vecs s ! a)) @ replicate (n - v_size (vecs s ! a)) 0, max (v_capacity (vecs s ! a)) n)]"
  with holds_vec [OF assms] assms(3) show ?thesis
    by (auto intro!: keeps_othersI simp: cow_resize_def)
qed

lemma cow_op_keeps_others:
  assumes "store_ok s" "h < length (owners s)"
  shows "keeps_others (cow_op f) (value_op f) h s"
proof (cases "owners s ! h")
  case None
  with assms cow_op_null cow_insert_keeps_others show ?thesis by (cases f) blast+
next
  case (Some a)
  with assms show ?thesis
    by (cases f) (simp_all only: cow_op_vec_pure cow_put_vec cow_append_vec cow_insert_keeps_others cow_rewrite_vec cow_resize_vec)
qed

section \<open>The contract, once for every operation\<close>

locale isolated_update =
  fixes f :: "nat \<Rightarrow> store \<Rightarrow> store option"
    and spec :: "held \<Rightarrow> held option"
  assumes contract: "store_ok s \<Longrightarrow> h < length (owners s) \<Longrightarrow> keeps_others f spec h s"
begin

lemma commutes:
  assumes "store_ok s" "h < length (owners s)"
  shows "map_option held_by_all (f h s) = map_option (\<lambda>w. (held_by_all s)[h := w]) (spec (holds h s))"
  using contract [OF assms] assms(2) by (auto simp: keeps_others_def held_by_all_nth split: option.splits)

lemma stays_ok:
  assumes "store_ok s" "h < length (owners s)" "f h s = Some s'"
  shows "store_ok s'" "length (owners s') = length (owners s)"
  using contract [OF assms(1,2)] assms(3) by (auto simp: keeps_others_def)

lemma others_unchanged:
  assumes "store_ok s" "h < length (owners s)" "f h s = Some s'" "g < length (owners s)" "g \<noteq> h"
  shows "holds g s' = holds g s"
proof -
  have "held_by_all s' ! g = held_by_all s ! g"
    using contract [OF assms(1,2)] assms(3,5) by (auto simp: keeps_others_def split: option.splits)
  with assms(4) stays_ok [OF assms(1-3)] show ?thesis
    by (simp add: held_by_all_nth)
qed

end

interpretation cow: isolated_update "cow_op f" "value_op f" for f
  by unfold_locales (rule cow_op_keeps_others)

section \<open>Programs over several objects\<close>

datatype cow_cmd =
    Apply nat buffer_op | CopyFrom nat nat | MoveFrom nat nat | Destroy nat
  | NewSized nat nat | NewCapacity nat nat nat | NewData nat "byte list" nat | NewBuffer nat "byte list"
  | SwapWith nat nat

fun cow_exec :: "cow_cmd \<Rightarrow> store \<Rightarrow> store option" where
  "cow_exec (Apply h f) s = cow_op f h s"
| "cow_exec (CopyFrom h g) s = Some (cow_copy h g s)"
| "cow_exec (MoveFrom h g) s = Some (cow_move h g s)"
| "cow_exec (Destroy h) s = Some (cow_destroy h s)"
| "cow_exec (NewSized h n) s = Some (cow_sized h n s)"
| "cow_exec (NewCapacity h n cap) s = cow_with_capacity h n cap s"
| "cow_exec (NewData h bs cap) s = cow_of_data h bs cap s"
| "cow_exec (NewBuffer h bs) s = Some (cow_of_buffer h bs s)"
| "cow_exec (SwapWith h g) s = Some (cow_swap h g s)"

fun value_exec :: "cow_cmd \<Rightarrow> held list \<Rightarrow> held list option" where
  "value_exec (Apply h f) ws = map_option (\<lambda>w. ws[h := w]) (value_op f (ws ! h))"
| "value_exec (CopyFrom h g) ws = Some (ws[h := ws ! g])"
| "value_exec (MoveFrom h g) ws = Some (if g \<noteq> h then ws[h := ws ! g, g := None] else ws)"
| "value_exec (Destroy h) ws = Some (ws[h := None])"
| "value_exec (NewSized h n) ws = Some (ws[h := if n > 0 then Some (replicate n 0, n) else None])"
| "value_exec (NewCapacity h n cap) ws =
     (if n \<le> cap then Some (ws[h := if cap > 0 then Some (replicate n 0, cap) else None]) else None)"
| "value_exec (NewData h bs cap) ws =
     (if length bs \<le> cap then Some (ws[h := if cap > 0 then Some (bs, cap) else None]) else None)"
| "value_exec (NewBuffer h bs) ws = Some (ws[h := Some (bs, length bs)])"
| "value_exec (SwapWith h g) ws = Some (ws[h := ws ! g, g := ws ! h])"

fun names :: "cow_cmd \<Rightarrow> nat list" where
  "names (Apply h _) = [h]"
| "names (CopyFrom h g) = [h, g]"
| "names (MoveFrom h g) = [h, g]"
| "names (Destroy h) = [h]"
| "names (NewSized h _) = [h]"
| "names (NewCapacity h _ _) = [h]"
| "names (NewData h _ _) = [h]"
| "names (NewBuffer h _) = [h]"
| "names (SwapWith h g) = [h, g]"

fun cow_run :: "cow_cmd list \<Rightarrow> store \<Rightarrow> store option" where
  "cow_run [] s = Some s"
| "cow_run (c # cs) s = do { s \<leftarrow> cow_exec c s; cow_run cs s }"

fun value_run :: "cow_cmd list \<Rightarrow> held list \<Rightarrow> held list option" where
  "value_run [] ws = Some ws"
| "value_run (c # cs) ws = do { ws \<leftarrow> value_exec c ws; value_run cs ws }"

text \<open>
  \<^verbatim>\<open>Swap\<close> exchanges the vector of its argument in place. It is safe when the vector of one of the two
  objects is null or the same, or when no third object shares the vector of the argument; a run is
  safe when every \<^verbatim>\<open>Swap\<close> in it is.
\<close>

fun swap_safe :: "cow_cmd \<Rightarrow> store \<Rightarrow> bool" where
  "swap_safe (SwapWith h g) s \<longleftrightarrow> owners s ! h = None \<or> owners s ! g = None \<or> owners s ! h = owners s ! g \<or>
     list_all (\<lambda>k. k = h \<or> k = g \<or> owners s ! k \<noteq> owners s ! g) [0..<length (owners s)]"
| "swap_safe _ s \<longleftrightarrow> True"

fun run_safe :: "cow_cmd list \<Rightarrow> store \<Rightarrow> bool" where
  "run_safe [] s \<longleftrightarrow> True"
| "run_safe (c # cs) s \<longleftrightarrow> swap_safe c s \<and> (case cow_exec c s of None \<Rightarrow> True | Some s' \<Rightarrow> run_safe cs s')"

definition new_store :: "nat \<Rightarrow> store" where
  "new_store n = \<lparr>vecs = [], owners = replicate n None\<rparr>"

lemma new_store_ok [simp]: "store_ok (new_store n)" "length (owners (new_store n)) = n"
  "held_by_all (new_store n) = replicate n None"
  by (simp_all add: new_store_def store_ok_def held_by_all_def list_all_iff)

lemma cow_pointer_ok:
  assumes "store_ok s" "g < length (owners s)"
  shows "owners s ! g = Some a \<Longrightarrow> a < length (vecs s)"
    "map_option (\<lambda>a. view (vecs s ! a)) (owners s ! g) = held_by_all s ! g"
  using assms store_ok_vec(1) by (auto simp: held_by_all_def)

lemma cow_with_capacity_refines:
  assumes "store_ok s" "h < length (owners s)"
  shows "cow_with_capacity h n cap s =
      (if n \<le> cap then Some (if cap > 0 then make_shared h (vec_reserve cap (vec_of (replicate n 0))) s
        else point_to h None s) else None)"
  by (auto simp: cow_with_capacity_def)

lemma cow_of_data_refines:
  assumes "store_ok s" "h < length (owners s)" "cow_of_data h bs cap s = Some s'"
  shows "store_ok s'" "held_by_all s' = (held_by_all s)[h := if cap > 0 then Some (bs, cap) else None]"
proof -
  have le: "length bs \<le> cap"
    using assms by (auto simp: cow_of_data_def cow_with_capacity_refines split: if_splits)
  have "store_ok s' \<and> held_by_all s' = (held_by_all s)[h := if cap > 0 then Some (bs, cap) else None]"
  proof (cases "cap > 0")
    case True
    let ?v = "vec_reserve cap (vec_of (replicate (length bs) 0))"
    let ?g = "\<lambda>v. v\<lparr>v_mem := bs @ drop (length bs) (v_mem v)\<rparr>" and ?s = "make_shared h ?v s"
    have s': "s' = update_vec (length (vecs s)) ?g ?s" "owners ?s ! h = Some (length (vecs s))"
      "vecs ?s ! length (vecs s) = ?v"
      using assms True le by (auto simp: cow_of_data_def cow_with_capacity_refines make_shared_def)
    have "v_size ?v = length bs" "length (v_mem ?v) = cap"
      using le vec_reserve_simps [of "vec_of (replicate (length bs) 0)" cap]
      by (simp_all add: v_capacity_def [symmetric])
    then have "v_ok (?g ?v)" "view (?g ?v) = (bs, cap)"
      using le by (simp_all add: v_ok_def view_def v_elems_def v_capacity_def)
    with update_vec_held [of ?s h "length (vecs s)" ?g] make_shared_held [OF assms(1) _ assms(2), of ?v]
      use_count_fresh [OF assms(1,2), of ?v] s' assms(2) True
    show ?thesis
      by simp
  next
    case False
    with assms le point_to_held [OF assms(1,2), of None] show ?thesis
      by (auto simp: cow_of_data_def cow_with_capacity_refines) (simp_all add: point_to_def)
  qed
  then show "store_ok s'" "held_by_all s' = (held_by_all s)[h := if cap > 0 then Some (bs, cap) else None]"
    by simp_all
qed

lemma cow_copy_refines:
  assumes "store_ok s" "h < length (owners s)" "g < length (owners s)"
  shows "store_ok (cow_copy h g s)" "held_by_all (cow_copy h g s) = (held_by_all s)[h := held_by_all s ! g]"
  using assms point_to_held [OF assms(1,2), of "owners s ! g"] cow_pointer_ok [OF assms(1,3)]
  by (auto simp: cow_copy_def)

lemma cow_move_refines:
  assumes "store_ok s" "h < length (owners s)" "g < length (owners s)"
  shows "store_ok (cow_move h g s)"
    "held_by_all (cow_move h g s) =
       (if g \<noteq> h then (held_by_all s)[h := held_by_all s ! g, g := None] else held_by_all s)"
proof -
  note copied = point_to_held [OF assms(1,2), of "owners s ! g"]
  have "store_ok (point_to h (owners s ! g) s)"
    "held_by_all (point_to h (owners s ! g) s) = (held_by_all s)[h := held_by_all s ! g]"
    using copied cow_pointer_ok [OF assms(1,3)] by auto
  with point_to_held [of "point_to h (owners s ! g) s" g None] assms
  show "store_ok (cow_move h g s)"
    "held_by_all (cow_move h g s) =
       (if g \<noteq> h then (held_by_all s)[h := held_by_all s ! g, g := None] else held_by_all s)"
    by (auto simp: cow_move_def)
qed

lemma cow_swap_null:
  assumes "store_ok s" "h < length (owners s)" "g < length (owners s)" "h \<noteq> g" "owners s ! h = None"
  shows "store_ok (cow_swap h g s)" "held_by_all (cow_swap h g s) = (held_by_all s)[h := held_by_all s ! g, g := None]"
  using cow_move_refines [OF assms(1-3)] assms(4,5) by (simp_all add: cow_swap_def cow_move_def split: if_splits)

lemma cow_swap_to_null:
  assumes "store_ok s" "h < length (owners s)" "g < length (owners s)" "h \<noteq> g" "owners s ! h = Some a" "owners s ! g = None"
  shows "store_ok (cow_swap h g s) \<and> held_by_all (cow_swap h g s) = (held_by_all s)[h := None, g := held_by_all s ! h]"
proof -
  note held = holds_vec [OF assms(1,2,5)]
  let ?c = "clone_if_necessary h (v_capacity (vecs s ! a)) s"
  have g: "owners ?c ! g = None"
    using assms(4,6) by (simp add: clone_if_necessary_def make_shared_def update_vec_def split: option.splits)
  show ?thesis
  proof (rule clone_held [OF assms(1,2,5) order_refl])
    fix a' assume a': "owners ?c ! h = Some a'" "store_ok ?c" "length (owners ?c) = length (owners s)"
      "held_by_all ?c = (held_by_all s)[h := Some (v_elems (vecs s ! a), v_capacity (vecs s ! a))]"
    have "cow_swap h g s = cow_move g h ?c"
      using assms(4,5) held(2) a'(1) g by (simp add: cow_swap_def cow_move_def Let_def)
    with cow_move_refines [OF a'(2), of g h] a'(3,4) held(1) assms(2-4) show ?thesis
      by (simp add: list_update_swap)
  qed
qed

lemma cow_swap_self: "store_ok s \<Longrightarrow> h < length (owners s) \<Longrightarrow> store_ok (cow_swap h h s) \<and> held_by_all (cow_swap h h s) = held_by_all s"
proof (cases "owners s ! h")
  case None
  then show ?thesis if "store_ok s"
    using that by (simp add: cow_swap_def point_to_def list_update_null)
next
  case (Some a)
  assume s: "store_ok s" "h < length (owners s)"
  note held = holds_vec [OF s Some]
  let ?c = "clone_if_necessary h (v_capacity (vecs s ! a)) s"
  show ?thesis
  proof (rule clone_held [OF s Some order_refl])
    fix a' assume a': "owners ?c ! h = Some a'" "store_ok ?c"
      "held_by_all ?c = (held_by_all s)[h := Some (v_elems (vecs s ! a), v_capacity (vecs s ! a))]"
    have "cow_swap h h s = ?c"
      using Some held(2) a'(1) by (simp add: cow_swap_def Let_def)
    moreover have "held_by_all ?c = held_by_all s"
      using a'(3) held(1) by (metis list_update_id)
    ultimately show ?thesis
      using a'(2) by simp
  qed
qed

text \<open>
  The vector of the other object is exchanged in place, so every object that shares it changes with
  it.
\<close>

lemma cow_swap_vecs:
  assumes "store_ok s" "h < length (owners s)" "g < length (owners s)" "h \<noteq> g"
    "owners s ! h = Some a" "owners s ! g = Some b"
  obtains a' c where "cow_swap h g s = c\<lparr>vecs := (vecs c)[a' := vecs c ! b, b := vecs c ! a']\<rparr>" "b \<noteq> a'" "a' < length (vecs c)"
    "b < length (vecs s)" "length (vecs s) \<le> length (vecs c)" "owners c ! h = Some a'" "length (owners c) = length (owners s)"
    "store_ok c" "view (vecs c ! a') = view (vecs s ! a)" "\<And>d. d < length (vecs s) \<Longrightarrow> vecs c ! d = vecs s ! d"
    "\<And>j. j \<noteq> h \<Longrightarrow> owners c ! j = owners s ! j" "\<And>j. j < length (owners s) \<Longrightarrow> j \<noteq> h \<Longrightarrow> owners c ! j \<noteq> Some a'"
proof -
  note held = holds_vec [OF assms(1,2,5)]
  let ?c = "clone_if_necessary h (v_capacity (vecs s ! a)) s"
  have keep: "owners ?c ! j = owners s ! j" if "j \<noteq> h" for j
    using that by (simp add: clone_if_necessary_def make_shared_def update_vec_def split: option.splits)
  have old: "vecs ?c ! d = vecs s ! d" if "d < length (vecs s)" for d
    using that assms(5) by (simp add: clone_if_necessary_def make_shared_def nth_append split: option.splits)
  have len: "length (vecs s) \<le> length (vecs ?c)"
    using assms(5) by (simp add: clone_if_necessary_def make_shared_def update_vec_def)
  show thesis
  proof (rule clone_held [OF assms(1,2,5) order_refl])
    fix a' assume a': "owners ?c ! h = Some a'" "use_count ?c a' = 1"
      "v_elems (vecs ?c ! a') = v_elems (vecs s ! a)" "v_capacity (vecs ?c ! a') = v_capacity (vecs s ! a)"
      "store_ok ?c" "length (owners ?c) = length (owners s)"
    have swap: "cow_swap h g s = ?c\<lparr>vecs := (vecs ?c)[a' := vecs ?c ! b, b := vecs ?c ! a']\<rparr>"
      using assms(4-6) a'(1) keep [of g] held(2) by (simp add: cow_swap_def Let_def)
    have alone: "owners ?c ! j \<noteq> Some a'" if "j < length (owners s)" "j \<noteq> h" for j
      using count_list_one [of "owners ?c" "Some a'" j h] that a'(1,2,6) assms(2) by (auto simp: use_count_def)
    then have "b \<noteq> a'"
      using keep [of g] assms(3,4,6) by auto
    moreover have "a' < length (vecs ?c)" "b < length (vecs s)"
      using store_ok_vec(1) [OF a'(5)] store_ok_vec(1) [OF assms(1)] a'(1,6) assms(2,3,6) by auto
    ultimately show thesis
      using that [OF swap] alone keep old len a'(1,3-6) by (simp add: view_def)
  qed
qed

lemma cow_swap_holds:
  assumes "store_ok s" "h < length (owners s)" "g < length (owners s)" "h \<noteq> g"
    "owners s ! h = Some a" "owners s ! g = Some b" "k < length (owners s)"
  shows "holds k (cow_swap h g s) =
    (if k = h then holds g s else if owners s ! k = Some b then holds h s else holds k s)"
proof (rule cow_swap_vecs [OF assms(1-6)])
  fix a' c assume c: "cow_swap h g s = c\<lparr>vecs := (vecs c)[a' := vecs c ! b, b := vecs c ! a']\<rparr>" "b \<noteq> a'" "a' < length (vecs c)"
    "b < length (vecs s)" "length (vecs s) \<le> length (vecs c)" "owners c ! h = Some a'" "view (vecs c ! a') = view (vecs s ! a)"
    "\<And>d. d < length (vecs s) \<Longrightarrow> vecs c ! d = vecs s ! d" "\<And>j. j \<noteq> h \<Longrightarrow> owners c ! j = owners s ! j"
    "\<And>j. j < length (owners s) \<Longrightarrow> j \<noteq> h \<Longrightarrow> owners c ! j \<noteq> Some a'"
  have "d < length (vecs s)" if "owners s ! k = Some d" for d
    using store_ok_vec(1) [OF assms(1,7) that] .
  then show ?thesis
    unfolding c(1) using c(2-9) c(10) [OF assms(7)] assms(5,6)
    by (cases "owners s ! k") (auto simp: holds_def cow_vec_def nth_list_update)
qed

lemma cow_swap_ok:
  assumes "store_ok s" "h < length (owners s)" "g < length (owners s)" "h \<noteq> g"
    "owners s ! h = Some a" "owners s ! g = Some b"
  shows "store_ok (cow_swap h g s)" "length (owners (cow_swap h g s)) = length (owners s)"
proof (atomize (full), rule cow_swap_vecs [OF assms])
  fix a' c assume c: "cow_swap h g s = c\<lparr>vecs := (vecs c)[a' := vecs c ! b, b := vecs c ! a']\<rparr>" "a' < length (vecs c)"
    "b < length (vecs s)" "length (vecs s) \<le> length (vecs c)" "length (owners c) = length (owners s)" "store_ok c"
  then have "v_ok (vecs c ! a')" "v_ok (vecs c ! b)"
    by (auto simp: store_ok_def list_all_length)
  then show "store_ok (cow_swap h g s) \<and> length (owners (cow_swap h g s)) = length (owners s)"
    using c by (auto simp: store_ok_def list_all_iff dest!: set_update_subset_insert [THEN subsetD] split: option.splits)
qed

lemma cow_swap_refines:
  assumes "store_ok s" "h < length (owners s)" "g < length (owners s)" "swap_safe (SwapWith h g) s"
  shows "store_ok (cow_swap h g s) \<and> held_by_all (cow_swap h g s) = (held_by_all s)[h := held_by_all s ! g, g := held_by_all s ! h]"
proof -
  consider "h = g" | "h \<noteq> g" "owners s ! h = None" | a where "h \<noteq> g" "owners s ! h = Some a" "owners s ! g = None"
    | a b where "h \<noteq> g" "owners s ! h = Some a" "owners s ! g = Some b"
    by (cases "owners s ! h"; cases "owners s ! g") auto
  then show ?thesis
  proof cases
    case 1
    with cow_swap_self [OF assms(1,2)] show ?thesis by simp
  next
    case 2
    with cow_swap_null [OF assms(1-3)] holds_null [OF assms(2)] show ?thesis by simp
  next
    case 3
    with cow_swap_to_null [OF assms(1-3)] holds_null [OF assms(3)] show ?thesis by simp
  next
    case 4
    note ok = cow_swap_ok [OF assms(1-3) 4] and holds = cow_swap_holds [OF assms(1-3) 4]
    have "holds k (cow_swap h g s) = (if k = g then holds h s else if k = h then holds g s else holds k s)"
      if "k < length (owners s)" for k
    proof (cases "owners s ! k = Some b \<and> k \<noteq> g \<and> k \<noteq> h")
      case True
      then have "a = b"
        using assms(4) that 4 by (auto simp: list_all_iff)
      with True holds [OF that] 4 show ?thesis
        by (simp add: holds_def cow_vec_def)
    next
      case False
      with holds [OF that] 4 show ?thesis by auto
    qed
    then have "held_by_all (cow_swap h g s) = (held_by_all s)[h := held_by_all s ! g, g := held_by_all s ! h]"
      using ok assms(2,3) 4(1) by (intro nth_equalityI) (auto simp: held_by_all_nth nth_list_update)
    with ok show ?thesis by simp
  qed
qed

lemma cow_exec_refines:
  assumes "store_ok s" "\<And>h. h \<in> set (names c) \<Longrightarrow> h < length (owners s)" "swap_safe c s"
  shows "map_option held_by_all (cow_exec c s) = value_exec c (held_by_all s)"
    and "cow_exec c s = Some s' \<Longrightarrow> store_ok s'"
proof -
  note steps = make_shared_held [OF assms(1)] point_to_held [OF assms(1), of _ None]
  have "map_option held_by_all (cow_exec c s) = value_exec c (held_by_all s) \<and>
    (\<forall>s'. cow_exec c s = Some s' \<longrightarrow> store_ok s')"
  proof (cases c)
    case (Apply h f)
    with assms have "h < length (owners s)" by simp
    with Apply assms(1) cow.commutes cow.stays_ok(1) show ?thesis
      by (simp add: held_by_all_nth)
  next
    case (CopyFrom h g)
    with assms cow_copy_refines show ?thesis by simp
  next
    case (MoveFrom h g)
    with assms cow_move_refines show ?thesis by simp
  next
    case (Destroy h)
    with assms steps show ?thesis by (simp add: cow_destroy_def)
  next
    case (NewSized h n)
    with assms steps show ?thesis by (simp add: cow_sized_def view_def)
  next
    case (NewCapacity h n cap)
    with assms steps show ?thesis by (simp add: cow_with_capacity_refines view_def max_def)
  next
    case (NewData h bs cap)
    with assms have "h < length (owners s)" by simp
    moreover have "cow_of_data h bs cap s = None \<longleftrightarrow> \<not> length bs \<le> cap"
      using assms(1) \<open>h < length (owners s)\<close>
      by (auto simp: cow_of_data_def cow_with_capacity_refines split: option.splits)
    ultimately show ?thesis
      using NewData cow_of_data_refines [OF assms(1)] by (cases "cow_of_data h bs cap s") auto
  next
    case (NewBuffer h bs)
    with assms steps show ?thesis by (simp add: cow_of_buffer_def view_def)
  next
    case (SwapWith h g)
    with assms cow_swap_refines [OF assms(1), of h g] show ?thesis by simp
  qed
  then show "map_option held_by_all (cow_exec c s) = value_exec c (held_by_all s)"
    and "cow_exec c s = Some s' \<Longrightarrow> store_ok s'"
    by simp_all
qed

lemma value_exec_length: "value_exec c ws = Some ws' \<Longrightarrow> length ws' = length ws"
  by (cases c) (auto split: if_splits)

lemma cow_run_refines:
  assumes "store_ok s" "\<And>c h. c \<in> set cs \<Longrightarrow> h \<in> set (names c) \<Longrightarrow> h < length (owners s)" "run_safe cs s"
  shows "map_option held_by_all (cow_run cs s) = value_run cs (held_by_all s)"
  using assms
proof (induction cs arbitrary: s)
  case (Cons c cs)
  have step: "map_option held_by_all (cow_exec c s) = value_exec c (held_by_all s)"
    by (rule cow_exec_refines(1) [OF Cons.prems(1)]) (rule Cons.prems(2), use Cons.prems(3) in simp_all)
  show ?case
  proof (cases "cow_exec c s")
    case None
    with step have "value_exec c (held_by_all s) = None" by simp
    with None show ?thesis by simp
  next
    case (Some s')
    with step have val: "value_exec c (held_by_all s) = Some (held_by_all s')" by simp
    then have "length (owners s') = length (owners s)"
      using value_exec_length by fastforce
    moreover have "store_ok s'"
      by (rule cow_exec_refines(2) [OF Cons.prems(1) _ _ Some]) (rule Cons.prems(2), use Cons.prems(3) in simp_all)
    moreover have "run_safe cs s'"
      using Cons.prems(3) Some by simp
    ultimately have "map_option held_by_all (cow_run cs s') = value_run cs (held_by_all s')"
      by (intro Cons.IH) (auto intro: Cons.prems(2))
    with Some val show ?thesis by simp
  qed
qed simp

text \<open>
  Comparison shortcuts through equal pointers; it is comparison of contents, an object without a
  vector being equal to one with an empty vector.
\<close>

lemma cow_equal_contents:
  assumes "store_ok s" "h < length (owners s)" "g < length (owners s)"
  shows "cow_equal h g s \<longleftrightarrow> cow_cdata h s = cow_cdata g s"
proof -
  have sizes: "cow_size k s = length (cow_cdata k s)" if "k < length (owners s)" for k
    using store_ok_vec(2) [OF assms(1) that]
    by (cases "owners s ! k") (auto simp: cow_size_def cow_cdata_def cow_vec_def)
  have "owners s ! h = owners s ! g \<Longrightarrow> cow_cdata h s = cow_cdata g s"
    by (simp add: cow_cdata_def cow_vec_def)
  with sizes assms(2,3) show ?thesis
    by (auto simp: cow_equal_def)
qed

section \<open>Properties\<close>

text \<open>
  C8. Copy on write is invisible: running any program of constructions, copies, moves, destructions,
  buffer operations and swaps on objects that share vectors gives every object what the same program
  on private buffers would, in elements and capacity, and aborts exactly when that program does. The
  one condition is that no \<^verbatim>\<open>Swap\<close> is given an argument whose vector a third object shares; an
  insertion is at an iterator the object gives out in the same call.
\<close>

theorem copy_on_write_refines_values:
  assumes "\<And>c h. c \<in> set cs \<Longrightarrow> h \<in> set (names c) \<Longrightarrow> h < n" "run_safe cs (new_store n)"
  shows "map_option held_by_all (cow_run cs (new_store n)) = value_run cs (replicate n None)"
  using cow_run_refines [of "new_store n" cs] assms by simp

theorem copy_on_write_refines_values_witness:
  "map_option held_by_all
     (cow_run [NewBuffer 0 [1, 2], CopyFrom 1 0, Apply 0 (Insert 1 [9]), Apply 1 (Resize 3), SwapWith 0 1] (new_store 2)) =
   Some [Some ([1, 2, 0], 3), Some ([1, 9, 2], 4)]"
proof -
  let ?cs = "[NewBuffer 0 [1, 2], CopyFrom 1 0, Apply 0 (Insert 1 [9]), Apply 1 (Resize 3), SwapWith 0 1]"
  have "run_safe ?cs (new_store 2)"
    by code_simp
  then have "map_option held_by_all (cow_run ?cs (new_store 2)) = value_run ?cs (replicate 2 None)"
    by (intro copy_on_write_refines_values) auto
  also have "value_run ?cs (replicate 2 None) = Some [Some ([1, 2, 0], 3), Some ([1, 9, 2], 4)]"
    by code_simp
  finally show ?thesis .
qed

text \<open>
  C33. \<^verbatim>\<open>Swap\<close> clones its own vector but not that of its argument: the two objects exchange what
  they hold, and a third object that shares the vector of the argument is given, behind its back,
  what the first object held. Only without such an object is the exchange what it should be.
\<close>

theorem swap_changes_third_owner:
  assumes "store_ok s" "h < length (owners s)" "g < length (owners s)" "h \<noteq> g"
    "owners s ! h \<noteq> None" "owners s ! g \<noteq> None"
  shows "holds h (cow_swap h g s) = holds g s \<and> holds g (cow_swap h g s) = holds h s \<and>
    (k < length (owners s) \<and> k \<noteq> h \<and> k \<noteq> g \<longrightarrow>
       holds k (cow_swap h g s) = (if owners s ! k = owners s ! g then holds h s else holds k s))"
proof -
  obtain a b where "owners s ! h = Some a" "owners s ! g = Some b"
    using assms(5,6) by auto
  with cow_swap_holds [OF assms(1-4) this] assms(2-4) show ?thesis
    by simp
qed

theorem swap_changes_third_owner_witness:
  "let s = \<lparr>vecs = [vec_of [1], vec_of [2, 3]], owners = [Some 0, Some 1, Some 1]\<rparr>
   in holds 2 s = Some ([2, 3], 2) \<and> holds 2 (cow_swap 0 1 s) = Some ([1], 1)"
proof -
  let ?s = "\<lparr>vecs = [vec_of [1], vec_of [2, 3]], owners = [Some 0, Some 1, Some 1]\<rparr> :: store"
  have "store_ok ?s"
    by (simp add: store_ok_def)
  then have "holds 2 (cow_swap 0 1 ?s) = holds 0 ?s"
    using swap_changes_third_owner [of ?s 0 1 2] by simp
  then show ?thesis
    by (simp add: holds_def cow_vec_def view_def Let_def)
qed

end
