(* ===== verification/RtpExtensions.thy ===== *)
theory RtpExtensions
  imports RtcpBase ByteIO
begin

text \<open>
  RTP header extensions: the encodings of their values
  (\<^verbatim>\<open>rtp_rtcp/rtp/packets/rtp_header_extensions.hpp\<close>, \<^verbatim>\<open>rtp_header_extensions.cpp\<close> and
  \<^verbatim>\<open>rtp_header_extensions_utils.cpp\<close>) and the map from extension types to the identifiers
  negotiated for them (\<^verbatim>\<open>rtp_header_extension_map.cpp\<close>).

  A parser gets the bytes of the extension and a writer the view it fills. Both reject by returning
  false, which is \<open>reject\<close> here; \<open>None\<close> is a read or write outside the view or a failed assertion.
\<close>

section \<open>Extension types\<close>

datatype rtp_extension_type =
    ExtNone | ExtTransmissionTimeOffset | ExtAbsoluteSendTime | ExtAbsoluteCaptureTime
  | ExtTransportSequenceNumber | ExtTransportSequenceNumber02 | ExtPlayoutDelay | ExtRtpStreamId
  | ExtRepairedRtpStreamId | ExtMid | ExtNumberOfExtensions

fun type_index :: "rtp_extension_type \<Rightarrow> nat" where
  "type_index ExtNone = 0"
| "type_index ExtTransmissionTimeOffset = 1"
| "type_index ExtAbsoluteSendTime = 2"
| "type_index ExtAbsoluteCaptureTime = 3"
| "type_index ExtTransportSequenceNumber = 4"
| "type_index ExtTransportSequenceNumber02 = 5"
| "type_index ExtPlayoutDelay = 6"
| "type_index ExtRtpStreamId = 7"
| "type_index ExtRepairedRtpStreamId = 8"
| "type_index ExtMid = 9"
| "type_index ExtNumberOfExtensions = 10"

lemma type_index_inject [simp]: "type_index s = type_index t \<longleftrightarrow> s = t"
  by (cases s; cases t) simp_all

text \<open>The order of the enumeration, which the range checks of the code use.\<close>

instantiation rtp_extension_type :: linorder
begin

definition less_eq_rtp_extension_type :: "rtp_extension_type \<Rightarrow> rtp_extension_type \<Rightarrow> bool" where
  "s \<le> t \<longleftrightarrow> type_index s \<le> type_index t"

definition less_rtp_extension_type :: "rtp_extension_type \<Rightarrow> rtp_extension_type \<Rightarrow> bool" where
  "s < t \<longleftrightarrow> type_index s < type_index t"

instance
  by standard (auto simp: less_eq_rtp_extension_type_def less_rtp_extension_type_def)

end

definition proper_types :: "rtp_extension_type list" where
  "proper_types =
     [ExtTransmissionTimeOffset, ExtAbsoluteSendTime, ExtAbsoluteCaptureTime, ExtTransportSequenceNumber,
      ExtTransportSequenceNumber02, ExtPlayoutDelay, ExtRtpStreamId, ExtRepairedRtpStreamId, ExtMid]"

definition proper_type :: "rtp_extension_type \<Rightarrow> bool" where
  "proper_type t \<longleftrightarrow> \<not> (t \<le> ExtNone \<or> t \<ge> ExtNumberOfExtensions)"

lemma proper_type_iff: "proper_type t \<longleftrightarrow> t \<in> set proper_types"
  by (cases t) (simp_all add: proper_type_def proper_types_def less_eq_rtp_extension_type_def)

lemma proper_type_index: "proper_type t \<Longrightarrow> 0 < type_index t \<and> type_index t < 10"
  by (cases t) (simp_all add: proper_type_def less_eq_rtp_extension_type_def)

definition is_non_volatile :: "rtp_extension_type \<Rightarrow> bool option" where
  "is_non_volatile t =
     (case t of
        ExtTransmissionTimeOffset \<Rightarrow> Some True
      | ExtAbsoluteSendTime \<Rightarrow> Some True
      | ExtTransportSequenceNumber \<Rightarrow> Some True
      | ExtTransportSequenceNumber02 \<Rightarrow> Some True
      | ExtRtpStreamId \<Rightarrow> Some True
      | ExtMid \<Rightarrow> Some True
      | ExtAbsoluteCaptureTime \<Rightarrow> Some False
      | ExtPlayoutDelay \<Rightarrow> Some False
      | ExtRepairedRtpStreamId \<Rightarrow> Some False
      | ExtNone \<Rightarrow> None
      | ExtNumberOfExtensions \<Rightarrow> None)"

section \<open>Values\<close>

subsection \<open>AbsoluteSendTime\<close>

definition ms_to_24_bits :: "int \<Rightarrow> u32 option" where
  "ms_to_24_bits time_ms =
     (if 0 \<le> time_ms \<and> time_ms * 2 ^ 18 + 500 < 2 ^ 63
      then Some (of_int ((time_ms * 2 ^ 18 + 500) div 1000) AND 0x00FFFFFF) else None)"

definition abs_send_time_parse :: "byte list \<Rightarrow> u32 option option" where
  "abs_send_time_parse data =
     (if length data \<noteq> 3 then reject else do { v \<leftarrow> read_be24 data 0; accept v })"

definition abs_send_time_write :: "byte list \<Rightarrow> u32 \<Rightarrow> byte list option option" where
  "abs_send_time_write data time_24bits =
     (if length data \<noteq> 3 then reject
      else if time_24bits > 0x00FFFFFF then reject
      else do { d \<leftarrow> wr 0 (be24 time_24bits) data; accept d })"

subsection \<open>AbsoluteCaptureTime\<close>

record capture_time_info =
  absolute_capture_timestamp :: u64
  estimated_capture_clock_offset :: "u64 option"

definition abs_capture_value_size :: "capture_time_info \<Rightarrow> nat" where
  "abs_capture_value_size info = (if estimated_capture_clock_offset info \<noteq> None then 16 else 8)"

definition abs_capture_parse :: "byte list \<Rightarrow> capture_time_info \<Rightarrow> capture_time_info option option" where
  "abs_capture_parse data info =
     (if length data \<noteq> 16 \<and> length data \<noteq> 8 then reject
      else do {
        t \<leftarrow> read_be64 data 0;
        info \<leftarrow> Some (info\<lparr>absolute_capture_timestamp := t\<rparr>);
        if length data \<noteq> 8 then do {
          d \<leftarrow> read_be64 data 8;
          accept (info\<lparr>estimated_capture_clock_offset := Some d\<rparr>) }
        else accept info })"

definition abs_capture_write :: "byte list \<Rightarrow> capture_time_info \<Rightarrow> byte list option option" where
  "abs_capture_write data info =
     (if length data \<noteq> abs_capture_value_size info then reject
      else do {
        d \<leftarrow> wr 0 (be64 (absolute_capture_timestamp info)) data;
        if length data \<noteq> 8 then do {
          off \<leftarrow> estimated_capture_clock_offset info;
          d \<leftarrow> wr 8 (be64 off) d;
          accept d }
        else accept d })"

subsection \<open>TransmissionTimeOffset\<close>

definition time_offset_parse :: "byte list \<Rightarrow> u32 option option" where
  "time_offset_parse data =
     (if length data \<noteq> 3 then reject else do { v \<leftarrow> read_signed_be24 data 0; accept v })"

definition time_offset_write :: "byte list \<Rightarrow> u32 \<Rightarrow> byte list option option" where
  "time_offset_write data rtp_time_24bits =
     (if length data \<noteq> 3 then reject
      else if sint rtp_time_24bits > 0x00ffffff then reject
      else do { d \<leftarrow> wr 0 (be24 rtp_time_24bits) data; accept d })"

subsection \<open>TransportSequenceNumber\<close>

definition transport_seq_parse :: "byte list \<Rightarrow> u16 option option" where
  "transport_seq_parse data =
     (if length data \<noteq> 2 then reject else do { v \<leftarrow> read_be16 data 0; accept v })"

definition transport_seq_write :: "byte list \<Rightarrow> u16 \<Rightarrow> byte list option option" where
  "transport_seq_write data n =
     (if length data \<noteq> 2 then reject else do { d \<leftarrow> wr 0 (be16 n) data; accept d })"

record feedback_request =
  include_timestamps :: bool
  sequence_count :: int

definition kIncludeTimestampsBit :: u16 where
  "kIncludeTimestampsBit = push_bit 15 1"

definition transport_seq_v2_value_size :: "feedback_request option \<Rightarrow> nat" where
  "transport_seq_v2_value_size fr = (if fr \<noteq> None then 4 else 2)"

definition transport_seq_v2_parse :: "byte list \<Rightarrow> (u16 \<times> feedback_request option) option option" where
  "transport_seq_v2_parse data =
     (if length data \<noteq> 4 \<and> length data \<noteq> 2 then reject
      else do {
        n \<leftarrow> read_be16 data 0;
        if length data = 4 then do {
          raw \<leftarrow> read_be16 data 2;
          let ts = raw AND kIncludeTimestampsBit \<noteq> 0;
          let cnt = raw AND NOT kIncludeTimestampsBit;
          if cnt \<noteq> 0 then accept (n, Some \<lparr>include_timestamps = ts, sequence_count = uint cnt\<rparr>)
          else accept (n, None) }
        else accept (n, None) })"

definition transport_seq_v2_write ::
    "byte list \<Rightarrow> u16 \<Rightarrow> feedback_request option \<Rightarrow> byte list option option" where
  "transport_seq_v2_write data n fr =
     (if length data \<noteq> transport_seq_v2_value_size fr then reject
      else do {
        d \<leftarrow> wr 0 (be16 n) data;
        case fr of
          None \<Rightarrow> accept d
        | Some r \<Rightarrow>
            if 0 \<le> sequence_count r \<and> sequence_count r < uint kIncludeTimestampsBit then do {
              d \<leftarrow> wr 2 (be16 (of_int (sequence_count r) OR
                     (if include_timestamps r then kIncludeTimestampsBit else 0))) d;
              accept d }
            else None })"

subsection \<open>PlayoutDelayLimits\<close>

record playout_delay =
  min_ms :: int
  max_ms :: int

definition kGranularityMs :: int where "kGranularityMs = 10"
definition kMaxMs :: int where "kMaxMs = 0xfff * kGranularityMs"

definition playout_delay_parse :: "byte list \<Rightarrow> playout_delay option option" where
  "playout_delay_parse data =
     (if length data \<noteq> 3 then reject
      else do {
        raw \<leftarrow> read_be24 data 0;
        let min_raw = (ucast (drop_bit 12 raw) :: u16);
        let max_raw = (ucast (raw AND 0xfff) :: u16);
        if min_raw > max_raw then reject
        else accept \<lparr>min_ms = uint min_raw * kGranularityMs, max_ms = uint max_raw * kGranularityMs\<rparr> })"

definition playout_delay_write :: "byte list \<Rightarrow> playout_delay \<Rightarrow> byte list option option" where
  "playout_delay_write data p =
     (if length data \<noteq> 3 then reject
      else if 0 > min_ms p then reject
      else if min_ms p > max_ms p then reject
      else if max_ms p > kMaxMs then reject
      else do {
        let min_delay = (of_int (min_ms p div kGranularityMs) :: u32);
        let max_delay = (of_int (max_ms p div kGranularityMs) :: u32);
        d \<leftarrow> wr 0 (be24 (push_bit 12 min_delay OR max_delay)) data;
        accept d })"

subsection \<open>Strings\<close>

text \<open>\<^verbatim>\<open>RtpMid\<close>, \<^verbatim>\<open>RtpStreamId\<close> and \<^verbatim>\<open>RepairedRtpStreamId\<close>; a string is the list of its bytes.\<close>

definition rtp_string_parse :: "byte list \<Rightarrow> byte list option option" where
  "rtp_string_parse data =
     (if data = [] then reject
      else do {
        d0 \<leftarrow> rd data 0;
        if d0 = 0 then reject
        else (let v = takeWhile (\<lambda>c. c \<noteq> 0) data in if v = [] then reject else accept v) })"

definition rtp_string_write :: "byte list \<Rightarrow> byte list \<Rightarrow> byte list option option" where
  "rtp_string_write data v =
     (if length v > 16 then reject
      else if v = [] \<or> length data \<noteq> length v then reject
      else do { d \<leftarrow> wr 0 v data; accept d })"

section \<open>Round trips of the values\<close>

lemma wr_whole: "length bs = length data \<Longrightarrow> wr 0 bs data = Some bs"
  by (simp add: wr_def)

lemma abs_send_time_roundtrip:
  assumes "abs_send_time_write data v = accept bs"
  shows "abs_send_time_parse bs = accept v"
proof -
  have "v \<le> 0x00FFFFFF" and bs: "bs = be24 v" "length data = 3"
    using assms by (auto simp: abs_send_time_write_def wr_whole split: if_splits)
  then have "v < 2 ^ 24"
    by (simp add: word_le_nat_alt word_less_nat_alt)
  with bs show ?thesis
    by (simp add: abs_send_time_parse_def wire_simps less_mask_eq take_bit_eq_mask)
qed

lemma abs_capture_roundtrip:
  assumes "abs_capture_write data info = accept bs" "estimated_capture_clock_offset old = None"
  shows "abs_capture_parse bs old = accept (old\<lparr>absolute_capture_timestamp := absolute_capture_timestamp info,
     estimated_capture_clock_offset := estimated_capture_clock_offset info\<rparr>)"
proof (cases "estimated_capture_clock_offset info")
  case None
  with assms(1) have "bs = be64 (absolute_capture_timestamp info)"
    by (auto simp: abs_capture_write_def abs_capture_value_size_def wr_whole split: if_splits)
  with None assms(2) show ?thesis
    by (simp add: abs_capture_parse_def wire_simps)
next
  case (Some off)
  with assms(1) have "length data = 16"
    by (auto simp: abs_capture_write_def abs_capture_value_size_def split: if_splits)
  with Some assms(1) have "bs = be64 (absolute_capture_timestamp info) @ be64 off"
    by (auto simp: abs_capture_write_def abs_capture_value_size_def wr_def split: if_splits)
  with Some show ?thesis
    by (simp add: abs_capture_parse_def wire_simps)
qed

lemma time_offset_roundtrip:
  assumes "time_offset_write data v = accept bs" "- (2 ^ 23) \<le> sint v" "sint v < 2 ^ 23"
  shows "time_offset_parse bs = accept v"
proof -
  have "bs = be24 v"
    using assms(1) by (auto simp: time_offset_write_def wr_whole split: if_splits)
  with assms(2,3) show ?thesis
    by (simp add: time_offset_parse_def read_signed_be24_here)
qed

lemma transport_seq_roundtrip:
  assumes "transport_seq_write data v = accept bs"
  shows "transport_seq_parse bs = accept v"
  using assms by (auto simp: transport_seq_write_def transport_seq_parse_def wr_whole wire_simps split: if_splits)

text \<open>A request for feedback on no packets is written and read back as no request.\<close>

lemma request_bits:
  fixes c :: u16
  assumes "c < 2 ^ 15"
  shows "(c OR kIncludeTimestampsBit) AND kIncludeTimestampsBit \<noteq> 0"
    "(c OR kIncludeTimestampsBit) AND NOT kIncludeTimestampsBit = c"
    "c AND kIncludeTimestampsBit = 0" "c AND NOT kIncludeTimestampsBit = c"
proof -
  have low: "bit c k \<Longrightarrow> k < 15" for k
    using assms bit_below by blast
  have bits: "bit kIncludeTimestampsBit k \<longleftrightarrow> k = 15" for k
    unfolding kIncludeTimestampsBit_def bit_simps by auto
  show "c AND kIncludeTimestampsBit = 0" "c AND NOT kIncludeTimestampsBit = c"
    "(c OR kIncludeTimestampsBit) AND NOT kIncludeTimestampsBit = c"
    by (rule bit_word_eqI; use low in \<open>auto simp: bit_simps bits\<close>)+
  have "bit ((c OR kIncludeTimestampsBit) AND kIncludeTimestampsBit) 15"
    by (simp add: bit_simps bits)
  then show "(c OR kIncludeTimestampsBit) AND kIncludeTimestampsBit \<noteq> 0"
    by auto
qed

lemma transport_seq_v2_roundtrip:
  assumes "transport_seq_v2_write data n fr = accept bs"
  shows "transport_seq_v2_parse bs =
    accept (n, case fr of None \<Rightarrow> None | Some r \<Rightarrow> if sequence_count r = 0 then None else Some r)"
proof (cases fr)
  case None
  with assms have "bs = be16 n"
    by (auto simp: transport_seq_v2_write_def transport_seq_v2_value_size_def wr_whole split: if_splits)
  with None show ?thesis
    by (simp add: transport_seq_v2_parse_def wire_simps)
next
  case (Some r)
  let ?c = "of_int (sequence_count r) :: u16"
  let ?raw = "?c OR (if include_timestamps r then kIncludeTimestampsBit else 0)"
  have bound: "0 \<le> sequence_count r" "sequence_count r < 2 ^ 15"
    using assms Some
    by (auto simp: transport_seq_v2_write_def kIncludeTimestampsBit_def bind_eq_Some_conv split: if_splits)
  then have c: "?c < 2 ^ 15" "uint ?c = sequence_count r" "?c = 0 \<longleftrightarrow> sequence_count r = 0"
    by (simp_all add: word_less_def uint_word_of_int word_of_int_eq_0_iff)
       (auto simp: uint_0_iff [symmetric] uint_word_of_int)
  have "length data = 4"
    using assms Some by (auto simp: transport_seq_v2_write_def transport_seq_v2_value_size_def split: if_splits)
  with assms Some have "bs = be16 n @ be16 ?raw"
    by (auto simp: transport_seq_v2_write_def wr_def split: if_splits)
  with Some c request_bits [OF c(1)] show ?thesis
    by (simp add: transport_seq_v2_parse_def wire_simps Let_def)
qed

text \<open>Playout delays are rounded down to the granularity of the wire.\<close>

lemma delay_fields:
  fixes a b :: u32
  assumes "a < 2 ^ 12" "b < 2 ^ 12"
  shows "drop_bit 12 (take_bit 24 (push_bit 12 a OR b)) = a" "take_bit 24 (push_bit 12 a OR b) AND 0xfff = b"
proof -
  have "0xfff = (mask 12 :: u32)"
    by (simp add: mask_eq_exp_minus_1)
  then have low: "w AND 0xfff = take_bit 12 w" for w :: u32
    by (simp only: take_bit_eq_mask)
  have ab: "bit a k \<Longrightarrow> k < 12" "bit b k \<Longrightarrow> k < 12" for k
    using assms bit_below by blast+
  show "drop_bit 12 (take_bit 24 (push_bit 12 a OR b)) = a"
    by (rule bit_word_eqI) (use ab in \<open>fastforce simp: bit_simps\<close>)
  show "take_bit 24 (push_bit 12 a OR b) AND 0xfff = b"
    unfolding low by (rule bit_word_eqI) (use ab in \<open>fastforce simp: bit_simps\<close>)
qed

lemma playout_delay_roundtrip:
  assumes "playout_delay_write data p = accept bs"
  shows "playout_delay_parse bs =
    accept \<lparr>min_ms = min_ms p div 10 * 10, max_ms = max_ms p div 10 * 10\<rparr>"
proof -
  let ?lo = "of_int (min_ms p div 10) :: u32" and ?hi = "of_int (max_ms p div 10) :: u32"
  have range: "0 \<le> min_ms p" "min_ms p \<le> max_ms p" "max_ms p \<le> 40950" "length data = 3"
    using assms by (auto simp: playout_delay_write_def kMaxMs_def kGranularityMs_def split: if_splits)
  then have bs: "bs = be24 (push_bit 12 ?lo OR ?hi)"
    using assms by (auto simp: playout_delay_write_def kMaxMs_def kGranularityMs_def wr_whole Let_def split: if_splits)
  have le: "min_ms p div 10 \<le> max_ms p div 10" "0 \<le> min_ms p div 10" "max_ms p div 10 < 2 ^ 12"
    using range by (auto intro: zdiv_mono1)
  then have vals: "uint ?lo = min_ms p div 10" "uint ?hi = max_ms p div 10"
    by (simp_all add: uint_word_of_int)
  with le have small: "?lo < 2 ^ 12" "?hi < 2 ^ 12"
    by (simp_all add: word_less_def)
  have "uint (ucast ?lo :: u16) = min_ms p div 10" "uint (ucast ?hi :: u16) = max_ms p div 10"
    using le vals by (simp_all add: unsigned_ucast_eq take_bit_int_eq_self)
  moreover from this le have "\<not> (ucast ?lo :: u16) > ucast ?hi"
    by (simp add: word_less_def)
  ultimately show ?thesis
    using bs delay_fields [OF small]
    by (simp add: playout_delay_parse_def wire_simps Let_def kGranularityMs_def)
qed

text \<open>A string with a zero byte is cut there; without one it comes back as it was.\<close>

lemma rtp_string_roundtrip:
  assumes "rtp_string_write data v = accept bs" "0 \<notin> set v"
  shows "rtp_string_parse bs = accept v"
proof -
  have "bs = v" "v \<noteq> []"
    using assms by (auto simp: rtp_string_write_def wr_whole split: if_splits)
  moreover from this assms(2) have "v ! 0 \<noteq> 0" "takeWhile (\<lambda>c. c \<noteq> 0) v = v"
    by (auto simp: takeWhile_eq_all_conv) (metis length_greater_0_conv nth_mem)
  ultimately show ?thesis
    by (simp only: rtp_string_parse_def Let_def) (simp add: rd_def)
qed

section \<open>The extension map\<close>

record extension_map =
  extension_ids :: "u8 list"
  extmap_allow_mixed :: bool

definition kInvalidId :: u8 where "kInvalidId = 0"
definition kMinId :: int where "kMinId = 1"
definition kMaxId :: int where "kMaxId = 255"

definition em_new :: "bool \<Rightarrow> extension_map" where
  "em_new allow_mixed = \<lparr>extension_ids = replicate 10 kInvalidId, extmap_allow_mixed = allow_mixed\<rparr>"

definition em_get_type :: "extension_map \<Rightarrow> int \<Rightarrow> rtp_extension_type" where
  "em_get_type m i =
     (if i < kMinId \<or> i > kMaxId then ExtNone
      else case find (\<lambda>t. uint (extension_ids m ! type_index t) = i) proper_types of
             Some t \<Rightarrow> t
           | None \<Rightarrow> ExtNone)"

definition em_get_id :: "extension_map \<Rightarrow> rtp_extension_type \<Rightarrow> u8" where
  "em_get_id m t =
     (if t \<le> ExtNone \<or> t \<ge> ExtNumberOfExtensions then kInvalidId else extension_ids m ! type_index t)"

definition em_is_registered :: "extension_map \<Rightarrow> rtp_extension_type \<Rightarrow> bool" where
  "em_is_registered m t \<longleftrightarrow> em_get_id m t \<noteq> kInvalidId"

definition em_register :: "int \<Rightarrow> rtp_extension_type \<Rightarrow> extension_map \<Rightarrow> bool \<times> extension_map" where
  "em_register i t m =
     (if t \<le> ExtNone \<or> t \<ge> ExtNumberOfExtensions then (False, m)
      else if i < kMinId \<or> i > kMaxId then (False, m)
      else let registered_type = em_get_type m i in
        if registered_type = t then (True, m)
        else if registered_type \<noteq> ExtNone then (False, m)
        else (True, m\<lparr>extension_ids := (extension_ids m)[type_index t := of_int i]\<rparr>))"

text \<open>The table of the known extensions, in its order, with their identifiers in the session description.\<close>

definition kExtensions :: "(rtp_extension_type \<times> string) list" where
  "kExtensions =
     [(ExtAbsoluteSendTime, ''http://www.webrtc.org/experiments/rtp-hdrext/abs-send-time''),
      (ExtAbsoluteCaptureTime, ''http://www.webrtc.org/experiments/rtp-hdrext/abs-capture-time''),
      (ExtTransmissionTimeOffset, ''urn:ietf:params:rtp-hdrext:toffset''),
      (ExtTransportSequenceNumber, ''http://www.ietf.org/id/draft-holmer-rmcat-transport-wide-cc-extensions-01''),
      (ExtTransportSequenceNumber02, ''http://www.webrtc.org/experiments/rtp-hdrext/transport-wide-cc-02''),
      (ExtPlayoutDelay, ''http://www.webrtc.org/experiments/rtp-hdrext/playout-delay''),
      (ExtMid, ''urn:ietf:params:rtp-hdrext:sdes:mid''),
      (ExtRtpStreamId, ''urn:ietf:params:rtp-hdrext:sdes:rtp-stream-id''),
      (ExtRepairedRtpStreamId, ''urn:ietf:params:rtp-hdrext:sdes:repaired-rtp-stream-id'')]"

definition em_register_by_type :: "rtp_extension_type \<Rightarrow> int \<Rightarrow> extension_map \<Rightarrow> bool \<times> extension_map" where
  "em_register_by_type t i m =
     (case find (\<lambda>(t', uri). t = t') kExtensions of
        Some (t', uri) \<Rightarrow> em_register i t' m
      | None \<Rightarrow> (False, m))"

definition em_register_by_uri :: "string \<Rightarrow> int \<Rightarrow> extension_map \<Rightarrow> bool \<times> extension_map" where
  "em_register_by_uri uri i m =
     (case find (\<lambda>(t', uri'). uri = uri') kExtensions of
        Some (t', uri') \<Rightarrow> em_register i t' m
      | None \<Rightarrow> (False, m))"

definition em_of_extensions :: "(int \<times> string) list \<Rightarrow> extension_map" where
  "em_of_extensions exts = fold (\<lambda>(i, uri) m. snd (em_register_by_uri uri i m)) exts (em_new False)"

definition em_deregister :: "rtp_extension_type \<Rightarrow> extension_map \<Rightarrow> u8 \<times> extension_map" where
  "em_deregister t m =
     (if em_is_registered m t
      then (extension_ids m ! type_index t, m\<lparr>extension_ids := (extension_ids m)[type_index t := kInvalidId]\<rparr>)
      else (kInvalidId, m))"

definition em_deregister_uri :: "string \<Rightarrow> extension_map \<Rightarrow> u8 \<times> extension_map" where
  "em_deregister_uri uri m =
     (case find (\<lambda>(t, uri'). uri' = uri) kExtensions of
        Some (t, uri') \<Rightarrow>
          (extension_ids m ! type_index t, m\<lparr>extension_ids := (extension_ids m)[type_index t := kInvalidId]\<rparr>)
      | None \<Rightarrow> (kInvalidId, m))"

text \<open>
  \<^verbatim>\<open>CalculateSize\<close>: the loop keeps the total size, the number of extensions and the size of their
  headers.
\<close>

fun calculate_size_loop ::
    "extension_map \<Rightarrow> (rtp_extension_type \<times> nat) list \<Rightarrow> nat \<times> nat \<times> nat \<Rightarrow> nat \<times> nat \<times> nat" where
  "calculate_size_loop m [] acc = acc"
| "calculate_size_loop m ((t, sz) # es) (tot, n, header) =
     (let i = em_get_id m t in
      if i \<noteq> kInvalidId then calculate_size_loop m es (tot, n, header)
      else calculate_size_loop m es
        (tot + sz, n + 1, if unat i > 14 \<or> sz > 16 then 2 else header))"

definition em_calculate_size :: "extension_map \<Rightarrow> (rtp_extension_type \<times> nat) list \<Rightarrow> nat" where
  "em_calculate_size m exts =
     (let (tot, n, header) = calculate_size_loop m exts (0, 0, 1) in
      if tot = 0 then 0
      else let sz = 4 + header * n + tot in sz + 3 - (sz + 3) mod 4)"

section \<open>The map as an injective partial map\<close>

definition em_abs :: "extension_map \<Rightarrow> rtp_extension_type \<rightharpoonup> int" where
  "em_abs m t = (if em_is_registered m t then Some (uint (em_get_id m t)) else None)"

definition em_ok :: "extension_map \<Rightarrow> bool" where
  "em_ok m \<longleftrightarrow> length (extension_ids m) = 10 \<and>
     list_all (\<lambda>s. list_all (\<lambda>t.
        s = t \<or> extension_ids m ! type_index s = kInvalidId \<or>
        extension_ids m ! type_index s \<noteq> extension_ids m ! type_index t) proper_types) proper_types"

lemma em_ok_length: "em_ok m \<Longrightarrow> length (extension_ids m) = 10"
  by (simp add: em_ok_def)

lemma em_get_id_proper:
  "em_get_id m t = (if proper_type t then extension_ids m ! type_index t else kInvalidId)"
  by (simp add: em_get_id_def proper_type_def)

lemma em_registered_proper: "em_is_registered m t \<Longrightarrow> proper_type t"
  by (auto simp: em_is_registered_def em_get_id_proper split: if_splits)

lemma em_ok_unique:
  assumes "em_ok m" "em_is_registered m s" "em_get_id m s = em_get_id m t"
  shows "s = t"
proof -
  have "em_is_registered m t"
    using assms(2,3) by (simp add: em_is_registered_def)
  then have st: "proper_type s" "proper_type t"
    using assms(2) em_registered_proper by blast+
  moreover have "extension_ids m ! type_index s \<noteq> kInvalidId"
    "extension_ids m ! type_index s = extension_ids m ! type_index t"
    using assms(2,3) st by (simp_all add: em_is_registered_def em_get_id_proper)
  ultimately show ?thesis
    using assms(1) unfolding em_ok_def list_all_iff proper_type_iff by blast
qed

lemma em_okI:
  assumes "length (extension_ids m) = 10"
    "\<And>s t. em_is_registered m s \<Longrightarrow> em_get_id m s = em_get_id m t \<Longrightarrow> s = t"
  shows "em_ok m"
proof -
  have "s = t \<or> extension_ids m ! type_index s = kInvalidId \<or>
      extension_ids m ! type_index s \<noteq> extension_ids m ! type_index t"
    if "s \<in> set proper_types" "t \<in> set proper_types" for s t
    using assms(2) [of s t] that by (auto simp: em_is_registered_def em_get_id_proper proper_type_iff)
  with assms(1) show ?thesis
    unfolding em_ok_def list_all_iff by blast
qed

lemma find_unique:
  assumes "x \<in> set xs" "P x" "\<And>y. y \<in> set xs \<Longrightarrow> P y \<Longrightarrow> y = x"
  shows "find P xs = Some x"
proof (cases "find P xs")
  case None
  with assms(1,2) show ?thesis by (simp add: find_None_iff)
next
  case (Some y)
  then have "P y" "y \<in> set xs"
    by (auto simp: find_Some_iff)
  with assms(3) Some show ?thesis by simp
qed

lemma u8_nonzero_range: "0 < uint w \<and> uint w < 256" if "w \<noteq> 0" for w :: u8
proof -
  have "uint w \<noteq> 0" "0 \<le> uint w" "uint w < 2 ^ 8"
    using that uint_lt2p [of w] by (simp_all add: uint_0_iff)
  then show ?thesis by (auto simp: order.strict_iff_order)
qed

lemma em_get_type_registered:
  assumes "em_ok m" "em_is_registered m t"
  shows "em_get_type m (uint (em_get_id m t)) = t"
proof -
  have t: "proper_type t" "em_get_id m t \<noteq> 0"
    using assms(2) em_registered_proper by (auto simp: em_is_registered_def kInvalidId_def)
  have "find (\<lambda>s. uint (extension_ids m ! type_index s) = uint (em_get_id m t)) proper_types = Some t"
  proof (rule find_unique)
    fix s assume "s \<in> set proper_types" "uint (extension_ids m ! type_index s) = uint (em_get_id m t)"
    then have "em_get_id m t = em_get_id m s"
      by (metis em_get_id_proper proper_type_iff word_uint_eqI)
    then show "s = t"
      using em_ok_unique [OF assms] by simp
  qed (use t in \<open>simp_all add: em_get_id_proper proper_type_iff\<close>)
  then show ?thesis
    using u8_nonzero_range [OF t(2)] by (simp add: em_get_type_def kMinId_def kMaxId_def)
qed

lemma em_get_type_used:
  assumes "em_get_type m i = t" "t \<noteq> ExtNone"
  shows "em_is_registered m t" "uint (em_get_id m t) = i"
proof -
  have i: "1 \<le> i" "i \<le> 255" and f: "find (\<lambda>s. uint (extension_ids m ! type_index s) = i) proper_types = Some t"
    using assms by (auto simp: em_get_type_def kMinId_def kMaxId_def split: if_splits option.splits)
  then have "proper_type t" "uint (extension_ids m ! type_index t) = i"
    by (auto simp: find_Some_iff proper_type_iff)
  with i show "em_is_registered m t" "uint (em_get_id m t) = i"
    by (auto simp: em_is_registered_def em_get_id_proper kInvalidId_def)
qed

lemma em_get_type_unused:
  assumes "em_get_type m i = ExtNone" "em_is_registered m t" "em_ok m"
  shows "uint (em_get_id m t) \<noteq> i"
  using em_get_type_registered [OF assms(3,2)] em_registered_proper [OF assms(2)] assms(1)
  by (auto simp: proper_type_def)

lemma em_update_id:
  assumes "length (extension_ids m) = 10" "proper_type t"
  shows "em_get_id (m\<lparr>extension_ids := (extension_ids m)[type_index t := w]\<rparr>) s = (if s = t then w else em_get_id m s)"
  using assms proper_type_index by (auto simp: em_get_id_proper nth_list_update)

lemma em_new_ok: "em_ok (em_new b)"
proof -
  have "em_get_id (em_new b) t = kInvalidId" for t
    using proper_type_index [of t] by (auto simp: em_new_def em_get_id_proper)
  then show ?thesis
    by (intro em_okI) (simp add: em_new_def, simp add: em_is_registered_def)
qed

lemma em_register_ok:
  assumes "em_ok m"
  shows "em_ok (snd (em_register i t m))"
proof (cases "em_register i t m = (True, m) \<or> em_register i t m = (False, m)")
  case False
  then have t: "proper_type t" "1 \<le> i" "i \<le> 255" and free: "em_get_type m i = ExtNone"
    and upd: "snd (em_register i t m) = m\<lparr>extension_ids := (extension_ids m)[type_index t := of_int i]\<rparr>"
    by (auto simp: em_register_def proper_type_def kMinId_def kMaxId_def Let_def split: if_splits)
  note new = em_update_id [OF em_ok_length [OF assms] t(1), of "of_int i"]
  have i: "uint (of_int i :: u8) = i" "(of_int i :: u8) \<noteq> 0"
  proof -
    show "uint (of_int i :: u8) = i"
      using t by (simp add: uint_word_of_int)
    with t show "(of_int i :: u8) \<noteq> 0"
      by auto
  qed
  have clash: "em_get_id m s \<noteq> of_int i" for s
    using em_get_type_unused [OF free _ assms, of s] i by (auto simp: em_is_registered_def kInvalidId_def)
  show ?thesis
    unfolding upd
  proof (rule em_okI)
    fix r s
    assume "em_is_registered (m\<lparr>extension_ids := (extension_ids m)[type_index t := of_int i]\<rparr>) r"
      "em_get_id (m\<lparr>extension_ids := (extension_ids m)[type_index t := of_int i]\<rparr>) r =
       em_get_id (m\<lparr>extension_ids := (extension_ids m)[type_index t := of_int i]\<rparr>) s"
    then show "r = s"
      using clash em_ok_unique [OF assms, of r s]
      by (auto simp: em_is_registered_def new split: if_splits)
  qed (use em_ok_length [OF assms] in simp)
qed (use assms in auto)

lemma em_drop_ok:
  assumes "em_ok m" "proper_type t"
  shows "em_ok (m\<lparr>extension_ids := (extension_ids m)[type_index t := kInvalidId]\<rparr>)"
  using em_ok_length [OF assms(1)] em_ok_unique [OF assms(1)]
  by (intro em_okI) (auto simp: em_is_registered_def em_update_id [OF _ assms(2)] split: if_splits)

lemma kExtensions_proper: "find P kExtensions = Some (t, uri) \<Longrightarrow> proper_type t"
  by (auto simp: find_Some_iff kExtensions_def proper_type_iff proper_types_def nth_Cons' split: if_splits)

subsection \<open>Sequences of operations\<close>

datatype map_op =
    RegisterByType rtp_extension_type int | RegisterByUri string int
  | Deregister rtp_extension_type | DeregisterUri string

fun map_step :: "map_op \<Rightarrow> extension_map \<Rightarrow> extension_map" where
  "map_step (RegisterByType t i) m = snd (em_register_by_type t i m)"
| "map_step (RegisterByUri uri i) m = snd (em_register_by_uri uri i m)"
| "map_step (Deregister t) m = snd (em_deregister t m)"
| "map_step (DeregisterUri uri) m = snd (em_deregister_uri uri m)"

lemma map_step_ok: "em_ok m \<Longrightarrow> em_ok (map_step f m)"
  by (cases f)
    (auto simp: em_register_by_type_def em_register_by_uri_def em_deregister_def em_deregister_uri_def
      intro!: em_register_ok em_drop_ok dest: em_registered_proper kExtensions_proper split: option.splits)

lemma map_run_ok: "em_ok m \<Longrightarrow> em_ok (fold map_step fs m)"
  by (induction fs arbitrary: m) (simp_all add: map_step_ok)

lemma em_register_abs:
  assumes "em_ok m"
  shows "fst (em_register i t m) \<longleftrightarrow>
      proper_type t \<and> 1 \<le> i \<and> i \<le> 255 \<and> (em_get_type m i = t \<or> em_get_type m i = ExtNone)"
    and "em_abs (snd (em_register i t m)) = (if fst (em_register i t m) then (em_abs m)(t \<mapsto> i) else em_abs m)"
proof -
  show res: "fst (em_register i t m) \<longleftrightarrow>
      proper_type t \<and> 1 \<le> i \<and> i \<le> 255 \<and> (em_get_type m i = t \<or> em_get_type m i = ExtNone)"
    by (auto simp: em_register_def proper_type_def kMinId_def kMaxId_def Let_def)
  consider (no) "\<not> fst (em_register i t m)" | (same) "fst (em_register i t m)" "em_get_type m i = t"
    | (new) "fst (em_register i t m)" "em_get_type m i \<noteq> t" by blast
  then show "em_abs (snd (em_register i t m)) = (if fst (em_register i t m) then (em_abs m)(t \<mapsto> i) else em_abs m)"
  proof cases
    case no
    then show ?thesis by (auto simp: em_register_def Let_def split: if_splits)
  next
    case same
    then have "proper_type t" using res by simp
    then have "t \<noteq> ExtNone" by (auto simp: proper_type_def)
    with em_get_type_used [OF same(2)] same show ?thesis
      by (auto simp: em_register_def em_abs_def Let_def fun_eq_iff split: if_splits)
  next
    case new
    with res have t: "proper_type t" "1 \<le> i" "i \<le> 255" "em_get_type m i = ExtNone" by auto
    then have "snd (em_register i t m) = m\<lparr>extension_ids := (extension_ids m)[type_index t := of_int i]\<rparr>"
      using new by (auto simp: em_register_def kMinId_def kMaxId_def proper_type_def Let_def)
    moreover have "uint (of_int i :: u8) = i"
      using t by (simp add: uint_word_of_int)
    moreover from this t(2) have "(of_int i :: u8) \<noteq> 0"
      by auto
    ultimately show ?thesis
      using new em_update_id [OF em_ok_length [OF assms] t(1)]
      by (auto simp: em_abs_def em_is_registered_def kInvalidId_def fun_eq_iff)
  qed
qed

section \<open>All extensions at once\<close>

text \<open>
  The templates \<^verbatim>\<open>RtpPacket::SetExtension\<close> and \<^verbatim>\<open>GetExtension\<close> choose the functions above by the
  type of the extension.
\<close>

datatype ext_value =
    SendTime u32 | CaptureTime capture_time_info | TimeOffset u32 | TransportSeq u16
  | TransportSeqV2 u16 "feedback_request option" | Playout playout_delay
  | Mid "byte list" | StreamId "byte list" | RepairedStreamId "byte list"

fun ext_type :: "ext_value \<Rightarrow> rtp_extension_type" where
  "ext_type (SendTime _) = ExtAbsoluteSendTime"
| "ext_type (CaptureTime _) = ExtAbsoluteCaptureTime"
| "ext_type (TimeOffset _) = ExtTransmissionTimeOffset"
| "ext_type (TransportSeq _) = ExtTransportSequenceNumber"
| "ext_type (TransportSeqV2 _ _) = ExtTransportSequenceNumber02"
| "ext_type (Playout _) = ExtPlayoutDelay"
| "ext_type (Mid _) = ExtMid"
| "ext_type (StreamId _) = ExtRtpStreamId"
| "ext_type (RepairedStreamId _) = ExtRepairedRtpStreamId"

fun ext_value_size :: "ext_value \<Rightarrow> nat" where
  "ext_value_size (SendTime _) = 3"
| "ext_value_size (CaptureTime info) = abs_capture_value_size info"
| "ext_value_size (TimeOffset _) = 3"
| "ext_value_size (TransportSeq _) = 2"
| "ext_value_size (TransportSeqV2 _ fr) = transport_seq_v2_value_size fr"
| "ext_value_size (Playout _) = 3"
| "ext_value_size (Mid v) = length v"
| "ext_value_size (StreamId v) = length v"
| "ext_value_size (RepairedStreamId v) = length v"

fun ext_write :: "byte list \<Rightarrow> ext_value \<Rightarrow> byte list option option" where
  "ext_write data (SendTime v) = abs_send_time_write data v"
| "ext_write data (CaptureTime info) = abs_capture_write data info"
| "ext_write data (TimeOffset v) = time_offset_write data v"
| "ext_write data (TransportSeq v) = transport_seq_write data v"
| "ext_write data (TransportSeqV2 v fr) = transport_seq_v2_write data v fr"
| "ext_write data (Playout p) = playout_delay_write data p"
| "ext_write data (Mid v) = rtp_string_write data v"
| "ext_write data (StreamId v) = rtp_string_write data v"
| "ext_write data (RepairedStreamId v) = rtp_string_write data v"

definition parse_with :: "('a \<Rightarrow> ext_value) \<Rightarrow> 'a option option \<Rightarrow> ext_value option option" where
  "parse_with c r = map_option (map_option c) r"

definition new_time_info :: capture_time_info where
  "new_time_info = \<lparr>absolute_capture_timestamp = 0, estimated_capture_clock_offset = None\<rparr>"

fun ext_parse :: "rtp_extension_type \<Rightarrow> byte list \<Rightarrow> ext_value option option" where
  "ext_parse ExtAbsoluteSendTime data = parse_with SendTime (abs_send_time_parse data)"
| "ext_parse ExtAbsoluteCaptureTime data = parse_with CaptureTime (abs_capture_parse data new_time_info)"
| "ext_parse ExtTransmissionTimeOffset data = parse_with TimeOffset (time_offset_parse data)"
| "ext_parse ExtTransportSequenceNumber data = parse_with TransportSeq (transport_seq_parse data)"
| "ext_parse ExtTransportSequenceNumber02 data =
     parse_with (\<lambda>(v, fr). TransportSeqV2 v fr) (transport_seq_v2_parse data)"
| "ext_parse ExtPlayoutDelay data = parse_with Playout (playout_delay_parse data)"
| "ext_parse ExtMid data = parse_with Mid (rtp_string_parse data)"
| "ext_parse ExtRtpStreamId data = parse_with StreamId (rtp_string_parse data)"
| "ext_parse ExtRepairedRtpStreamId data = parse_with RepairedStreamId (rtp_string_parse data)"
| "ext_parse ExtNone data = reject"
| "ext_parse ExtNumberOfExtensions data = reject"

text \<open>The values the wire can carry, and what it makes of them.\<close>

definition text_valid :: "byte list \<Rightarrow> bool" where
  "text_valid v \<longleftrightarrow> v \<noteq> [] \<and> length v \<le> 16 \<and> 0 \<notin> set v"

fun ext_valid :: "ext_value \<Rightarrow> bool" where
  "ext_valid (SendTime v) \<longleftrightarrow> v \<le> 0x00FFFFFF"
| "ext_valid (CaptureTime info) \<longleftrightarrow> True"
| "ext_valid (TimeOffset v) \<longleftrightarrow> - (2 ^ 23) \<le> sint v \<and> sint v < 2 ^ 23"
| "ext_valid (TransportSeq v) \<longleftrightarrow> True"
| "ext_valid (TransportSeqV2 v fr) \<longleftrightarrow>
     (case fr of None \<Rightarrow> True | Some r \<Rightarrow> 0 \<le> sequence_count r \<and> sequence_count r < 2 ^ 15)"
| "ext_valid (Playout p) \<longleftrightarrow> 0 \<le> min_ms p \<and> min_ms p \<le> max_ms p \<and> max_ms p \<le> 40950"
| "ext_valid (Mid v) \<longleftrightarrow> text_valid v"
| "ext_valid (StreamId v) \<longleftrightarrow> text_valid v"
| "ext_valid (RepairedStreamId v) \<longleftrightarrow> text_valid v"

fun ext_received :: "ext_value \<Rightarrow> ext_value" where
  "ext_received (TransportSeqV2 v (Some r)) = TransportSeqV2 v (if sequence_count r = 0 then None else Some r)"
| "ext_received (Playout p) = Playout \<lparr>min_ms = min_ms p div 10 * 10, max_ms = max_ms p div 10 * 10\<rparr>"
| "ext_received v = v"

lemma ext_write_accepts:
  assumes "ext_valid v" "length data = ext_value_size v"
  shows "\<exists>bs. ext_write data v = accept bs \<and> length bs = length data"
proof (cases v)
  case (SendTime t)
  with assms show ?thesis by (auto simp: abs_send_time_write_def wr_whole not_less)
next
  case (CaptureTime info)
  with assms show ?thesis
    by (cases "estimated_capture_clock_offset info")
      (auto simp: abs_capture_write_def abs_capture_value_size_def wr_def)
next
  case (TimeOffset t)
  with assms show ?thesis by (auto simp: time_offset_write_def wr_whole)
next
  case (TransportSeq t)
  with assms show ?thesis by (auto simp: transport_seq_write_def wr_whole)
next
  case (TransportSeqV2 t fr)
  with assms show ?thesis
    by (cases fr) (auto simp: transport_seq_v2_write_def transport_seq_v2_value_size_def kIncludeTimestampsBit_def wr_def)
next
  case (Playout p)
  with assms show ?thesis by (auto simp: playout_delay_write_def kMaxMs_def kGranularityMs_def wr_whole Let_def)
qed (use assms in \<open>auto simp: rtp_string_write_def text_valid_def wr_whole\<close>)

lemma ext_parse_written:
  assumes "ext_valid v" "ext_write data v = accept bs"
  shows "ext_parse (ext_type v) bs = accept (ext_received v)"
proof (cases v)
  case (SendTime t)
  with assms abs_send_time_roundtrip show ?thesis by (simp add: parse_with_def)
next
  case (CaptureTime info)
  with assms abs_capture_roundtrip [of data info bs new_time_info] show ?thesis
    by (simp add: parse_with_def new_time_info_def)
next
  case (TimeOffset t)
  with assms time_offset_roundtrip [of data t bs] show ?thesis by (simp add: parse_with_def)
next
  case (TransportSeq t)
  with assms transport_seq_roundtrip show ?thesis by (simp add: parse_with_def)
next
  case (TransportSeqV2 t fr)
  with assms transport_seq_v2_roundtrip [of data t fr bs] show ?thesis
    by (cases fr) (simp_all add: parse_with_def)
next
  case (Playout p)
  with assms playout_delay_roundtrip show ?thesis by (simp add: parse_with_def)
qed (use assms rtp_string_roundtrip in \<open>simp_all add: parse_with_def text_valid_def\<close>)

text \<open>
  The writer of transmission offsets checks 24 bits where the reader takes 24 bits with a sign.
\<close>

lemma time_offset_folds:
  assumes "2 ^ 23 \<le> sint v" "sint v \<le> 0x00ffffff" "length data = 3"
  shows "\<exists>bs. time_offset_write data v = accept bs \<and> time_offset_parse bs = accept (v - 2 ^ 24)"
proof -
  have u: "uint v = sint v"
  proof -
    have "0 \<le> sint v" "sint v < 2 ^ 32"
      using assms(1,2) by simp_all
    then show ?thesis
      by (simp add: uint_sint take_bit_int_eq_self)
  qed
  then have low: "v < 2 ^ 24" "uint v div 2 ^ 23 = 1"
    using assms(1,2) by (simp_all add: word_less_def div_nat_eqI)
  have "bit (uint v) 23"
    using low(2) by (simp add: bit_iff_odd)
  then have bit23: "bit v 23"
    by (simp add: bit_uint_iff)
  have "bit v k \<Longrightarrow> k < 24" for k
    using low(1) bit_below by blast
  then have "NOT (mask 24) OR v = NOT (mask 24) + v"
    by (intro disjunctive_add [symmetric]) (auto simp: bit_simps)
  also have "\<dots> = v - 2 ^ 24"
    by (simp add: not_eq_complement mask_eq_exp_minus_1)
  finally have "sign_extend 3 (take_bit 24 v) = v - 2 ^ 24"
    using bit23 low(1) by (simp add: sign_extend_24 bit_simps take_bit_eq_mask less_mask_eq)
  moreover have "time_offset_write data v = accept (be24 v)"
    using assms by (simp add: time_offset_write_def wr_whole)
  ultimately show ?thesis
    by (simp add: time_offset_parse_def read_signed_be24_def rd_bytes_end read_signed_big_endian_def)
      (simp add: be24_def read_write_big_endian)
qed

lemma calculate_size_all_registered:
  "list_all (\<lambda>(t, sz). em_is_registered m t) exts \<Longrightarrow> calculate_size_loop m exts acc = acc"
  by (induction m exts acc rule: calculate_size_loop.induct) (auto simp: em_is_registered_def)

section \<open>Properties\<close>

text \<open>
  C18. Every value the format can carry is accepted by its writer in a view of its size, and the
  parser of its type reads from those bytes the value itself; only a playout delay is rounded down
  to a multiple of ten milliseconds and a request for feedback on no packets is dropped.
\<close>

theorem extension_values_roundtrip:
  assumes "ext_valid v" "length data = ext_value_size v"
  shows "\<exists>bs. ext_write data v = accept bs \<and> length bs = length data \<and>
    ext_parse (ext_type v) bs = accept (ext_received v)"
  using ext_write_accepts [OF assms] ext_parse_written [OF assms(1)] by blast

theorem extension_values_roundtrip_witness:
  "\<exists>bs. ext_write [0, 0, 0] (Playout \<lparr>min_ms = 25, max_ms = 40\<rparr>) = accept bs \<and> length bs = 3 \<and>
     ext_parse ExtPlayoutDelay bs = accept (Playout \<lparr>min_ms = 20, max_ms = 40\<rparr>)"
  using extension_values_roundtrip [of "Playout \<lparr>min_ms = 25, max_ms = 40\<rparr>" "[0, 0, 0]"]
  by (simp add: numeral_3_eq_3)

text \<open>
  \<^verbatim>\<open>TransmissionTimeOffset::Write\<close> accepts the offsets from 8388608 to 16777215, which the
  parser returns lowered by 16777216: the sign bit of the 24-bit field is not reserved.
\<close>

theorem transmission_offset_changes_sign:
  assumes "2 ^ 23 \<le> sint v" "sint v \<le> 0x00ffffff" "length data = 3"
  shows "\<exists>bs. time_offset_write data v = accept bs \<and> time_offset_parse bs = accept (v - 2 ^ 24)"
  using assms by (rule time_offset_folds)

theorem transmission_offset_changes_sign_witness:
  "\<exists>bs. time_offset_write [0, 0, 0] 0x800000 = accept bs \<and> time_offset_parse bs = accept (0x800000 - 2 ^ 24)"
  using transmission_offset_changes_sign [of "0x800000" "[0, 0, 0]"] by simp

text \<open>
  C21. After any sequence of registrations and deregistrations no identifier is shared: the type
  found for the identifier of a registered type is that type, and the identifier of a type found
  for an identifier is that identifier.
\<close>

theorem extension_map_injective:
  assumes "m = fold map_step fs (em_new mixed)"
  shows "(em_is_registered m t \<longrightarrow> em_get_type m (uint (em_get_id m t)) = t) \<and>
    (em_get_type m i \<noteq> ExtNone \<longrightarrow> uint (em_get_id m (em_get_type m i)) = i)"
  using em_get_type_registered [OF map_run_ok [OF em_new_ok]] em_get_type_used assms by simp

theorem extension_map_injective_witness:
  "let m = fold map_step [RegisterByType ExtMid 3, RegisterByType ExtPlayoutDelay 3] (em_new False)
   in em_get_type m 3 = ExtMid \<and> uint (em_get_id m (em_get_type m 3)) = 3"
proof -
  let ?m = "fold map_step [RegisterByType ExtMid 3, RegisterByType ExtPlayoutDelay 3] (em_new False)"
  have "em_get_type ?m 3 = ExtMid"
    by (simp add: em_new_def em_register_by_type_def em_register_def em_get_type_def em_get_id_def proper_types_def
        kExtensions_def kMinId_def kMaxId_def kInvalidId_def less_eq_rtp_extension_type_def Let_def)
  moreover from this have "uint (em_get_id ?m (em_get_type ?m 3)) = 3"
    using extension_map_injective [of ?m "[RegisterByType ExtMid 3, RegisterByType ExtPlayoutDelay 3]" False ExtMid 3]
    by simp
  ultimately show ?thesis
    by (simp only: Let_def)
qed

text \<open>
  C19. In every state reached, \<^verbatim>\<open>Register\<close> refines the update of a partial map from types to
  identifiers: it succeeds exactly for a proper type and an identifier from 1 to 255 that no other
  type has, then maps the type to the identifier, and otherwise leaves the map as it was.
\<close>

theorem extension_map_register_refines:
  assumes "m = fold map_step fs (em_new mixed)"
  shows "(fst (em_register i t m) \<longleftrightarrow>
      proper_type t \<and> 1 \<le> i \<and> i \<le> 255 \<and> (\<forall>s. em_abs m s = Some i \<longrightarrow> s = t)) \<and>
    em_abs (snd (em_register i t m)) = (if fst (em_register i t m) then (em_abs m)(t \<mapsto> i) else em_abs m)"
proof -
  have ok: "em_ok m"
    using assms map_run_ok [OF em_new_ok] by simp
  have "(em_get_type m i = t \<or> em_get_type m i = ExtNone) \<longleftrightarrow> (\<forall>s. em_abs m s = Some i \<longrightarrow> s = t)"
  proof (cases "em_get_type m i = ExtNone")
    case True
    then show ?thesis
      using em_get_type_unused [OF True _ ok] by (auto simp: em_abs_def)
  next
    case False
    then show ?thesis
      using em_get_type_used [of m i "em_get_type m i"] em_get_type_registered [OF ok]
      by (auto simp: em_abs_def)
  qed
  with em_register_abs [OF ok, of i t] show ?thesis
    by simp
qed

theorem extension_map_register_refines_witness:
  "em_abs (snd (em_register 3 ExtMid (em_new False))) =
     (if fst (em_register 3 ExtMid (em_new False)) then (em_abs (em_new False))(ExtMid \<mapsto> 3) else em_abs (em_new False))"
  using extension_map_register_refines [of "em_new False" "[]" False 3 ExtMid] by simp

text \<open>
  \<^verbatim>\<open>CalculateSize\<close> skips the registered extensions, not the unregistered ones its comment
  names: extensions that are all registered are said to need no space.
\<close>

theorem calculate_size_ignores_registered:
  assumes "list_all (\<lambda>(t, sz). em_is_registered m t) exts"
  shows "em_calculate_size m exts = 0"
  using calculate_size_all_registered [OF assms] by (simp add: em_calculate_size_def)

theorem calculate_size_ignores_registered_witness:
  "em_calculate_size \<lparr>extension_ids = [0, 0, 5, 0, 0, 0, 0, 0, 0, 0], extmap_allow_mixed = False\<rparr>
     [(ExtAbsoluteSendTime, 3)] = 0"
  by (rule calculate_size_ignores_registered)
    (simp add: em_is_registered_def em_get_id_def less_eq_rtp_extension_type_def kInvalidId_def)

end
