(* ===== verification/RtpPacket.thy ===== *)
theory RtpPacket
  imports RtpExtensions CowBuffer "HOL-Library.AList"
begin

text \<open>
  The RTP packet, \<^verbatim>\<open>rtp_rtcp/rtp/packets/rtp_packet.hpp\<close> and \<^verbatim>\<open>rtp_packet.cpp\<close>: a buffer with the
  wire image, the header fields read from or written to it, and the entries that say where the
  header extensions are. A packet is a \<^verbatim>\<open>CopyOnWriteBuffer\<close>; what one object holds does not depend
  on the others, so the buffer is a vector of its own here. Writes through \<^verbatim>\<open>data()\<close> reach all of
  its capacity, also beyond its size.

  A view into the buffer is its offset and length. \<open>None\<close> is a failed assertion or an access outside
  the memory of a buffer.
\<close>

section \<open>State\<close>

record extension_info =
  ei_id :: u8
  ei_size :: u8
  ei_offset :: u16

record rtp_packet =
  rp_buf :: vec
  rp_has_padding :: bool
  rp_marker :: bool
  rp_payload_type :: u8
  rp_padding_size :: u8
  rp_sequence_number :: u16
  rp_timestamp :: u32
  rp_ssrc :: u32
  rp_payload_offset :: nat
  rp_payload_size :: nat
  rp_extensions_size :: nat
  rp_extension_map :: extension_map
  rp_extension_entries :: "extension_info list"

definition kRtpHeaderSize :: nat where "kRtpHeaderSize = 12"
definition kOneByteExtensionProfileId :: u16 where "kOneByteExtensionProfileId = 0xBEDE"
definition kTwoByteExtensionProfileId :: u16 where "kTwoByteExtensionProfileId = 0x1000"
definition kTwoByteExtensionProfileIdAppBitsFilter :: u16 where
  "kTwoByteExtensionProfileIdAppBitsFilter = 0xFFF0"

definition rp_capacity :: "rtp_packet \<Rightarrow> nat" where
  "rp_capacity p = v_capacity (rp_buf p)"

definition rp_size :: "rtp_packet \<Rightarrow> nat" where
  "rp_size p = rp_payload_offset p + rp_payload_size p + unat (rp_padding_size p)"

definition rp_resize :: "nat \<Rightarrow> rtp_packet \<Rightarrow> rtp_packet" where
  "rp_resize n p = p\<lparr>rp_buf := vec_resize n (vec_reserve (max (v_capacity (rp_buf p)) n) (rp_buf p))\<rparr>"

definition write_at :: "nat \<Rightarrow> byte list \<Rightarrow> rtp_packet \<Rightarrow> rtp_packet option" where
  "write_at off bs p =
     (if off < rp_capacity p then do {
        m \<leftarrow> wr off bs (v_mem (rp_buf p));
        Some (p\<lparr>rp_buf := (rp_buf p)\<lparr>v_mem := m\<rparr>\<rparr>) }
      else None)"

definition read_at :: "rtp_packet \<Rightarrow> nat \<Rightarrow> byte option" where
  "read_at p i = rd (v_mem (rp_buf p)) i"

section \<open>Construction and header fields\<close>

definition rp_reset :: "rtp_packet \<Rightarrow> rtp_packet option" where
  "rp_reset p = do {
     p \<leftarrow> Some (p\<lparr>rp_marker := False, rp_payload_type := 0, rp_sequence_number := 0, rp_timestamp := 0,
       rp_ssrc := 0, rp_payload_offset := kRtpHeaderSize, rp_payload_size := 0, rp_padding_size := 0\<rparr>);
     p \<leftarrow> Some (p\<lparr>rp_buf := vec_clear (rp_buf p)\<rparr>);
     p \<leftarrow> Some (rp_resize kRtpHeaderSize p);
     write_at 0 [push_bit 6 2] p }"

text \<open>
  The constructor does not initialise \<^verbatim>\<open>has_padding_\<close>: its value is the argument \<open>junk\<close>.
\<close>

definition rp_new :: "bool \<Rightarrow> extension_map option \<Rightarrow> nat \<Rightarrow> rtp_packet option" where
  "rp_new junk em cap =
     (if cap \<le> kIpPacketSize
      then rp_reset \<lparr>rp_buf = vec_reserve cap (vec_of []), rp_has_padding = junk, rp_marker = False,
        rp_payload_type = 0, rp_padding_size = 0, rp_sequence_number = 0, rp_timestamp = 0, rp_ssrc = 0,
        rp_payload_offset = 0, rp_payload_size = 0, rp_extensions_size = 0,
        rp_extension_map = (case em of Some m \<Rightarrow> m | None \<Rightarrow> em_new False), rp_extension_entries = []\<rparr>
      else None)"

fun read_csrcs :: "rtp_packet \<Rightarrow> nat \<Rightarrow> nat \<Rightarrow> u32 list option" where
  "read_csrcs p 0 off = Some []"
| "read_csrcs p (Suc n) off = do {
     c \<leftarrow> read_be32 (v_mem (rp_buf p)) off;
     cs \<leftarrow> read_csrcs p n (off + 4);
     Some (c # cs) }"

definition rp_csrcs :: "rtp_packet \<Rightarrow> u32 list option" where
  "rp_csrcs p = do {
     b0 \<leftarrow> read_at p 0;
     let num_csrc = unat (b0 AND 0x0F);
     if kRtpHeaderSize + num_csrc * 4 \<le> rp_capacity p then read_csrcs p num_csrc kRtpHeaderSize else None }"

definition set_has_padding :: "bool \<Rightarrow> rtp_packet \<Rightarrow> rtp_packet option" where
  "set_has_padding b p = do {
     p \<leftarrow> Some (p\<lparr>rp_has_padding := b\<rparr>);
     b0 \<leftarrow> read_at p 0;
     if b then write_at 0 [b0 OR 0x20] p else write_at 0 [b0 AND NOT 0x20] p }"

definition set_marker :: "bool \<Rightarrow> rtp_packet \<Rightarrow> rtp_packet option" where
  "set_marker b p = do {
     p \<leftarrow> Some (p\<lparr>rp_marker := b\<rparr>);
     b1 \<leftarrow> read_at p 1;
     if b then write_at 1 [b1 OR 0x80] p else write_at 1 [b1 AND 0x7F] p }"

definition set_payload_type :: "u8 \<Rightarrow> rtp_packet \<Rightarrow> rtp_packet option" where
  "set_payload_type t p =
     (if t \<le> 0x7F then do {
        p \<leftarrow> Some (p\<lparr>rp_payload_type := t\<rparr>);
        b1 \<leftarrow> read_at p 1;
        write_at 1 [(b1 AND 0x80) OR t] p }
      else None)"

definition set_sequence_number :: "u16 \<Rightarrow> rtp_packet \<Rightarrow> rtp_packet option" where
  "set_sequence_number n p = write_at 2 (be16 n) (p\<lparr>rp_sequence_number := n\<rparr>)"

definition set_timestamp :: "u32 \<Rightarrow> rtp_packet \<Rightarrow> rtp_packet option" where
  "set_timestamp t p = write_at 4 (be32 t) (p\<lparr>rp_timestamp := t\<rparr>)"

definition set_ssrc :: "u32 \<Rightarrow> rtp_packet \<Rightarrow> rtp_packet option" where
  "set_ssrc s p = write_at 8 (be32 s) (p\<lparr>rp_ssrc := s\<rparr>)"

fun write_csrcs :: "u32 list \<Rightarrow> nat \<Rightarrow> rtp_packet \<Rightarrow> rtp_packet option" where
  "write_csrcs [] off p = Some p"
| "write_csrcs (c # cs) off p = do { p \<leftarrow> write_at off (be32 c) p; write_csrcs cs (off + 4) p }"

definition set_csrcs :: "u32 list \<Rightarrow> rtp_packet \<Rightarrow> rtp_packet option" where
  "set_csrcs cs p =
     (if rp_extensions_size p = 0 \<and> rp_payload_size p = 0 \<and> rp_padding_size p = 0 \<and>
         length cs \<le> 0x0F \<and> kRtpHeaderSize + 4 * length cs \<le> rp_capacity p
      then do {
        p \<leftarrow> Some (p\<lparr>rp_payload_offset := kRtpHeaderSize + 4 * length cs\<rparr>);
        p \<leftarrow> Some (rp_resize (rp_payload_offset p) p);
        b0 \<leftarrow> read_at p 0;
        p \<leftarrow> write_at 0 [(b0 AND 0xF0) OR of_nat (length cs)] p;
        write_csrcs cs kRtpHeaderSize p }
      else None)"

definition copy_header_from :: "rtp_packet \<Rightarrow> rtp_packet \<Rightarrow> rtp_packet option" where
  "copy_header_from other p = do {
     p \<leftarrow> Some (p\<lparr>rp_marker := rp_marker other, rp_payload_type := rp_payload_type other,
       rp_sequence_number := rp_sequence_number other, rp_timestamp := rp_timestamp other,
       rp_ssrc := rp_ssrc other, rp_payload_offset := rp_payload_offset other\<rparr>);
     header \<leftarrow> rd_bytes (v_mem (rp_buf other)) 0 (rp_payload_offset other);
     Some (p\<lparr>rp_buf := vec_assign header (rp_buf p), rp_payload_size := 0, rp_padding_size := 0\<rparr>) }"

section \<open>Payload and padding\<close>

definition set_padding :: "u8 \<Rightarrow> rtp_packet \<Rightarrow> (bool \<times> rtp_packet) option" where
  "set_padding n p =
     (if rp_payload_offset p + rp_payload_size p + unat n > rp_capacity p then Some (False, p)
      else do {
        p \<leftarrow> Some (p\<lparr>rp_padding_size := n\<rparr>);
        p \<leftarrow> Some (rp_resize (rp_payload_offset p + rp_payload_size p + unat n) p);
        p \<leftarrow> (if n > 0 then do {
                let padding_offset = rp_payload_offset p + rp_payload_size p;
                let padding_limit = padding_offset + unat n;
                p \<leftarrow> write_at padding_offset (replicate (unat n) 0) p;
                p \<leftarrow> write_at (padding_limit - 1) [n] p;
                set_has_padding True p }
              else set_has_padding False p);
        Some (True, p) })"

definition set_payload :: "byte list \<Rightarrow> rtp_packet \<Rightarrow> rtp_packet option" where
  "set_payload bs p = do {
     p \<leftarrow> Some (p\<lparr>rp_payload_size := length bs\<rparr>);
     p \<leftarrow> Some (rp_resize (rp_payload_offset p + rp_payload_size p) p);
     v \<leftarrow> vec_insert (rp_payload_offset p) bs (rp_buf p);
     Some (p\<lparr>rp_buf := v\<rparr>) }"

definition set_payload_size :: "nat \<Rightarrow> rtp_packet \<Rightarrow> (nat option \<times> rtp_packet) option" where
  "set_payload_size n p =
     (if rp_padding_size p > 0 then Some (None, p)
      else if rp_payload_offset p + n > rp_capacity p then Some (None, p)
      else do {
        p \<leftarrow> Some (p\<lparr>rp_payload_size := n\<rparr>);
        p \<leftarrow> Some (rp_resize (rp_payload_offset p + rp_payload_size p) p);
        if rp_payload_offset p < rp_capacity p then Some (Some (rp_payload_offset p), p) else None })"

definition allocate_payload :: "nat \<Rightarrow> rtp_packet \<Rightarrow> (nat option \<times> rtp_packet) option" where
  "allocate_payload n p = do { (_, p) \<leftarrow> set_payload_size 0 p; set_payload_size n p }"

definition rp_payload :: "rtp_packet \<Rightarrow> byte list option" where
  "rp_payload p = rd_bytes (v_mem (rp_buf p)) (rp_payload_offset p) (rp_payload_size p)"

section \<open>Header extensions\<close>

definition find_extension_info :: "int \<Rightarrow> extension_info list \<Rightarrow> extension_info option" where
  "find_extension_info i es = find (\<lambda>e. uint (ei_id e) = i) es"

text \<open>\<^verbatim>\<open>FindOrCreateExtensionInfo\<close> and the assignment through the reference it returns.\<close>

fun put_extension_info :: "u8 \<Rightarrow> u8 \<Rightarrow> u16 \<Rightarrow> extension_info list \<Rightarrow> extension_info list" where
  "put_extension_info i n off [] = [\<lparr>ei_id = i, ei_size = n, ei_offset = off\<rparr>]"
| "put_extension_info i n off (e # es) =
     (if ei_id e = i then e\<lparr>ei_size := n, ei_offset := off\<rparr> # es else e # put_extension_info i n off es)"

definition has_extension :: "rtp_extension_type \<Rightarrow> rtp_packet \<Rightarrow> bool" where
  "has_extension t p =
     (let i = em_get_id (rp_extension_map p) t in
      if i = kInvalidId then False
      else find_extension_info (uint i) (rp_extension_entries p) \<noteq> None)"

definition find_extension :: "rtp_extension_type \<Rightarrow> rtp_packet \<Rightarrow> (nat \<times> nat) option option" where
  "find_extension t p =
     (let i = em_get_id (rp_extension_map p) t in
      if i = kInvalidId then Some None
      else case find_extension_info (uint i) (rp_extension_entries p) of
             None \<Rightarrow> Some None
           | Some e \<Rightarrow> if unat (ei_offset e) < rp_capacity p
                       then Some (Some (unat (ei_offset e), unat (ei_size e))) else None)"

definition update_extension_size :: "nat \<Rightarrow> rtp_packet \<Rightarrow> (nat \<times> rtp_packet) option" where
  "update_extension_size extensions_offset p =
     (let extensions_words = (rp_extensions_size p + 3) div 4 in
      if extensions_words < 2 ^ 16 then do {
        p \<leftarrow> write_at (extensions_offset - 2) (be16 (of_nat extensions_words)) p;
        p \<leftarrow> write_at (extensions_offset + rp_extensions_size p)
               (replicate (4 * extensions_words - rp_extensions_size p) 0) p;
        Some (4 * extensions_words, p) }
      else None)"

text \<open>
  \<^verbatim>\<open>PromoteToTwoByteHeaderExtension\<close>: the loop runs over the entries from the last to the first.
\<close>

fun promote_loop :: "extension_info list \<Rightarrow> nat \<Rightarrow> rtp_packet \<Rightarrow> (extension_info list \<times> rtp_packet) option" where
  "promote_loop [] delta p = Some ([], p)"
| "promote_loop (e # es) delta p =
     (let read_index = unat (ei_offset e); write_index = read_index + delta in
      if write_index < 2 ^ 16 then do {
        bs \<leftarrow> rd_bytes (v_mem (rp_buf p)) read_index (unat (ei_size e));
        p \<leftarrow> write_at write_index bs p;
        p \<leftarrow> write_at (write_index - 1) [ei_size e] p;
        p \<leftarrow> write_at (write_index - 2) [ei_id e] p;
        (es', p) \<leftarrow> promote_loop es (delta - 1) p;
        Some (e\<lparr>ei_offset := of_nat write_index\<rparr> # es', p) }
      else None)"

definition promote_to_two_byte_header :: "rtp_packet \<Rightarrow> rtp_packet option" where
  "promote_to_two_byte_header p =
     (if rp_extension_entries p = [] then Some p
      else if rp_payload_size p > 0 then Some p
      else do {
        b0 \<leftarrow> read_at p 0;
        let extensions_offset = kRtpHeaderSize + unat (b0 AND 0x0F) * 4 + 4;
        profile_id \<leftarrow> read_be16 (v_mem (rp_buf p)) (extensions_offset - 4);
        if profile_id \<noteq> kOneByteExtensionProfileId then Some p
        else do {
          p \<leftarrow> Some (rp_resize (rp_capacity p) p);
          (es, p) \<leftarrow> promote_loop (rev (rp_extension_entries p)) (length (rp_extension_entries p)) p;
          p \<leftarrow> Some (p\<lparr>rp_extension_entries := rev es\<rparr>);
          p \<leftarrow> write_at (extensions_offset - 4) (be16 kTwoByteExtensionProfileId) p;
          p \<leftarrow> Some (p\<lparr>rp_extensions_size := rp_extensions_size p + length (rp_extension_entries p)\<rparr>);
          (extensions_size_padded, p) \<leftarrow> update_extension_size extensions_offset p;
          p \<leftarrow> Some (p\<lparr>rp_payload_offset := extensions_offset + extensions_size_padded\<rparr>);
          Some (rp_resize (rp_payload_offset p) p) } })"

text \<open>
  The second half of \<^verbatim>\<open>AllocateRawExtension\<close>, after all checks: the headers of the block and of the
  extension are written and the entry is recorded.
\<close>

definition write_extension_header ::
    "int \<Rightarrow> nat \<Rightarrow> nat \<Rightarrow> u16 \<Rightarrow> rtp_packet \<Rightarrow> rtp_packet option" where
  "write_extension_header i n extensions_offset profile_id p = do {
     p \<leftarrow> (if rp_extensions_size p = 0 then do {
             b0 \<leftarrow> read_at p 0;
             if rp_payload_offset p = kRtpHeaderSize + unat (b0 AND 0x0F) * 4 then do {
               p \<leftarrow> write_at 0 [b0 OR 0x10] p;
               write_at (extensions_offset - 4) (be16 profile_id) p }
             else None }
           else Some p);
     if profile_id = kOneByteExtensionProfileId then
       write_at (extensions_offset + rp_extensions_size p) [push_bit 4 (of_int i) OR of_nat (n - 1)] p
     else do {
       p \<leftarrow> write_at (extensions_offset + rp_extensions_size p) [of_int i] p;
       write_at (extensions_offset + rp_extensions_size p + 1) [of_nat n] p } }"

definition place_extension ::
    "int \<Rightarrow> nat \<Rightarrow> nat \<Rightarrow> u16 \<Rightarrow> rtp_packet \<Rightarrow> ((nat \<times> nat) option \<times> rtp_packet) option" where
  "place_extension i n extensions_offset profile_id p =
     (let header_size = (if profile_id = kOneByteExtensionProfileId then 1 else 2);
          new_extensions_size = rp_extensions_size p + header_size + n in
      if extensions_offset + new_extensions_size > rp_capacity p then Some (None, p)
      else do {
        p \<leftarrow> write_extension_header i n extensions_offset profile_id p;
        let info_offset = extensions_offset + rp_extensions_size p + header_size;
        if info_offset < 2 ^ 16 then do {
          p \<leftarrow> Some (p\<lparr>rp_extension_entries := rp_extension_entries p @
                 [\<lparr>ei_id = of_int i, ei_size = of_nat n, ei_offset = of_nat info_offset\<rparr>],
                 rp_extensions_size := new_extensions_size\<rparr>);
          (extensions_size_padded, p) \<leftarrow> update_extension_size extensions_offset p;
          p \<leftarrow> Some (p\<lparr>rp_payload_offset := extensions_offset + extensions_size_padded\<rparr>);
          p \<leftarrow> Some (rp_resize (rp_payload_offset p) p);
          if info_offset < rp_capacity p then Some (Some (info_offset, n), p) else None }
        else None })"

definition allocate_raw_extension :: "int \<Rightarrow> nat \<Rightarrow> rtp_packet \<Rightarrow> ((nat \<times> nat) option \<times> rtp_packet) option" where
  "allocate_raw_extension i n p =
     (if i < kMinId \<or> i > kMaxId then Some (None, p)
      else if n < 1 \<or> n > 255 then Some (None, p)
      else case find_extension_info i (rp_extension_entries p) of
        Some e \<Rightarrow>
          if unat (ei_size e) = n
          then if unat (ei_offset e) < rp_capacity p
               then Some (Some (unat (ei_offset e), unat (ei_size e)), p) else None
          else Some (None, p)
      | None \<Rightarrow>
          if rp_payload_size p > 0 then Some (None, p)
          else if rp_padding_size p > 0 then Some (None, p)
          else do {
            p \<leftarrow> Some (rp_resize (rp_capacity p) p);
            b0 \<leftarrow> read_at p 0;
            let extensions_offset = kRtpHeaderSize + unat (b0 AND 0x0F) * 4 + 4;
            let two_byte_header_required = i > 14 \<or> n > 16 \<or> n = 0;
            if two_byte_header_required \<and> \<not> extmap_allow_mixed (rp_extension_map p) then Some (None, p)
            else if rp_extensions_size p > 0 then do {
              profile_id \<leftarrow> read_be16 (v_mem (rp_buf p)) (extensions_offset - 4);
              if profile_id = kOneByteExtensionProfileId \<and> two_byte_header_required then
                if extensions_offset + (rp_extensions_size p + length (rp_extension_entries p) + 2 + n) > rp_capacity p
                then Some (None, p)
                else do {
                  p \<leftarrow> promote_to_two_byte_header p;
                  place_extension i n extensions_offset kTwoByteExtensionProfileId p }
              else place_extension i n extensions_offset profile_id p }
            else place_extension i n extensions_offset
                   (if two_byte_header_required then kTwoByteExtensionProfileId else kOneByteExtensionProfileId) p })"

definition allocate_extension ::
    "rtp_extension_type \<Rightarrow> nat \<Rightarrow> rtp_packet \<Rightarrow> ((nat \<times> nat) option \<times> rtp_packet) option" where
  "allocate_extension t n p =
     (if n = 0 \<or> n > 255 \<or> \<not> extmap_allow_mixed (rp_extension_map p) \<and> n > 16 then Some (None, p)
      else let i = em_get_id (rp_extension_map p) t in
        if i = kInvalidId then Some (None, p)
        else if \<not> extmap_allow_mixed (rp_extension_map p) \<and> unat i > 14 then Some (None, p)
        else allocate_raw_extension (uint i) n p)"

definition set_extension :: "ext_value \<Rightarrow> rtp_packet \<Rightarrow> (bool \<times> rtp_packet) option" where
  "set_extension v p = do {
     (view, p) \<leftarrow> allocate_extension (ext_type v) (ext_value_size v) p;
     case view of
       None \<Rightarrow> Some (False, p)
     | Some (off, n) \<Rightarrow>
         if n = 0 then Some (False, p)
         else do {
           data \<leftarrow> rd_bytes (v_mem (rp_buf p)) off n;
           r \<leftarrow> ext_write data v;
           case r of
             None \<Rightarrow> Some (False, p)
           | Some bs \<Rightarrow> do { p \<leftarrow> write_at off bs p; Some (True, p) } } }"

definition get_extension :: "rtp_extension_type \<Rightarrow> rtp_packet \<Rightarrow> ext_value option option" where
  "get_extension t p = do {
     view \<leftarrow> find_extension t p;
     case view of
       None \<Rightarrow> Some None
     | Some (off, n) \<Rightarrow>
         if n = 0 then Some None
         else do { raw \<leftarrow> rd_bytes (v_mem (rp_buf p)) off n; ext_parse t raw } }"

definition reserve_extension :: "rtp_extension_type \<Rightarrow> nat \<Rightarrow> rtp_packet \<Rightarrow> (bool \<times> rtp_packet) option" where
  "reserve_extension t value_size p = do {
     (view, p) \<leftarrow> allocate_extension t value_size p;
     case view of
       None \<Rightarrow> Some (False, p)
     | Some (off, n) \<Rightarrow>
         if n = 0 then Some (False, p)
         else do { p \<leftarrow> write_at off (replicate value_size 0) p; Some (True, p) } }"

text \<open>
  \<^verbatim>\<open>RemoveExtension\<close> rebuilds the packet without the extension. The loop returns \<open>None\<close> inside when
  an extension cannot be allocated, which ends the call with false and the packet as it was.
\<close>

fun remove_loop :: "u8 \<Rightarrow> rtp_packet \<Rightarrow> extension_info list \<Rightarrow> bool \<Rightarrow> rtp_packet \<Rightarrow> (bool \<times> rtp_packet) option option" where
  "remove_loop i p [] found new = accept (found, new)"
| "remove_loop i p (e # es) found new =
     (if ei_id e = i then remove_loop i p es True new
      else do {
        (view, new) \<leftarrow> allocate_raw_extension (uint (ei_id e)) (unat (ei_size e)) new;
        let (off, n) = (case view of None \<Rightarrow> (0, 0) | Some v \<Rightarrow> v);
        if n \<noteq> unat (ei_size e) then reject
        else if unat (ei_offset e) < rp_capacity p then do {
          bs \<leftarrow> rd_bytes (v_mem (rp_buf p)) (unat (ei_offset e)) n;
          new \<leftarrow> (if n = 0 then Some new else write_at off bs new);
          remove_loop i p es found new }
        else None })"

definition remove_extension :: "bool \<Rightarrow> rtp_extension_type \<Rightarrow> rtp_packet \<Rightarrow> (bool \<times> rtp_packet) option" where
  "remove_extension junk t p =
     (let i = em_get_id (rp_extension_map p) t in
      if i = kInvalidId then Some (False, p)
      else do {
        new \<leftarrow> rp_new junk (Some (rp_extension_map p)) kIpPacketSize;
        new \<leftarrow> set_marker (rp_marker p) new;
        new \<leftarrow> set_payload_type (rp_payload_type p) new;
        new \<leftarrow> set_sequence_number (rp_sequence_number p) new;
        new \<leftarrow> set_timestamp (rp_timestamp p) new;
        new \<leftarrow> set_ssrc (rp_ssrc p) new;
        r \<leftarrow> remove_loop i p (rp_extension_entries p) False new;
        case r of
          None \<Rightarrow> Some (False, p)
        | Some (found, new) \<Rightarrow>
            if \<not> found then Some (False, p)
            else do {
              (ptr, new) \<leftarrow> allocate_payload (rp_payload_size p) new;
              payload \<leftarrow> rp_payload p;
              new \<leftarrow> (if payload = [] then Some new
                     else case ptr of None \<Rightarrow> None | Some off \<Rightarrow> write_at off payload new);
              (_, new) \<leftarrow> set_padding (rp_padding_size p) new;
              Some (True, new) } })"

section \<open>Parsing\<close>

text \<open>
  The header of one extension, at a byte that is not zero: its identifier and length, or a reserved
  identifier, which ends the block.
\<close>

definition extension_header_length :: "bool \<Rightarrow> nat" where
  "extension_header_length one_byte = (if one_byte then 1 else 2)"

definition read_extension_header :: "byte list \<Rightarrow> bool \<Rightarrow> nat \<Rightarrow> (u8 \<times> u8) option option" where
  "read_extension_header buffer one_byte pos = do {
     b \<leftarrow> rd buffer pos;
     if one_byte then
       (let i = drop_bit 4 b; len = 1 + (b AND 0xF) in
        if i = 15 \<or> i = 0 \<and> len \<noteq> 1 then reject else accept (i, len))
     else do { len \<leftarrow> rd buffer (pos + 1); accept (b, len) } }"

function parse_extensions ::
    "byte list \<Rightarrow> bool \<Rightarrow> nat \<Rightarrow> nat \<Rightarrow> nat \<Rightarrow> extension_info list \<Rightarrow> (nat \<times> extension_info list) option" where
  "parse_extensions buffer one_byte extension_offset extension_capacity extensions_size es =
     (let header_length = extension_header_length one_byte in
      if extensions_size + header_length < extension_capacity then do {
        b \<leftarrow> rd buffer (extension_offset + extensions_size);
        if b = 0 then
          parse_extensions buffer one_byte extension_offset extension_capacity (extensions_size + 1) es
        else do {
          h \<leftarrow> read_extension_header buffer one_byte (extension_offset + extensions_size);
          case h of
            None \<Rightarrow> Some (extensions_size, es)
          | Some (i, len) \<Rightarrow>
              let offset = extension_offset + extensions_size + header_length in
              if extensions_size + header_length + unat len > extension_capacity then Some (extensions_size, es)
              else if \<not> offset < 2 ^ 16 then Some (extensions_size, es)
              else parse_extensions buffer one_byte extension_offset extension_capacity
                     (extensions_size + header_length + unat len)
                     (put_extension_info i len (of_nat offset) es) } }
      else Some (extensions_size, es))"
  by pat_completeness auto
termination
  by (relation "measure (\<lambda>(_, _, _, cap, sz, _). cap - sz)") (auto simp: extension_header_length_def)

declare parse_extensions.simps [simp del]

text \<open>The block after the fixed header, when the extension bit is set; the result false ends the parsing.\<close>

definition parse_extension_block :: "byte list \<Rightarrow> nat \<Rightarrow> rtp_packet \<Rightarrow> (bool \<times> rtp_packet) option" where
  "parse_extension_block buffer payload_offset p = do {
     let extension_offset = payload_offset + 4;
     if extension_offset > length buffer then Some (False, p)
     else do {
       profile_id \<leftarrow> read_be16 buffer payload_offset;
       words \<leftarrow> read_be16 buffer (payload_offset + 2);
       let extension_capacity = unat words * 4;
       if extension_offset + extension_capacity > length buffer then Some (False, p)
       else do {
         p \<leftarrow>
           (if profile_id \<noteq> kOneByteExtensionProfileId \<and>
               profile_id AND kTwoByteExtensionProfileIdAppBitsFilter \<noteq> kTwoByteExtensionProfileId
            then Some p
            else do {
              (n, es) \<leftarrow> parse_extensions buffer (profile_id = kOneByteExtensionProfileId)
                 extension_offset extension_capacity 0 (rp_extension_entries p);
              Some (p\<lparr>rp_extensions_size := n, rp_extension_entries := es\<rparr>) });
         Some (True, p\<lparr>rp_payload_offset := extension_offset + extension_capacity\<rparr>) } } }"

definition parse_padding :: "byte list \<Rightarrow> bool \<Rightarrow> rtp_packet \<Rightarrow> (bool \<times> rtp_packet) option" where
  "parse_padding buffer has_padding p = do {
     (ok, p) \<leftarrow>
       (if has_padding \<and> rp_payload_offset p < length buffer then do {
          pad \<leftarrow> rd buffer (length buffer - 1);
          Some (pad \<noteq> 0, p\<lparr>rp_padding_size := pad\<rparr>) }
        else Some (True, p\<lparr>rp_padding_size := 0\<rparr>));
     if \<not> ok then Some (False, p)
     else if rp_payload_offset p + unat (rp_padding_size p) > length buffer then Some (False, p)
     else Some (True, p\<lparr>rp_payload_size := length buffer - rp_payload_offset p - unat (rp_padding_size p)\<rparr>) }"

definition parse_internal :: "byte list \<Rightarrow> rtp_packet \<Rightarrow> (bool \<times> rtp_packet) option" where
  "parse_internal buffer p =
     (if length buffer < kRtpHeaderSize then Some (False, p)
      else do {
        b0 \<leftarrow> rd buffer 0;
        if drop_bit 6 b0 \<noteq> 2 then Some (False, p)
        else do {
          let has_padding = b0 AND 0x20 \<noteq> 0;
          let has_extension = b0 AND 0x10 \<noteq> 0;
          let payload_offset = kRtpHeaderSize + unat (b0 AND 0x0F) * 4;
          if length buffer < payload_offset then Some (False, p)
          else do {
            b1 \<leftarrow> rd buffer 1;
            seq_num \<leftarrow> read_be16 buffer 2;
            ts \<leftarrow> read_be32 buffer 4;
            src \<leftarrow> read_be32 buffer 8;
            p \<leftarrow> Some (p\<lparr>rp_has_padding := has_padding, rp_marker := (b1 AND 0x80 \<noteq> 0),
                   rp_payload_type := b1 AND 0x7F, rp_sequence_number := seq_num, rp_timestamp := ts,
                   rp_ssrc := src, rp_payload_offset := payload_offset, rp_extensions_size := 0\<rparr>);
            (ok, p) \<leftarrow> (if has_extension then parse_extension_block buffer payload_offset p else Some (True, p));
            if \<not> ok then Some (False, p) else parse_padding buffer has_padding p } } })"

definition rp_parse :: "byte list \<Rightarrow> rtp_packet \<Rightarrow> (bool \<times> rtp_packet) option" where
  "rp_parse buffer p =
     (if length buffer > kIpPacketSize then Some (False, p)
      else do {
        (ok, p) \<leftarrow> parse_internal buffer p;
        if \<not> ok then do { p \<leftarrow> rp_reset p; Some (False, p) }
        else do {
          p \<leftarrow> Some (rp_resize (length buffer) p);
          Some (True, p\<lparr>rp_buf := vec_assign buffer (rp_buf p)\<rparr>) } })"

definition rp_parse_buffer :: "vec \<Rightarrow> rtp_packet \<Rightarrow> (bool \<times> rtp_packet) option" where
  "rp_parse_buffer v p = do {
     (ok, p) \<leftarrow> parse_internal (v_elems v) p;
     if \<not> ok then do { p \<leftarrow> rp_reset p; Some (False, p) }
     else Some (True, p\<lparr>rp_buf := v\<rparr>) }"

section \<open>Where the parser looks\<close>

definition entry_within :: "nat \<Rightarrow> nat \<Rightarrow> extension_info \<Rightarrow> bool" where
  "entry_within lo hi e \<longleftrightarrow>
     lo \<le> unat (ei_offset e) \<and> unat (ei_offset e) < hi \<and> unat (ei_offset e) + unat (ei_size e) \<le> hi"

lemma set_put_extension_info:
  "set (put_extension_info i n off es) \<subseteq> insert \<lparr>ei_id = i, ei_size = n, ei_offset = off\<rparr> (set es)"
  by (induction es) auto

lemma unat_u16_small: "n < 2 ^ 16 \<Longrightarrow> unat (of_nat n :: u16) = n"
  by (rule unat_of_nat_small) simp

lemma header_length_pos: "0 < extension_header_length one_byte"
  by (simp add: extension_header_length_def)

lemma read_extension_header_Some:
  assumes "pos + extension_header_length one_byte \<le> length buffer"
  shows "\<exists>h. read_extension_header buffer one_byte pos = Some h"
  using assms
  by (cases one_byte) (auto simp: read_extension_header_def rd_def extension_header_length_def Let_def split: if_splits)

text \<open>The cases of one round of the loop.\<close>

lemma parse_extensions_cases:
  fixes buffer :: "byte list" and one_byte :: bool and off cap sz :: nat and es :: "extension_info list"
  assumes "off + cap \<le> length buffer"
  obtains (stop) "cap \<le> sz + extension_header_length one_byte"
      "parse_extensions buffer one_byte off cap sz es = Some (sz, es)"
    | (zero) "sz + extension_header_length one_byte < cap" "rd buffer (off + sz) = Some 0"
      "parse_extensions buffer one_byte off cap sz es = parse_extensions buffer one_byte off cap (sz + 1) es"
    | (reserved) b where "sz + extension_header_length one_byte < cap" "rd buffer (off + sz) = Some b" "b \<noteq> 0"
      "read_extension_header buffer one_byte (off + sz) = reject"
      "parse_extensions buffer one_byte off cap sz es = Some (sz, es)"
    | (oversized) b i len where "sz + extension_header_length one_byte < cap" "rd buffer (off + sz) = Some b" "b \<noteq> 0"
      "read_extension_header buffer one_byte (off + sz) = accept (i, len)"
      "cap < sz + extension_header_length one_byte + unat len \<or> 2 ^ 16 \<le> off + sz + extension_header_length one_byte"
      "parse_extensions buffer one_byte off cap sz es = Some (sz, es)"
    | (entry) b i len where "sz + extension_header_length one_byte < cap" "rd buffer (off + sz) = Some b" "b \<noteq> 0"
      "read_extension_header buffer one_byte (off + sz) = accept (i, len)"
      "sz + extension_header_length one_byte + unat len \<le> cap" "off + sz + extension_header_length one_byte < 2 ^ 16"
      "parse_extensions buffer one_byte off cap sz es =
         parse_extensions buffer one_byte off cap (sz + extension_header_length one_byte + unat len)
           (put_extension_info i len (of_nat (off + sz + extension_header_length one_byte)) es)"
proof (cases "sz + extension_header_length one_byte < cap")
  case False
  then show thesis
    by (intro stop) (simp, subst parse_extensions.simps, simp)
next
  case True
  obtain b where b: "rd buffer (off + sz) = Some b"
    using True assms by (simp add: rd_def)
  show thesis
  proof (cases "b = 0")
    case zero': True
    show thesis
      by (rule zero) (use True b zero' in \<open>simp, simp, subst parse_extensions.simps, simp add: Let_def\<close>)
  next
    case False
    obtain h where h: "read_extension_header buffer one_byte (off + sz) = Some h"
      using read_extension_header_Some [of "off + sz" one_byte buffer] True assms by auto
    show thesis
    proof (cases h)
      case None
      show thesis
        by (rule reserved [OF True b False]) (use True b False h None in \<open>simp, subst parse_extensions.simps, simp add: Let_def\<close>)
    next
      case (Some il)
      obtain i len where il: "il = (i, len)" by fastforce
      have unfold: "parse_extensions buffer one_byte off cap sz es =
        (if sz + extension_header_length one_byte + unat len > cap then Some (sz, es)
         else if \<not> off + sz + extension_header_length one_byte < 2 ^ 16 then Some (sz, es)
         else parse_extensions buffer one_byte off cap (sz + extension_header_length one_byte + unat len)
           (put_extension_info i len (of_nat (off + sz + extension_header_length one_byte)) es))"
        using True b False h Some il by (subst parse_extensions.simps) (simp add: Let_def)
      show thesis
      proof (cases "sz + extension_header_length one_byte + unat len \<le> cap \<and>
          off + sz + extension_header_length one_byte < 2 ^ 16")
        case fit: True
        then have c: "\<not> cap < sz + extension_header_length one_byte + unat len"
          "off + sz + extension_header_length one_byte < 2 ^ 16"
          by simp_all
        show thesis
          using entry [OF True b False, of i len] h Some il fit unfold c by simp
      next
        case nofit: False
        then show thesis
          using oversized [OF True b False, of i len] h Some il unfold by (auto split: if_splits)
      qed
    qed
  qed
qed

lemma parse_extensions_within:
  assumes "off + cap \<le> length buffer" "sz \<le> cap"
  shows "\<exists>n es'. parse_extensions buffer one_byte off cap sz es = Some (n, es') \<and> n \<le> cap \<and>
    (\<forall>e\<in>set es'. e \<in> set es \<or> entry_within off (off + cap) e)"
  using assms(2)
proof (induction "cap - sz" arbitrary: sz es rule: less_induct)
  case less
  show ?case
  proof (rule parse_extensions_cases [OF assms(1), of sz one_byte es])
    fix i len
    let ?h = "extension_header_length one_byte"
    let ?es = "put_extension_info i len (of_nat (off + sz + ?h)) es"
    assume fit: "sz + ?h < cap" "sz + ?h + unat len \<le> cap" "off + sz + ?h < 2 ^ 16"
      and eq: "parse_extensions buffer one_byte off cap sz es = parse_extensions buffer one_byte off cap (sz + ?h + unat len) ?es"
    have "cap - (sz + ?h + unat len) < cap - sz"
      using fit header_length_pos [of one_byte] by linarith
    from less.hyps [OF this fit(2), of ?es] obtain n es' where
      "parse_extensions buffer one_byte off cap (sz + ?h + unat len) ?es = Some (n, es')" "n \<le> cap"
      "\<forall>e\<in>set es'. e \<in> set ?es \<or> entry_within off (off + cap) e" by blast
    moreover have "entry_within off (off + cap) \<lparr>ei_id = i, ei_size = len, ei_offset = of_nat (off + sz + ?h)\<rparr>"
      using fit unat_u16_small [OF fit(3)] by (simp add: entry_within_def)
    ultimately show ?thesis
      using eq set_put_extension_info [of i len "of_nat (off + sz + ?h)" es] by auto
  next
    assume "sz + extension_header_length one_byte < cap"
      "parse_extensions buffer one_byte off cap sz es = parse_extensions buffer one_byte off cap (sz + 1) es"
    with less.hyps [of "sz + 1" es] show ?thesis by simp
  qed (use less.prems in auto)
qed

section \<open>The block of extensions as a list\<close>

text \<open>
  A reference decoder on lists: identifiers with their data, in the order of the wire. The loop is
  this decoder, every pair updating the entry of its identifier or adding one at the back.
\<close>

function decode_block :: "bool \<Rightarrow> byte list \<Rightarrow> (u8 \<times> byte list) list" where
  "decode_block one_byte [] = []"
| "decode_block one_byte (b # bs) =
     (if b = 0 then decode_block one_byte bs
      else if one_byte then
        (let n = unat (b AND 0xF) + 1 in
         if drop_bit 4 b = 15 \<or> drop_bit 4 b = 0 \<or> length bs < n then []
         else (drop_bit 4 b, take n bs) # decode_block one_byte (drop n bs))
      else case bs of
        [] \<Rightarrow> []
      | l # rest \<Rightarrow>
          if rest = [] \<or> length rest < unat l then []
          else (b, take (unat l) rest) # decode_block one_byte (drop (unat l) rest))"
  by pat_completeness auto
termination
  by (relation "measure (\<lambda>(_, bs). length bs)") auto

declare decode_block.simps(2) [simp del]

definition entry_data :: "byte list \<Rightarrow> extension_info \<Rightarrow> u8 \<times> byte list" where
  "entry_data buffer e = (ei_id e, take (unat (ei_size e)) (drop (unat (ei_offset e)) buffer))"

lemma map_put_extension_info:
  "map (entry_data buffer) (put_extension_info i n off es) =
     AList.update i (take (unat n) (drop (unat off) buffer)) (map (entry_data buffer) es)"
  by (induction es) (auto simp: entry_data_def)

lemma low_nibble: "unat (1 + (b AND 0xF)) = unat (b AND 0xF) + 1" for b :: byte
proof -
  have "b AND 0xF \<le> 0xF"
    by (rule word_and_le1)
  then have "unat (b AND 0xF) \<le> 15"
    by (simp add: word_le_nat_alt)
  then show ?thesis
    by (simp add: unat_word_ariths)
qed

lemma take_drop_rd:
  assumes "rd buffer pos = Some b" "0 < n"
  shows "take n (drop pos buffer) = b # take (n - 1) (drop (pos + 1) buffer)"
proof -
  have "drop pos buffer = b # drop (Suc pos) buffer"
    using assms(1) Cons_nth_drop_Suc [of pos buffer] by (simp add: rd_def split: if_splits)
  with assms(2) show ?thesis
    by (cases n) simp_all
qed

lemma low_nibble_take_bit: "b AND 0xF = take_bit 4 b" for b :: byte
proof -
  have "(0xF :: byte) = mask 4"
    by (simp add: mask_eq_exp_minus_1)
  then show ?thesis
    by (simp only: take_bit_eq_mask)
qed

lemma nibbles_zero: "drop_bit 4 b = 0 \<Longrightarrow> b AND 0xF = 0 \<Longrightarrow> b = 0" for b :: byte
  using bits_ident [of 4 b] by (simp add: low_nibble_take_bit)

lemma decode_block_short:
  assumes "length bs \<le> extension_header_length one_byte"
  shows "decode_block one_byte bs = []"
proof -
  have one: "decode_block one_byte [b] = []" for b
    by (simp add: decode_block.simps(2) Let_def)
  have two: "decode_block False [b, l] = []" for b l
    using one [of l] by (cases one_byte) (simp_all add: decode_block.simps(2))
  show ?thesis
  proof (cases bs)
    case (Cons b cs)
    with assms one two show ?thesis
      by (cases cs; cases one_byte) (auto simp: extension_header_length_def)
  qed simp
qed

lemma decode_block_step:
  assumes "off + cap \<le> length buffer" "sz + extension_header_length one_byte < cap"
    "rd buffer (off + sz) = Some b" "b \<noteq> 0"
  shows "read_extension_header buffer one_byte (off + sz) = reject \<Longrightarrow>
      decode_block one_byte (take (cap - sz) (drop (off + sz) buffer)) = []"
    and "read_extension_header buffer one_byte (off + sz) = accept (i, len) \<Longrightarrow>
      decode_block one_byte (take (cap - sz) (drop (off + sz) buffer)) =
      (if cap < sz + extension_header_length one_byte + unat len then []
       else (i, take (unat len) (drop (off + sz + extension_header_length one_byte) buffer)) #
         decode_block one_byte (take (cap - (sz + extension_header_length one_byte + unat len))
           (drop (off + (sz + extension_header_length one_byte + unat len)) buffer)))"
proof -
  have block: "take (cap - sz) (drop (off + sz) buffer) = b # take (cap - sz - 1) (drop (off + sz + 1) buffer)"
    using assms by (intro take_drop_rd) auto
  have len1: "length (take (cap - sz - 1) (drop (off + sz + 1) buffer)) = cap - sz - 1"
    using assms by simp
  show "decode_block one_byte (take (cap - sz) (drop (off + sz) buffer)) = []"
    if "read_extension_header buffer one_byte (off + sz) = reject"
    using that assms(3,4) unfolding block
    by (auto simp: read_extension_header_def decode_block.simps(2) Let_def bind_eq_Some_conv split: if_splits)
  show "decode_block one_byte (take (cap - sz) (drop (off + sz) buffer)) =
      (if cap < sz + extension_header_length one_byte + unat len then []
       else (i, take (unat len) (drop (off + sz + extension_header_length one_byte) buffer)) #
         decode_block one_byte (take (cap - (sz + extension_header_length one_byte + unat len))
           (drop (off + (sz + extension_header_length one_byte + unat len)) buffer)))"
    if acc: "read_extension_header buffer one_byte (off + sz) = accept (i, len)"
  proof (cases one_byte)
    case True
    with acc assms(3) have il: "i = drop_bit 4 b" "len = 1 + (b AND 0xF)" "drop_bit 4 b \<noteq> 15"
      by (auto simp: read_extension_header_def Let_def split: if_splits)
    have "1 + (b AND 0xF) = 1 \<Longrightarrow> b AND 0xF = 0"
      by simp
    with acc True assms(3,4) have "drop_bit 4 b \<noteq> 0"
      using nibbles_zero [of b] by (auto simp: read_extension_header_def Let_def split: if_splits)
    moreover have "take n (take (cap - sz - 1) (drop (off + sz + 1) buffer)) = take n (drop (off + sz + 1) buffer)"
      "drop n (take (cap - sz - 1) (drop (off + sz + 1) buffer)) =
         take (cap - (sz + 1 + n)) (drop (off + (sz + 1 + n)) buffer)" if "n \<le> cap - sz - 1" for n
      using that by (simp_all add: drop_take ac_simps)
    moreover have "length (take (cap - sz - 1) (drop (off + sz + 1) buffer)) < n \<longleftrightarrow> cap < sz + 1 + n" for n
      using len1 assms(2) True by (auto simp: extension_header_length_def)
    ultimately show ?thesis
      unfolding block using True il assms(4) low_nibble [of b]
      by (simp only: decode_block.simps(2) Let_def extension_header_length_def if_True if_False simp_thms)
        (simp add: not_less)
  next
    case False
    with acc assms(3) have il: "i = b" "rd buffer (off + sz + 1) = Some len"
      by (auto simp: read_extension_header_def bind_eq_Some_conv)
    have tail: "take (cap - sz - 1) (drop (off + sz + 1) buffer) = len # take (cap - sz - 2) (drop (off + sz + 2) buffer)"
      using take_drop_rd [OF il(2), of "cap - sz - 1"] assms(2) False by (simp add: extension_header_length_def)
    have len2: "length (take (cap - sz - 2) (drop (off + sz + 2) buffer)) = cap - sz - 2"
      using assms by simp
    then have "take (cap - sz - 2) (drop (off + sz + 2) buffer) \<noteq> []"
      using assms(2) False by (auto simp: extension_header_length_def)
    with False il assms(2,4) len2 show ?thesis
      unfolding block tail
      by (auto simp: decode_block.simps(2) extension_header_length_def take_drop ac_simps)
  qed
qed

lemma parse_extensions_decodes:
  assumes "off + cap \<le> length buffer" "off + cap \<le> 2 ^ 16" "sz \<le> cap"
    "parse_extensions buffer one_byte off cap sz es = Some (n, es')"
  shows "map (entry_data buffer) es' =
    fold (\<lambda>(i, d). AList.update i d) (decode_block one_byte (take (cap - sz) (drop (off + sz) buffer)))
      (map (entry_data buffer) es)"
  using assms(3,4)
proof (induction "cap - sz" arbitrary: sz es rule: less_induct)
  case less
  let ?h = "extension_header_length one_byte"
  show ?case
  proof (rule parse_extensions_cases [OF assms(1), of sz one_byte es])
    assume "cap \<le> sz + ?h" "parse_extensions buffer one_byte off cap sz es = Some (sz, es)"
    with less.prems show ?thesis
      by (simp add: decode_block_short)
  next
    assume "sz + ?h < cap" and rd0: "rd buffer (off + sz) = Some 0"
      and eq: "parse_extensions buffer one_byte off cap sz es = parse_extensions buffer one_byte off cap (sz + 1) es"
    then have "take (cap - sz) (drop (off + sz) buffer) = 0 # take (cap - (sz + 1)) (drop (off + (sz + 1)) buffer)"
      using take_drop_rd [OF rd0, of "cap - sz"] by simp
    with less.hyps [of "sz + 1" es] \<open>sz + ?h < cap\<close> less.prems(2) eq show ?thesis
      by (simp add: decode_block.simps(2))
  next
    fix b i len
    let ?es = "put_extension_info i len (of_nat (off + sz + ?h)) es"
    assume fit: "sz + ?h < cap" "rd buffer (off + sz) = Some b" "b \<noteq> 0"
      "read_extension_header buffer one_byte (off + sz) = accept (i, len)" "sz + ?h + unat len \<le> cap" "off + sz + ?h < 2 ^ 16"
      and eq: "parse_extensions buffer one_byte off cap sz es = parse_extensions buffer one_byte off cap (sz + ?h + unat len) ?es"
    have "cap - (sz + ?h + unat len) < cap - sz"
      using fit header_length_pos [of one_byte] by linarith
    from less.hyps [OF this fit(5), of ?es] less.prems(2) eq
    show ?thesis
      using decode_block_step(2) [OF assms(1) fit(1-3) fit(4)] fit(5) unat_u16_small [OF fit(6)]
      by (simp add: map_put_extension_info)
  next
    fix b assume "sz + ?h < cap" "rd buffer (off + sz) = Some b" "b \<noteq> 0"
      "read_extension_header buffer one_byte (off + sz) = reject" "parse_extensions buffer one_byte off cap sz es = Some (sz, es)"
    with less.prems decode_block_step(1) [OF assms(1)] show ?thesis by simp
  next
    fix b i len assume "sz + ?h < cap" "rd buffer (off + sz) = Some b" "b \<noteq> 0"
      "read_extension_header buffer one_byte (off + sz) = accept (i, len)"
      "cap < sz + ?h + unat len \<or> 2 ^ 16 \<le> off + sz + ?h" "parse_extensions buffer one_byte off cap sz es = Some (sz, es)"
    with less.prems decode_block_step(2) [OF assms(1), of sz one_byte b i len] assms(2) show ?thesis by simp
  qed
qed

section \<open>The header\<close>

definition laid_out :: "nat \<Rightarrow> rtp_packet \<Rightarrow> bool" where
  "laid_out sz p \<longleftrightarrow> rp_size p = sz \<and> kRtpHeaderSize \<le> rp_payload_offset p \<and>
     list_all (entry_within kRtpHeaderSize (rp_payload_offset p)) (rp_extension_entries p)"

lemma entry_within_mono: "entry_within lo hi e \<Longrightarrow> lo' \<le> lo \<Longrightarrow> hi \<le> hi' \<Longrightarrow> entry_within lo' hi' e"
  by (auto simp: entry_within_def)

definition same_storage :: "rtp_packet \<Rightarrow> rtp_packet \<Rightarrow> bool" where
  "same_storage p q \<longleftrightarrow> rp_buf q = rp_buf p \<and> rp_extension_map q = rp_extension_map p"

lemma parse_extension_block_safe:
  assumes "kRtpHeaderSize \<le> off"
  shows "\<exists>ok q. parse_extension_block buffer off p = Some (ok, q) \<and> same_storage p q \<and>
    (ok \<longrightarrow> kRtpHeaderSize \<le> rp_payload_offset q \<and> (rp_extension_entries p = [] \<longrightarrow>
       list_all (entry_within kRtpHeaderSize (rp_payload_offset q)) (rp_extension_entries q)))"
proof (cases "off + 4 \<le> length buffer")
  case False
  then show ?thesis
    by (auto simp: parse_extension_block_def same_storage_def)
next
  case room: True
  then obtain prof ws where blk: "read_be16 buffer off = Some prof" "read_be16 buffer (off + 2) = Some ws"
    using read_Some(1) [of off buffer] read_Some(1) [of "off + 2" buffer] by auto
  show ?thesis
  proof (cases "off + 4 + unat ws * 4 \<le> length buffer")
    case False
    with room blk show ?thesis
      by (auto simp: parse_extension_block_def same_storage_def Let_def)
  next
    case fits: True
    obtain n es where pe: "parse_extensions buffer (prof = kOneByteExtensionProfileId) (off + 4) (unat ws * 4) 0
        (rp_extension_entries p) = Some (n, es)"
      and es: "\<forall>e\<in>set es. e \<in> set (rp_extension_entries p) \<or> entry_within (off + 4) (off + 4 + unat ws * 4) e"
      using parse_extensions_within [OF fits, of 0] by blast
    have "rp_extension_entries p = [] \<Longrightarrow> list_all (entry_within kRtpHeaderSize (off + 4 + unat ws * 4)) es"
      using es assms by (auto simp: list_all_iff intro: entry_within_mono)
    moreover define q where "q = (if prof \<noteq> kOneByteExtensionProfileId \<and>
        prof AND kTwoByteExtensionProfileIdAppBitsFilter \<noteq> kTwoByteExtensionProfileId then p
        else p\<lparr>rp_extensions_size := n, rp_extension_entries := es\<rparr>)"
    ultimately have "parse_extension_block buffer off p = Some (True, q\<lparr>rp_payload_offset := off + 4 + unat ws * 4\<rparr>)"
      "rp_extension_entries p = [] \<Longrightarrow> list_all (entry_within kRtpHeaderSize (off + 4 + unat ws * 4)) (rp_extension_entries q)"
      "same_storage p q"
      using room blk fits pe by (simp_all add: parse_extension_block_def Let_def same_storage_def)
    with assms show ?thesis
      by (auto simp: same_storage_def)
  qed
qed

lemma parse_padding_safe:
  "\<exists>ok q. parse_padding buffer b p = Some (ok, q) \<and> same_storage p q \<and>
    rp_payload_offset q = rp_payload_offset p \<and> rp_extension_entries q = rp_extension_entries p \<and>
    (ok \<longrightarrow> rp_size q = length buffer)"
proof (cases "b \<and> rp_payload_offset p < length buffer")
  case True
  then have "rd buffer (length buffer - 1) = Some (buffer ! (length buffer - 1))"
    by (auto simp: rd_def)
  with True show ?thesis
    by (auto simp: parse_padding_def same_storage_def rp_size_def)
next
  case False
  then show ?thesis
    by (auto simp: parse_padding_def same_storage_def rp_size_def)
qed

lemma parse_internal_safe:
  "\<exists>ok q. parse_internal buffer p = Some (ok, q) \<and> same_storage p q \<and>
     (ok \<longrightarrow> rp_extension_entries p = [] \<longrightarrow> laid_out (length buffer) q)"
proof (cases "length buffer < kRtpHeaderSize \<or> drop_bit 6 (buffer ! 0) \<noteq> 2 \<or>
    length buffer < kRtpHeaderSize + unat (buffer ! 0 AND 0x0F) * 4")
  case True
  then show ?thesis
    by (cases "length buffer = 0") (auto simp: parse_internal_def same_storage_def rd_def kRtpHeaderSize_def Let_def)
next
  case False
  let ?b0 = "buffer ! 0" and ?b1 = "buffer ! 1"
  let ?off = "kRtpHeaderSize + unat (?b0 AND 0x0F) * 4"
  have len: "12 \<le> length buffer"
    using False by (simp add: kRtpHeaderSize_def)
  then obtain sq ts src where reads: "read_be16 buffer 2 = Some sq" "read_be32 buffer 4 = Some ts" "read_be32 buffer 8 = Some src"
    using read_Some(1) [of 2 buffer] read_Some(4) [of 4 buffer] read_Some(4) [of 8 buffer] by auto
  have bytes: "rd buffer 0 = Some ?b0" "rd buffer 1 = Some ?b1"
    using len by (auto simp: rd_def)
  define p1 where "p1 = p\<lparr>rp_has_padding := (?b0 AND 0x20 \<noteq> 0), rp_marker := (?b1 AND 0x80 \<noteq> 0),
     rp_payload_type := ?b1 AND 0x7F, rp_sequence_number := sq, rp_timestamp := ts,
     rp_ssrc := src, rp_payload_offset := ?off, rp_extensions_size := 0\<rparr>"
  have p1: "same_storage p p1" "rp_extension_entries p1 = rp_extension_entries p" "rp_payload_offset p1 = ?off"
    by (simp_all add: p1_def same_storage_def)
  obtain ok p2 where p2: "(if ?b0 AND 0x10 \<noteq> 0 then parse_extension_block buffer ?off p1 else Some (True, p1)) = Some (ok, p2)"
    "same_storage p1 p2" "ok \<longrightarrow> kRtpHeaderSize \<le> rp_payload_offset p2 \<and> (rp_extension_entries p1 = [] \<longrightarrow>
       list_all (entry_within kRtpHeaderSize (rp_payload_offset p2)) (rp_extension_entries p2))"
  proof (cases "?b0 AND 0x10 = 0")
    case True
    with p1 that [of True p1] show thesis by (simp add: same_storage_def)
  next
    case False
    with parse_extension_block_safe [of ?off buffer p1] that show thesis by auto
  qed
  obtain ok3 p3 where p3: "parse_padding buffer (?b0 AND 0x20 \<noteq> 0) p2 = Some (ok3, p3)" "same_storage p2 p3"
    "rp_payload_offset p3 = rp_payload_offset p2" "rp_extension_entries p3 = rp_extension_entries p2"
    "ok3 \<longrightarrow> rp_size p3 = length buffer"
    using parse_padding_safe [of buffer "?b0 AND 0x20 \<noteq> 0" p2] by blast
  have "parse_internal buffer p = (if \<not> ok then Some (False, p2) else Some (ok3, p3))"
    using False bytes reads p2(1) p3(1) unfolding p1_def parse_internal_def
    by (cases "?b0 AND 0x10 = 0") (simp_all add: Let_def del: One_nat_def)
  with p1 p2(2,3) p3 show ?thesis
    by (cases ok) (auto simp: same_storage_def laid_out_def)
qed

lemma rp_resize_buf:
  assumes "v_ok (rp_buf p)"
  shows "v_ok (rp_buf (rp_resize n p))" "rp_capacity (rp_resize n p) = max (rp_capacity p) n"
    "v_elems (rp_buf (rp_resize n p)) = take n (v_elems (rp_buf p)) @ replicate (n - v_size (rp_buf p)) 0"
    "v_size (rp_buf (rp_resize n p)) = n"
  using assms by (simp_all add: rp_resize_def rp_capacity_def max_def)

lemma rp_reset_defined:
  assumes "v_ok (rp_buf p)"
  obtains p' where "rp_reset p = Some p'" "v_ok (rp_buf p')" "rp_extension_map p' = rp_extension_map p"
proof -
  let ?q = "p\<lparr>rp_marker := False, rp_payload_type := 0, rp_sequence_number := 0, rp_timestamp := 0,
       rp_ssrc := 0, rp_payload_offset := kRtpHeaderSize, rp_payload_size := 0, rp_padding_size := 0\<rparr>"
  let ?r = "rp_resize kRtpHeaderSize (?q\<lparr>rp_buf := vec_clear (rp_buf ?q)\<rparr>)"
  have r: "v_ok (rp_buf ?r)" "kRtpHeaderSize \<le> rp_capacity ?r" "rp_extension_map ?r = rp_extension_map p"
    by (simp_all add: rp_resize_buf) (simp add: rp_resize_def)
  then have "\<exists>m. wr 0 [push_bit 6 2] (v_mem (rp_buf ?r)) = Some m \<and> length m = length (v_mem (rp_buf ?r))"
    by (auto simp: rp_capacity_def v_capacity_def kRtpHeaderSize_def wr_def)
  then obtain m where "wr 0 [push_bit 6 2] (v_mem (rp_buf ?r)) = Some m" "length m = length (v_mem (rp_buf ?r))"
    by blast
  with r that [of "?r\<lparr>rp_buf := (rp_buf ?r)\<lparr>v_mem := m\<rparr>\<rparr>"] show thesis
    by (simp add: rp_reset_def write_at_def kRtpHeaderSize_def v_ok_def)
qed

lemma rp_parse_safe:
  assumes "v_ok (rp_buf p)"
  obtains ok p' where "rp_parse buffer p = Some (ok, p')" "v_ok (rp_buf p')" "rp_extension_map p' = rp_extension_map p"
    "ok \<Longrightarrow> v_elems (rp_buf p') = buffer"
    "ok \<Longrightarrow> rp_extension_entries p = [] \<Longrightarrow> laid_out (length buffer) p'"
proof (cases "length buffer > kIpPacketSize")
  case True
  with assms that [of False p] show thesis
    by (simp add: rp_parse_def)
next
  case False
  obtain ok q where q: "parse_internal buffer p = Some (ok, q)" "rp_buf q = rp_buf p"
    "rp_extension_map q = rp_extension_map p" "ok \<longrightarrow> rp_extension_entries p = [] \<longrightarrow> laid_out (length buffer) q"
    using parse_internal_safe [of buffer p] unfolding same_storage_def by blast
  show thesis
  proof (cases ok)
    case True
    with False q that [of True "(rp_resize (length buffer) q)\<lparr>rp_buf := vec_assign buffer (rp_buf (rp_resize (length buffer) q))\<rparr>"]
    show thesis
      by (simp add: rp_parse_def laid_out_def rp_size_def rp_resize_def)
  next
    case no: False
    obtain r where "rp_reset q = Some r" "v_ok (rp_buf r)" "rp_extension_map r = rp_extension_map q"
      using rp_reset_defined [of q] assms q(2) by auto
    with False no q(1,3) that [of False r] show thesis
      by (simp add: rp_parse_def)
  qed
qed

text \<open>Every parser of a value is total, and so is the lookup of an extension in a parsed packet.\<close>

lemma ext_parse_total: "\<exists>r. ext_parse t data = Some r"
proof -
  have "\<exists>r. abs_send_time_parse data = Some r" "\<exists>r. time_offset_parse data = Some r"
    "\<exists>r. transport_seq_parse data = Some r"
    using read_Some(1-3) [of 0 data]
    by (auto simp: abs_send_time_parse_def time_offset_parse_def transport_seq_parse_def)
  moreover have "\<exists>r. abs_capture_parse data new_time_info = Some r"
    using read_Some(5) [of 0 data] read_Some(5) [of 8 data] by (auto simp: abs_capture_parse_def)
  moreover have "\<exists>r. transport_seq_v2_parse data = Some r"
    using read_Some(1) [of 0 data] read_Some(1) [of 2 data] by (auto simp: transport_seq_v2_parse_def Let_def)
  moreover have "\<exists>r. playout_delay_parse data = Some r"
    using read_Some(2) [of 0 data] by (auto simp: playout_delay_parse_def Let_def)
  moreover have "\<exists>r. rtp_string_parse data = Some r"
    by (auto simp: rtp_string_parse_def rd_def Let_def)
  ultimately show ?thesis
    by (cases t) (auto simp: parse_with_def)
qed

lemma find_extension_info_mem: "find_extension_info i es = Some e \<Longrightarrow> e \<in> set es \<and> uint (ei_id e) = i"
  by (auto simp: find_extension_info_def find_Some_iff)

lemma get_extension_total:
  assumes "v_ok (rp_buf p)" "rp_payload_offset p \<le> v_size (rp_buf p)"
    "list_all (entry_within lo (rp_payload_offset p)) (rp_extension_entries p)"
  shows "\<exists>r. get_extension t p = Some r"
proof (cases "em_get_id (rp_extension_map p) t = kInvalidId \<or>
    find_extension_info (uint (em_get_id (rp_extension_map p) t)) (rp_extension_entries p) = None")
  case True
  then show ?thesis
    by (auto simp: get_extension_def find_extension_def Let_def)
next
  case False
  then obtain e where e: "find_extension_info (uint (em_get_id (rp_extension_map p) t)) (rp_extension_entries p) = Some e"
    by blast
  then have "entry_within lo (rp_payload_offset p) e"
    using assms(3) find_extension_info_mem by (auto simp: list_all_iff)
  then have "unat (ei_offset e) < rp_capacity p" "unat (ei_offset e) + unat (ei_size e) \<le> length (v_mem (rp_buf p))"
    using assms(1,2) by (auto simp: entry_within_def v_ok_def rp_capacity_def v_capacity_def)
  then show ?thesis
    using e False ext_parse_total [of t]
    by (auto simp: get_extension_def find_extension_def Let_def rd_bytes_def)
qed

section \<open>Writes into the buffer\<close>

lemma write_at_Some:
  assumes "write_at off bs p = Some q"
  obtains m where "q = p\<lparr>rp_buf := (rp_buf p)\<lparr>v_mem := m\<rparr>\<rparr>" "wr off bs (v_mem (rp_buf p)) = Some m"
    "length m = length (v_mem (rp_buf p))"
  using assms length_wr [of off bs "v_mem (rp_buf p)"]
  by (auto simp: write_at_def bind_eq_Some_conv split: if_splits)

definition same_size :: "rtp_packet \<Rightarrow> rtp_packet \<Rightarrow> bool" where
  "same_size p q \<longleftrightarrow> v_size (rp_buf q) = v_size (rp_buf p) \<and> length (v_mem (rp_buf q)) = length (v_mem (rp_buf p)) \<and>
     rp_extensions_size q = rp_extensions_size p \<and> rp_extension_entries q = rp_extension_entries p"

lemma same_size_trans: "same_size p q \<Longrightarrow> same_size q r \<Longrightarrow> same_size p r"
  by (simp add: same_size_def)

lemma same_size_refl [simp]: "same_size p p"
  by (simp add: same_size_def)

lemma write_at_same_size: "write_at off bs p = Some q \<Longrightarrow> same_size p q"
  by (erule write_at_Some) (simp add: same_size_def)

lemma write_extension_header_same_size:
  assumes "write_extension_header i n off prof p = Some q"
  shows "same_size p q"
  using assms
  by (auto simp: write_extension_header_def bind_eq_Some_conv same_size_def split: if_splits
      dest!: write_at_same_size)

lemma update_extension_size_same_size:
  assumes "update_extension_size off p = Some (k, q)"
  shows "same_size p q" "k = 4 * ((rp_extensions_size p + 3) div 4)"
  using assms
  by (auto simp: update_extension_size_def Let_def bind_eq_Some_conv split: if_splits
      intro: same_size_trans write_at_same_size)

lemma same_size_ok: "same_size p q \<Longrightarrow> v_ok (rp_buf p) \<Longrightarrow> v_ok (rp_buf q)"
  by (simp add: same_size_def v_ok_def)

text \<open>
  What lies beyond the size of the buffer is erased when the buffer grows: the bytes an extension
  was given there, among them its header, are zeros afterwards.
\<close>

lemma place_extension_beyond:
  assumes "place_extension i n off prof p = Some (Some (d, len), q)" "prof \<noteq> kOneByteExtensionProfileId"
    "v_ok (rp_buf p)" "v_size (rp_buf p) \<le> off + rp_extensions_size p" "0 < n"
  shows "d = off + rp_extensions_size p + 2 \<and> len = n \<and>
    v_elems (rp_buf q) ! (d - 2) = 0 \<and> v_elems (rp_buf q) ! (d - 1) = 0"
proof -
  obtain p1 p2 k where p1: "write_extension_header i n off prof p = Some p1"
    and k: "update_extension_size off (p1\<lparr>rp_extension_entries := rp_extension_entries p1 @
        [\<lparr>ei_id = of_int i, ei_size = of_nat n, ei_offset = of_nat (off + rp_extensions_size p1 + 2)\<rparr>],
        rp_extensions_size := rp_extensions_size p + 2 + n\<rparr>) = Some (k, p2)"
    and q: "q = rp_resize (off + k) (p2\<lparr>rp_payload_offset := off + k\<rparr>)"
    and d: "d = off + rp_extensions_size p1 + 2" "len = n"
    using assms(1,2) by (auto simp: place_extension_def Let_def bind_eq_Some_conv split: if_splits)
  note s1 = write_extension_header_same_size [OF p1]
  note s2 = update_extension_size_same_size [OF k]
  have sz: "v_size (rp_buf p2) = v_size (rp_buf p)" and ok: "v_ok (rp_buf p2)"
    using s1 s2 assms(3) by (simp_all add: same_size_def v_ok_def)
  have e1: "rp_extensions_size p1 = rp_extensions_size p"
    using s1 by (simp add: same_size_def)
  have k4: "rp_extensions_size p + 2 + n \<le> k"
    using s2(2) by simp
  have "v_elems (rp_buf q) = v_elems (rp_buf p2) @ replicate (off + k - v_size (rp_buf p2)) 0"
    unfolding q using ok sz assms(4) k4 by (subst rp_resize_buf) (auto simp: take_all)
  moreover have "length (v_elems (rp_buf p2)) = v_size (rp_buf p)"
    using ok sz by simp
  ultimately show ?thesis
    using d e1 assms(4) k4 sz by (auto simp: nth_append)
qed

lemma promote_loop_same_size:
  "promote_loop es delta p = Some (es', q) \<Longrightarrow> same_size p q \<and> length es' = length es"
proof (induction es arbitrary: delta p es')
  case (Cons e es)
  then obtain bs p1 p2 p3 es2 where steps: "write_at (unat (ei_offset e) + delta) bs p = Some p1"
    "write_at (unat (ei_offset e) + delta - 1) [ei_size e] p1 = Some p2"
    "write_at (unat (ei_offset e) + delta - 2) [ei_id e] p2 = Some p3"
    "promote_loop es (delta - 1) p3 = Some (es2, q)" "es' = e\<lparr>ei_offset := of_nat (unat (ei_offset e) + delta)\<rparr> # es2"
    by (auto simp: Let_def bind_eq_Some_conv split: if_splits)
  with Cons.IH [OF steps(4)] steps(1-3) [THEN write_at_same_size] show ?case
    by (simp add: same_size_def)
qed simp

lemma promote_size:
  assumes "promote_to_two_byte_header p = Some q" "v_ok (rp_buf p)" "rp_extension_entries p \<noteq> []" "rp_payload_size p = 0"
    "read_at p 0 = Some b0" "off = kRtpHeaderSize + unat (b0 AND 0x0F) * 4 + 4"
    "read_be16 (v_mem (rp_buf p)) (off - 4) = Some kOneByteExtensionProfileId"
  shows "v_ok (rp_buf q)" "rp_extensions_size q = rp_extensions_size p + length (rp_extension_entries p)"
    "v_size (rp_buf q) = off + 4 * ((rp_extensions_size q + 3) div 4)"
proof -
  let ?p = "rp_resize (rp_capacity p) p"
  obtain es p1 p2 k p3 where
    p1: "promote_loop (rev (rp_extension_entries ?p)) (length (rp_extension_entries ?p)) ?p = Some (es, p1)"
    and p2: "write_at (off - 4) (be16 kTwoByteExtensionProfileId) (p1\<lparr>rp_extension_entries := rev es\<rparr>) = Some p2"
    and p3: "update_extension_size off (p2\<lparr>rp_extensions_size := rp_extensions_size p2 + length (rp_extension_entries p2)\<rparr>) = Some (k, p3)"
    and q: "q = rp_resize (off + k) (p3\<lparr>rp_payload_offset := off + k\<rparr>)"
    using assms by (auto simp: promote_to_two_byte_header_def Let_def bind_eq_Some_conv)
  have r: "v_ok (rp_buf ?p)" "rp_extensions_size ?p = rp_extensions_size p" "rp_extension_entries ?p = rp_extension_entries p"
    using rp_resize_buf [OF assms(2)] by (simp_all add: rp_resize_def)
  note s = promote_loop_same_size [OF p1] write_at_same_size [OF p2] update_extension_size_same_size [OF p3]
  have ok: "v_ok (rp_buf p3)"
    using s r(1) by (simp add: same_size_def v_ok_def)
  have ext: "rp_extensions_size p3 = rp_extensions_size p + length (rp_extension_entries p)" "k = 4 * ((rp_extensions_size p3 + 3) div 4)"
    using s r(2,3) by (simp_all add: same_size_def)
  have "rp_extensions_size q = rp_extensions_size p3"
    unfolding q by (simp add: rp_resize_def)
  with ok ext rp_resize_buf [of "p3\<lparr>rp_payload_offset := off + k\<rparr>" "off + k"] q
  show "v_ok (rp_buf q)" "rp_extensions_size q = rp_extensions_size p + length (rp_extension_entries p)"
    "v_size (rp_buf q) = off + 4 * ((rp_extensions_size q + 3) div 4)"
    by simp_all
qed

lemma rp_resize_full:
  assumes "v_ok (rp_buf p)"
  shows "v_mem (rp_buf (rp_resize (rp_capacity p) p)) =
      v_elems (rp_buf p) @ replicate (rp_capacity p - v_size (rp_buf p)) 0"
  using rp_resize_buf(2,3) [OF assms, of "rp_capacity p"] rp_resize_buf(4) [OF assms, of "rp_capacity p"] assms
  by (simp add: v_elems_def rp_capacity_def v_capacity_def v_ok_def)

lemma read_at_full:
  assumes "v_ok (rp_buf p)" "0 < v_size (rp_buf p)"
  shows "read_at (rp_resize (rp_capacity p) p) 0 = read_at p 0"
  using assms by (simp add: read_at_def rp_resize_full rd_def nth_append) (auto simp: v_elems_def v_ok_def rp_capacity_def v_capacity_def)

lemma read_be16_prefix:
  assumes "i + 2 \<le> length xs"
  shows "read_be16 (xs @ ys) i = read_be16 xs i"
  using assms by (simp add: read_be16_def rd_def nth_append)

lemma allocate_promotes:
  assumes "allocate_raw_extension i n p = Some (Some (d, len), q)" "v_ok (rp_buf p)"
    "find_extension_info i (rp_extension_entries p) = None" "0 < rp_extensions_size p"
    "read_at p 0 = Some b0" "off = kRtpHeaderSize + unat (b0 AND 0x0F) * 4 + 4" "off \<le> v_size (rp_buf p)"
    "read_be16 (v_elems (rp_buf p)) (off - 4) = Some kOneByteExtensionProfileId" "i > 14 \<or> n > 16"
  obtains r where "promote_to_two_byte_header (rp_resize (rp_capacity p) p) = Some r"
    "place_extension i n off kTwoByteExtensionProfileId r = Some (Some (d, len), q)" "0 < n" "rp_payload_size p = 0"
proof -
  let ?p = "rp_resize (rp_capacity p) p"
  have same: "rp_extensions_size ?p = rp_extensions_size p" "rp_extension_entries ?p = rp_extension_entries p"
    "rp_extension_map ?p = rp_extension_map p" "rp_capacity ?p = rp_capacity p"
    using rp_resize_buf(2) [OF assms(2)] by (simp_all add: rp_resize_def)
  have reads: "read_at ?p 0 = Some b0" "read_be16 (v_mem (rp_buf ?p)) (off - 4) = Some kOneByteExtensionProfileId"
    using assms(2,5-8) read_at_full [OF assms(2)]
    by (simp_all add: rp_resize_full read_be16_prefix kRtpHeaderSize_def)
  show thesis
    using assms(1,3,4,6,9) same reads that unfolding allocate_raw_extension_def
    by (auto simp: Let_def bind_eq_Some_conv split: if_splits)
qed

lemma promoted_header_erased:
  assumes "allocate_raw_extension i n p = Some (Some (d, len), q)" "v_ok (rp_buf p)"
    "find_extension_info i (rp_extension_entries p) = None" "rp_extension_entries p \<noteq> []" "0 < rp_extensions_size p"
    "read_at p 0 = Some b0" "off = kRtpHeaderSize + unat (b0 AND 0x0F) * 4 + 4" "off \<le> v_size (rp_buf p)"
    "read_be16 (v_elems (rp_buf p)) (off - 4) = Some kOneByteExtensionProfileId" "i > 14 \<or> n > 16"
    "4 dvd rp_extensions_size p + length (rp_extension_entries p)"
  shows "v_elems (rp_buf q) ! (d - 2) = 0 \<and> v_elems (rp_buf q) ! (d - 1) = 0"
proof (rule allocate_promotes [OF assms(1-3,5-10)])
  let ?p = "rp_resize (rp_capacity p) p"
  fix r assume r: "promote_to_two_byte_header ?p = Some r"
    "place_extension i n off kTwoByteExtensionProfileId r = Some (Some (d, len), q)" "0 < n" "rp_payload_size p = 0"
  have same: "rp_extensions_size ?p = rp_extensions_size p" "rp_extension_entries ?p = rp_extension_entries p"
    "rp_payload_size ?p = 0" "v_ok (rp_buf ?p)"
    using rp_resize_buf(1) [OF assms(2)] r(4) by (simp_all add: rp_resize_def)
  have reads: "read_at ?p 0 = Some b0" "read_be16 (v_mem (rp_buf ?p)) (off - 4) = Some kOneByteExtensionProfileId"
    using assms(2,6-9) read_at_full [OF assms(2)]
    by (simp_all add: rp_resize_full read_be16_prefix kRtpHeaderSize_def)
  note pr = promote_size [OF r(1) same(4) _ same(3) reads(1) assms(7) reads(2)]
  obtain k where k: "rp_extensions_size p + length (rp_extension_entries p) = 4 * k"
    using assms(11) by auto
  have "v_ok (rp_buf r)" "v_size (rp_buf r) = off + rp_extensions_size r"
    using pr same(1,2) assms(4) k by simp_all
  moreover have "kTwoByteExtensionProfileId \<noteq> kOneByteExtensionProfileId"
    by (simp add: kOneByteExtensionProfileId_def kTwoByteExtensionProfileId_def)
  ultimately show ?thesis
    using place_extension_beyond [OF r(2)] r(3) by auto
qed

text \<open>Packets of a few bytes, to evaluate the operations on.\<close>

definition sample_packet :: "byte list \<Rightarrow> nat \<Rightarrow> nat \<Rightarrow> nat \<Rightarrow> extension_info list \<Rightarrow> rtp_packet" where
  "sample_packet m sz off ext es = \<lparr>rp_buf = \<lparr>v_mem = m, v_size = sz\<rparr>, rp_has_padding = False, rp_marker = False,
     rp_payload_type = 0, rp_padding_size = 0, rp_sequence_number = 0, rp_timestamp = 0, rp_ssrc = 0,
     rp_payload_offset = off, rp_payload_size = 0, rp_extensions_size = ext, rp_extension_map = em_new True,
     rp_extension_entries = es\<rparr>"

lemma sample_packet_simps:
  "v_mem (rp_buf (sample_packet m sz off ext es)) = m" "v_size (rp_buf (sample_packet m sz off ext es)) = sz"
  "rp_payload_offset (sample_packet m sz off ext es) = off" "rp_payload_size (sample_packet m sz off ext es) = 0"
  "rp_padding_size (sample_packet m sz off ext es) = 0" "rp_extensions_size (sample_packet m sz off ext es) = ext"
  "rp_extension_map (sample_packet m sz off ext es) = em_new True" "rp_extension_entries (sample_packet m sz off ext es) = es"
  "rp_capacity (sample_packet m sz off ext es) = length m" "read_at (sample_packet m sz off ext es) i = rd m i"
  "sample_packet m sz off ext es\<lparr>rp_payload_offset := off'\<rparr> = sample_packet m sz off' ext es"
  "sample_packet m sz off ext es\<lparr>rp_extensions_size := ext'\<rparr> = sample_packet m sz off ext' es"
  "sample_packet m sz off ext es\<lparr>rp_extension_entries := es'\<rparr> = sample_packet m sz off ext es'"
  "v_elems (rp_buf (sample_packet m sz off ext es)) = take sz m"
  "v_ok (rp_buf (sample_packet m sz off ext es)) \<longleftrightarrow> sz \<le> length m"
  by (simp_all add: sample_packet_def rp_capacity_def v_capacity_def read_at_def v_elems_def v_ok_def)

lemma sample_packet_write:
  "write_at i bs (sample_packet m sz off ext es) =
     (if i < length m then map_option (\<lambda>m'. sample_packet m' sz off ext es) (wr i bs m) else None)"
proof (cases "wr i bs m")
  case (Some m')
  then show ?thesis
    by (simp add: write_at_def sample_packet_simps) (simp add: sample_packet_def)
qed (simp add: write_at_def sample_packet_simps)

lemma sample_packet_resize:
  assumes "sz \<le> length m" "n \<le> length m"
  shows "rp_resize n (sample_packet m sz off ext es) =
     sample_packet (if n \<le> sz then m else take sz m @ replicate (n - sz) 0 @ drop n m) n off ext es"
  using assms
  by (simp add: sample_packet_def rp_resize_def v_capacity_def vec_reserve_def vec_resize_def vec_grow_def
      vec_set_elems_def v_elems_def)

lemmas sample_eval = sample_packet_simps sample_packet_write sample_packet_resize

lemmas wire_eval = rd_def kRtpHeaderSize_def Let_def read_be16_def kOneByteExtensionProfileId_def
  kTwoByteExtensionProfileId_def wr_def rd_bytes_def be16_def

definition one_byte_block :: "byte list" where
  "one_byte_block = [0x90, 0, 0, 0, 0, 0, 0, 0, 0, 0, 0, 0, 0xBE, 0xDE, 0, 2, 0x15, 1, 2, 3, 4, 5, 6, 0, 0, 0, 0, 0]"

definition two_byte_block :: "byte list" where
  "two_byte_block = [0x90, 0, 0, 0, 0, 0, 0, 0, 0, 0, 0, 0, 0x10, 0, 0, 2, 1, 6, 1, 2, 3, 4, 5, 6, 0, 0, 0, 0]"

lemma sample_values: "replicate 4 x = [x, x, x, x]" "(0x1000 :: byte) = 0"
  by (simp add: numeral_eq_Suc, simp)

lemma sample_promoted:
  "promote_to_two_byte_header (sample_packet one_byte_block 28 24 7 [\<lparr>ei_id = 1, ei_size = 6, ei_offset = 17\<rparr>]) =
     Some (sample_packet two_byte_block 24 24 8 [\<lparr>ei_id = 1, ei_size = 6, ei_offset = 18\<rparr>])"
  by (simp add: promote_to_two_byte_header_def one_byte_block_def two_byte_block_def update_extension_size_def sample_eval wire_eval sample_values)

lemma sample_placed:
  "place_extension 15 1 16 kTwoByteExtensionProfileId
     (sample_packet two_byte_block 24 24 8 [\<lparr>ei_id = 1, ei_size = 6, ei_offset = 18\<rparr>]) =
   Some (Some (26, 1), sample_packet ((two_byte_block)[15 := 3]) 28 28 11
     [\<lparr>ei_id = 1, ei_size = 6, ei_offset = 18\<rparr>, \<lparr>ei_id = 15, ei_size = 1, ei_offset = 26\<rparr>])"
  by (simp add: place_extension_def write_extension_header_def update_extension_size_def two_byte_block_def sample_eval wire_eval sample_values)

lemma sample_allocated:
  "allocate_raw_extension 15 1 (sample_packet one_byte_block 24 24 7 [\<lparr>ei_id = 1, ei_size = 6, ei_offset = 17\<rparr>]) =
   Some (Some (26, 1), sample_packet (two_byte_block[15 := 3]) 28 28 11
     [\<lparr>ei_id = 1, ei_size = 6, ei_offset = 18\<rparr>, \<lparr>ei_id = 15, ei_size = 1, ei_offset = 26\<rparr>])"
proof -
  let ?es = "[\<lparr>ei_id = 1, ei_size = 6, ei_offset = 17\<rparr>]"
  have block: "rd one_byte_block 0 = Some 0x90" "read_be16 one_byte_block 12 = Some kOneByteExtensionProfileId"
    "length one_byte_block = 28" "rp_resize 28 (sample_packet one_byte_block 24 24 7 ?es) = sample_packet one_byte_block 28 24 7 ?es"
    by (simp_all add: one_byte_block_def sample_eval wire_eval sample_values)
  then show ?thesis
    using sample_promoted sample_placed
    by (simp add: allocate_raw_extension_def sample_packet_simps find_extension_info_def kMinId_def kMaxId_def
        kRtpHeaderSize_def Let_def em_new_def)
qed

lemma set_payload_size_doubles:
  assumes "v_ok (rp_buf p)" "set_payload bs p = Some q"
  shows "v_size (rp_buf q) = rp_payload_offset p + 2 * length bs" "rp_size q = rp_payload_offset p + length bs + unat (rp_padding_size p)"
    "v_elems (rp_buf q) = take (rp_payload_offset p) (v_elems (rp_buf (rp_resize (rp_payload_offset p + length bs) p))) @ bs @
       drop (rp_payload_offset p) (v_elems (rp_buf (rp_resize (rp_payload_offset p + length bs) p)))"
proof -
  let ?r = "rp_resize (rp_payload_offset p + length bs) (p\<lparr>rp_payload_size := length bs\<rparr>)"
  obtain v where v: "vec_insert (rp_payload_offset ?r) bs (rp_buf ?r) = Some v" "q = ?r\<lparr>rp_buf := v\<rparr>"
    using assms(2) by (auto simp: set_payload_def bind_eq_Some_conv)
  have r: "v_ok (rp_buf ?r)" "v_size (rp_buf ?r) = rp_payload_offset p + length bs" "rp_payload_offset ?r = rp_payload_offset p"
    "rp_buf ?r = rp_buf (rp_resize (rp_payload_offset p + length bs) p)"
    using rp_resize_buf [of "p\<lparr>rp_payload_size := length bs\<rparr>"] assms(1) by (simp_all add: rp_resize_def)
  from vec_insert_simps [OF r(1) v(1)] r(2-4) v(2)
  show "v_size (rp_buf q) = rp_payload_offset p + 2 * length bs" "rp_size q = rp_payload_offset p + length bs + unat (rp_padding_size p)"
    "v_elems (rp_buf q) = take (rp_payload_offset p) (v_elems (rp_buf (rp_resize (rp_payload_offset p + length bs) p))) @ bs @
       drop (rp_payload_offset p) (v_elems (rp_buf (rp_resize (rp_payload_offset p + length bs) p)))"
    by (simp_all add: rp_size_def) (simp add: rp_resize_def)
qed

lemma parse_internal_no_extension:
  assumes "parse_internal buffer p = Some (True, q)" "buffer ! 0 AND 0x10 = 0"
  shows "rp_extension_entries q = rp_extension_entries p"
  using assms
  by (auto simp: parse_internal_def parse_padding_def rd_def Let_def bind_eq_Some_conv split: if_splits)

section \<open>Properties\<close>

text \<open>
  C3. No received bytes make \<^verbatim>\<open>RtpPacket::Parse\<close> on a packet without extension entries read outside
  them or fail an assertion. When it accepts them, header, payload and padding cover the packet
  exactly, and every extension lies inside the header, so that no lookup of an extension afterwards
  leaves the buffer either.
\<close>

theorem rtp_parse_within_bounds:
  assumes "v_ok (rp_buf p)" "rp_extension_entries p = []"
  shows "\<exists>ok p'. rp_parse buffer p = Some (ok, p') \<and>
    (ok \<longrightarrow> rp_size p' = length buffer \<and> v_elems (rp_buf p') = buffer \<and>
       list_all (entry_within kRtpHeaderSize (rp_payload_offset p')) (rp_extension_entries p') \<and>
       get_extension t p' \<noteq> None)"
proof (rule rp_parse_safe [OF assms(1), of buffer])
  fix ok p' assume p': "rp_parse buffer p = Some (ok, p')" "v_ok (rp_buf p')" "ok \<Longrightarrow> v_elems (rp_buf p') = buffer"
    "ok \<Longrightarrow> rp_extension_entries p = [] \<Longrightarrow> laid_out (length buffer) p'"
  have "get_extension t p' \<noteq> None" if ok
  proof -
    have "v_size (rp_buf p') = length buffer"
      using p'(2) p'(3) [OF that] by (metis v_elems_simps(1))
    then have "rp_payload_offset p' \<le> v_size (rp_buf p')"
      using p'(4) [OF that assms(2)] by (auto simp: laid_out_def rp_size_def)
    with get_extension_total [OF p'(2)] p'(4) [OF that assms(2)] show ?thesis
      by (force simp: laid_out_def)
  qed
  with p' assms(2) show ?thesis
    by (auto simp: laid_out_def)
qed

theorem rtp_parse_within_bounds_witness:
  "let p = sample_packet (replicate 12 0) 12 12 0 [] in
   \<exists>ok p'. rp_parse [0x80, 0, 0, 1, 0, 0, 0, 2, 0, 0, 0, 3, 7] p = Some (ok, p') \<and>
    (\<not> ok \<or> rp_size p' = 13 \<and> get_extension ExtMid p' \<noteq> None)"
  using rtp_parse_within_bounds [of "sample_packet (replicate 12 0) 12 12 0 []"
      "[0x80, 0, 0, 1, 0, 0, 0, 2, 0, 0, 0, 3, 7]" ExtMid]
  by (auto simp: sample_packet_simps Let_def)

text \<open>
  C9. The loop over a block of extensions is the decoder of lists: whatever the block, it ends
  without leaving the buffer, and its entries, with the bytes they point to, are those the packet
  had, updated by the decoded pairs in order.
\<close>

theorem extension_block_decoded:
  assumes "off + cap \<le> length buffer" "off + cap \<le> 2 ^ 16"
  shows "\<exists>n es'. parse_extensions buffer one_byte off cap 0 es = Some (n, es') \<and> n \<le> cap \<and>
    map (entry_data buffer) es' =
      fold (\<lambda>(i, d). AList.update i d) (decode_block one_byte (take cap (drop off buffer))) (map (entry_data buffer) es)"
proof -
  obtain n es' where "parse_extensions buffer one_byte off cap 0 es = Some (n, es')" "n \<le> cap"
    using parse_extensions_within [OF assms(1), of 0] by blast
  with parse_extensions_decodes [OF assms, of 0] show ?thesis
    by auto
qed

theorem extension_block_decoded_witness:
  "\<exists>n es'. parse_extensions [0x10, 7, 0, 0x21, 8, 9, 0, 0] True 0 8 0 [] = Some (n, es') \<and>
     map (entry_data [0x10, 7, 0, 0x21, 8, 9, 0, 0]) es' = [(1, [7]), (2, [8, 9])]"
  using extension_block_decoded [of 0 8 "[0x10, 7, 0, 0x21, 8, 9, 0, 0]" True "[]"]
  by (auto simp: decode_block.simps(2) Let_def)

text \<open>
  C32. Parsing does not forget the extensions of the packet that was parsed before: after a packet
  without extensions the entries are those of the previous one, with offsets into the old buffer.
\<close>

theorem parse_keeps_old_extensions:
  assumes "rp_parse buffer p = Some (True, q)" "buffer ! 0 AND 0x10 = 0"
  shows "rp_extension_entries q = rp_extension_entries p"
proof -
  obtain r where "parse_internal buffer p = Some (True, r)" "rp_extension_entries q = rp_extension_entries r"
    using assms(1) by (auto simp: rp_parse_def bind_eq_Some_conv rp_resize_def split: if_splits)
  with parse_internal_no_extension [OF _ assms(2)] show ?thesis
    by simp
qed

theorem parse_keeps_old_extensions_witness:
  "map_option (\<lambda>(ok, q). (ok, rp_size q, rp_extension_entries q))
     (rp_parse [0x80, 0, 0, 1, 0, 0, 0, 2, 0, 0, 0, 3]
        (sample_packet one_byte_block 24 24 7 [\<lparr>ei_id = 1, ei_size = 6, ei_offset = 17\<rparr>])) =
   Some (True, 12, [\<lparr>ei_id = 1, ei_size = 6, ei_offset = 17\<rparr>])"
proof -
  let ?buffer = "[0x80, 0, 0, 1, 0, 0, 0, 2, 0, 0, 0, 3] :: byte list"
  let ?p = "sample_packet one_byte_block 24 24 7 [\<lparr>ei_id = 1, ei_size = 6, ei_offset = 17\<rparr>]"
  have "\<exists>q. rp_parse ?buffer ?p = Some (True, q) \<and> rp_size q = 12"
    by (simp add: rp_parse_def parse_internal_def parse_padding_def kIpPacketSize_def kRtpHeaderSize_def rd_def
        read_be16_def read_be32_def Let_def rp_size_def rp_resize_def)
  then obtain q where q: "rp_parse ?buffer ?p = Some (True, q)" "rp_size q = 12" by blast
  with parse_keeps_old_extensions [OF q(1)] show ?thesis
    by (simp add: sample_packet_simps)
qed

text \<open>
  C31. When an extension that needs a two-byte header is added to a block with one-byte headers whose
  promoted size is a multiple of four, the identifier and the length written for it are erased by
  the last resizing: both bytes before its data are zero, which a receiver reads as padding.
\<close>

theorem promotion_erases_header:
  assumes "allocate_raw_extension i n p = Some (Some (d, len), q)" "v_ok (rp_buf p)"
    "find_extension_info i (rp_extension_entries p) = None" "rp_extension_entries p \<noteq> []" "0 < rp_extensions_size p"
    "read_at p 0 = Some b0" "off = kRtpHeaderSize + unat (b0 AND 0x0F) * 4 + 4" "off \<le> v_size (rp_buf p)"
    "read_be16 (v_elems (rp_buf p)) (off - 4) = Some kOneByteExtensionProfileId" "i > 14 \<or> n > 16"
    "4 dvd rp_extensions_size p + length (rp_extension_entries p)"
  shows "v_elems (rp_buf q) ! (d - 2) = 0 \<and> v_elems (rp_buf q) ! (d - 1) = 0"
  using assms by (rule promoted_header_erased)

theorem promotion_erases_header_witness:
  "\<exists>d len q. allocate_raw_extension 15 1
      (sample_packet one_byte_block 24 24 7 [\<lparr>ei_id = 1, ei_size = 6, ei_offset = 17\<rparr>]) = Some (Some (d, len), q) \<and>
    v_elems (rp_buf q) ! (d - 2) = 0 \<and> v_elems (rp_buf q) ! (d - 1) = 0"
proof -
  have "v_elems (rp_buf q) ! (26 - 2) = 0 \<and> v_elems (rp_buf q) ! (26 - 1) = 0"
    if "allocate_raw_extension 15 1 (sample_packet one_byte_block 24 24 7 [\<lparr>ei_id = 1, ei_size = 6, ei_offset = 17\<rparr>]) =
      Some (Some (26, 1), q)" for q
    by (rule promotion_erases_header [OF that, of "0x90" 16])
      (simp_all add: sample_packet_simps find_extension_info_def one_byte_block_def wire_eval)
  with sample_allocated show ?thesis
    by blast
qed

text \<open>
  C38. \<^verbatim>\<open>SetPayload\<close> makes room for the payload and then inserts it: the buffer holds one more payload
  size than the packet says it has, and the bytes after the payload are old contents or zeros.
\<close>

theorem set_payload_leaves_tail:
  assumes "v_ok (rp_buf p)" "rp_padding_size p = 0" "set_payload bs p = Some q"
  shows "rp_size q = rp_payload_offset p + length bs \<and> v_size (rp_buf q) = rp_size q + length bs"
  using set_payload_size_doubles [OF assms(1,3)] assms(2) by simp

theorem set_payload_leaves_tail_witness:
  "\<exists>q. set_payload [1, 2, 3] (sample_packet one_byte_block 24 24 7 []) = Some q \<and>
     rp_size q = 27 \<and> v_size (rp_buf q) = 30"
proof -
  let ?p = "sample_packet one_byte_block 24 24 7 []"
  have "\<exists>q. set_payload [1, 2, 3] ?p = Some q"
    using rp_resize_buf(4) [of "?p\<lparr>rp_payload_size := 3\<rparr>" 27]
    by (simp add: set_payload_def vec_insert_def sample_packet_simps one_byte_block_def)
      (simp add: rp_resize_def sample_packet_def)
  then obtain q where q: "set_payload [1, 2, 3] ?p = Some q" by blast
  with set_payload_leaves_tail [OF _ _ q] show ?thesis
    by (simp add: sample_packet_simps one_byte_block_def)
qed

end
