(* ===== verification/RtpBuild.thy ===== *)
theory RtpBuild
  imports RtpPacket
begin

text \<open>
  Building an RTP packet and reading it back. \<open>wire_image\<close> is the wire format of a packet with one-byte
  extension headers, written as one list; \<open>represents\<close> says that the state of an \<^verbatim>\<open>RtpPacket\<close> is
  that of a description: every setter, the allocation of extensions, the payload and the padding
  take one representing state to another, and the parser recovers the description from the image.
\<close>

section \<open>The wire image\<close>

definition first_byte :: "bool \<Rightarrow> bool \<Rightarrow> nat \<Rightarrow> byte" where
  "first_byte pad ext cc = 0x80 OR (if pad then 0x20 else 0) OR (if ext then 0x10 else 0) OR of_nat cc"

definition second_byte :: "bool \<Rightarrow> u8 \<Rightarrow> byte" where
  "second_byte m pt = (if m then 0x80 else 0) OR pt"

definition encode_extension :: "u8 \<times> byte list \<Rightarrow> byte list" where
  "encode_extension = (\<lambda>(i, d). (push_bit 4 i OR of_nat (length d - 1)) # d)"

definition encode_extensions :: "(u8 \<times> byte list) list \<Rightarrow> byte list" where
  "encode_extensions es = concat (map encode_extension es)"

definition extension_words :: "(u8 \<times> byte list) list \<Rightarrow> nat" where
  "extension_words es = (length (encode_extensions es) + 3) div 4"

definition extension_block :: "(u8 \<times> byte list) list \<Rightarrow> byte list" where
  "extension_block es =
     (if es = [] then []
      else be16 kOneByteExtensionProfileId @ be16 (of_nat (extension_words es)) @ encode_extensions es @
        replicate (4 * extension_words es - length (encode_extensions es)) 0)"

definition padding_bytes :: "u8 \<Rightarrow> byte list" where
  "padding_bytes n = (if n = 0 then [] else replicate (unat n - 1) 0 @ [n])"

record rtp_description =
  d_marker :: bool
  d_payload_type :: u8
  d_sequence_number :: u16
  d_timestamp :: u32
  d_ssrc :: u32
  d_csrcs :: "u32 list"
  d_extensions :: "(u8 \<times> byte list) list"
  d_payload :: "byte list"
  d_padding :: u8

definition fixed_header :: "rtp_description \<Rightarrow> byte list" where
  "fixed_header a =
     [first_byte (d_padding a \<noteq> 0) (d_extensions a \<noteq> []) (length (d_csrcs a)), second_byte (d_marker a) (d_payload_type a)] @
     be16 (d_sequence_number a) @ be32 (d_timestamp a) @ be32 (d_ssrc a)"

definition header_image :: "rtp_description \<Rightarrow> byte list" where
  "header_image a = fixed_header a @ concat (map be32 (d_csrcs a)) @ extension_block (d_extensions a)"

definition wire_image :: "rtp_description \<Rightarrow> byte list" where
  "wire_image a = header_image a @ d_payload a @ padding_bytes (d_padding a)"

fun entries_at :: "nat \<Rightarrow> (u8 \<times> byte list) list \<Rightarrow> extension_info list" where
  "entries_at off [] = []"
| "entries_at off ((i, d) # es) =
     \<lparr>ei_id = i, ei_size = of_nat (length d), ei_offset = of_nat (off + 1)\<rparr> # entries_at (off + 1 + length d) es"

definition one_byte_extension :: "u8 \<times> byte list \<Rightarrow> bool" where
  "one_byte_extension = (\<lambda>(i, d). 1 \<le> i \<and> i \<le> 14 \<and> 1 \<le> length d \<and> length d \<le> 16)"

definition well_described :: "rtp_description \<Rightarrow> bool" where
  "well_described a \<longleftrightarrow> d_payload_type a \<le> 0x7F \<and> length (d_csrcs a) \<le> 15 \<and>
     list_all one_byte_extension (d_extensions a) \<and> distinct (map fst (d_extensions a)) \<and> length (wire_image a) \<le> kIpPacketSize"

definition extensions_start :: "rtp_description \<Rightarrow> nat" where
  "extensions_start a = 16 + 4 * length (d_csrcs a)"

definition fields_match :: "rtp_packet \<Rightarrow> rtp_description \<Rightarrow> bool" where
  "fields_match p a \<longleftrightarrow>
     rp_marker p = d_marker a \<and> rp_payload_type p = d_payload_type a \<and> rp_sequence_number p = d_sequence_number a \<and>
     rp_timestamp p = d_timestamp a \<and> rp_ssrc p = d_ssrc a \<and> rp_payload_offset p = length (header_image a) \<and>
     rp_payload_size p = length (d_payload a) \<and> rp_padding_size p = d_padding a \<and>
     rp_extensions_size p = length (encode_extensions (d_extensions a)) \<and>
     rp_extension_entries p = entries_at (extensions_start a) (d_extensions a)"

definition holds_image :: "rtp_packet \<Rightarrow> rtp_description \<Rightarrow> bool" where
  "holds_image p a \<longleftrightarrow> v_ok (rp_buf p) \<and> v_elems (rp_buf p) = wire_image a"

definition represents :: "rtp_packet \<Rightarrow> rtp_description \<Rightarrow> bool" where
  "represents p a \<longleftrightarrow> well_described a \<and> fields_match p a \<and> holds_image p a"

lemma fields_match_buf [simp]: "fields_match (p\<lparr>rp_buf := v\<rparr>) a \<longleftrightarrow> fields_match p a"
  by (simp add: fields_match_def)

section \<open>Bits of the first two bytes\<close>

lemma csrc_count_small:
  assumes "cc \<le> 15"
  shows "unat (of_nat cc :: byte) = cc" "bit (of_nat cc :: byte) k \<Longrightarrow> k < 4"
proof -
  show u: "unat (of_nat cc :: byte) = cc"
    using assms by (intro unat_of_nat_small) simp
  have "(of_nat cc :: byte) < 2 ^ 4"
    using assms u by (simp add: word_less_nat_alt)
  then show "bit (of_nat cc :: byte) k \<Longrightarrow> k < 4"
    by (rule bit_below [rotated])
qed

lemma bit_masks:
  "bit (0x80 :: byte) k \<longleftrightarrow> k = 7" "bit (0x20 :: byte) k \<longleftrightarrow> k = 5" "bit (0x10 :: byte) k \<longleftrightarrow> k = 4"
  "bit (0x0F :: byte) k \<longleftrightarrow> k < 4" "bit (0xF0 :: byte) k \<longleftrightarrow> 4 \<le> k \<and> k < 8" "bit (0x7F :: byte) k \<longleftrightarrow> k < 7"
proof -
  have "(0x80 :: byte) = 2 ^ 7" "(0x20 :: byte) = 2 ^ 5" "(0x10 :: byte) = 2 ^ 4"
    "(0x0F :: byte) = mask 4" "(0xF0 :: byte) = push_bit 4 (mask 4)" "(0x7F :: byte) = mask 7"
    by (simp_all add: mask_eq_exp_minus_1)
  then show "bit (0x80 :: byte) k \<longleftrightarrow> k = 7" "bit (0x20 :: byte) k \<longleftrightarrow> k = 5" "bit (0x10 :: byte) k \<longleftrightarrow> k = 4"
    "bit (0x0F :: byte) k \<longleftrightarrow> k < 4" "bit (0xF0 :: byte) k \<longleftrightarrow> 4 \<le> k \<and> k < 8" "bit (0x7F :: byte) k \<longleftrightarrow> k < 7"
    by (auto simp only: bit_simps possible_bit_word) auto
qed

lemma bit_first_byte:
  "cc \<le> 15 \<Longrightarrow> bit (first_byte pad ext cc) k \<longleftrightarrow> k = 7 \<or> pad \<and> k = 5 \<or> ext \<and> k = 4 \<or> k < 4 \<and> bit (of_nat cc :: byte) k"
  using csrc_count_small(2) [of cc k] by (auto simp: first_byte_def bit_or_iff bit_masks simp del: bit_numeral_word_iff)

lemma byte_eqI: "(\<And>k. k < 8 \<Longrightarrow> bit a k = bit b k) \<Longrightarrow> a = b" for a b :: byte
  by (rule bit_word_eqI) simp

lemma nonzero_and_bit: "a AND b \<noteq> 0 \<longleftrightarrow> (\<exists>k<8. bit a k \<and> bit b k)" for a b :: byte
  by (auto simp: bit_eq_iff bit_and_iff dest: bit_imp_le_length)

lemma first_byte_simps:
  assumes "cc \<le> 15"
  shows "drop_bit 6 (first_byte pad ext cc) = 2" "first_byte pad ext cc AND 0x20 \<noteq> 0 \<longleftrightarrow> pad"
    "first_byte pad ext cc AND 0x10 \<noteq> 0 \<longleftrightarrow> ext" "unat (first_byte pad ext cc AND 0x0F) = cc"
    "first_byte pad ext cc OR 0x10 = first_byte pad True cc" "first_byte pad ext cc OR 0x20 = first_byte True ext cc"
    "first_byte pad ext cc AND NOT 0x20 = first_byte False ext cc"
    "n \<le> 15 \<Longrightarrow> (first_byte pad ext cc AND 0xF0) OR of_nat n = first_byte pad ext n"
proof -
  note fb = bit_first_byte [OF assms]
  have "(2 :: byte) = 2 ^ 1" by simp
  then have two: "bit (2 :: byte) k \<longleftrightarrow> k = 1" for k
    by (auto simp only: bit_simps possible_bit_word) auto
  show "drop_bit 6 (first_byte pad ext cc) = 2"
    by (rule byte_eqI) (auto simp: bit_drop_bit_eq fb two simp del: bit_numeral_word_iff)
  show "first_byte pad ext cc AND 0x20 \<noteq> 0 \<longleftrightarrow> pad" "first_byte pad ext cc AND 0x10 \<noteq> 0 \<longleftrightarrow> ext"
    by (auto simp: nonzero_and_bit fb bit_masks simp del: bit_numeral_word_iff)
  have "first_byte pad ext cc AND 0x0F = of_nat cc"
    by (rule byte_eqI) (use csrc_count_small(2) [OF assms] in \<open>auto simp: bit_and_iff fb bit_masks simp del: bit_numeral_word_iff\<close>)
  then show "unat (first_byte pad ext cc AND 0x0F) = cc"
    using csrc_count_small(1) [OF assms] by simp
  show "first_byte pad ext cc OR 0x10 = first_byte pad True cc" "first_byte pad ext cc OR 0x20 = first_byte True ext cc"
    by (rule byte_eqI, auto simp: bit_or_iff bit_and_iff bit_not_iff fb bit_first_byte [OF assms] bit_masks simp del: bit_numeral_word_iff)+
  have not20: "bit (NOT 0x20 :: byte) k \<longleftrightarrow> k < 8 \<and> k \<noteq> 5" for k
    by (simp only: bit_not_iff bit_masks possible_bit_word) auto
  have "bit (first_byte pad ext cc AND NOT 0x20) k = bit (first_byte False ext cc) k" if "k < 8" for k
    using that by (simp only: bit_and_iff fb bit_first_byte [OF assms] not20) auto
  then show "first_byte pad ext cc AND NOT 0x20 = first_byte False ext cc"
    by (rule byte_eqI)
  show "(first_byte pad ext cc AND 0xF0) OR of_nat n = first_byte pad ext n" if "n \<le> 15"
    by (rule byte_eqI) (use csrc_count_small(2) [OF that] in
      \<open>auto simp: bit_or_iff bit_and_iff fb bit_first_byte [OF that] bit_masks simp del: bit_numeral_word_iff\<close>)
qed

lemma second_byte_simps:
  assumes "pt \<le> 0x7F"
  shows "second_byte m pt AND 0x80 \<noteq> 0 \<longleftrightarrow> m" "second_byte m pt AND 0x7F = pt"
    "second_byte m pt OR 0x80 = second_byte True pt"
    "(second_byte m pt AND 0x80) OR pt' = second_byte m pt'"
proof -
  have "pt < 2 ^ 7"
    using assms by (simp add: word_le_nat_alt word_less_nat_alt)
  then have low: "bit pt k \<Longrightarrow> k < 7" for k
    by (rule bit_below [rotated])
  have sb: "bit (second_byte m pt) k \<longleftrightarrow> m \<and> k = 7 \<or> bit pt k" for k m
    by (auto simp: second_byte_def bit_or_iff bit_masks simp del: bit_numeral_word_iff)
  show "second_byte m pt AND 0x80 \<noteq> 0 \<longleftrightarrow> m"
    using low by (auto simp: nonzero_and_bit sb bit_masks simp del: bit_numeral_word_iff)
  show "second_byte m pt AND 0x7F = pt" "second_byte m pt OR 0x80 = second_byte True pt"
    by (rule byte_eqI, use low in \<open>auto simp: bit_or_iff bit_and_iff sb bit_masks simp del: bit_numeral_word_iff\<close>)+
  show "(second_byte m pt AND 0x80) OR pt' = second_byte m pt'"
    by (rule byte_eqI) (use low in \<open>auto simp: bit_or_iff bit_and_iff sb bit_masks second_byte_def [of _ pt'] simp del: bit_numeral_word_iff\<close>)
qed

section \<open>Lists of bytes and the buffer\<close>

lemma wr_here:
  "length ys = length bs \<Longrightarrow> i = length xs \<Longrightarrow> wr i bs (xs @ ys @ zs) = Some (xs @ bs @ zs)"
  by (simp add: wr_def)

text \<open>A write inside the contents of the buffer changes nothing else.\<close>

lemma write_at_elems:
  assumes "v_ok (rp_buf p)" "v_elems (rp_buf p) = xs @ ys @ zs" "length ys = length bs" "i = length xs" "bs \<noteq> []"
  shows "\<exists>v. write_at i bs p = Some (p\<lparr>rp_buf := v\<rparr>) \<and> v_ok v \<and> v_elems v = xs @ bs @ zs \<and>
    v_capacity v = v_capacity (rp_buf p)"
proof -
  let ?v = "rp_buf p"
  define rest where "rest = drop (v_size ?v) (v_mem ?v)"
  have "v_mem ?v = v_elems ?v @ rest"
    by (simp add: v_elems_def rest_def)
  then have mem: "v_mem ?v = xs @ ys @ zs @ rest"
    using assms(2) by simp
  have len: "v_size ?v = length xs + length ys + length zs"
    using v_elems_simps(1) [OF assms(1)] assms(2) by simp
  have "wr i bs (v_mem ?v) = Some (xs @ bs @ zs @ rest)"
    unfolding mem using assms(3,4) by (rule wr_here)
  moreover have "i < rp_capacity p"
    using assms(3-5) by (simp add: rp_capacity_def v_capacity_def mem)
  ultimately have "write_at i bs p = Some (p\<lparr>rp_buf := ?v\<lparr>v_mem := xs @ bs @ zs @ rest\<rparr>\<rparr>)"
    by (simp add: write_at_def)
  moreover have "v_ok (?v\<lparr>v_mem := xs @ bs @ zs @ rest\<rparr>)" "v_elems (?v\<lparr>v_mem := xs @ bs @ zs @ rest\<rparr>) = xs @ bs @ zs"
    "v_capacity (?v\<lparr>v_mem := xs @ bs @ zs @ rest\<rparr>) = v_capacity ?v"
    using assms(3) len by (simp_all add: v_ok_def v_elems_def v_capacity_def mem)
  ultimately show ?thesis
    by blast
qed

lemma write_again:
  assumes "v_ok v" "v_elems v = xs @ ys @ zs" "length ys = length bs" "i = length xs" "bs \<noteq> []"
  obtains w where "write_at i bs (q\<lparr>rp_buf := v\<rparr>) = Some (q\<lparr>rp_buf := w\<rparr>)" "v_ok w" "v_elems w = xs @ bs @ zs"
    "v_capacity w = v_capacity v"
  using write_at_elems [of "q\<lparr>rp_buf := v\<rparr>" xs ys zs bs i] assms by auto

lemma read_at_elems:
  assumes "v_ok (rp_buf p)" "i < length (v_elems (rp_buf p))"
  shows "read_at p i = Some (v_elems (rp_buf p) ! i)"
  using assms by (simp add: read_at_def rd_def v_elems_def v_ok_def)

lemma rp_resize_fields [simp]:
  "rp_has_padding (rp_resize n p) = rp_has_padding p" "rp_marker (rp_resize n p) = rp_marker p"
  "rp_payload_type (rp_resize n p) = rp_payload_type p" "rp_padding_size (rp_resize n p) = rp_padding_size p"
  "rp_sequence_number (rp_resize n p) = rp_sequence_number p" "rp_timestamp (rp_resize n p) = rp_timestamp p"
  "rp_ssrc (rp_resize n p) = rp_ssrc p" "rp_payload_offset (rp_resize n p) = rp_payload_offset p"
  "rp_payload_size (rp_resize n p) = rp_payload_size p" "rp_extensions_size (rp_resize n p) = rp_extensions_size p"
  "rp_extension_map (rp_resize n p) = rp_extension_map p" "rp_extension_entries (rp_resize n p) = rp_extension_entries p"
  by (simp_all add: rp_resize_def)

lemma fields_match_resize [simp]: "fields_match (rp_resize n p) a \<longleftrightarrow> fields_match p a"
  by (simp add: fields_match_def)

section \<open>Header fields\<close>

lemma length_image_parts [simp]:
  "length (fixed_header a) = 12" "length (concat (map be32 cs)) = 4 * length cs"
  by (simp add: fixed_header_def) (induction cs, simp_all)

lemma image_fixed: "wire_image a = fixed_header a @ drop 12 (wire_image a)"
  by (simp add: wire_image_def header_image_def)

definition same_body :: "rtp_description \<Rightarrow> rtp_description \<Rightarrow> bool" where
  "same_body a b \<longleftrightarrow> d_csrcs b = d_csrcs a \<and> d_extensions b = d_extensions a \<and> d_payload b = d_payload a \<and> d_padding b = d_padding a"

lemma same_body_image:
  assumes "same_body a b"
  shows "drop 12 (wire_image b) = drop 12 (wire_image a)" "length (wire_image b) = length (wire_image a)"
    "length (header_image b) = length (header_image a)" "extensions_start b = extensions_start a"
  using assms by (simp_all add: same_body_def wire_image_def header_image_def extensions_start_def)

text \<open>A setter replaces some bytes of the fixed header.\<close>

lemma represents_set_header:
  assumes "represents p a" "fixed_header a = xs @ ys @ zs" "fixed_header b = xs @ bs @ zs" "length ys = length bs" "bs \<noteq> []"
    "same_body a b" "d_payload_type b \<le> 0x7F" "rp_buf q = rp_buf p" "fields_match q b" "i = length xs"
  shows "\<exists>v. write_at i bs q = Some (q\<lparr>rp_buf := v\<rparr>) \<and> represents (q\<lparr>rp_buf := v\<rparr>) b \<and> v_capacity v = v_capacity (rp_buf p)"
proof -
  have img: "v_elems (rp_buf q) = xs @ ys @ zs @ drop 12 (wire_image a)" and ok: "v_ok (rp_buf q)"
    using assms(1,2,8) image_fixed [of a] by (simp_all add: represents_def holds_image_def)
  have b: "wire_image b = xs @ bs @ zs @ drop 12 (wire_image a)"
    using image_fixed [of b] assms(3) same_body_image(1) [OF assms(6)] by simp
  have "well_described b"
    using assms(1,6,7) same_body_image(2) [OF assms(6)] by (simp add: represents_def well_described_def same_body_def)
  with write_at_elems [OF ok img assms(4,10,5)] b assms(8,9) show ?thesis
    by (auto simp: represents_def holds_image_def)
qed

lemma represents_bytes:
  assumes "represents p a"
  shows "read_at p 0 = Some (first_byte (d_padding a \<noteq> 0) (d_extensions a \<noteq> []) (length (d_csrcs a)))"
    "read_at p 1 = Some (second_byte (d_marker a) (d_payload_type a))"
proof -
  have "v_elems (rp_buf p) = fixed_header a @ drop 12 (wire_image a)" "v_ok (rp_buf p)"
    using assms image_fixed [of a] by (simp_all add: represents_def holds_image_def)
  moreover have "12 \<le> length (v_elems (rp_buf p))"
    using calculation(1) by simp
  ultimately show "read_at p 0 = Some (first_byte (d_padding a \<noteq> 0) (d_extensions a \<noteq> []) (length (d_csrcs a)))"
    "read_at p 1 = Some (second_byte (d_marker a) (d_payload_type a))"
    using read_at_elems [of p 0] read_at_elems [of p 1] by (simp_all add: nth_append fixed_header_def)
qed

lemma fields_match_header:
  assumes "fields_match p a" "same_body a b" "rp_marker q = d_marker b" "rp_payload_type q = d_payload_type b"
    "rp_sequence_number q = d_sequence_number b" "rp_timestamp q = d_timestamp b" "rp_ssrc q = d_ssrc b"
    "rp_payload_offset q = rp_payload_offset p" "rp_payload_size q = rp_payload_size p" "rp_padding_size q = rp_padding_size p"
    "rp_extensions_size q = rp_extensions_size p" "rp_extension_entries q = rp_extension_entries p"
  shows "fields_match q b"
  using assms same_body_image(3,4) [OF assms(2)] by (simp add: fields_match_def same_body_def)

text \<open>
  Every header field: the call succeeds, changes the description in that field, and keeps the
  capacity and the extension map.
\<close>

definition refines_to :: "rtp_packet \<Rightarrow> rtp_packet option \<Rightarrow> rtp_description \<Rightarrow> bool" where
  "refines_to p r b \<longleftrightarrow> (case r of None \<Rightarrow> False
     | Some q \<Rightarrow> represents q b \<and> rp_capacity q = rp_capacity p \<and> rp_extension_map q = rp_extension_map p)"

lemma refines_set_header:
  assumes "represents p a" "fixed_header a = xs @ ys @ zs" "fixed_header b = xs @ bs @ zs" "length ys = length bs" "bs \<noteq> []"
    "same_body a b" "d_payload_type b \<le> 0x7F" "rp_buf q = rp_buf p" "fields_match q b" "i = length xs"
    "rp_extension_map q = rp_extension_map p"
  shows "refines_to p (write_at i bs q) b"
  using represents_set_header [OF assms(1-10)] assms(11) by (auto simp: refines_to_def rp_capacity_def)

lemma represents_payload_type: "represents p a \<Longrightarrow> d_payload_type a \<le> 0x7F"
  by (simp add: represents_def well_described_def)

lemma set_marker_refines:
  assumes "represents p a"
  shows "refines_to p (set_marker m p) (a\<lparr>d_marker := m\<rparr>)"
proof -
  let ?b = "a\<lparr>d_marker := m\<rparr>"
  have body: "same_body a ?b" and pt: "d_payload_type a \<le> 0x7F"
    using assms represents_payload_type by (simp_all add: same_body_def)
  have match: "fields_match (p\<lparr>rp_marker := m\<rparr>) ?b"
    using assms by (intro fields_match_header [OF _ body, of p]) (simp_all add: represents_def fields_match_def)
  have bytes: "read_at (p\<lparr>rp_marker := m\<rparr>) 1 = Some (second_byte (d_marker a) (d_payload_type a))"
    using represents_bytes(2) [OF assms] by (simp add: read_at_def)
  have "second_byte (d_marker a) (d_payload_type a) AND 0x7F = second_byte False (d_payload_type a)"
    using second_byte_simps(2) [OF pt] by (simp add: second_byte_def)
  then have "set_marker m p = write_at 1 [second_byte m (d_payload_type a)] (p\<lparr>rp_marker := m\<rparr>)"
    using bytes second_byte_simps(3) [OF pt] by (simp add: set_marker_def)
  moreover have "refines_to p (write_at 1 [second_byte m (d_payload_type a)] (p\<lparr>rp_marker := m\<rparr>)) ?b"
    by (rule refines_set_header [OF assms, of "[first_byte (d_padding a \<noteq> 0) (d_extensions a \<noteq> []) (length (d_csrcs a))]"
          "[second_byte (d_marker a) (d_payload_type a)]"
          "be16 (d_sequence_number a) @ be32 (d_timestamp a) @ be32 (d_ssrc a)"])
      (use match body pt in \<open>simp_all add: fixed_header_def\<close>)
  ultimately show ?thesis
    by simp
qed

lemma set_payload_type_refines:
  assumes "represents p a" "t \<le> 0x7F"
  shows "refines_to p (set_payload_type t p) (a\<lparr>d_payload_type := t\<rparr>)"
proof -
  let ?b = "a\<lparr>d_payload_type := t\<rparr>"
  have body: "same_body a ?b" and pt: "d_payload_type a \<le> 0x7F"
    using assms represents_payload_type by (simp_all add: same_body_def)
  have match: "fields_match (p\<lparr>rp_payload_type := t\<rparr>) ?b"
    using assms by (intro fields_match_header [OF _ body, of p]) (simp_all add: represents_def fields_match_def)
  have "read_at (p\<lparr>rp_payload_type := t\<rparr>) 1 = Some (second_byte (d_marker a) (d_payload_type a))"
    using represents_bytes(2) [OF assms(1)] by (simp add: read_at_def)
  then have "set_payload_type t p = write_at 1 [second_byte (d_marker a) t] (p\<lparr>rp_payload_type := t\<rparr>)"
    using assms(2) second_byte_simps(4) [OF pt] by (simp add: set_payload_type_def)
  moreover have "refines_to p (write_at 1 [second_byte (d_marker a) t] (p\<lparr>rp_payload_type := t\<rparr>)) ?b"
    by (rule refines_set_header [OF assms(1), of "[first_byte (d_padding a \<noteq> 0) (d_extensions a \<noteq> []) (length (d_csrcs a))]"
          "[second_byte (d_marker a) (d_payload_type a)]"
          "be16 (d_sequence_number a) @ be32 (d_timestamp a) @ be32 (d_ssrc a)"])
      (use match body assms(2) in \<open>simp_all add: fixed_header_def\<close>)
  ultimately show ?thesis
    by simp
qed

lemma set_numbers_refine:
  assumes "represents p a"
  shows "refines_to p (set_sequence_number n p) (a\<lparr>d_sequence_number := n\<rparr>)"
    and "refines_to p (set_timestamp t p) (a\<lparr>d_timestamp := t\<rparr>)"
    and "refines_to p (set_ssrc s p) (a\<lparr>d_ssrc := s\<rparr>)"
proof -
  let ?start = "[first_byte (d_padding a \<noteq> 0) (d_extensions a \<noteq> []) (length (d_csrcs a)), second_byte (d_marker a) (d_payload_type a)]"
  have pt: "d_payload_type a \<le> 0x7F"
    using assms by (rule represents_payload_type)
  have body: "same_body a (a\<lparr>d_sequence_number := n\<rparr>)" "same_body a (a\<lparr>d_timestamp := t\<rparr>)" "same_body a (a\<lparr>d_ssrc := s\<rparr>)"
    by (simp_all add: same_body_def)
  have match: "fields_match (p\<lparr>rp_sequence_number := n\<rparr>) (a\<lparr>d_sequence_number := n\<rparr>)"
    "fields_match (p\<lparr>rp_timestamp := t\<rparr>) (a\<lparr>d_timestamp := t\<rparr>)" "fields_match (p\<lparr>rp_ssrc := s\<rparr>) (a\<lparr>d_ssrc := s\<rparr>)"
    by (rule fields_match_header [of p a]; use assms body in \<open>simp add: represents_def fields_match_def\<close>)+
  show "refines_to p (set_sequence_number n p) (a\<lparr>d_sequence_number := n\<rparr>)"
    unfolding set_sequence_number_def
    by (rule refines_set_header [OF assms, of ?start "be16 (d_sequence_number a)" "be32 (d_timestamp a) @ be32 (d_ssrc a)"])
      (use match body pt in \<open>simp_all add: fixed_header_def be16_def\<close>)
  show "refines_to p (set_timestamp t p) (a\<lparr>d_timestamp := t\<rparr>)"
    unfolding set_timestamp_def
    by (rule refines_set_header [OF assms, of "?start @ be16 (d_sequence_number a)" "be32 (d_timestamp a)" "be32 (d_ssrc a)"])
      (use match body pt in \<open>simp_all add: fixed_header_def be32_def\<close>)
  show "refines_to p (set_ssrc s p) (a\<lparr>d_ssrc := s\<rparr>)"
    unfolding set_ssrc_def
    by (rule refines_set_header [OF assms, of "?start @ be16 (d_sequence_number a) @ be32 (d_timestamp a)" "be32 (d_ssrc a)" "[]"])
      (use match body pt in \<open>simp_all add: fixed_header_def be32_def\<close>)
qed

section \<open>A new packet and its sources\<close>

definition empty_description :: rtp_description where
  "empty_description = \<lparr>d_marker = False, d_payload_type = 0, d_sequence_number = 0, d_timestamp = 0, d_ssrc = 0,
     d_csrcs = [], d_extensions = [], d_payload = [], d_padding = 0\<rparr>"

lemma empty_image: "wire_image empty_description = 0x80 # replicate 11 0"
proof -
  have "replicate 11 (0 :: byte) = [0, 0, 0, 0, 0, 0, 0, 0, 0, 0, 0]"
    by (simp add: numeral_eq_Suc)
  then show ?thesis
    by (simp add: wire_image_def header_image_def fixed_header_def empty_description_def first_byte_def second_byte_def
        be16_def be32_def extension_block_def padding_bytes_def)
qed

lemma rp_new_represents:
  assumes "12 \<le> cap" "cap \<le> kIpPacketSize"
  shows "\<exists>p. rp_new junk (Some em) cap = Some p \<and> represents p empty_description \<and> rp_capacity p = cap \<and> rp_extension_map p = em"
proof -
  let ?r = "\<lparr>rp_buf = vec_clear (vec_reserve cap (vec_of [])), rp_has_padding = junk, rp_marker = False,
        rp_payload_type = 0, rp_padding_size = 0, rp_sequence_number = 0, rp_timestamp = 0, rp_ssrc = 0,
        rp_payload_offset = 12, rp_payload_size = 0, rp_extensions_size = 0,
        rp_extension_map = em, rp_extension_entries = []\<rparr>"
  let ?q = "rp_resize 12 ?r"
  have q: "v_ok (rp_buf ?q)" "v_elems (rp_buf ?q) = [] @ [0] @ replicate 11 0" "rp_capacity ?q = cap"
    using assms(1) rp_resize_buf [of ?r 12] by (simp_all add: rp_capacity_def numeral_eq_Suc)
  obtain v where v: "write_at 0 [0x80] ?q = Some (?q\<lparr>rp_buf := v\<rparr>)" "v_ok v" "v_elems v = 0x80 # replicate 11 0"
    "v_capacity v = v_capacity (rp_buf ?q)"
    using write_at_elems [OF q(1,2), of "[0x80]" 0] by auto
  have "rp_new junk (Some em) cap = Some (?q\<lparr>rp_buf := v\<rparr>)"
    using v(1) assms(2) by (simp add: rp_new_def rp_reset_def kRtpHeaderSize_def)
  moreover have "fields_match ?q empty_description"
    by (simp add: fields_match_def empty_description_def header_image_def extension_block_def encode_extensions_def)
  moreover have "well_described empty_description"
    using empty_image by (simp add: well_described_def) (simp add: empty_description_def kIpPacketSize_def)
  ultimately show ?thesis
    using v(2-4) q(3) by (auto simp: represents_def holds_image_def empty_image rp_capacity_def)
qed

lemma write_csrcs_elems:
  assumes "v_ok (rp_buf p)" "v_elems (rp_buf p) = xs @ ys" "length ys = 4 * length cs" "off = length xs"
  shows "\<exists>v. write_csrcs cs off p = Some (p\<lparr>rp_buf := v\<rparr>) \<and> v_ok v \<and> v_elems v = xs @ concat (map be32 cs) \<and>
    v_capacity v = v_capacity (rp_buf p)"
  using assms
proof (induction cs arbitrary: p xs ys off)
  case Nil
  then show ?case by (auto intro: exI [of _ "rp_buf p"])
next
  case (Cons c cs)
  have ys: "ys = take 4 ys @ drop 4 ys" by simp
  have tail: "length (drop 4 ys) = 4 * length cs"
    using Cons.prems(3) by simp
  have "v_elems (rp_buf p) = xs @ take 4 ys @ drop 4 ys" "length (take 4 ys) = length (be32 c)"
    using Cons.prems(2,3) by simp_all
  from write_at_elems [OF Cons.prems(1) this Cons.prems(4)] obtain v where
    v: "write_at off (be32 c) p = Some (p\<lparr>rp_buf := v\<rparr>)" "v_ok v" "v_elems v = (xs @ be32 c) @ drop 4 ys"
      "v_capacity v = v_capacity (rp_buf p)"
    by (auto simp: be32_def)
  have "\<exists>v'. write_csrcs cs (off + 4) (p\<lparr>rp_buf := v\<rparr>) = Some (p\<lparr>rp_buf := v\<rparr>\<lparr>rp_buf := v'\<rparr>) \<and> v_ok v' \<and>
      v_elems v' = (xs @ be32 c) @ concat (map be32 cs) \<and> v_capacity v' = v_capacity (rp_buf (p\<lparr>rp_buf := v\<rparr>))"
    by (rule Cons.IH [of _ _ "drop 4 ys"]) (use v(2,3) tail Cons.prems(4) in simp_all)
  with v show ?case
    by auto
qed

lemma set_csrcs_refines:
  assumes "represents p a" "d_extensions a = []" "d_payload a = []" "d_padding a = 0" "d_csrcs a = []" "length cs \<le> 15"
    "12 + 4 * length cs \<le> rp_capacity p" "rp_capacity p \<le> kIpPacketSize"
  shows "refines_to p (set_csrcs cs p) (a\<lparr>d_csrcs := cs\<rparr>)"
proof -
  let ?b = "a\<lparr>d_csrcs := cs\<rparr>"
  define q where "q = rp_resize (12 + 4 * length cs) (p\<lparr>rp_payload_offset := 12 + 4 * length cs\<rparr>)"
  have rep: "v_ok (rp_buf p)" "v_elems (rp_buf p) = fixed_header a" "fields_match p a" "well_described a"
    using assms(1-5) by (simp_all add: represents_def holds_image_def wire_image_def header_image_def extension_block_def padding_bytes_def)
  then have "v_size (rp_buf p) = 12"
    using v_elems_simps(1) [of "rp_buf p"] by simp
  with rep(1,2) have q: "v_ok (rp_buf q)" "v_elems (rp_buf q) = fixed_header a @ replicate (4 * length cs) 0" "rp_capacity q = rp_capacity p"
    using rp_resize_buf [of "p\<lparr>rp_payload_offset := 12 + 4 * length cs\<rparr>" "12 + 4 * length cs"] assms(7)
    by (simp_all add: rp_capacity_def q_def)
  define tail where "tail = second_byte (d_marker a) (d_payload_type a) #
      be16 (d_sequence_number a) @ be32 (d_timestamp a) @ be32 (d_ssrc a)"
  have fixed: "fixed_header a = first_byte False False 0 # tail" "fixed_header ?b = first_byte False False (length cs) # tail"
    using assms(2-5) by (simp_all add: fixed_header_def tail_def)
  have b0: "read_at q 0 = Some (first_byte False False 0)"
    using read_at_elems [OF q(1), of 0] q(2) fixed(1) by simp
  have new0: "(first_byte False False 0 AND 0xF0) OR of_nat (length cs) = first_byte False False (length cs)"
    using first_byte_simps(8) [of 0 "length cs" False False] assms(6) by simp
  have "v_elems (rp_buf q) = [] @ [first_byte False False 0] @ tail @ replicate (4 * length cs) 0"
    using q(2) fixed(1) by simp
  from write_at_elems [OF q(1) this, of "[first_byte False False (length cs)]" 0] obtain v where
    v: "write_at 0 [first_byte False False (length cs)] q = Some (q\<lparr>rp_buf := v\<rparr>)" "v_ok v"
      "v_elems v = fixed_header ?b @ replicate (4 * length cs) 0" "v_capacity v = v_capacity (rp_buf q)"
    using fixed(2) by auto
  have "\<exists>w. write_csrcs cs 12 (q\<lparr>rp_buf := v\<rparr>) = Some (q\<lparr>rp_buf := v\<rparr>\<lparr>rp_buf := w\<rparr>) \<and> v_ok w \<and>
      v_elems w = fixed_header ?b @ concat (map be32 cs) \<and> v_capacity w = v_capacity (rp_buf (q\<lparr>rp_buf := v\<rparr>))"
    by (rule write_csrcs_elems [of _ _ "replicate (4 * length cs) 0"]) (use v in simp_all)
  then obtain w where w: "write_csrcs cs 12 (q\<lparr>rp_buf := v\<rparr>) = Some (q\<lparr>rp_buf := w\<rparr>)" "v_ok w"
      "v_elems w = fixed_header ?b @ concat (map be32 cs)" "v_capacity w = v_capacity v"
    by auto
  have "set_csrcs cs p = Some (q\<lparr>rp_buf := w\<rparr>)"
  proof -
    have "rp_extensions_size p = 0 \<and> rp_payload_size p = 0 \<and> rp_padding_size p = 0 \<and>
         length cs \<le> 0x0F \<and> kRtpHeaderSize + 4 * length cs \<le> rp_capacity p"
      using rep(3) assms(2-7) by (simp add: fields_match_def encode_extensions_def kRtpHeaderSize_def)
    then show ?thesis
      unfolding set_csrcs_def using b0 new0 v(1) w(1) by (simp add: kRtpHeaderSize_def q_def)
  qed
  moreover have img: "wire_image ?b = fixed_header ?b @ concat (map be32 cs)"
    using assms(2-4) by (simp add: wire_image_def header_image_def extension_block_def padding_bytes_def)
  moreover have "fields_match q ?b"
    using rep(3) assms(2-4) unfolding q_def by (simp add: fields_match_def header_image_def extension_block_def encode_extensions_def)
  moreover have "well_described ?b"
    using rep(4) assms(6-8) img by (simp add: well_described_def)
  ultimately show ?thesis
    using w q(3) v(4) q_def by (simp add: refines_to_def represents_def holds_image_def rp_capacity_def)
qed

section \<open>Extensions\<close>

lemma encode_extensions_simps [simp]:
  "encode_extensions [] = []" "encode_extensions (e # es) = encode_extension e @ encode_extensions es"
  "encode_extensions (es @ es') = encode_extensions es @ encode_extensions es'"
  by (simp_all add: encode_extensions_def)

lemma length_encode_extension [simp]: "length (encode_extension (i, d)) = Suc (length d)"
  by (simp add: encode_extension_def)

lemma encode_extensions_empty: "length (encode_extensions es) = 0 \<longleftrightarrow> es = []"
  by (cases es) (auto simp: encode_extension_def split: prod.splits)

lemma entries_at_append:
  "entries_at off (es @ [(i, d)]) =
     entries_at off es @ [\<lparr>ei_id = i, ei_size = of_nat (length d), ei_offset = of_nat (off + length (encode_extensions es) + 1)\<rparr>]"
  by (induction off es rule: entries_at.induct) (auto simp: add.assoc)

lemma entries_at_ids: "map ei_id (entries_at off es) = map fst es"
  by (induction off es rule: entries_at.induct) auto

lemma extension_words_bounds:
  "length (encode_extensions es) \<le> 4 * extension_words es" "4 * extension_words es \<le> length (encode_extensions es) + 3"
  by (simp_all add: extension_words_def)

lemma length_extension_block:
  "length (extension_block es) = (if es = [] then 0 else 4 + 4 * extension_words es)"
  using extension_words_bounds(1) [of es] by (simp add: extension_block_def)

definition bare :: "rtp_description \<Rightarrow> bool" where
  "bare a \<longleftrightarrow> d_payload a = [] \<and> d_padding a = 0"

lemma bare_image: "bare a \<Longrightarrow> wire_image a = header_image a"
  by (simp add: bare_def wire_image_def padding_bytes_def)

definition block_header :: "(u8 \<times> byte list) list \<Rightarrow> byte list" where
  "block_header es =
     (if es = [] then replicate 4 0 else be16 kOneByteExtensionProfileId @ be16 (of_nat (extension_words es)))"

lemma full_memory:
  assumes "represents p a" "bare a" "extensions_start a + length (encode_extensions (d_extensions a)) \<le> rp_capacity p"
  defines "q \<equiv> rp_resize (rp_capacity p) p"
  shows "v_ok (rp_buf q)" "rp_capacity q = rp_capacity p" "v_size (rp_buf q) = rp_capacity p"
    "v_elems (rp_buf q) = fixed_header a @ concat (map be32 (d_csrcs a)) @ block_header (d_extensions a) @
       encode_extensions (d_extensions a) @
       replicate (rp_capacity p - extensions_start a - length (encode_extensions (d_extensions a))) 0"
proof -
  let ?es = "d_extensions a"
  have rep: "v_ok (rp_buf p)" "v_elems (rp_buf p) = header_image a"
    using assms(1) bare_image [OF assms(2)] by (simp_all add: represents_def holds_image_def)
  then have sz: "v_size (rp_buf p) = length (header_image a)"
    using v_elems_simps(1) by metis
  show "v_ok (rp_buf q)" "rp_capacity q = rp_capacity p" "v_size (rp_buf q) = rp_capacity p"
    unfolding q_def using rp_resize_buf [OF rep(1), of "rp_capacity p"] by simp_all
  have le: "length (header_image a) \<le> rp_capacity p"
    using v_size_capacity [OF rep(1)] sz by (simp add: rp_capacity_def)
  have "v_elems (rp_buf q) = header_image a @ replicate (rp_capacity p - length (header_image a)) 0"
    unfolding q_def using rp_resize_buf(3) [OF rep(1), of "rp_capacity p"] rep(2) sz le by simp
  also have "\<dots> = fixed_header a @ concat (map be32 (d_csrcs a)) @ block_header ?es @ encode_extensions ?es @
       replicate (rp_capacity p - extensions_start a - length (encode_extensions ?es)) 0"
  proof (cases "?es = []")
    case True
    then have "rp_capacity p - length (header_image a) = 4 + (rp_capacity p - extensions_start a)"
      using assms(3) by (simp add: header_image_def extension_block_def extensions_start_def)
    then show ?thesis
      using True by (simp add: header_image_def extension_block_def block_header_def replicate_add)
  next
    case False
    let ?pad = "4 * extension_words ?es - length (encode_extensions ?es)"
    have "length (header_image a) = extensions_start a + 4 * extension_words ?es"
      using False by (simp add: header_image_def length_extension_block extensions_start_def)
    then have "rp_capacity p - extensions_start a - length (encode_extensions ?es) =
        ?pad + (rp_capacity p - length (header_image a))"
      using le extension_words_bounds(1) [of ?es] by simp
    then show ?thesis
      using False by (simp add: header_image_def extension_block_def block_header_def replicate_add)
  qed
  finally show "v_elems (rp_buf q) = fixed_header a @ concat (map be32 (d_csrcs a)) @ block_header ?es @
       encode_extensions ?es @ replicate (rp_capacity p - extensions_start a - length (encode_extensions ?es)) 0" .
qed

lemma block_header_length [simp]: "length (block_header es) = 4"
  by (simp add: block_header_def)

lemma fixed_header_extended:
  "fixed_header (a\<lparr>d_extensions := es\<rparr>) =
     first_byte (d_padding a \<noteq> 0) (es \<noteq> []) (length (d_csrcs a)) # tl (fixed_header a)"
  by (simp add: fixed_header_def)

lemma fixed_header_Cons:
  "fixed_header a = first_byte (d_padding a \<noteq> 0) (d_extensions a \<noteq> []) (length (d_csrcs a)) # tl (fixed_header a)"
  "length (tl (fixed_header a)) = 11"
  by (simp_all add: fixed_header_def)

text \<open>The header of the block, written with the first extension.\<close>

lemma write_block_header:
  assumes "v_ok (rp_buf q)" "v_elems (rp_buf q) = fixed_header a @ concat (map be32 (d_csrcs a)) @ block_header (d_extensions a) @ rest"
    "rp_extensions_size q = length (encode_extensions (d_extensions a))" "rp_payload_offset q = length (header_image a)"
    "length (d_csrcs a) \<le> 15" "off = extensions_start a" "es \<noteq> []"
  shows "\<exists>v w. (if rp_extensions_size q = 0 then do {
             b0 \<leftarrow> read_at q 0;
             if rp_payload_offset q = kRtpHeaderSize + unat (b0 AND 0x0F) * 4 then do {
               p \<leftarrow> write_at 0 [b0 OR 0x10] q;
               write_at (off - 4) (be16 kOneByteExtensionProfileId) p }
             else None }
           else Some q) = Some (q\<lparr>rp_buf := v\<rparr>) \<and> v_ok v \<and> v_capacity v = v_capacity (rp_buf q) \<and> length w = 2 \<and>
    v_elems v = fixed_header (a\<lparr>d_extensions := es\<rparr>) @ concat (map be32 (d_csrcs a)) @
      be16 kOneByteExtensionProfileId @ w @ rest"
proof (cases "d_extensions a = []")
  case False
  then have "rp_extensions_size q \<noteq> 0"
    using assms(3) encode_extensions_empty by metis
  moreover have "fixed_header (a\<lparr>d_extensions := es\<rparr>) = fixed_header a"
    using False assms(7) by (simp add: fixed_header_def)
  ultimately show ?thesis
    using assms(1,2) False
    by (intro exI [of _ "rp_buf q"] exI [of _ "be16 (of_nat (extension_words (d_extensions a)))"]) (simp add: block_header_def)
next
  case True
  let ?cc = "length (d_csrcs a)" and ?C = "concat (map be32 (d_csrcs a))"
  let ?f0 = "first_byte (d_padding a \<noteq> 0) False ?cc" and ?f1 = "first_byte (d_padding a \<noteq> 0) True ?cc"
  let ?tl = "tl (fixed_header a)"
  have zero4: "block_header [] = [0, 0] @ [0, 0]"
    by (simp add: block_header_def numeral_eq_Suc)
  have el: "v_elems (rp_buf q) = [] @ [?f0] @ (?tl @ ?C @ block_header [] @ rest)"
    using assms(2) fixed_header_Cons(1) [of a] True by simp
  have b0: "read_at q 0 = Some ?f0"
    using read_at_elems [OF assms(1), of 0] el by simp
  from write_at_elems [OF assms(1) el, of "[?f1]" 0] obtain v where
    v: "write_at 0 [?f1] q = Some (q\<lparr>rp_buf := v\<rparr>)" "v_ok v" "v_elems v = ?f1 # ?tl @ ?C @ block_header [] @ rest"
      "v_capacity v = v_capacity (rp_buf q)"
    by auto
  have "v_elems v = (?f1 # ?tl @ ?C) @ [0, 0] @ ([0, 0] @ rest)" "length [0, 0 :: byte] = length (be16 kOneByteExtensionProfileId)"
    using v(3) zero4 by simp_all
  moreover have "off - 4 = length (?f1 # ?tl @ ?C)" "be16 kOneByteExtensionProfileId \<noteq> []"
    using assms(6) fixed_header_Cons(2) [of a] by (simp_all add: extensions_start_def be16_def)
  ultimately obtain w where
    w: "write_at (off - 4) (be16 kOneByteExtensionProfileId) (q\<lparr>rp_buf := v\<rparr>) = Some (q\<lparr>rp_buf := w\<rparr>)" "v_ok w"
      "v_elems w = (?f1 # ?tl @ ?C) @ be16 kOneByteExtensionProfileId @ [0, 0] @ rest" "v_capacity w = v_capacity v"
    by (rule write_again [OF v(2)])
  have guard: "rp_extensions_size q = 0" "rp_payload_offset q = kRtpHeaderSize + unat (?f0 AND 0x0F) * 4"
    using assms(3,4) True first_byte_simps(4) [OF assms(5)]
    by (simp_all add: header_image_def extension_block_def kRtpHeaderSize_def)
  show ?thesis
    using guard b0 v w first_byte_simps(5) [OF assms(5), of "d_padding a \<noteq> 0" False] assms(7)
    by (intro exI [of _ w] exI [of _ "[0, 0]"]) (simp add: fixed_header_extended)
qed

lemma write_extension_header_one_byte:
  assumes "v_ok (rp_buf q)" "v_elems (rp_buf q) = fixed_header a @ concat (map be32 (d_csrcs a)) @ block_header (d_extensions a) @
      encode_extensions (d_extensions a) @ replicate k 0" "0 < k"
    "rp_extensions_size q = length (encode_extensions (d_extensions a))" "rp_payload_offset q = length (header_image a)"
    "length (d_csrcs a) \<le> 15" "off = extensions_start a" "es \<noteq> []"
  shows "\<exists>v w. write_extension_header i n off kOneByteExtensionProfileId q = Some (q\<lparr>rp_buf := v\<rparr>) \<and> v_ok v \<and>
    v_capacity v = v_capacity (rp_buf q) \<and> length w = 2 \<and>
    v_elems v = fixed_header (a\<lparr>d_extensions := es\<rparr>) @ concat (map be32 (d_csrcs a)) @ be16 kOneByteExtensionProfileId @ w @
      encode_extensions (d_extensions a) @ [push_bit 4 (of_int i) OR of_nat (n - 1)] @ replicate (k - 1) 0"
proof -
  let ?pre = "fixed_header (a\<lparr>d_extensions := es\<rparr>) @ concat (map be32 (d_csrcs a)) @ be16 kOneByteExtensionProfileId"
  let ?E = "encode_extensions (d_extensions a)"
  obtain v w where vw: "(if rp_extensions_size q = 0 then do {
             b0 \<leftarrow> read_at q 0;
             if rp_payload_offset q = kRtpHeaderSize + unat (b0 AND 0x0F) * 4 then do {
               p \<leftarrow> write_at 0 [b0 OR 0x10] q;
               write_at (off - 4) (be16 kOneByteExtensionProfileId) p }
             else None }
           else Some q) = Some (q\<lparr>rp_buf := v\<rparr>)" "v_ok v" "v_capacity v = v_capacity (rp_buf q)" "length w = 2"
    "v_elems v = ?pre @ w @ ?E @ replicate k 0"
    using write_block_header [OF assms(1,2,4-8)] by auto
  have "v_elems v = (?pre @ w @ ?E) @ [0] @ replicate (k - 1) 0"
    using vw(5) assms(3) by (cases k) simp_all
  moreover have "length [0 :: byte] = length [push_bit 4 (of_int i :: byte) OR of_nat (n - 1)]"
    "off + length ?E = length (?pre @ w @ ?E)" "[push_bit 4 (of_int i :: byte) OR of_nat (n - 1)] \<noteq> []"
    using assms(7) vw(4) by (simp_all add: extensions_start_def)
  ultimately obtain u where u: "write_at (off + length ?E) [push_bit 4 (of_int i) OR of_nat (n - 1)] (q\<lparr>rp_buf := v\<rparr>) =
      Some (q\<lparr>rp_buf := u\<rparr>)" "v_ok u"
      "v_elems u = (?pre @ w @ ?E) @ [push_bit 4 (of_int i) OR of_nat (n - 1)] @ replicate (k - 1) 0" "v_capacity u = v_capacity v"
    by (rule write_again [OF vw(2)])
  have "write_extension_header i n off kOneByteExtensionProfileId q = Some (q\<lparr>rp_buf := u\<rparr>)"
    unfolding write_extension_header_def vw(1) using u(1) assms(4) by simp
  with u vw(3,4) show ?thesis
    by (intro exI [of _ u] exI [of _ w]) simp
qed

lemma write_nothing: "i < rp_capacity p \<Longrightarrow> write_at i [] p = Some p"
  by (simp add: write_at_def rp_capacity_def v_capacity_def)

lemma write_zeros:
  assumes "v_ok v" "v_elems v = xs @ replicate n 0 @ zs" "i = length xs" "i < v_capacity v"
  shows "\<exists>w. write_at i (replicate n 0) (q\<lparr>rp_buf := v\<rparr>) = Some (q\<lparr>rp_buf := w\<rparr>) \<and> v_ok w \<and>
    v_elems w = v_elems v \<and> v_capacity w = v_capacity v"
proof (cases n)
  case 0
  with assms write_nothing [of i "q\<lparr>rp_buf := v\<rparr>"] show ?thesis
    by (auto simp: rp_capacity_def)
next
  case (Suc m)
  then have "length (replicate n (0 :: byte)) = length (replicate n (0 :: byte))" "replicate n (0 :: byte) \<noteq> []"
    by simp_all
  then obtain w where "write_at i (replicate n 0) (q\<lparr>rp_buf := v\<rparr>) = Some (q\<lparr>rp_buf := w\<rparr>)" "v_ok w"
    "v_elems w = xs @ replicate n 0 @ zs" "v_capacity w = v_capacity v"
    by (rule write_again [OF assms(1,2) _ assms(3)])
  with assms(2) show ?thesis
    by auto
qed

lemma update_extension_size_elems:
  assumes "v_ok v" "v_elems v = pre @ w @ E @ replicate (4 * W - length E) 0 @ zs" "length pre + 2 = off - 2 + 2" "length w = 2"
    "off = length pre + 2" "rp_extensions_size p = length E" "W = (length E + 3) div 4" "W < 2 ^ 16" "off + 4 * W < v_capacity v"
  shows "\<exists>u. update_extension_size off (p\<lparr>rp_buf := v\<rparr>) = Some (4 * W, p\<lparr>rp_buf := u\<rparr>) \<and> v_ok u \<and>
    v_elems u = pre @ be16 (of_nat W) @ E @ replicate (4 * W - length E) 0 @ zs \<and> v_capacity u = v_capacity v"
proof -
  have le: "length E \<le> 4 * W"
    using assms(7) by simp
  have "length w = length (be16 (of_nat W))" "off - 2 = length pre" "be16 (of_nat W) \<noteq> []"
    using assms(4,5) by (simp_all add: be16_def)
  then obtain v1 where v1: "write_at (off - 2) (be16 (of_nat W)) (p\<lparr>rp_buf := v\<rparr>) = Some (p\<lparr>rp_buf := v1\<rparr>)" "v_ok v1"
    "v_elems v1 = pre @ be16 (of_nat W) @ E @ replicate (4 * W - length E) 0 @ zs" "v_capacity v1 = v_capacity v"
    by (rule write_again [OF assms(1,2)])
  have "v_elems v1 = (pre @ be16 (of_nat W) @ E) @ replicate (4 * W - length E) 0 @ zs"
    "off + length E = length (pre @ be16 (of_nat W) @ E)" "off + length E < v_capacity v1"
    using v1(3,4) assms(5,9) le by simp_all
  from write_zeros [OF v1(2) this, of p] obtain v2 where
    v2: "write_at (off + length E) (replicate (4 * W - length E) 0) (p\<lparr>rp_buf := v1\<rparr>) = Some (p\<lparr>rp_buf := v2\<rparr>)" "v_ok v2"
      "v_elems v2 = v_elems v1" "v_capacity v2 = v_capacity v1"
    by blast
  have "update_extension_size off (p\<lparr>rp_buf := v\<rparr>) = Some (4 * W, p\<lparr>rp_buf := v2\<rparr>)"
    unfolding update_extension_size_def using v1(1) v2(1) assms(6-8) by (simp add: Let_def)
  with v1 v2 show ?thesis
    by auto
qed

lemma encode_new: "encode_extensions (es @ [(i, d)]) = encode_extensions es @ [push_bit 4 i OR of_nat (length d - 1)] @ d"
  by (simp add: encode_extension_def)

lemma well_described_extended:
  fixes i :: int
  assumes "well_described a" "1 \<le> i" "i \<le> 14" "1 \<le> n" "n \<le> 16" "of_int i \<notin> fst ` set (d_extensions a)"
    "b = a\<lparr>d_extensions := d_extensions a @ [(of_int i, replicate n 0)]\<rparr>" "length (wire_image b) \<le> kIpPacketSize"
  shows "well_described b"
proof -
  have "uint (of_int i :: u8) = i"
    using assms(2,3) by (simp add: uint_word_of_int)
  then have "1 \<le> (of_int i :: u8)" "(of_int i :: u8) \<le> 14"
    using assms(2,3) by (simp_all add: word_le_def)
  with assms show ?thesis
    by (simp add: well_described_def one_byte_extension_def)
qed

lemma place_extension_one_byte:
  fixes i :: int and n :: nat
  assumes "represents p a" "bare a" "1 \<le> i" "i \<le> 14" "1 \<le> n" "n \<le> 16" "of_int i \<notin> fst ` set (d_extensions a)"
    "b = a\<lparr>d_extensions := d_extensions a @ [(of_int i, replicate n 0)]\<rparr>"
    "length (wire_image b) < rp_capacity p" "rp_capacity p \<le> kIpPacketSize" "off = extensions_start a"
    "d = off + length (encode_extensions (d_extensions a)) + 1"
  shows "\<exists>q. place_extension i n off kOneByteExtensionProfileId (rp_resize (rp_capacity p) p) = Some (Some (d, n), q) \<and>
    represents q b \<and> rp_capacity q = rp_capacity p \<and> rp_extension_map q = rp_extension_map p"
proof -
  define q where "q = rp_resize (rp_capacity p) p"
  define E where "E = encode_extensions (d_extensions a)"
  define E' where "E' = encode_extensions (d_extensions b)"
  define W where "W = extension_words (d_extensions b)"
  define cap where "cap = rp_capacity p"
  let ?hdr = "push_bit 4 (of_int i :: byte) OR of_nat (n - 1)" and ?C = "concat (map be32 (d_csrcs a))"
  have nonempty: "d_extensions b \<noteq> []" and bb: "bare b" and csb: "d_csrcs b = d_csrcs a"
    using assms(2,8) by (simp_all add: bare_def)
  have E': "E' = E @ [?hdr] @ replicate n 0"
    unfolding E'_def E_def assms(8) by (simp add: encode_extension_def)
  have lenE': "length E' = length E + 1 + n" "W = (length E' + 3) div 4" "length E' \<le> 4 * W"
    using E' extension_words_bounds(1) [of "d_extensions b"] by (simp_all add: W_def extension_words_def E'_def)
  have imgb: "wire_image b = fixed_header b @ ?C @ be16 kOneByteExtensionProfileId @ be16 (of_nat W) @ E' @ replicate (4 * W - length E') 0"
    using bare_image [OF bb] nonempty csb by (simp add: header_image_def extension_block_def W_def E'_def)
  have fit: "off + 4 * W < cap" "cap \<le> 1500"
    using assms(9,10,11) imgb lenE'(3) by (simp_all add: extensions_start_def cap_def kIpPacketSize_def)
  have room: "extensions_start a + length (encode_extensions (d_extensions a)) \<le> rp_capacity p"
    using fit lenE'(1,3) assms(11) by (simp add: E_def cap_def)
  note full = full_memory [OF assms(1,2) room, folded q_def cap_def E_def]
  have rep: "fields_match p a" "well_described a"
    using assms(1) by (simp_all add: represents_def)
  have q: "rp_extensions_size q = length E" "rp_payload_offset q = length (header_image a)" "length (d_csrcs a) \<le> 15"
    using rep by (simp_all add: q_def fields_match_def E_def well_described_def)
  have k: "cap - extensions_start a - length E - 1 = n + ((4 * W - length E') + (cap - off - 4 * W))" "0 < cap - extensions_start a - length E"
    using fit lenE' assms(11) by simp_all
  obtain v w where vw: "write_extension_header i n off kOneByteExtensionProfileId q = Some (q\<lparr>rp_buf := v\<rparr>)" "v_ok v"
    "v_capacity v = v_capacity (rp_buf q)" "length w = 2"
    "v_elems v = fixed_header b @ ?C @ be16 kOneByteExtensionProfileId @ w @ E @ [?hdr] @ replicate (cap - extensions_start a - length E - 1) 0"
    using write_extension_header_one_byte [OF full(1) full(4) [unfolded E_def] k(2) [unfolded E_def] q(1) [unfolded E_def] q(2,3) assms(11), of "d_extensions b" i n]
      nonempty assms(8) unfolding E_def by auto
  define r where "r = q\<lparr>rp_extension_entries := rp_extension_entries q @
      [\<lparr>ei_id = of_int i, ei_size = of_nat n, ei_offset = of_nat (off + length E + 1)\<rparr>], rp_extensions_size := length E'\<rparr>"
  let ?pre = "fixed_header b @ ?C @ be16 kOneByteExtensionProfileId" and ?zs = "replicate (cap - off - 4 * W) (0 :: byte)"
  have split: "v_elems v = ?pre @ w @ E' @ replicate (4 * W - length E') 0 @ ?zs"
    using vw(5) k(1) E' by (simp add: replicate_add)
  have capv: "v_capacity v = cap"
    using vw(3) full(2) by (simp add: rp_capacity_def cap_def)
  have pos: "off = length ?pre + 2" "length ?pre + 2 = off - 2 + 2"
    using assms(11) by (simp_all add: extensions_start_def)
  have small: "W < 2 ^ 16" "off + 4 * W < v_capacity v" "rp_extensions_size r = length E'"
    using fit capv by (simp_all add: r_def)
  obtain u where u: "update_extension_size off (r\<lparr>rp_buf := v\<rparr>) = Some (4 * W, r\<lparr>rp_buf := u\<rparr>)" "v_ok u"
    "v_elems u = ?pre @ be16 (of_nat W) @ E' @ replicate (4 * W - length E') 0 @ ?zs" "v_capacity u = cap"
    using update_extension_size_elems [OF vw(2) split pos(2) vw(4) pos(1) small(3) lenE'(2) small(1,2)] capv by auto
  have imgu: "v_elems u = wire_image b @ ?zs" and lenb: "length (wire_image b) = off + 4 * W"
    using u(3) imgb lenE'(3) pos(1) by simp_all
  define s where "s = rp_resize (off + 4 * W) (r\<lparr>rp_buf := u, rp_payload_offset := off + 4 * W\<rparr>)"
  have szu: "v_size u = cap"
    using v_elems_simps(1) [OF u(2)] imgu lenb fit(1) by simp
  have s: "v_ok (rp_buf s)" "v_elems (rp_buf s) = wire_image b" "rp_capacity s = cap"
    unfolding s_def using rp_resize_buf [of "r\<lparr>rp_buf := u, rp_payload_offset := off + 4 * W\<rparr>" "off + 4 * W"] u(2,4) imgu lenb fit(1) szu
    by (simp_all add: rp_capacity_def)
  have move: "q\<lparr>rp_buf := x, rp_extension_entries := rp_extension_entries q @
      [\<lparr>ei_id = of_int i, ei_size = of_nat n, ei_offset = of_nat (off + length E + 1)\<rparr>], rp_extensions_size := length E'\<rparr> =
      r\<lparr>rp_buf := x\<rparr>" for x
    by (cases q) (simp add: r_def)
  have upd: "update_extension_size off (q\<lparr>rp_buf := v, rp_extension_entries := rp_extension_entries q @
      [\<lparr>ei_id = of_int i, ei_size = of_nat n, ei_offset = of_nat (off + length E + 1)\<rparr>], rp_extensions_size := length E'\<rparr>) =
      Some (4 * W, r\<lparr>rp_buf := u\<rparr>)"
    using u(1) by (simp only: move)
  have bounds: "off + length E + 1 + n \<le> rp_capacity q" "off + length E + 1 < 2 ^ 16" "off + length E + 1 < rp_capacity s"
    using lenE' fit full(2) s(3) assms(5) by (simp_all add: cap_def)
  have "place_extension i n off kOneByteExtensionProfileId q = Some (Some (off + length E + 1, n), s)"
    unfolding place_extension_def using upd bounds by (simp add: vw(1) q(1) lenE'(1) s_def)
  moreover have "fields_match s b"
    using rep(1) lenb bare_image [OF bb] assms(8,11) unfolding s_def r_def q_def E'_def E_def
    by (simp add: fields_match_def entries_at_append extensions_start_def)
  moreover have "well_described b"
    using well_described_extended [OF rep(2) assms(3-8)] assms(9,10) by simp
  ultimately show ?thesis
    using s assms(12) by (simp add: represents_def holds_image_def cap_def q_def r_def s_def E_def)
qed


lemma extension_absent:
  assumes "of_int i \<notin> fst ` set es"
  shows "find_extension_info i (entries_at off es) = None"
proof -
  have "i \<noteq> uint (ei_id e)" if "e \<in> set (entries_at off es)" for e
  proof
    assume "i = uint (ei_id e)"
    then have "of_int i = ei_id e"
      by simp
    moreover have "ei_id e \<in> set (map fst es)"
      using that entries_at_ids [of off es] by (metis image_eqI set_map)
    ultimately show False
      using assms by simp
  qed
  then show ?thesis
    by (auto simp: find_extension_info_def find_None_iff)
qed

lemma allocate_raw_extension_one_byte:
  fixes i :: int and n :: nat
  assumes "represents p a" "bare a" "1 \<le> i" "i \<le> 14" "1 \<le> n" "n \<le> 16" "of_int i \<notin> fst ` set (d_extensions a)"
    "b = a\<lparr>d_extensions := d_extensions a @ [(of_int i, replicate n 0)]\<rparr>"
    "length (wire_image b) < rp_capacity p" "rp_capacity p \<le> kIpPacketSize"
  shows "\<exists>q. allocate_raw_extension i n p =
      Some (Some (extensions_start a + length (encode_extensions (d_extensions a)) + 1, n), q) \<and>
    represents q b \<and> rp_capacity q = rp_capacity p \<and> rp_extension_map q = rp_extension_map p"
proof -
  let ?off = "extensions_start a" and ?q = "rp_resize (rp_capacity p) p"
  have rep: "fields_match p a" "well_described a"
    using assms(1) by (simp_all add: represents_def)
  then have cc: "length (d_csrcs a) \<le> 15"
    by (simp add: well_described_def)
  have "length (extension_block (d_extensions b)) = 4 + 4 * extension_words (d_extensions b)"
    using assms(8) by (simp add: length_extension_block)
  then have "extensions_start a + length (encode_extensions (d_extensions b)) \<le> length (wire_image b)"
    using extension_words_bounds(1) [of "d_extensions b"] assms(8)
    by (simp add: wire_image_def header_image_def extensions_start_def)
  then have room: "extensions_start a + length (encode_extensions (d_extensions a)) \<le> rp_capacity p"
    using assms(8,9) by simp
  note full = full_memory [OF assms(1,2) room]
  have mem: "v_mem (rp_buf ?q) = v_elems (rp_buf ?q)"
    using full(1-3) by (simp add: v_elems_def rp_capacity_def v_capacity_def)
  have first: "read_at ?q 0 = Some (first_byte (d_padding a \<noteq> 0) (d_extensions a \<noteq> []) (length (d_csrcs a)))"
    using read_at_elems [OF full(1), of 0] full(4) by (simp add: fixed_header_def)
  have off: "kRtpHeaderSize + unat (first_byte (d_padding a \<noteq> 0) (d_extensions a \<noteq> []) (length (d_csrcs a)) AND 0x0F) * 4 + 4 = ?off"
    using first_byte_simps(4) [OF cc] by (simp add: kRtpHeaderSize_def extensions_start_def)
  have profile: "read_be16 (v_mem (rp_buf ?q)) (?off - 4) = Some kOneByteExtensionProfileId" if "0 < rp_extensions_size ?q"
  proof -
    have "d_extensions a \<noteq> []"
      using that rep(1) by (auto simp: fields_match_def)
    then have "v_mem (rp_buf ?q) = (fixed_header a @ concat (map be32 (d_csrcs a))) @ be16 kOneByteExtensionProfileId @
        (be16 (of_nat (extension_words (d_extensions a))) @ encode_extensions (d_extensions a) @
         replicate (rp_capacity p - extensions_start a - length (encode_extensions (d_extensions a))) 0)"
      using full(4) mem by (simp add: block_header_def)
    moreover have "?off - 4 = length (fixed_header a @ concat (map be32 (d_csrcs a)))"
      by (simp add: extensions_start_def)
    ultimately show ?thesis
      by (simp only: read_append le_refl diff_self_eq_0 read_here)
  qed
  obtain q where q: "place_extension i n ?off kOneByteExtensionProfileId ?q =
      Some (Some (?off + length (encode_extensions (d_extensions a)) + 1, n), q)"
      "represents q b" "rp_capacity q = rp_capacity p" "rp_extension_map q = rp_extension_map p"
    using place_extension_one_byte [OF assms refl refl] by blast
  have guards: "find_extension_info i (rp_extension_entries p) = None" "rp_payload_size p = 0" "rp_padding_size p = 0"
    using rep(1) assms(2) extension_absent [OF assms(7)] by (simp_all add: fields_match_def bare_def)
  have "allocate_raw_extension i n p = place_extension i n ?off kOneByteExtensionProfileId ?q"
    unfolding allocate_raw_extension_def using guards assms(3-6) first off profile
    by (simp add: kMinId_def kMaxId_def Let_def)
  with q show ?thesis
    by auto
qed


text \<open>The data of the last extension, in its place.\<close>

lemma image_last_extension:
  assumes "bare a"
  obtains pre post where "length pre = extensions_start a + length (encode_extensions (d_extensions a)) + 1"
    "\<And>d. length d = n \<Longrightarrow> wire_image (a\<lparr>d_extensions := d_extensions a @ [(i, d)]\<rparr>) = pre @ d @ post"
proof -
  let ?E = "encode_extensions (d_extensions a)"
  define W where "W = (length ?E + 1 + n + 3) div 4"
  show thesis
  proof (rule that [of "fixed_header (a\<lparr>d_extensions := [(i, [])]\<rparr>) @ concat (map be32 (d_csrcs a)) @
      be16 kOneByteExtensionProfileId @ be16 (of_nat W) @ ?E @ [push_bit 4 i OR of_nat (n - 1)]"
      "replicate (4 * W - (length ?E + 1 + n)) 0"])
    fix d :: "byte list" assume "length d = n"
    then show "wire_image (a\<lparr>d_extensions := d_extensions a @ [(i, d)]\<rparr>) = (fixed_header (a\<lparr>d_extensions := [(i, [])]\<rparr>) @ concat (map be32 (d_csrcs a)) @
        be16 kOneByteExtensionProfileId @ be16 (of_nat W) @ ?E @ [push_bit 4 i OR of_nat (n - 1)]) @ d @
        replicate (4 * W - (length ?E + 1 + n)) 0"
      using assms by (simp add: bare_image [unfolded bare_def] bare_def header_image_def extension_block_def extension_words_def W_def
          encode_extension_def fixed_header_extended)
  qed (simp add: extensions_start_def)
qed

lemma write_last_extension:
  assumes "represents q (a\<lparr>d_extensions := d_extensions a @ [(i, ds)]\<rparr>)" "bare a" "length bs = length ds" "bs \<noteq> []"
    "off = extensions_start a + length (encode_extensions (d_extensions a)) + 1"
  shows "rd_bytes (v_mem (rp_buf q)) off (length ds) = Some ds"
    and "refines_to q (write_at off bs q) (a\<lparr>d_extensions := d_extensions a @ [(i, bs)]\<rparr>)"
proof -
  let ?b = "a\<lparr>d_extensions := d_extensions a @ [(i, ds)]\<rparr>" and ?c = "a\<lparr>d_extensions := d_extensions a @ [(i, bs)]\<rparr>"
  obtain pre post where img: "length pre = off" "wire_image ?b = pre @ ds @ post" "wire_image ?c = pre @ bs @ post"
    using image_last_extension [OF assms(2), of "length ds" i thesis] assms(3,5) by auto
  have rep: "v_ok (rp_buf q)" "v_elems (rp_buf q) = pre @ ds @ post" "fields_match q ?b" "well_described ?b"
    using assms(1) img(2) by (simp_all add: represents_def holds_image_def)
  then have "v_mem (rp_buf q) = pre @ ds @ post @ drop (v_size (rp_buf q)) (v_mem (rp_buf q))"
    by (metis append.assoc append_take_drop_id v_elems_def)
  then show "rd_bytes (v_mem (rp_buf q)) off (length ds) = Some ds"
    using img(1) by (metis diff_self_eq_0 le_refl rd_bytes_append rd_bytes_here)
  have bare: "bare ?b" "bare ?c"
    using assms(2) by (simp_all add: bare_def)
  have len: "length (wire_image ?c) = length (wire_image ?b)"
    using img(2,3) assms(3) by simp
  then have "length (header_image ?c) = length (header_image ?b)"
    by (simp only: bare_image [OF bare(1), symmetric] bare_image [OF bare(2), symmetric])
  then have "fields_match q ?c"
    using rep(3) assms(3) by (simp add: fields_match_def entries_at_append extensions_start_def)
  moreover have "well_described ?c"
    using rep(4) assms(3) len by (simp add: well_described_def one_byte_extension_def)
  ultimately have "fields_match q ?c \<and> well_described ?c"
    by simp
  with write_at_elems [OF rep(1,2) assms(3) [symmetric] img(1) [symmetric] assms(4)] img(3)
  show "refines_to q (write_at off bs q) ?c"
    by (auto simp: refines_to_def represents_def holds_image_def rp_capacity_def)
qed


lemma ext_value_size_bounds: "ext_valid v \<Longrightarrow> 1 \<le> ext_value_size v \<and> ext_value_size v \<le> 16"
  by (cases v) (auto simp: text_valid_def abs_capture_value_size_def transport_seq_v2_value_size_def Suc_le_eq split: option.splits)

definition encoded_value :: "ext_value \<Rightarrow> byte list" where
  "encoded_value v = (case ext_write (replicate (ext_value_size v) 0) v of Some (Some bs) \<Rightarrow> bs | _ \<Rightarrow> [])"

lemma encoded_value:
  assumes "ext_valid v"
  shows "ext_write (replicate (ext_value_size v) 0) v = accept (encoded_value v)" "length (encoded_value v) = ext_value_size v"
    "ext_parse (ext_type v) (encoded_value v) = accept (ext_received v)"
proof -
  obtain bs where bs: "ext_write (replicate (ext_value_size v) 0) v = accept bs" "length bs = ext_value_size v"
    using ext_write_accepts [OF assms, of "replicate (ext_value_size v) 0"] by auto
  then show "ext_write (replicate (ext_value_size v) 0) v = accept (encoded_value v)" "length (encoded_value v) = ext_value_size v"
    by (simp_all add: encoded_value_def)
  with ext_parse_written [OF assms] show "ext_parse (ext_type v) (encoded_value v) = accept (ext_received v)"
    by blast
qed

definition usable :: "extension_map \<Rightarrow> ext_value \<Rightarrow> bool" where
  "usable em v \<longleftrightarrow> ext_valid v \<and> 1 \<le> em_get_id em (ext_type v) \<and> em_get_id em (ext_type v) \<le> 14"

definition extension_of :: "extension_map \<Rightarrow> ext_value \<Rightarrow> u8 \<times> byte list" where
  "extension_of em v = (em_get_id em (ext_type v), encoded_value v)"

lemma set_extension_refines:
  assumes "represents p a" "bare a" "rp_extension_map p = em" "usable em v" "em_get_id em (ext_type v) \<notin> fst ` set (d_extensions a)"
    "b = a\<lparr>d_extensions := d_extensions a @ [extension_of em v]\<rparr>" "length (wire_image b) < rp_capacity p" "rp_capacity p \<le> kIpPacketSize"
  shows "\<exists>q. set_extension v p = Some (True, q) \<and> represents q b \<and> rp_capacity q = rp_capacity p \<and> rp_extension_map q = em"
proof -
  define i where "i = em_get_id em (ext_type v)"
  define n where "n = ext_value_size v"
  let ?b0 = "a\<lparr>d_extensions := d_extensions a @ [(of_int (uint i), replicate n 0)]\<rparr>"
  let ?off = "extensions_start a + length (encode_extensions (d_extensions a)) + 1"
  have v: "ext_valid v" "1 \<le> i" "i \<le> 14"
    using assms(4) by (simp_all add: usable_def i_def)
  then have i: "1 \<le> uint i" "uint i \<le> 14" "of_int (uint i) = i" "i \<noteq> kInvalidId"
    by (auto simp: word_le_def kInvalidId_def)
  have small: "unat i \<le> 14"
    using v(3) by (simp add: word_le_nat_alt)
  have n: "1 \<le> n" "n \<le> 16"
    using ext_value_size_bounds [OF v(1)] by (simp_all add: n_def)
  have b: "b = a\<lparr>d_extensions := d_extensions a @ [(i, encoded_value v)]\<rparr>"
    using assms(6) by (simp add: extension_of_def i_def)
  have len: "length (wire_image ?b0) < rp_capacity p"
    using assms(7) b encoded_value(2) [OF v(1)] i(3)
    by (simp add: n_def wire_image_def header_image_def length_extension_block extension_words_def)
  obtain q where q: "allocate_raw_extension (uint i) n p = Some (Some (?off, n), q)" "represents q ?b0" "rp_capacity q = rp_capacity p"
    "rp_extension_map q = rp_extension_map p"
    using allocate_raw_extension_one_byte [OF assms(1,2) i(1,2) n _ refl len assms(8)] assms(5) i(3) by (auto simp: i_def)
  have alloc: "allocate_extension (ext_type v) n p = Some (Some (?off, n), q)"
    using q(1) n i(4) small assms(3) by (simp add: allocate_extension_def i_def Let_def)
  have rep: "represents q (a\<lparr>d_extensions := d_extensions a @ [(i, replicate n 0)]\<rparr>)"
    using q(2) i(3) by simp
  have bs: "length (encoded_value v) = length (replicate n (0 :: byte))" "encoded_value v \<noteq> []"
    using encoded_value(2) [OF v(1)] n by (auto simp: n_def)
  note put = write_last_extension [OF rep assms(2) bs refl]
  obtain r where r: "write_at ?off (encoded_value v) q = Some r" "represents r b" "rp_capacity r = rp_capacity q" "rp_extension_map r = rp_extension_map q"
    using put(2) b by (auto simp: refines_to_def split: option.splits)
  have "set_extension v p = Some (True, r)"
    unfolding set_extension_def using alloc put(1) encoded_value(1) [OF v(1)] r(1) n by (simp add: n_def)
  with r q(3,4) assms(3) show ?thesis
    by auto
qed


text \<open>A sender sets one extension after the other.\<close>

fun set_extensions :: "ext_value list \<Rightarrow> rtp_packet \<Rightarrow> rtp_packet option" where
  "set_extensions [] p = Some p"
| "set_extensions (v # vs) p = do { (ok, p) \<leftarrow> set_extension v p; if ok then set_extensions vs p else None }"

lemma image_length_extend:
  "length (wire_image (a\<lparr>d_extensions := es\<rparr>)) \<le> length (wire_image (a\<lparr>d_extensions := es @ es'\<rparr>))"
  by (auto simp: wire_image_def header_image_def length_extension_block extension_words_def div_le_mono)

lemma set_extensions_refine:
  assumes "represents p a" "bare a" "rp_extension_map p = em" "list_all (usable em) vs"
    "distinct (map fst (d_extensions a) @ map (em_get_id em \<circ> ext_type) vs)"
    "length (wire_image (a\<lparr>d_extensions := d_extensions a @ map (extension_of em) vs\<rparr>)) < rp_capacity p" "rp_capacity p \<le> kIpPacketSize"
  shows "refines_to p (set_extensions vs p) (a\<lparr>d_extensions := d_extensions a @ map (extension_of em) vs\<rparr>)"
  using assms
proof (induction vs arbitrary: p a)
  case Nil
  then show ?case
    by (simp add: refines_to_def)
next
  case (Cons v vs)
  let ?b = "a\<lparr>d_extensions := d_extensions a @ [extension_of em v]\<rparr>"
  have "length (wire_image ?b) < rp_capacity p"
    using Cons.prems(6) image_length_extend [of "d_extensions a @ [extension_of em v]" a "map (extension_of em) vs"] by simp
  moreover have "em_get_id em (ext_type v) \<notin> fst ` set (d_extensions a)" "usable em v"
    using Cons.prems(4,5) by auto
  ultimately obtain q where q: "set_extension v p = Some (True, q)" "represents q ?b" "rp_capacity q = rp_capacity p" "rp_extension_map q = em"
    using set_extension_refines [OF Cons.prems(1-3) _ _ refl _ Cons.prems(7)] by blast
  have "refines_to q (set_extensions vs q) (?b\<lparr>d_extensions := d_extensions ?b @ map (extension_of em) vs\<rparr>)"
    by (rule Cons.IH) (use Cons.prems q in \<open>auto simp: bare_def extension_of_def\<close>)
  with q Cons.prems(3) show ?case
    by (auto simp: refines_to_def split: option.splits)
qed

section \<open>Payload and padding of a built packet\<close>

text \<open>A sender asks for the room of the payload and copies the payload there.\<close>

definition put_payload :: "byte list \<Rightarrow> rtp_packet \<Rightarrow> rtp_packet option" where
  "put_payload bs p = do {
     (ptr, p) \<leftarrow> set_payload_size (length bs) p;
     case ptr of None \<Rightarrow> None | Some off \<Rightarrow> write_at off bs p }"

lemma put_payload_refines:
  assumes "represents p a" "bare a" "b = a\<lparr>d_payload := bs\<rparr>" "length (wire_image b) \<le> rp_capacity p"
    "length (wire_image a) < rp_capacity p" "rp_capacity p \<le> kIpPacketSize"
  shows "refines_to p (put_payload bs p) b"
proof -
  let ?H = "header_image a" and ?n = "length bs"
  define q where "q = rp_resize (length ?H + ?n) (p\<lparr>rp_payload_size := ?n\<rparr>)"
  have rep: "v_ok (rp_buf p)" "v_elems (rp_buf p) = ?H" "fields_match p a" "well_described a"
    using assms(1) bare_image [OF assms(2)] by (simp_all add: represents_def holds_image_def)
  have img: "wire_image b = ?H @ bs" "header_image b = ?H"
    using assms(2,3) by (simp_all add: bare_def wire_image_def padding_bytes_def header_image_def fixed_header_def)
  have fit: "length ?H + ?n \<le> rp_capacity p" "length ?H < rp_capacity p"
    using assms(4,5) img(1) bare_image [OF assms(2)] by simp_all
  have "v_size (rp_buf p) = length ?H"
    using v_elems_simps(1) [OF rep(1)] rep(2) by simp
  then have q: "v_ok (rp_buf q)" "v_elems (rp_buf q) = ?H @ replicate ?n 0" "rp_capacity q = rp_capacity p"
    using rp_resize_buf [of "p\<lparr>rp_payload_size := ?n\<rparr>" "length ?H + ?n"] rep(1,2) fit(1) by (simp_all add: rp_capacity_def q_def)
  have match: "rp_payload_offset p = length ?H" "rp_padding_size p = 0"
    using rep(3) assms(2) by (simp_all add: fields_match_def bare_def)
  have size: "set_payload_size ?n p = Some (Some (length ?H), q)"
    using match fit q(3) by (simp add: set_payload_size_def q_def)
  have "fields_match q b"
    using rep(3) img(2) assms(3) by (simp add: q_def fields_match_def extensions_start_def)
  moreover have "well_described b"
    using rep(4) assms(3,4,6) by (simp add: well_described_def)
  moreover obtain v where "write_at (length ?H) bs q = Some (q\<lparr>rp_buf := v\<rparr>)" "v_ok v" "v_elems v = ?H @ bs" "v_capacity v = v_capacity (rp_buf q)"
  proof (cases "bs = []")
    case True
    with that [of "rp_buf q"] q fit(2) show thesis
      using write_nothing [of "length ?H" q] by simp
  next
    case False
    with write_at_elems [OF q(1), of ?H "replicate ?n 0" "[]" bs "length ?H"] q(2) that show thesis
      by auto
  qed
  ultimately show ?thesis
    using size q(3) img(1) by (simp add: put_payload_def refines_to_def represents_def holds_image_def rp_capacity_def q_def)
qed


lemma set_has_padding_elems:
  assumes "v_ok (rp_buf p)" "v_elems (rp_buf p) = first_byte False ext cc # rest" "cc \<le> 15"
  shows "\<exists>v. set_has_padding x p = Some (p\<lparr>rp_has_padding := x, rp_buf := v\<rparr>) \<and> v_ok v \<and>
    v_elems v = first_byte x ext cc # rest \<and> v_capacity v = v_capacity (rp_buf p)"
proof -
  let ?p = "p\<lparr>rp_has_padding := x\<rparr>"
  have p: "v_ok (rp_buf ?p)" "v_elems (rp_buf ?p) = [] @ [first_byte False ext cc] @ rest" "read_at ?p 0 = Some (first_byte False ext cc)"
    using assms read_at_elems [OF assms(1), of 0] by (simp_all add: read_at_def)
  have "set_has_padding x p = write_at 0 [first_byte x ext cc] ?p"
    using p(3) first_byte_simps(6,7) [OF assms(3), of False ext] by (simp add: set_has_padding_def)
  with write_at_elems [OF p(1,2), of "[first_byte x ext cc]" 0] show ?thesis
    by auto
qed

lemma padding_written:
  assumes "v_ok (rp_buf q)" "v_elems (rp_buf q) = B @ replicate (unat n) 0" "0 < n" "off = length B"
  shows "\<exists>v. (do { p \<leftarrow> write_at off (replicate (unat n) 0) q; write_at (off + unat n - 1) [n] p }) = Some (q\<lparr>rp_buf := v\<rparr>) \<and>
    v_ok v \<and> v_elems v = B @ padding_bytes n \<and> v_capacity v = v_capacity (rp_buf q)"
proof -
  have pos: "0 < unat n"
    using assms(3) by (simp add: word_less_nat_alt)
  obtain v where v: "write_at off (replicate (unat n) 0) q = Some (q\<lparr>rp_buf := v\<rparr>)" "v_ok v" "v_elems v = B @ replicate (unat n) 0"
    "v_capacity v = v_capacity (rp_buf q)"
    using write_at_elems [OF assms(1), of B "replicate (unat n) 0" "[]" "replicate (unat n) 0" off] assms(2,4) pos by auto
  have "replicate (unat n) (0 :: byte) = replicate (unat n - 1) 0 @ [0]"
    using pos by (metis Suc_diff_1 replicate_Suc replicate_append_same)
  then have "v_elems v = (B @ replicate (unat n - 1) 0) @ [0] @ []" "length [0 :: byte] = length [n]"
    "off + unat n - 1 = length (B @ replicate (unat n - 1) 0)" "[n] \<noteq> []"
    using v(3) assms(4) pos by simp_all
  then obtain w where "write_at (off + unat n - 1) [n] (q\<lparr>rp_buf := v\<rparr>) = Some (q\<lparr>rp_buf := w\<rparr>)" "v_ok w"
    "v_elems w = (B @ replicate (unat n - 1) 0) @ [n] @ []" "v_capacity w = v_capacity v"
    by (rule write_again [OF v(2)])
  with v assms(3) show ?thesis
    by (auto simp: padding_bytes_def)
qed

lemma set_padding_refines:
  assumes "represents p a" "d_padding a = 0" "b = a\<lparr>d_padding := n\<rparr>" "length (wire_image b) \<le> rp_capacity p" "rp_capacity p \<le> kIpPacketSize"
  shows "\<exists>q. set_padding n p = Some (True, q) \<and> represents q b \<and> rp_capacity q = rp_capacity p \<and> rp_extension_map q = rp_extension_map p"
proof -
  let ?B = "wire_image a" and ?ext = "d_extensions a \<noteq> []" and ?cc = "length (d_csrcs a)"
  define q where "q = rp_resize (length ?B + unat n) (p\<lparr>rp_padding_size := n\<rparr>)"
  have rep: "v_ok (rp_buf p)" "v_elems (rp_buf p) = ?B" "fields_match p a" "well_described a" "?cc \<le> 15"
    using assms(1) by (simp_all add: represents_def holds_image_def well_described_def)
  define rest where "rest = tl ?B"
  have B: "?B = first_byte False ?ext ?cc # rest"
    using assms(2) by (simp add: rest_def wire_image_def header_image_def fixed_header_def)
  have pad: "length (padding_bytes n) = unat n"
    using word_less_nat_alt [of 0 n] by (auto simp: padding_bytes_def word_neq_0_conv)
  have imgb: "wire_image b = first_byte (n \<noteq> 0) ?ext ?cc # rest @ padding_bytes n"
    using assms(2,3) by (simp add: rest_def wire_image_def header_image_def fixed_header_def padding_bytes_def)
  have fit: "length ?B + unat n \<le> rp_capacity p"
    using assms(4) imgb B pad by simp
  have "v_size (rp_buf p) = length ?B"
    using v_elems_simps(1) [OF rep(1)] rep(2) by simp
  then have q: "v_ok (rp_buf q)" "v_elems (rp_buf q) = ?B @ replicate (unat n) 0" "rp_capacity q = rp_capacity p"
    using rp_resize_buf [of "p\<lparr>rp_padding_size := n\<rparr>" "length ?B + unat n"] rep(1,2) fit by (simp_all add: rp_capacity_def q_def)
  have at: "rp_payload_offset p + rp_payload_size p = length ?B"
    using rep(3) assms(2) by (simp add: fields_match_def wire_image_def padding_bytes_def)
  obtain v where v: "(if n > 0 then do { r \<leftarrow> write_at (length ?B) (replicate (unat n) 0) q; write_at (length ?B + unat n - 1) [n] r }
      else Some q) = Some (q\<lparr>rp_buf := v\<rparr>)" "v_ok v" "v_elems v = ?B @ padding_bytes n" "v_capacity v = v_capacity (rp_buf q)"
  proof (cases "n > 0")
    case True
    with padding_written [OF q(1,2) True refl] that show thesis
      by auto
  next
    case False
    then have "n = 0"
      using word_neq_0_conv by blast
    with that [of "rp_buf q"] q show thesis
      by (simp add: padding_bytes_def)
  qed
  have "v_ok (rp_buf (q\<lparr>rp_buf := v\<rparr>))" "v_elems (rp_buf (q\<lparr>rp_buf := v\<rparr>)) = first_byte False ?ext ?cc # (rest @ padding_bytes n)"
    using v(2,3) B by simp_all
  from set_has_padding_elems [OF this rep(5), of "n > 0"] obtain w where
    w: "set_has_padding (n > 0) (q\<lparr>rp_buf := v\<rparr>) = Some (q\<lparr>rp_has_padding := (n > 0), rp_buf := w\<rparr>)" "v_ok w"
      "v_elems w = wire_image b" "v_capacity w = v_capacity v"
    using imgb by (auto simp: word_neq_0_conv)
  have "set_padding n p = Some (True, q\<lparr>rp_has_padding := (n > 0), rp_buf := w\<rparr>)"
    using v(1) w(1) fit at unfolding set_padding_def
    by (cases "n > 0") (auto simp: q_def Let_def bind_eq_Some_conv)
  moreover have "header_image b = first_byte (n \<noteq> 0) ?ext ?cc # tl (header_image a)" "length (header_image a) > 0"
    using assms(2,3) by (simp_all add: header_image_def fixed_header_def)
  then have "fields_match (q\<lparr>rp_has_padding := (n > 0), rp_buf := w\<rparr>) b"
    using rep(3) assms(3) by (simp add: q_def fields_match_def extensions_start_def)
  moreover have "well_described b"
    using rep(4) assms(3-5) by (simp add: well_described_def)
  ultimately show ?thesis
    using w v(4) q(3) by (simp add: represents_def holds_image_def rp_capacity_def q_def)
qed

section \<open>Parsing the image\<close>

lemma extension_header_nibbles:
  fixes i :: byte
  assumes "i \<le> 14" "1 \<le> i" "m \<le> 15"
  shows "drop_bit 4 (push_bit 4 i OR of_nat m) = i" "unat ((push_bit 4 i OR of_nat m) AND 0xF) = m" "push_bit 4 i OR of_nat m \<noteq> 0"
proof -
  let ?b = "push_bit 4 i OR of_nat m"
  have "i < 2 ^ 4"
    using assms(1) by (simp add: word_le_nat_alt word_less_nat_alt)
  then have i: "bit i k \<Longrightarrow> k < 4" for k
    by (rule bit_below [rotated])
  have m: "bit (of_nat m :: byte) k \<Longrightarrow> k < 4" for k
    using csrc_count_small(2) [OF assms(3)] .
  have b: "bit ?b k \<longleftrightarrow> 4 \<le> k \<and> k < 8 \<and> bit i (k - 4) \<or> bit (of_nat m :: byte) k" for k
    by (auto simp: bit_or_iff bit_push_bit_iff bit_imp_le_length)
  show high: "drop_bit 4 ?b = i"
  proof (rule byte_eqI)
    fix k
    show "bit (drop_bit 4 ?b) k \<longleftrightarrow> bit i k"
      using i [of k] m [of "4 + k"] by (simp only: bit_drop_bit_eq comp_def b) auto
  qed
  have "?b AND 0xF = of_nat m"
    by (rule byte_eqI) (use m in \<open>auto simp: bit_and_iff b bit_masks simp del: bit_numeral_word_iff\<close>)
  then show "unat (?b AND 0xF) = m"
    using csrc_count_small(1) [OF assms(3)] by simp
  show "?b \<noteq> 0"
  proof
    assume "?b = 0"
    then have "i = 0"
      using high by simp
    with assms(2) show False
      by simp
  qed
qed

lemma decode_zeros: "decode_block True (replicate k 0) = []"
  by (induction k) (simp_all add: decode_block.simps(2))

lemma decode_encoded:
  "list_all one_byte_extension es \<Longrightarrow> decode_block True (encode_extensions es @ replicate k 0) = es"
proof (induction es)
  case Nil
  then show ?case by (simp add: decode_zeros)
next
  case (Cons e es)
  obtain i d where e: "e = (i, d)" by fastforce
  let ?b = "push_bit 4 i OR of_nat (length d - 1)"
  have v: "i \<le> 14" "1 \<le> i" "length d - 1 \<le> 15" "1 \<le> length d"
    using Cons.prems by (auto simp: e one_byte_extension_def)
  note nib = extension_header_nibbles [OF v(1-3)]
  have i: "i \<noteq> 15" "i \<noteq> 0"
    using v(1,2) by auto
  have "encode_extensions (e # es) @ replicate k 0 = ?b # d @ (encode_extensions es @ replicate k 0)"
    by (simp add: e encode_extension_def)
  moreover have "unat (?b AND 0xF) + 1 = length d"
    using nib(2) v(4) by simp
  ultimately show ?case
    using Cons nib(1,3) i by (simp only: decode_block.simps(2) Let_def) (simp add: e)
qed

lemma fold_update_fresh:
  "distinct (map fst (ys @ xs)) \<Longrightarrow> fold (\<lambda>(i, d). AList.update i d) xs ys = ys @ xs"
proof (induction xs arbitrary: ys)
  case (Cons x xs)
  obtain i d where x: "x = (i, d)" by fastforce
  have "AList.update i d zs = zs @ [(i, d)]" if "i \<notin> fst ` set zs" for zs
    using that by (induction zs) auto
  then have "AList.update i d ys = ys @ [x]"
    using Cons.prems by (auto simp: x)
  with Cons.IH [of "ys @ [x]"] Cons.prems show ?case
    by (simp add: x)
qed simp

lemma image_parts:
  "wire_image a = fixed_header a @ concat (map be32 (d_csrcs a)) @ extension_block (d_extensions a) @ d_payload a @ padding_bytes (d_padding a)"
  by (simp add: wire_image_def header_image_def)

lemma image_reads:
  "rd (wire_image a) 0 = Some (first_byte (d_padding a \<noteq> 0) (d_extensions a \<noteq> []) (length (d_csrcs a)))"
  "rd (wire_image a) 1 = Some (second_byte (d_marker a) (d_payload_type a))"
  "read_be16 (wire_image a) 2 = Some (d_sequence_number a)"
  "read_be32 (wire_image a) 4 = Some (d_timestamp a)"
  "read_be32 (wire_image a) 8 = Some (d_ssrc a)"
  by (simp_all add: wire_image_def header_image_def fixed_header_def wire_simps)

lemma length_padding_bytes [simp]: "length (padding_bytes n) = unat n"
proof (cases "n = 0")
  case False
  then have "0 < unat n"
    by (simp add: unat_gt_0)
  with False show ?thesis
    by (simp add: padding_bytes_def)
qed (simp add: padding_bytes_def)

lemma parse_block_image:
  assumes "well_described a" "d_extensions a \<noteq> []" "rp_extension_entries p = []"
  shows "\<exists>n es. parse_extension_block (wire_image a) (12 + 4 * length (d_csrcs a)) p =
      Some (True, p\<lparr>rp_extensions_size := n, rp_extension_entries := es, rp_payload_offset := length (header_image a)\<rparr>) \<and>
    map (entry_data (wire_image a)) es = d_extensions a"
proof -
  let ?X = "wire_image a" and ?es = "d_extensions a"
  define pre where "pre = fixed_header a @ concat (map be32 (d_csrcs a))"
  define po where "po = 12 + 4 * length (d_csrcs a)"
  define W where "W = extension_words ?es"
  let ?Z = "encode_extensions ?es @ replicate (4 * W - length (encode_extensions ?es)) 0"
  let ?post = "d_payload a @ padding_bytes (d_padding a)"
  have X: "?X = pre @ be16 kOneByteExtensionProfileId @ be16 (of_nat W) @ ?Z @ ?post" and po: "length pre = po"
    using assms(2) by (simp_all add: image_parts extension_block_def pre_def po_def W_def)
  have lenZ: "length ?Z = 4 * W"
    using extension_words_bounds(1) [of ?es] by (simp add: W_def)
  have len: "po + 4 + 4 * W \<le> length ?X" "length ?X \<le> 1500" "length (header_image a) = po + 4 + 4 * W"
    using X po lenZ assms(1,2) length_extension_block [of ?es]
    by (simp_all add: well_described_def kIpPacketSize_def header_image_def po_def W_def)
  have reads: "read_be16 ?X po = Some kOneByteExtensionProfileId" "read_be16 ?X (po + 2) = Some (of_nat W)"
    unfolding X using po by (simp_all add: wire_simps)
  have W: "unat (of_nat W :: u16) = W"
    using len by (intro unat_of_nat_small) simp
  have slice: "take (4 * W) (drop (po + 4) ?X) = ?Z"
    unfolding X using po lenZ by simp
  obtain n es where pe: "parse_extensions ?X True (po + 4) (4 * W) 0 [] = Some (n, es)"
    using parse_extensions_within [OF len(1), of 0 True "[]"] by auto
  have "map (entry_data ?X) es = fold (\<lambda>(i, d). AList.update i d) ?es []"
    using parse_extensions_decodes [OF len(1) _ _ pe] len(1,2) slice decode_encoded [of ?es] assms(1)
    by (simp add: well_described_def)
  then have "map (entry_data ?X) es = ?es"
    using fold_update_fresh [of "[]" ?es] assms(1) by (simp add: well_described_def)
  moreover have "parse_extension_block ?X po p =
      Some (True, p\<lparr>rp_extensions_size := n, rp_extension_entries := es, rp_payload_offset := length (header_image a)\<rparr>)"
    using reads W len pe assms(3) by (simp add: parse_extension_block_def mult.commute [of W 4])
  ultimately show ?thesis
    by (auto simp: po_def)
qed


lemma parse_padding_image:
  assumes "rp_payload_offset p = length (header_image a)"
  shows "parse_padding (wire_image a) (d_padding a \<noteq> 0) p =
    Some (True, p\<lparr>rp_padding_size := d_padding a, rp_payload_size := length (d_payload a)\<rparr>)"
proof (cases "d_padding a = 0")
  case True
  with assms show ?thesis
    by (simp add: parse_padding_def wire_image_def padding_bytes_def)
next
  case False
  let ?n = "d_padding a" and ?H = "header_image a"
  have pos: "0 < unat ?n"
    using False by (simp add: unat_gt_0)
  have X: "wire_image a = (?H @ d_payload a @ replicate (unat ?n - 1) 0) @ [?n]"
    using False by (simp add: wire_image_def padding_bytes_def)
  have len: "length (wire_image a) = length ?H + length (d_payload a) + unat ?n"
    by (simp add: wire_image_def)
  have "rd (wire_image a) (length (wire_image a) - 1) = Some ?n"
    by (simp add: X rd_def nth_append)
  then show ?thesis
    using False pos len assms by (simp add: parse_padding_def)
qed

text \<open>What a receiver finds in a packet with the description \<open>a\<close>.\<close>

definition describes :: "rtp_description \<Rightarrow> rtp_packet \<Rightarrow> bool" where
  "describes a q \<longleftrightarrow> rp_marker q = d_marker a \<and> rp_payload_type q = d_payload_type a \<and> rp_sequence_number q = d_sequence_number a \<and>
     rp_timestamp q = d_timestamp a \<and> rp_ssrc q = d_ssrc a \<and> rp_csrcs q = Some (d_csrcs a) \<and>
     rp_payload q = Some (d_payload a) \<and> rp_padding_size q = d_padding a \<and>
     map (\<lambda>e. (ei_id e, rd_bytes (v_mem (rp_buf q)) (unat (ei_offset e)) (unat (ei_size e)))) (rp_extension_entries q) =
       map (\<lambda>(i, d). (i, Some d)) (d_extensions a)"

lemma parse_internal_image:
  assumes "well_described a" "rp_extension_entries p = []"
  shows "\<exists>q. parse_internal (wire_image a) p = Some (True, q) \<and> rp_buf q = rp_buf p \<and> rp_extension_map q = rp_extension_map p \<and>
    rp_marker q = d_marker a \<and> rp_payload_type q = d_payload_type a \<and> rp_sequence_number q = d_sequence_number a \<and>
    rp_timestamp q = d_timestamp a \<and> rp_ssrc q = d_ssrc a \<and> rp_payload_offset q = length (header_image a) \<and>
    rp_payload_size q = length (d_payload a) \<and> rp_padding_size q = d_padding a \<and>
    map (entry_data (wire_image a)) (rp_extension_entries q) = d_extensions a"
proof -
  let ?X = "wire_image a"
  have wd: "length (d_csrcs a) \<le> 15" "d_payload_type a \<le> 0x7F"
    using assms(1) by (simp_all add: well_described_def)
  have len: "12 + 4 * length (d_csrcs a) \<le> length ?X"
    by (simp add: image_parts)
  define r where "r = p\<lparr>rp_has_padding := d_padding a \<noteq> 0, rp_marker := d_marker a, rp_payload_type := d_payload_type a,
      rp_sequence_number := d_sequence_number a, rp_timestamp := d_timestamp a, rp_ssrc := d_ssrc a,
      rp_payload_offset := 12 + 4 * length (d_csrcs a), rp_extensions_size := 0\<rparr>"
  obtain s where s: "(if d_extensions a \<noteq> [] then parse_extension_block ?X (12 + 4 * length (d_csrcs a)) r else Some (True, r)) = Some (True, s)"
    "rp_payload_offset s = length (header_image a)" "map (entry_data ?X) (rp_extension_entries s) = d_extensions a"
    "\<exists>n es k. s = r\<lparr>rp_extensions_size := n, rp_extension_entries := es, rp_payload_offset := k\<rparr>"
  proof (cases "d_extensions a = []")
    case True
    have "r = r\<lparr>rp_extensions_size := rp_extensions_size r, rp_extension_entries := rp_extension_entries r,
        rp_payload_offset := rp_payload_offset r\<rparr>"
      by simp
    then have same: "\<exists>n es k. r = r\<lparr>rp_extensions_size := n, rp_extension_entries := es, rp_payload_offset := k\<rparr>"
      by blast
    show thesis
      by (rule that [OF _ _ _ same]) (use True assms(2) in \<open>simp_all add: r_def header_image_def extension_block_def\<close>)
  next
    case False
    have "rp_extension_entries r = []"
      using assms(2) by (simp add: r_def)
    from parse_block_image [OF assms(1) False this] obtain n es where
      block: "parse_extension_block ?X (12 + 4 * length (d_csrcs a)) r =
        Some (True, r\<lparr>rp_extensions_size := n, rp_extension_entries := es, rp_payload_offset := length (header_image a)\<rparr>)"
        "map (entry_data ?X) es = d_extensions a"
      by blast
    show thesis
      by (rule that [of "r\<lparr>rp_extensions_size := n, rp_extension_entries := es, rp_payload_offset := length (header_image a)\<rparr>"])
        (use block False in \<open>simp_all, blast\<close>)
  qed
  have "parse_internal ?X p = Some (True, s\<lparr>rp_padding_size := d_padding a, rp_payload_size := length (d_payload a)\<rparr>)"
    using image_reads [of a] first_byte_simps(1-4) [OF wd(1)] second_byte_simps(1,2) [OF wd(2)] len s(1) parse_padding_image [OF s(2)]
    by (cases "d_extensions a = []") (simp_all add: parse_internal_def kRtpHeaderSize_def mult.commute [of _ 4] Let_def r_def)
  moreover obtain n es k where "s = r\<lparr>rp_extensions_size := n, rp_extension_entries := es, rp_payload_offset := k\<rparr>"
    using s(4) by blast
  ultimately show ?thesis
    using s(2,3) by (simp add: r_def)
qed


lemma rd_bytes_prefix: "i + n \<le> length xs \<Longrightarrow> rd_bytes (xs @ ys) i n = Some (take n (drop i xs))"
  by (simp add: rd_bytes_def)

lemma read_csrcs_at:
  assumes "v_mem (rp_buf p) = xs @ concat (map be32 cs) @ zs" "off = length xs"
  shows "read_csrcs p (length cs) off = Some cs"
  using assms
proof (induction cs arbitrary: xs off)
  case (Cons c cs)
  have "read_csrcs p (length cs) (off + 4) = Some cs"
    by (rule Cons.IH [of "xs @ be32 c"]) (use Cons.prems in simp_all)
  moreover have "read_be32 (v_mem (rp_buf p)) off = Some c"
    using Cons.prems by (simp add: wire_simps)
  ultimately show ?case
    by simp
qed simp

lemma parse_wire_image:
  assumes "well_described a" "v_ok (rp_buf p)" "rp_extension_entries p = []"
  shows "\<exists>q. rp_parse (wire_image a) p = Some (True, q) \<and> describes a q \<and> rp_extension_map q = rp_extension_map p \<and>
    (\<forall>e\<in>set (rp_extension_entries q). unat (ei_offset e) < rp_capacity q)"
proof -
  let ?X = "wire_image a"
  obtain r where r: "parse_internal ?X p = Some (True, r)" "rp_buf r = rp_buf p" "rp_extension_map r = rp_extension_map p"
    "rp_marker r = d_marker a" "rp_payload_type r = d_payload_type a" "rp_sequence_number r = d_sequence_number a"
    "rp_timestamp r = d_timestamp a" "rp_ssrc r = d_ssrc a" "rp_payload_offset r = length (header_image a)"
    "rp_payload_size r = length (d_payload a)" "rp_padding_size r = d_padding a"
    "map (entry_data ?X) (rp_extension_entries r) = d_extensions a"
    using parse_internal_image [OF assms(1,3)] by blast
  obtain ok q where q: "rp_parse ?X p = Some (ok, q)" "v_ok (rp_buf q)" "ok \<Longrightarrow> v_elems (rp_buf q) = ?X"
    "ok \<Longrightarrow> laid_out (length ?X) q"
    using rp_parse_safe [OF assms(2), of ?X] assms(3) by metis
  have le: "length ?X \<le> kIpPacketSize"
    using assms(1) by (simp add: well_described_def)
  have run: "rp_parse ?X p = Some (True, r\<lparr>rp_buf := vec_assign ?X (rp_buf (rp_resize (length ?X) r))\<rparr>)"
    using r(1) le by (simp add: rp_parse_def rp_resize_def)
  then have ok: "ok" and qr: "q = r\<lparr>rp_buf := rp_buf q\<rparr>"
    using q(1) by auto
  have same: "rp_marker q = rp_marker r" "rp_payload_type q = rp_payload_type r" "rp_sequence_number q = rp_sequence_number r"
    "rp_timestamp q = rp_timestamp r" "rp_ssrc q = rp_ssrc r" "rp_payload_offset q = rp_payload_offset r"
    "rp_payload_size q = rp_payload_size r" "rp_padding_size q = rp_padding_size r" "rp_extension_entries q = rp_extension_entries r"
    "rp_extension_map q = rp_extension_map r"
    by (subst qr, simp)+
  define post where "post = drop (v_size (rp_buf q)) (v_mem (rp_buf q))"
  have mem: "v_mem (rp_buf q) = ?X @ post"
    using q(3) [OF ok] by (metis append_take_drop_id post_def v_elems_def)
  have cap: "rp_capacity q = length ?X + length post"
    by (simp add: rp_capacity_def v_capacity_def mem)
  have "read_at q 0 = Some (first_byte (d_padding a \<noteq> 0) (d_extensions a \<noteq> []) (length (d_csrcs a)))"
    using image_reads(1) [of a] by (auto simp: read_at_def mem rd_def nth_append split: if_splits)
  moreover have "read_csrcs q (length (d_csrcs a)) 12 = Some (d_csrcs a)"
    by (rule read_csrcs_at [of _ "fixed_header a"]) (simp_all add: mem image_parts)
  ultimately have "rp_csrcs q = Some (d_csrcs a)"
    using first_byte_simps(4) [of "length (d_csrcs a)"] assms(1) cap
    by (simp add: rp_csrcs_def well_described_def kRtpHeaderSize_def image_parts)
  moreover have "rp_payload q = Some (d_payload a)"
    using same r(9,10) by (simp add: rp_payload_def mem wire_image_def wire_simps)
  moreover have within: "unat (ei_offset e) < length ?X" "unat (ei_offset e) + unat (ei_size e) \<le> length ?X"
    if "e \<in> set (rp_extension_entries q)" for e
    using q(4) [OF ok] that same(6) r(9) by (auto simp: laid_out_def list_all_iff entry_within_def wire_image_def)
  have "map (\<lambda>e. (ei_id e, rd_bytes (v_mem (rp_buf q)) (unat (ei_offset e)) (unat (ei_size e)))) (rp_extension_entries q) =
      map (\<lambda>(i, d). (i, Some d)) (map (entry_data ?X) (rp_extension_entries q))"
    using within by (simp add: mem rd_bytes_prefix entry_data_def)
  moreover have "\<forall>e\<in>set (rp_extension_entries q). unat (ei_offset e) < rp_capacity q"
    using within(1) cap by fastforce
  ultimately show ?thesis
    using q(1) ok same r by (auto simp: describes_def)
qed


lemma describes_extension:
  assumes "describes a q" "distinct (map fst (d_extensions a))" "\<forall>e\<in>set (rp_extension_entries q). unat (ei_offset e) < rp_capacity q"
    "(em_get_id (rp_extension_map q) t, d) \<in> set (d_extensions a)" "d \<noteq> []" "em_get_id (rp_extension_map q) t \<noteq> kInvalidId"
  shows "get_extension t q = ext_parse t d"
proof -
  let ?i = "em_get_id (rp_extension_map q) t" and ?es = "rp_extension_entries q"
  let ?bytes = "\<lambda>e. rd_bytes (v_mem (rp_buf q)) (unat (ei_offset e)) (unat (ei_size e))"
  have eq: "map (\<lambda>e. (ei_id e, ?bytes e)) ?es = map (\<lambda>(i, d). (i, Some d)) (d_extensions a)"
    using assms(1) by (simp add: describes_def)
  have "(?i, Some d) \<in> set (map (\<lambda>(i, d). (i, Some d)) (d_extensions a))"
    using assms(4) by force
  then have "(?i, Some d) \<in> set (map (\<lambda>e. (ei_id e, ?bytes e)) ?es)"
    by (simp only: eq)
  then have "\<exists>e\<in>set ?es. ei_id e = ?i"
    by auto
  then have "find_extension_info (uint ?i) ?es \<noteq> None"
    by (auto simp: find_extension_info_def find_None_iff)
  then obtain e where found: "find_extension_info (uint ?i) ?es = Some e"
    by blast
  then have e: "find_extension_info (uint ?i) ?es = Some e" "e \<in> set ?es" "ei_id e = ?i"
    by (auto simp: find_extension_info_def find_Some_iff intro: unsigned_word_eqI)
  have "(?i, ?bytes e) \<in> set (map (\<lambda>e. (ei_id e, ?bytes e)) ?es)"
    using e(2,3) by force
  then have "(?i, ?bytes e) \<in> set (map (\<lambda>(i, d). (i, Some d)) (d_extensions a))"
    by (simp only: eq)
  then obtain d' where "(?i, d') \<in> set (d_extensions a)" "?bytes e = Some d'"
    by auto
  with assms(2,4) have bytes: "?bytes e = Some d"
    by (metis eq_key_imp_eq_value)
  then have "unat (ei_size e) = length d"
    by (auto simp: rd_bytes_def split: if_splits)
  with bytes e(1,2) assms(3,5,6) show ?thesis
    by (simp add: get_extension_def find_extension_def Let_def)
qed

section \<open>A packet from a sender to a receiver\<close>

text \<open>The calls a sender makes for the packet \<open>a\<close> with the extension values \<open>vs\<close>.\<close>

definition build_packet :: "bool \<Rightarrow> extension_map \<Rightarrow> nat \<Rightarrow> rtp_description \<Rightarrow> ext_value list \<Rightarrow> rtp_packet option" where
  "build_packet junk em cap a vs = do {
     p \<leftarrow> rp_new junk (Some em) cap;
     p \<leftarrow> set_marker (d_marker a) p;
     p \<leftarrow> set_payload_type (d_payload_type a) p;
     p \<leftarrow> set_sequence_number (d_sequence_number a) p;
     p \<leftarrow> set_timestamp (d_timestamp a) p;
     p \<leftarrow> set_ssrc (d_ssrc a) p;
     p \<leftarrow> set_csrcs (d_csrcs a) p;
     p \<leftarrow> set_extensions vs p;
     p \<leftarrow> put_payload (d_payload a) p;
     (ok, p) \<leftarrow> set_padding (d_padding a) p;
     if ok then Some p else None }"

lemma refines_toE:
  assumes "refines_to p r b"
  obtains q where "r = Some q" "represents q b" "rp_capacity q = rp_capacity p" "rp_extension_map q = rp_extension_map p"
  using assms by (auto simp: refines_to_def split: option.splits)

lemma build_packet_image:
  assumes "d_payload_type a \<le> 0x7F" "length (d_csrcs a) \<le> 15" "d_extensions a = map (extension_of em) vs" "list_all (usable em) vs"
    "distinct (map (em_get_id em \<circ> ext_type) vs)" "length (wire_image a) < cap" "cap \<le> kIpPacketSize"
  shows "\<exists>p. build_packet junk em cap a vs = Some p \<and> represents p a"
proof -
  let ?cs = "d_csrcs a"
  define a1 where "a1 = empty_description\<lparr>d_marker := d_marker a, d_payload_type := d_payload_type a,
      d_sequence_number := d_sequence_number a, d_timestamp := d_timestamp a, d_ssrc := d_ssrc a\<rparr>"
  define a2 where "a2 = a1\<lparr>d_csrcs := ?cs\<rparr>"
  define a3 where "a3 = a2\<lparr>d_extensions := d_extensions a\<rparr>"
  define a4 where "a4 = a3\<lparr>d_payload := d_payload a\<rparr>"
  have a: "a = a4\<lparr>d_padding := d_padding a\<rparr>"
    by (cases a) (simp add: a4_def a3_def a2_def a1_def empty_description_def)
  have len: "length (wire_image a4) \<le> length (wire_image a)" "length (wire_image a3) \<le> length (wire_image a4)"
    "12 + 4 * length ?cs \<le> length (wire_image a3)"
    by (simp_all add: image_parts a4_def a3_def a2_def a1_def empty_description_def padding_bytes_def)
  obtain p0 where p0: "rp_new junk (Some em) cap = Some p0" "represents p0 empty_description" "rp_capacity p0 = cap" "rp_extension_map p0 = em"
    using rp_new_represents [of cap junk em] assms(6,7) len by auto
  obtain p1 where p1: "set_marker (d_marker a) p0 = Some p1" "represents p1 (empty_description\<lparr>d_marker := d_marker a\<rparr>)"
    "rp_capacity p1 = cap" "rp_extension_map p1 = em"
    using set_marker_refines [OF p0(2)] p0(3,4) by (metis refines_toE)
  obtain p2 where p2: "set_payload_type (d_payload_type a) p1 = Some p2"
    "represents p2 (empty_description\<lparr>d_marker := d_marker a, d_payload_type := d_payload_type a\<rparr>)" "rp_capacity p2 = cap" "rp_extension_map p2 = em"
    using set_payload_type_refines [OF p1(2) assms(1)] p1(3,4) by (metis refines_toE)
  obtain p3 where p3: "set_sequence_number (d_sequence_number a) p2 = Some p3"
    "represents p3 (empty_description\<lparr>d_marker := d_marker a, d_payload_type := d_payload_type a, d_sequence_number := d_sequence_number a\<rparr>)"
    "rp_capacity p3 = cap" "rp_extension_map p3 = em"
    using set_numbers_refine(1) [OF p2(2)] p2(3,4) by (metis refines_toE)
  obtain p4 where p4: "set_timestamp (d_timestamp a) p3 = Some p4"
    "represents p4 (empty_description\<lparr>d_marker := d_marker a, d_payload_type := d_payload_type a, d_sequence_number := d_sequence_number a,
       d_timestamp := d_timestamp a\<rparr>)" "rp_capacity p4 = cap" "rp_extension_map p4 = em"
    using set_numbers_refine(2) [OF p3(2)] p3(3,4) by (metis refines_toE)
  obtain p5 where p5: "set_ssrc (d_ssrc a) p4 = Some p5" "represents p5 a1" "rp_capacity p5 = cap" "rp_extension_map p5 = em"
    using set_numbers_refine(3) [OF p4(2)] p4(3,4) unfolding a1_def by (metis refines_toE)
  have empty: "d_extensions a1 = []" "d_payload a1 = []" "d_padding a1 = 0" "d_csrcs a1 = []"
    by (simp_all add: a1_def empty_description_def)
  obtain p6 where p6: "set_csrcs ?cs p5 = Some p6" "represents p6 a2" "rp_capacity p6 = cap" "rp_extension_map p6 = em"
    using set_csrcs_refines [OF p5(2) empty assms(2)] p5(3,4) assms(6,7) len unfolding a2_def by (auto elim: refines_toE)
  have bare: "bare a2" "d_extensions a2 = []" "bare a3" "d_padding a4 = 0"
    using empty by (simp_all add: bare_def a2_def a3_def a4_def)
  have "refines_to p6 (set_extensions vs p6) (a2\<lparr>d_extensions := d_extensions a2 @ map (extension_of em) vs\<rparr>)"
    by (rule set_extensions_refine [OF p6(2) bare(1) p6(4) assms(4)])
      (use assms(3,5-7) p6(3) bare(2) len in \<open>simp_all add: a3_def\<close>)
  then obtain p7 where p7: "set_extensions vs p6 = Some p7" "represents p7 a3" "rp_capacity p7 = cap" "rp_extension_map p7 = em"
    using p6(3,4) bare(2) assms(3) unfolding a3_def by (auto elim: refines_toE)
  obtain p8 where p8: "put_payload (d_payload a) p7 = Some p8" "represents p8 a4" "rp_capacity p8 = cap" "rp_extension_map p8 = em"
    using put_payload_refines [OF p7(2) bare(3) a4_def] p7(3,4) assms(6,7) len by (auto elim: refines_toE)
  obtain p9 where "set_padding (d_padding a) p8 = Some (True, p9)" "represents p9 a"
    using set_padding_refines [OF p8(2) bare(4) a] p8(3) assms(6,7) by auto
  with p0(1) p1(1) p2(1) p3(1) p4(1) p5(1) p6(1) p7(1) p8(1) show ?thesis
    by (simp add: build_packet_def)
qed

text \<open>
  C2. A packet built by a sender is the wire format of what it set, and any receiver with the same
  extension map reads all of it back: the header fields, the contributing sources, the payload, the
  padding and, through \<^verbatim>\<open>GetExtension\<close>, every extension value (as \<open>ext_received\<close>, a playout delay
  in steps of ten milliseconds). The identifiers are 1 to 14, all that a map without mixed header
  sizes takes, and the capacity of the packet has to exceed the size of the image.
\<close>

theorem rtp_build_parse:
  assumes "d_payload_type a \<le> 0x7F" "length (d_csrcs a) \<le> 15" "d_extensions a = map (extension_of em) vs" "list_all (usable em) vs"
    "distinct (map (em_get_id em \<circ> ext_type) vs)" "length (wire_image a) < cap" "cap \<le> kIpPacketSize"
    "v_ok (rp_buf r)" "rp_extension_entries r = []" "rp_extension_map r = em"
  shows "\<exists>p q. build_packet junk em cap a vs = Some p \<and> v_elems (rp_buf p) = wire_image a \<and>
    rp_parse (v_elems (rp_buf p)) r = Some (True, q) \<and> describes a q \<and>
    list_all (\<lambda>v. get_extension (ext_type v) q = accept (ext_received v)) vs"
proof -
  obtain p where p: "build_packet junk em cap a vs = Some p" "represents p a"
    using build_packet_image [OF assms(1-7)] by blast
  then have img: "well_described a" "v_elems (rp_buf p) = wire_image a"
    by (simp_all add: represents_def holds_image_def)
  obtain q where q: "rp_parse (wire_image a) r = Some (True, q)" "describes a q" "rp_extension_map q = em"
    "\<forall>e\<in>set (rp_extension_entries q). unat (ei_offset e) < rp_capacity q"
    using parse_wire_image [OF img(1) assms(8,9)] assms(10) by auto
  have "get_extension (ext_type v) q = accept (ext_received v)" if "v \<in> set vs" for v
  proof -
    have v: "usable em v" "extension_of em v \<in> set (d_extensions a)"
      using that assms(3,4) by (auto simp: list_all_iff)
    then have "encoded_value v \<noteq> []" "em_get_id em (ext_type v) \<noteq> kInvalidId"
      using encoded_value(2) [of v] ext_value_size_bounds [of v] by (auto simp: usable_def kInvalidId_def)
    then have "get_extension (ext_type v) q = ext_parse (ext_type v) (encoded_value v)"
      using describes_extension [OF q(2) _ q(4)] img(1) q(3) v(2) by (simp add: well_described_def extension_of_def)
    with encoded_value(3) [of v] v(1) show ?thesis
      by (simp add: usable_def)
  qed
  with p(1) q img(2) show ?thesis
    by (auto simp: list_all_iff)
qed


theorem rtp_build_parse_witness:
  "let em = snd (em_register 3 ExtPlayoutDelay (em_new False));
       v = Playout \<lparr>min_ms = 25, max_ms = 40\<rparr>;
       a = \<lparr>d_marker = True, d_payload_type = 96, d_sequence_number = 7, d_timestamp = 90000, d_ssrc = 0xABCD,
            d_csrcs = [0x10], d_extensions = [extension_of em v], d_payload = [1, 2, 3], d_padding = 4\<rparr>
   in \<exists>p q r. rp_new False (Some em) 100 = Some r \<and> build_packet False em 100 a [v] = Some p \<and>
     rp_parse (v_elems (rp_buf p)) r = Some (True, q) \<and> rp_marker q \<and> rp_payload_type q = 96 \<and> rp_csrcs q = Some [0x10] \<and>
     rp_payload q = Some [1, 2, 3] \<and> rp_padding_size q = 4 \<and>
     get_extension ExtPlayoutDelay q = accept (Playout \<lparr>min_ms = 20, max_ms = 40\<rparr>)"
proof -
  define em where "em = snd (em_register 3 ExtPlayoutDelay (em_new False))"
  define v where "v = Playout \<lparr>min_ms = 25, max_ms = 40\<rparr>"
  define a where "a = \<lparr>d_marker = True, d_payload_type = 96, d_sequence_number = 7, d_timestamp = 90000, d_ssrc = 0xABCD,
            d_csrcs = [0x10], d_extensions = [extension_of em v], d_payload = [1, 2, 3], d_padding = 4\<rparr>"
  have i: "em_get_id em (ext_type v) = 3"
    unfolding em_def v_def by code_simp
  then have use_v: "usable em v" and valid: "ext_valid v"
    by (simp_all add: usable_def v_def)
  obtain r where r: "rp_new False (Some em) 100 = Some r" "represents r empty_description" "rp_extension_map r = em"
    using rp_new_represents [of 100 False em] by (auto simp: kIpPacketSize_def)
  have "length (encoded_value v) = 3"
    using encoded_value(2) [OF valid] by (simp add: v_def)
  then have "length (wire_image a) < 100"
    by (simp add: image_parts a_def length_extension_block extension_words_def extension_of_def)
  moreover have "v_ok (rp_buf r)" "rp_extension_entries r = []"
    using r(2) by (simp_all add: represents_def holds_image_def fields_match_def empty_description_def)
  ultimately obtain p q where "build_packet False em 100 a [v] = Some p" "v_elems (rp_buf p) = wire_image a"
    "rp_parse (v_elems (rp_buf p)) r = Some (True, q)" "describes a q"
    "list_all (\<lambda>v. get_extension (ext_type v) q = accept (ext_received v)) [v]"
    using rtp_build_parse [of a em "[v]" 100 r False] use_v r(3) by (auto simp: a_def kIpPacketSize_def)
  with r(1) show ?thesis
    unfolding em_def [symmetric] v_def [symmetric] a_def [symmetric] Let_def
    by (intro exI [of _ p] exI [of _ q] exI [of _ r]) (simp add: describes_def a_def v_def)
qed

end
