(* ===== verification/H264Nalu.thy ===== *)
theory H264Nalu
  imports ByteIO
begin

text \<open>
  The helpers for H.264 units, \<^verbatim>\<open>media/video/codecs/h264/nalunit_auxiliaries.cpp\<close>: the search for start
  sequences, and the emulation prevention that keeps them out of the units. The scan is compared
  with the list of all positions of start sequences, and a stream of escaped units is read back.
\<close>

section \<open>Start sequences\<close>

datatype separator = SHORT_START_SEQUENCE | LONG_START_SEQUENCE | LENGTH_FIELD

record nalu_index =
  start_offset :: nat
  payload_start_offset :: nat
  payload_size :: nat

definition kNaluLongStartSequenceSize :: nat where "kNaluLongStartSequenceSize = 4"
definition kNaluShortStartSequenceSize :: nat where "kNaluShortStartSequenceSize = 3"

text \<open>The units with a length field: the offset moves by at least four.\<close>

function length_loop :: "byte list \<Rightarrow> nat \<Rightarrow> nalu_index list \<Rightarrow> nalu_index list" where
  "length_loop buffer offset indices =
     (if offset + 4 < length buffer then
        (case read_be32 buffer offset of
           None \<Rightarrow> indices
         | Some nalu_size \<Rightarrow>
             let nalu_start_offset = offset + 4;
                 nalu_end_offset = nalu_start_offset + unat nalu_size
             in if nalu_end_offset > length buffer then indices
                else length_loop buffer nalu_end_offset
                  (indices @ [\<lparr>start_offset = offset, payload_start_offset = nalu_start_offset, payload_size = unat nalu_size\<rparr>]))
      else indices)"
  by pat_completeness auto
termination
  by (relation "measure (\<lambda>(buffer, offset, _). length buffer - offset)") auto

declare length_loop.simps [simp del]

definition close_last :: "nat \<Rightarrow> nalu_index list \<Rightarrow> nalu_index list" where
  "close_last offset indices =
     (if indices = [] then []
      else butlast indices @ [(last indices)\<lparr>payload_size := offset - payload_start_offset (last indices)\<rparr>])"

definition sequence_at :: "separator \<Rightarrow> byte list \<Rightarrow> nat \<Rightarrow> bool" where
  "sequence_at sep buffer i \<longleftrightarrow>
     buffer ! (i + 1) = 0 \<and> buffer ! i = 0 \<and> (sep = SHORT_START_SEQUENCE \<or> buffer ! (i + 2) = 0)"

definition new_index :: "nat \<Rightarrow> byte list \<Rightarrow> nat \<Rightarrow> nalu_index" where
  "new_index n buffer i =
     \<lparr>start_offset = (if i > 0 \<and> buffer ! (i - 1) = 0 then i - 1 else i), payload_start_offset = i + n, payload_size = 0\<rparr>"

definition start_sequence_size :: "separator \<Rightarrow> nat" where
  "start_sequence_size sep =
     (if sep = SHORT_START_SEQUENCE then kNaluShortStartSequenceSize else kNaluLongStartSequenceSize)"

text \<open>Every byte the loop reads is before \<open>i + n\<close>, which is less than the size.\<close>

function sequence_loop :: "separator \<Rightarrow> byte list \<Rightarrow> nat \<Rightarrow> nalu_index list \<Rightarrow> nalu_index list" where
  "sequence_loop sep buffer i indices =
     (let n = start_sequence_size sep in
      if i < length buffer - n then
        if buffer ! (i + n - 1) > 1 then sequence_loop sep buffer (i + n) indices
        else if buffer ! (i + n - 1) = 1 then
          sequence_loop sep buffer (i + n)
            (if sequence_at sep buffer i
             then close_last (start_offset (new_index n buffer i)) indices @ [new_index n buffer i]
             else indices)
        else sequence_loop sep buffer (i + 1) indices
      else indices)"
  by pat_completeness auto
termination
  by (relation "measure (\<lambda>(_, buffer, i, _). length buffer - i)")
    (auto simp: start_sequence_size_def kNaluShortStartSequenceSize_def kNaluLongStartSequenceSize_def)

declare sequence_loop.simps [simp del]

definition find_nalu_indices :: "byte list \<Rightarrow> separator \<Rightarrow> nalu_index list" where
  "find_nalu_indices buffer sep =
     (if sep = LENGTH_FIELD then length_loop buffer 0 []
      else if length buffer < start_sequence_size sep then []
      else close_last (length buffer) (sequence_loop sep buffer 0 []))"

section \<open>Emulation prevention\<close>

fun retrieve_rbsp_from_ebsp :: "byte list \<Rightarrow> byte list" where
  "retrieve_rbsp_from_ebsp [] = []"
| "retrieve_rbsp_from_ebsp (a # b # c # xs) =
     (if a = 0 \<and> b = 0 \<and> c = 3 then a # b # retrieve_rbsp_from_ebsp xs
      else a # retrieve_rbsp_from_ebsp (b # c # xs))"
| "retrieve_rbsp_from_ebsp (a # xs) = a # retrieve_rbsp_from_ebsp xs"

definition kEmulationByte :: byte where "kEmulationByte = 3"
definition kZerosInStartSequence :: nat where "kZerosInStartSequence = 2"

fun write_rbsp_loop :: "nat \<Rightarrow> byte list \<Rightarrow> byte list" where
  "write_rbsp_loop num_consecutive_zeros [] = []"
| "write_rbsp_loop num_consecutive_zeros (b # bs) =
     (let escape = b \<le> kEmulationByte \<and> num_consecutive_zeros \<ge> kZerosInStartSequence;
          zeros = (if escape then 0 else num_consecutive_zeros)
      in (if escape then [kEmulationByte] else []) @ b # write_rbsp_loop (if b = 0 then zeros + 1 else 0) bs)"

definition write_rbsp :: "byte list \<Rightarrow> byte list \<Rightarrow> byte list" where
  "write_rbsp rbsp_buffer ebsp_buffer = ebsp_buffer @ write_rbsp_loop 0 rbsp_buffer"

fun start_free :: "byte list \<Rightarrow> bool" where
  "start_free (a # b # c # xs) \<longleftrightarrow> \<not> (a = 0 \<and> b = 0 \<and> c \<le> 1) \<and> start_free (b # c # xs)"
| "start_free xs \<longleftrightarrow> True"

lemma retrieve_nonzero: "a \<noteq> 0 \<Longrightarrow> retrieve_rbsp_from_ebsp (a # xs) = a # retrieve_rbsp_from_ebsp xs"
  by (cases "a # xs" rule: retrieve_rbsp_from_ebsp.cases) auto

lemma retrieve_zero_nonzero: "b \<noteq> 0 \<Longrightarrow> retrieve_rbsp_from_ebsp (a # b # xs) = a # b # retrieve_rbsp_from_ebsp xs"
  by (cases xs) (auto simp: retrieve_nonzero)

lemma start_free_nonzero: "a \<noteq> 0 \<Longrightarrow> start_free (a # xs) \<longleftrightarrow> start_free xs"
  by (cases "a # xs" rule: start_free.cases) auto

lemma start_free_zero_nonzero: "b \<noteq> 0 \<Longrightarrow> start_free (a # b # xs) \<longleftrightarrow> start_free xs"
  by (cases xs) (auto simp: start_free_nonzero)

text \<open>The loop after none, one, or at least two zeros.\<close>

lemma write_rbsp_loop_inverse:
  "retrieve_rbsp_from_ebsp (write_rbsp_loop 0 bs) = bs \<and>
   retrieve_rbsp_from_ebsp (0 # write_rbsp_loop 1 bs) = 0 # bs \<and>
   (\<forall>z\<ge>2. retrieve_rbsp_from_ebsp (0 # 0 # write_rbsp_loop z bs) = 0 # 0 # bs)"
proof (induction bs)
  case (Cons b bs)
  have two: "retrieve_rbsp_from_ebsp (0 # 0 # write_rbsp_loop 2 bs) = 0 # 0 # bs"
    using Cons.IH by simp
  have "retrieve_rbsp_from_ebsp (write_rbsp_loop 0 (b # bs)) = b # bs"
    using Cons.IH by (cases "b = 0") (simp_all add: kZerosInStartSequence_def retrieve_nonzero)
  moreover have "retrieve_rbsp_from_ebsp (0 # write_rbsp_loop 1 (b # bs)) = 0 # b # bs"
    using Cons.IH two by (cases "b = 0") (simp_all add: kZerosInStartSequence_def retrieve_zero_nonzero numeral_2_eq_2)
  moreover have "retrieve_rbsp_from_ebsp (0 # 0 # write_rbsp_loop z (b # bs)) = 0 # 0 # b # bs" if "2 \<le> z" for z
  proof (cases "b \<le> 3")
    case True
    then show ?thesis
      using that Cons.IH by (cases "b = 0") (simp_all add: kZerosInStartSequence_def kEmulationByte_def retrieve_nonzero)
  next
    case False
    then have "b \<noteq> 0" "b \<noteq> 3"
      by auto
    with that False Cons.IH show ?thesis
      by (simp add: kZerosInStartSequence_def kEmulationByte_def retrieve_zero_nonzero)
  qed
  ultimately show ?case
    by blast
qed simp

lemma write_rbsp_loop_start_free:
  "start_free (write_rbsp_loop 0 bs) \<and> start_free (0 # write_rbsp_loop 1 bs) \<and>
   (\<forall>z\<ge>2. start_free (0 # 0 # write_rbsp_loop z bs))"
proof (induction bs)
  case (Cons b bs)
  have three: "\<not> (3 :: byte) \<le> 1"
    by (simp add: word_le_nat_alt)
  have two: "start_free (0 # 0 # write_rbsp_loop 2 bs)"
    using Cons.IH by simp
  have "start_free (write_rbsp_loop 0 (b # bs))"
    using Cons.IH by (cases "b = 0") (simp_all add: kZerosInStartSequence_def start_free_nonzero)
  moreover have "start_free (0 # write_rbsp_loop 1 (b # bs))"
    using Cons.IH two by (cases "b = 0") (simp_all add: kZerosInStartSequence_def start_free_zero_nonzero numeral_2_eq_2)
  moreover have "start_free (0 # 0 # write_rbsp_loop z (b # bs))" if "2 \<le> z" for z
  proof (cases "b \<le> 3")
    case True
    then show ?thesis
      using that Cons.IH by (cases "b = 0") (simp_all add: kZerosInStartSequence_def kEmulationByte_def start_free_nonzero start_free_zero_nonzero three)
  next
    case False
    then have "b \<noteq> 0" "\<not> b \<le> 1"
      by (auto simp: word_le_nat_alt)
    with that False Cons.IH show ?thesis
      by (simp add: kZerosInStartSequence_def kEmulationByte_def start_free_nonzero start_free_zero_nonzero)
  qed
  ultimately show ?case
    by blast
qed simp

section \<open>The scan finds every start sequence\<close>

text \<open>The positions of all start sequences that have a byte behind them, found one by one.\<close>

definition mark_at :: "separator \<Rightarrow> byte list \<Rightarrow> nat \<Rightarrow> bool" where
  "mark_at sep buffer i \<longleftrightarrow> sequence_at sep buffer i \<and> buffer ! (i + start_sequence_size sep - 1) = 1"

definition add_index :: "separator \<Rightarrow> byte list \<Rightarrow> nat \<Rightarrow> nalu_index list \<Rightarrow> nalu_index list" where
  "add_index sep buffer i indices =
     (let x = new_index (start_sequence_size sep) buffer i in close_last (start_offset x) indices @ [x])"

definition marks_from :: "separator \<Rightarrow> byte list \<Rightarrow> nat \<Rightarrow> nat list" where
  "marks_from sep buffer i = filter (mark_at sep buffer) [i..<length buffer - start_sequence_size sep]"

lemma filter_upt_skip:
  assumes "i \<le> j" "\<And>k. i \<le> k \<Longrightarrow> k < j \<Longrightarrow> \<not> P k"
  shows "filter P [i..<e] = filter P [j..<e]"
proof -
  have "[i..<e] = [i..<min j e] @ [j..<e]" if "i < e"
    using assms(1) that upt_add_eq_append [of i j "e - j"] by (cases "j \<le> e") (auto simp: min_def)
  moreover have "filter P [i..<min j e] = []"
    using assms(2) by (auto simp: filter_empty_conv)
  ultimately show ?thesis
    using assms(1) by (cases "i < e") auto
qed

lemma sequence_size_cases: "start_sequence_size sep = 3 \<and> sep = SHORT_START_SEQUENCE \<or> start_sequence_size sep = 4 \<and> sep \<noteq> SHORT_START_SEQUENCE"
  by (simp add: start_sequence_size_def kNaluShortStartSequenceSize_def kNaluLongStartSequenceSize_def)

lemma byte_cases: "b > 1 \<or> b = 1 \<or> b = 0" for b :: byte
proof (cases "b \<le> 1")
  case True
  then have "unat b = unat (0 :: byte) \<or> unat b = unat (1 :: byte)"
    by (simp add: word_le_nat_alt) arith
  then show ?thesis
    by (metis unsigned_word_eqI)
qed auto

lemma no_mark_near:
  assumes "buffer ! (i + start_sequence_size sep - 1) \<noteq> 0" "i < k" "k < i + start_sequence_size sep"
  shows "\<not> mark_at sep buffer k"
  using sequence_size_cases [of sep]
proof
  assume s: "start_sequence_size sep = 3 \<and> sep = SHORT_START_SEQUENCE"
  with assms(2,3) have "k + 1 = i + 2 \<or> k = i + 2"
    by auto
  with assms(1) s show ?thesis
    by (auto simp: mark_at_def sequence_at_def)
next
  assume s: "start_sequence_size sep = 4 \<and> sep \<noteq> SHORT_START_SEQUENCE"
  with assms(2,3) have "k + 2 = i + 3 \<or> k + 1 = i + 3 \<or> k = i + 3"
    by auto
  with assms(1) s show ?thesis
    by (auto simp: mark_at_def sequence_at_def eval_nat_numeral)
qed

lemma sequence_loop_marks:
  "sequence_loop sep buffer i indices = fold (add_index sep buffer) (marks_from sep buffer i) indices"
proof (induction sep buffer i indices rule: sequence_loop.induct)
  case (1 sep buffer i indices)
  let ?n = "start_sequence_size sep" and ?e = "length buffer - start_sequence_size sep"
  have pos: "0 < ?n"
    using sequence_size_cases [of sep] by auto
  show ?case
  proof (cases "i < ?e")
    case False
    then show ?thesis
      by (simp add: sequence_loop.simps marks_from_def)
  next
    case True
    then have first: "[i..<?e] = i # [i + 1..<?e]"
      by (simp add: upt_conv_Cons)
    let ?b = "buffer ! (i + ?n - 1)"
    have skip: "marks_from sep buffer (i + 1) = marks_from sep buffer (i + ?n)" if "?b \<noteq> 0"
      unfolding marks_from_def using pos no_mark_near [OF that] by (intro filter_upt_skip) auto
    consider "?b > 1" | "?b = 1" | "?b = 0"
      using byte_cases [of ?b] by blast
    then show ?thesis
    proof cases
      case 1
      then have "?b \<noteq> 0" "?b \<noteq> 1"
        by auto
      then have "sequence_loop sep buffer i indices = sequence_loop sep buffer (i + ?n) indices"
        "marks_from sep buffer i = marks_from sep buffer (i + ?n)"
        using True 1 first skip by (simp add: sequence_loop.simps [of sep buffer i] Let_def, simp add: marks_from_def mark_at_def)
      then show ?thesis
        using "1.IH"(1) [OF refl True 1] by simp
    next
      case 2
      then have "\<not> ?b > 1" "?b \<noteq> 0"
        by auto
      then have "sequence_loop sep buffer i indices =
          sequence_loop sep buffer (i + ?n) (if mark_at sep buffer i then add_index sep buffer i indices else indices)"
        "marks_from sep buffer i = (if mark_at sep buffer i then [i] else []) @ marks_from sep buffer (i + ?n)"
        using True 2 first skip
        by (simp add: sequence_loop.simps [of sep buffer i] Let_def mark_at_def add_index_def, simp add: marks_from_def)
      then show ?thesis
        using "1.IH"(2) [OF refl True \<open>\<not> ?b > 1\<close> 2] 2
        by (cases "sequence_at sep buffer i") (simp_all add: mark_at_def add_index_def Let_def)
    next
      case 3
      then have "\<not> ?b > 1" "?b \<noteq> 1"
        by auto
      then have "sequence_loop sep buffer i indices = sequence_loop sep buffer (i + 1) indices"
        "marks_from sep buffer i = marks_from sep buffer (i + 1)"
        using True 3 first by (simp add: sequence_loop.simps [of sep buffer i] Let_def, simp add: marks_from_def mark_at_def)
      then show ?thesis
        using "1.IH"(3) [OF refl True \<open>\<not> ?b > 1\<close> \<open>?b \<noteq> 1\<close>] by simp
    qed
  qed
qed


section \<open>Byte streams\<close>

text \<open>
  A byte stream: the units of a frame, each behind a start sequence of three or four bytes. A unit is
  free of start sequences and does not stop with a zero.
\<close>

definition start_code :: "bool \<Rightarrow> byte list" where
  "start_code long = (if long then [0, 0, 0, 1] else [0, 0, 1])"

definition byte_stream :: "(bool \<times> byte list) list \<Rightarrow> byte list" where
  "byte_stream ns = concat (map (\<lambda>(long, n). start_code long @ n) ns)"

definition well_formed_unit :: "byte list \<Rightarrow> bool" where
  "well_formed_unit n \<longleftrightarrow> n \<noteq> [] \<and> last n \<noteq> 0 \<and> start_free n"

fun code_positions :: "nat \<Rightarrow> (bool \<times> byte list) list \<Rightarrow> nat list" where
  "code_positions off [] = []"
| "code_positions off ((long, n) # ns) =
     (off + (if long then 1 else 0)) # code_positions (off + length (start_code long) + length n) ns"

definition cut :: "byte list \<Rightarrow> nalu_index \<Rightarrow> byte list" where
  "cut s x = take (payload_size x) (drop (payload_start_offset x) s)"

lemma start_free_nth: "start_free xs \<Longrightarrow> i + 2 < length xs \<Longrightarrow> \<not> (xs ! i = 0 \<and> xs ! (i + 1) = 0 \<and> xs ! (i + 2) \<le> 1)"
proof (induction xs arbitrary: i rule: start_free.induct)
  case (1 a b c xs)
  then show ?case
    by (cases i) auto
qed auto

lemma byte_stream_Cons: "byte_stream ((long, n) # ns) = start_code long @ n @ byte_stream ns"
  by (simp add: byte_stream_def)

lemma length_start_code: "length (start_code long) = (if long then 4 else 3)"
  by (simp add: start_code_def)

lemma no_mark_in_unit:
  assumes "s = pre @ n @ rest" "well_formed_unit n" "length pre \<le> k" "k < length pre + length n"
  shows "\<not> mark_at SHORT_START_SEQUENCE s k"
proof
  assume "mark_at SHORT_START_SEQUENCE s k"
  then have m: "s ! k = 0" "s ! (k + 1) = 0" "s ! (k + 2) = 1"
    by (simp_all add: mark_at_def sequence_at_def start_sequence_size_def kNaluShortStartSequenceSize_def numeral_eq_Suc)
  define i where "i = k - length pre"
  have n: "n \<noteq> []" "last n \<noteq> 0" "start_free n" and i: "i < length n" "k = length pre + i"
    using assms(2-4) by (auto simp: well_formed_unit_def i_def)
  have at: "n ! (i + j) = s ! (k + j)" if "i + j < length n" for j
    using that i(2) by (simp add: assms(1) nth_append)
  have final: "n ! (length n - 1) \<noteq> 0"
    using n(1,2) by (simp add: last_conv_nth)
  consider "i + 2 < length n" | "i + 1 = length n - 1" "i + 1 < length n" | "i = length n - 1"
    using i(1) by linarith
  then show False
  proof cases
    case 1
    then show False
      using start_free_nth [OF n(3) 1] at [of 0] at [of 1] at [of 2] m by simp
  next
    case 2
    then show False
      using at [of 1] m(2) final by simp
  next
    case 3
    then show False
      using at [of 0] m(1) final i(1) by simp
  qed
qed

lemma marks_byte_stream:
  assumes "list_all (well_formed_unit \<circ> snd) ns"
  shows "marks_from SHORT_START_SEQUENCE (pre @ byte_stream ns) (length pre) = code_positions (length pre) ns"
  using assms
proof (induction ns arbitrary: pre)
  case Nil
  then show ?case
    by (simp add: marks_from_def byte_stream_def)
next
  case (Cons u ns)
  obtain long n where u: "u = (long, n)" by fastforce
  let ?s = "pre @ byte_stream (u # ns)" and ?l = "if long then 1 else 0 :: nat"
  let ?k = "length pre + ?l" and ?j = "length pre + length (start_code long) + length n"
  let ?P = "mark_at SHORT_START_SEQUENCE ?s" and ?e = "length ?s - start_sequence_size SHORT_START_SEQUENCE"
  have s: "?s = (pre @ start_code long) @ n @ byte_stream ns"
    by (simp add: u byte_stream_Cons)
  have n: "well_formed_unit n"
    using Cons.prems by (simp add: u)
  then have e: "?k < ?e"
    by (cases n) (auto simp: s well_formed_unit_def start_sequence_size_def kNaluShortStartSequenceSize_def length_start_code)
  have code: "?s ! (length pre + d) = start_code long ! d" if "d < length (start_code long)" for d
    using that by (simp add: s nth_append)
  have P: "?P k \<longleftrightarrow> ?s ! k = 0 \<and> ?s ! (k + 1) = 0 \<and> ?s ! (k + 2) = 1" for k
    by (auto simp: mark_at_def sequence_at_def start_sequence_size_def kNaluShortStartSequenceSize_def numeral_eq_Suc)
  have hit: "?P ?k"
    using code [of ?l] code [of "?l + 1"] code [of "?l + 2"] unfolding P
    by (cases long) (simp_all add: start_code_def eval_nat_numeral)
  have before: "\<not> ?P k" if "length pre \<le> k" "k < ?k" for k
  proof -
    have "long" "k = length pre"
      using that by (auto split: if_splits)
    then show ?thesis
      using code [of 2] unfolding P by (simp add: start_code_def)
  qed
  have after: "\<not> ?P k" if "?k + 1 \<le> k" "k < ?j" for k
  proof (cases "k < length (pre @ start_code long)")
    case True
    with that have "k = length pre + (?l + 1) \<or> k = length pre + (?l + 2)"
      by (auto simp: length_start_code split: if_splits)
    then show ?thesis
      using code [of "?l + 2"] unfolding P by (cases long) (auto simp: start_code_def eval_nat_numeral)
  next
    case False
    with that show ?thesis
      by (intro no_mark_in_unit [OF s n]) auto
  qed
  have "marks_from SHORT_START_SEQUENCE ?s (length pre) = marks_from SHORT_START_SEQUENCE ?s ?k"
    unfolding marks_from_def using before by (intro filter_upt_skip) auto
  also have "\<dots> = ?k # marks_from SHORT_START_SEQUENCE ?s (?k + 1)"
    unfolding marks_from_def using e hit by (simp only: upt_conv_Cons [OF e] filter.simps if_True) simp
  also have "marks_from SHORT_START_SEQUENCE ?s (?k + 1) = marks_from SHORT_START_SEQUENCE ?s ?j"
    unfolding marks_from_def using after by (intro filter_upt_skip) (auto simp: length_start_code)
  also have "marks_from SHORT_START_SEQUENCE ?s ?j = code_positions ?j ns"
    using Cons.IH [of "pre @ start_code long @ n"] Cons.prems s by (simp add: add.assoc)
  finally show ?case
    by (simp add: u)
qed

lemma close_last_snoc [simp]: "close_last off (xs @ [x]) = xs @ [x\<lparr>payload_size := off - payload_start_offset x\<rparr>]"
  by (simp add: close_last_def)

lemma cut_byte_stream:
  assumes "list_all (well_formed_unit \<circ> snd) ns" "pre = [] \<or> last pre \<noteq> 0" "s = pre @ byte_stream ns"
  shows "map (cut s) (close_last (length s) (fold (add_index SHORT_START_SEQUENCE s) (code_positions (length pre) ns) indices)) =
    map (cut s) (close_last (length pre) indices) @ map snd ns"
  using assms
proof (induction ns arbitrary: pre indices)
  case Nil
  then show ?case
    by (simp add: byte_stream_def)
next
  case (Cons u ns)
  obtain long n where u: "u = (long, n)" by fastforce
  let ?k = "length pre + (if long then 1 else 0)" and ?pre = "pre @ start_code long @ n"
  have s: "s = ?pre @ byte_stream ns" and n: "well_formed_unit n"
    using Cons.prems by (simp_all add: u byte_stream_Cons)
  have "s ! (length pre - 1) = last pre" if "pre \<noteq> []"
    using that by (simp add: s nth_append last_conv_nth)
  moreover have "s ! length pre = 0"
    by (simp add: s nth_append start_code_def)
  ultimately have start: "start_offset (new_index 3 s ?k) = length pre"
    using Cons.prems(2) by (auto simp: new_index_def)
  let ?x = "new_index 3 s ?k"
  have "add_index SHORT_START_SEQUENCE s ?k indices = close_last (length pre) indices @ [?x]"
    using start by (simp add: add_index_def start_sequence_size_def kNaluShortStartSequenceSize_def Let_def)
  moreover have "cut s (?x\<lparr>payload_size := length ?pre - payload_start_offset ?x\<rparr>) = n"
    by (cases long) (simp_all add: cut_def new_index_def s start_code_def)
  moreover have "map (cut s) (close_last (length s) (fold (add_index SHORT_START_SEQUENCE s) (code_positions (length ?pre) ns)
      (close_last (length pre) indices @ [?x]))) = map (cut s) (close_last (length ?pre) (close_last (length pre) indices @ [?x])) @ map snd ns"
    by (rule Cons.IH) (use Cons.prems(1) n s in \<open>auto simp: well_formed_unit_def u\<close>)
  ultimately show ?case
    by (simp add: u add.assoc)
qed

lemma byte_stream_long_enough:
  assumes "ns \<noteq> []"
  shows "3 \<le> length (byte_stream ns)"
  using assms by (cases ns) (auto simp: byte_stream_def length_start_code)

text \<open>
  The units of a byte stream are found exactly: for units that are free of start sequences and do
  not stop with a zero, \<^verbatim>\<open>FindNaluIndices\<close> returns their places in the stream, whether the start
  sequences have three or four bytes, although it looks only at every third byte.
\<close>

lemma find_byte_stream:
  assumes "list_all (well_formed_unit \<circ> snd) ns"
  shows "map (cut (byte_stream ns)) (find_nalu_indices (byte_stream ns) SHORT_START_SEQUENCE) = map snd ns"
proof (cases "ns = []")
  case True
  then show ?thesis
    by (simp add: find_nalu_indices_def byte_stream_def start_sequence_size_def kNaluShortStartSequenceSize_def)
next
  case False
  then have "\<not> length (byte_stream ns) < start_sequence_size SHORT_START_SEQUENCE"
    using byte_stream_long_enough by (simp add: start_sequence_size_def kNaluShortStartSequenceSize_def not_less)
  then show ?thesis
    using cut_byte_stream [OF assms, of "[]" "byte_stream ns" "[]"] marks_byte_stream [OF assms, of "[]"]
    by (simp add: find_nalu_indices_def sequence_loop_marks close_last_def)
qed


definition unit_of :: "byte \<Rightarrow> byte list \<Rightarrow> byte list" where
  "unit_of header rbsp = write_rbsp rbsp [header]"

lemma last_write_rbsp_loop: "bs \<noteq> [] \<Longrightarrow> last (write_rbsp_loop z bs) = last bs \<and> write_rbsp_loop z bs \<noteq> []"
  by (induction z bs rule: write_rbsp_loop.induct) (auto simp: Let_def)

lemma unit_of_well_formed:
  assumes "header \<noteq> 0" "rbsp \<noteq> []" "last rbsp \<noteq> 0"
  shows "well_formed_unit (unit_of header rbsp)" "retrieve_rbsp_from_ebsp (tl (unit_of header rbsp)) = rbsp"
  using assms write_rbsp_loop_start_free [of rbsp] last_write_rbsp_loop [of rbsp 0] write_rbsp_loop_inverse [of rbsp]
  by (auto simp: well_formed_unit_def unit_of_def write_rbsp_def start_free_nonzero)

text \<open>
  C16. From payloads to a byte stream and back: when every payload is escaped by \<^verbatim>\<open>WriteRbsp\<close> behind a
  header and all units are put behind start sequences of three or four bytes, \<^verbatim>\<open>FindNaluIndices\<close> finds
  exactly these units, and \<^verbatim>\<open>RetrieveRbspFromEbsp\<close> returns the payload of each. A payload is not empty
  and stops with its stop bit, that is with a byte that is not zero, and a header is not zero.
\<close>

theorem byte_stream_roundtrip:
  assumes "list_all (\<lambda>(long, header, rbsp). header \<noteq> 0 \<and> rbsp \<noteq> [] \<and> last rbsp \<noteq> 0) us"
    "s = byte_stream (map (\<lambda>(long, header, rbsp). (long, unit_of header rbsp)) us)"
  shows "map (\<lambda>x. (hd (cut s x), retrieve_rbsp_from_ebsp (tl (cut s x)))) (find_nalu_indices s SHORT_START_SEQUENCE) = map snd us"
proof -
  let ?ns = "map (\<lambda>(long, header, rbsp). (long, unit_of header rbsp)) us"
  have "list_all (well_formed_unit \<circ> snd) ?ns"
    using assms(1) unit_of_well_formed(1) by (fastforce simp: list_all_iff)
  then have "map (cut s) (find_nalu_indices s SHORT_START_SEQUENCE) = map snd ?ns"
    unfolding assms(2) by (rule find_byte_stream)
  then have "map (\<lambda>x. (hd (cut s x), retrieve_rbsp_from_ebsp (tl (cut s x)))) (find_nalu_indices s SHORT_START_SEQUENCE) =
      map (\<lambda>n. (hd n, retrieve_rbsp_from_ebsp (tl n))) (map snd ?ns)"
    by (metis (no_types, lifting) list.map_comp comp_def map_eq_conv)
  also have "\<dots> = map snd us"
    using assms(1) unit_of_well_formed(2) by (fastforce simp: list_all_iff unit_of_def write_rbsp_def)
  finally show ?thesis .
qed

theorem byte_stream_roundtrip_witness:
  "let s = [0, 0, 0, 1, 0x67, 0, 0, 3, 1, 0x80, 0, 0, 1, 0x68, 7] :: byte list in
   map (\<lambda>x. (hd (cut s x), retrieve_rbsp_from_ebsp (tl (cut s x)))) (find_nalu_indices s SHORT_START_SEQUENCE) =
     [(0x67, [0, 0, 1, 0x80]), (0x68, [7])]"
proof -
  have "byte_stream (map (\<lambda>(long, header, rbsp). (long, unit_of header rbsp))
      [(True, 0x67, [0, 0, 1, 0x80]), (False, 0x68, [7])]) = [0, 0, 0, 1, 0x67, 0, 0, 3, 1, 0x80, 0, 0, 1, 0x68, 7]"
    by code_simp
  with byte_stream_roundtrip [of "[(True, 0x67, [0, 0, 1, 0x80]), (False, 0x68, [7])]"] show ?thesis
    by (simp add: Let_def)
qed

end
