(* ===== verification/PayloadSplit.thy ===== *)
theory PayloadSplit
  imports RtpPacket
begin

text \<open>
  How a payload is split into packets: \<^verbatim>\<open>RtpPacketizer::SplitAboutEqually\<close>
  (\<^verbatim>\<open>rtp_rtcp/rtp/packetizer/rtp_packetizer.cpp\<close>), with sizes at 64 bits. The lemmas show that the loop returns, that the
  sizes add up and that they keep the limits.
\<close>

section \<open>Splitting a payload\<close>

record payload_size_limits =
  max_payload_size :: nat
  first_packet_reduction_size :: int
  last_packet_reduction_size :: int
  single_packet_reduction_size :: int

text \<open>Sizes are 64-bit unsigned; a signed operand is converted, and a difference can wrap.\<close>

definition size_of_int :: "int \<Rightarrow> nat" where
  "size_of_int x = nat (x mod 2 ^ 64)"

definition size_minus :: "nat \<Rightarrow> int \<Rightarrow> nat" where
  "size_minus a b = size_of_int (int a - b)"

definition size_plus :: "nat \<Rightarrow> int \<Rightarrow> nat" where
  "size_plus a b = size_of_int (int a + b)"

text \<open>
  One round of \<^verbatim>\<open>SplitAboutEqually\<close>: the size wanted for the packet, and the size taken, which leaves
  a byte for the last packet.
\<close>

definition wanted_size :: "int \<Rightarrow> nat \<Rightarrow> bool \<Rightarrow> nat" where
  "wanted_size first_reduction bytes_per_packet first_packet =
     (if first_packet then
        if bytes_per_packet > size_of_int (first_reduction + 1)
        then size_minus bytes_per_packet first_reduction else 1
      else bytes_per_packet)"

definition taken_size :: "nat \<Rightarrow> nat \<Rightarrow> nat \<Rightarrow> nat" where
  "taken_size num_of_packets_left remaining_size wanted =
     (let current_packet_size = (if wanted > remaining_size then remaining_size else wanted) in
      if num_of_packets_left = 2 \<and> current_packet_size = remaining_size
      then current_packet_size - 1 else current_packet_size)"

text \<open>
  The loop. The number of packets left only counts down; \<open>None\<close> is the case that it is zero and bytes
  remain.
\<close>

fun split_loop :: "int \<Rightarrow> nat \<Rightarrow> nat \<Rightarrow> nat \<Rightarrow> nat \<Rightarrow> bool \<Rightarrow> nat list option" where
  "split_loop first_reduction num_larger_packets 0 bytes_per_packet remaining_size first_packet =
     (if remaining_size > 0 then None else Some [])"
| "split_loop first_reduction num_larger_packets (Suc packets_after) bytes_per_packet remaining_size first_packet =
     (if remaining_size > 0 then
        let bytes_per_packet = (if Suc packets_after = num_larger_packets then bytes_per_packet + 1 else bytes_per_packet);
            current_packet_size =
              taken_size (Suc packets_after) remaining_size (wanted_size first_reduction bytes_per_packet first_packet)
        in map_option (Cons current_packet_size)
             (split_loop first_reduction num_larger_packets packets_after bytes_per_packet
                (remaining_size - current_packet_size) False)
      else Some [])"

definition split_about_equally :: "nat \<Rightarrow> payload_size_limits \<Rightarrow> nat list option" where
  "split_about_equally psize limits =
     (if psize = 0 then Some []
      else if first_packet_reduction_size limits < 0 \<or> last_packet_reduction_size limits < 0 then Some []
      else if max_payload_size limits \<ge> size_plus psize (single_packet_reduction_size limits) then Some [psize]
      else if size_minus (max_payload_size limits) (first_packet_reduction_size limits) < 1 \<or>
              size_minus (max_payload_size limits) (last_packet_reduction_size limits) < 1 then Some []
      else
        let total_size = size_plus (size_plus psize (first_packet_reduction_size limits)) (last_packet_reduction_size limits);
            rounded = size_plus total_size (int (size_minus (max_payload_size limits) 1))
        in if max_payload_size limits = 0 then None
           else
             let num_of_packets = rounded div max_payload_size limits;
                 num_of_packets = (if num_of_packets = 1 then num_of_packets + 1 else num_of_packets)
             in if psize < num_of_packets then Some []
                else if num_of_packets = 0 then None
                else split_loop (first_packet_reduction_size limits) (total_size mod num_of_packets) num_of_packets
                       (total_size div num_of_packets) psize True)"

section \<open>What the split guarantees\<close>

text \<open>
  The room of the packet with \<open>k\<close> packets left, itself included, and of all of them: \<open>B\<close> bytes and one
  more for the last \<open>L\<close> packets.
\<close>

definition room :: "nat \<Rightarrow> nat \<Rightarrow> nat \<Rightarrow> nat" where
  "room B L k = (if k \<le> L then B + 1 else B)"

definition room_left :: "nat \<Rightarrow> nat \<Rightarrow> nat \<Rightarrow> nat" where
  "room_left B L k = k * B + min k L"

lemma room_left_Suc: "room_left B L (Suc k) = room_left B L k + room B L (Suc k)"
  by (auto simp: room_left_def room_def min_def)

lemma room_left_one: "room_left B L 1 = room B L 1"
  by (auto simp: room_left_def room_def)

declare split_loop.simps [simp del]

lemma split_loop_round:
  assumes "0 < r" "0 < k" "b = (if k < L then B + 1 else B)" "c = taken_size k r (wanted_size f (room B L k) first)"
  shows "split_loop f L k b r first = map_option (Cons c) (split_loop f L (k - 1) (room B L k) (r - c) False)"
proof -
  have "(if k = L then b + 1 else b) = room B L k"
    using assms(3) by (auto simp: room_def)
  moreover obtain j where "k = Suc j"
    using assms(2) by (cases k) auto
  ultimately show ?thesis
    using assms(1,4) by (simp add: split_loop.simps Let_def)
qed

lemma split_loop_step:
  assumes "0 < r" "b = (if k < L then B + 1 else B)" "0 < k" "c = taken_size k r (room B L k)"
  shows "split_loop f L k b r False = map_option (Cons c) (split_loop f L (k - 1) (room B L k) (r - c) False)"
  using split_loop_round [OF assms(1,3,2), of c f False] assms(4) by (simp add: wanted_size_def)

lemma split_loop_done: "split_loop f L k b 0 first = Some []"
  by (cases k) (simp_all add: split_loop.simps)

lemma split_loop_last:
  assumes "0 < r" "r \<le> room B L 1" "b = (if 1 < L then B + 1 else B)"
  shows "split_loop f L 1 b r False = Some [r]"
  using split_loop_step [OF assms(1,3), of r f] assms(1,2) by (simp add: split_loop_done taken_size_def)

lemma split_loop_rest:
  assumes "2 \<le> k" "r + d = room_left B L k" "d + 2 \<le> room_left B L 2" "1 \<le> B" "b = (if k < L then B + 1 else B)"
  shows "\<exists>xs. split_loop f L k b r False = Some xs \<and> length xs = k \<and> sum_list xs = r \<and>
    (\<forall>x\<in>set xs. 1 \<le> x \<and> x \<le> room B L 1) \<and> (last xs = 1 \<or> last xs + d \<le> room B L 1)"
  using assms
proof (induction k arbitrary: r b rule: nat_induct_at_least)
  case base
  let ?v = "room B L 2"
  have two: "room_left B L 2 = room B L 1 + ?v"
    using room_left_Suc [of B L 1] room_left_one [of B L] by (simp add: numeral_2_eq_2)
  have r: "2 \<le> r" "0 < r"
    using base by simp_all
  have one: "1 \<le> room B L 1" "?v \<le> room B L 1"
    using base(3) by (auto simp: room_def)
  have b1: "?v = (if 1 < L then B + 1 else B)"
    by (auto simp: room_def)
  show ?case
  proof (cases "r \<le> ?v")
    case True
    have "r - 1 = taken_size 2 r ?v" "r - (r - 1) = 1" "(2 :: nat) - 1 = 1"
      using True r(1) by (auto simp: taken_size_def Let_def)
    then have "split_loop f L 2 b r False = map_option (Cons (r - 1)) (split_loop f L 1 ?v 1 False)"
      using split_loop_step [OF r(2) base(4), of "r - 1" f] by simp
    then have "split_loop f L 2 b r False = Some [r - 1, 1]"
      using split_loop_last [of 1 B L ?v f] one b1 by simp
    with True r one show ?thesis
      by auto
  next
    case False
    have "?v = taken_size 2 r ?v" "(2 :: nat) - 1 = 1"
      using False by (auto simp: taken_size_def Let_def)
    then have "split_loop f L 2 b r False = map_option (Cons ?v) (split_loop f L 1 ?v (r - ?v) False)"
      using split_loop_step [OF r(2) base(4), of ?v f] by simp
    moreover have rest: "r - ?v + d = room B L 1" "0 < r - ?v"
      using base(1) two False by simp_all
    ultimately have "split_loop f L 2 b r False = Some [?v, r - ?v]"
      using split_loop_last [of "r - ?v" B L ?v f] b1 by simp
    moreover have "1 \<le> ?v"
      using base(3) by (auto simp: room_def)
    ultimately show ?thesis
      using rest one False by auto
  qed
next
  case (Suc k)
  let ?v = "room B L (Suc k)"
  have "2 * B \<le> k * B" "min 2 L \<le> min k L"
    using Suc.hyps by auto
  then have "room_left B L 2 \<le> room_left B L k"
    unfolding room_left_def by (rule add_mono)
  then have r: "?v < r" "0 < r" and rest: "r - ?v + d = room_left B L k"
    using Suc.prems(1,2) room_left_Suc [of B L k] by simp_all
  have step: "split_loop f L (Suc k) b r False = map_option (Cons ?v) (split_loop f L k ?v (r - ?v) False)"
    using split_loop_step [OF r(2) Suc.prems(4), of ?v f] r by (simp add: taken_size_def)
  have v: "?v = (if k < L then B + 1 else B)" "1 \<le> ?v" "?v \<le> room B L 1"
    using Suc.prems(3) by (auto simp: room_def)
  obtain xs where "split_loop f L k ?v (r - ?v) False = Some xs" "length xs = k" "sum_list xs = r - ?v"
    "\<forall>x\<in>set xs. 1 \<le> x \<and> x \<le> room B L 1" "last xs = 1 \<or> last xs + d \<le> room B L 1"
    using Suc.IH [OF rest Suc.prems(2,3) v(1)] by blast
  with step r v Suc.hyps show ?case
    by (intro exI [of _ "?v # xs"]) auto
qed


text \<open>The arithmetic of three packets and more: the last two have room for both reductions and two bytes.\<close>

lemma room_for_reductions:
  fixes M B L n :: nat
  assumes "n * B + L \<ge> (n - 1) * M + 1" "3 \<le> n" "L < n" "B \<le> M" "1 \<le> M"
  shows "2 * M + 1 \<le> 3 * B + min 2 L"
proof -
  obtain e where e: "M = B + e"
    using assms(4) le_Suc_ex by blast
  obtain m where m: "n = m + 3"
    using assms(2) by (metis add.commute le_Suc_ex)
  have sum: "(m + 2) * (B + e) + 1 \<le> (m + 3) * B + L"
    using assms(1) by (simp add: e m)
  then have lower: "m * e + 2 * e + 1 \<le> B + L"
    by (simp add: algebra_simps)
  show ?thesis
  proof (cases "e = 0")
    case True
    then show ?thesis
      using assms(5) by (simp add: e)
  next
    case False
    then have "m \<le> m * e"
      by simp
    have "2 * e + 1 \<le> B + min 2 L"
    proof (cases "L \<le> 2")
      case True
      then show ?thesis
        using lower by simp
    next
      case False
      have "L \<le> m + 2"
        using assms(3) m by simp
      with lower \<open>m \<le> m * e\<close> have "2 * e \<le> B + 1"
        by linarith
      with False show ?thesis
        by simp
    qed
    then show ?thesis
      by (simp add: e)
  qed
qed

lemma size_of_int_small:
  assumes "x < 2 ^ 64"
  shows "size_of_int (int x) = x"
proof -
  have "int x < 2 ^ 64"
    using assms by simp
  then have "int x mod 2 ^ 64 = int x"
    by (intro mod_pos_pos_trivial) simp_all
  then show ?thesis
    by (simp add: size_of_int_def)
qed

lemma wanted_size_first:
  assumes "b < 2 ^ 63" "f < 2 ^ 63"
  shows "wanted_size (int f) b True = (if b > f + 1 then b - f else 1)"
proof -
  have "size_of_int (int f + 1) = f + 1"
    using size_of_int_small [of "f + 1"] assms(2) by (simp add: add.commute)
  moreover have "size_minus b (int f) = b - f" if "f \<le> b"
    using size_of_int_small [of "b - f"] assms(1) that by (simp add: size_minus_def of_nat_diff)
  ultimately show ?thesis
    by (simp add: wanted_size_def)
qed

text \<open>The whole loop, from the first packet on.\<close>

lemma split_loop_all:
  fixes f l M n P :: nat
  defines "T \<equiv> P + f + l"
  defines "B \<equiv> T div n" and "L \<equiv> T mod n"
  assumes "2 \<le> n" "n \<le> P" "f < M" "l < M" "T \<le> n * M" "n = 2 \<or> (n - 1) * M + 1 \<le> T" "T < 2 ^ 62" "M < 2 ^ 62"
  shows "\<exists>xs. split_loop (int f) L n B P True = Some xs \<and> length xs = n \<and> sum_list xs = P \<and>
    (\<forall>x\<in>set xs. 1 \<le> x \<and> x \<le> M) \<and> hd xs + f \<le> M \<and> last xs + l \<le> M"
proof -
  have T: "T = n * B + L" "L < n"
    using assms(4) by (simp_all add: B_def L_def)
  have "n * 1 \<le> T"
    using assms(5) by (simp add: T_def)
  then have B1: "1 \<le> B"
    using assms(4) by (simp add: B_def Suc_le_eq div_greater_zero_iff)
  have top: "room B L 1 \<le> M"
  proof (cases "L = 0")
    case True
    then have "n * B \<le> n * M"
      using T assms(8) by simp
    then show ?thesis
      using True assms(4) by (simp add: room_def)
  next
    case False
    then have "n * B < n * M"
      using T(1) assms(8) by linarith
    then show ?thesis
      using False by (simp add: room_def)
  qed
  have Bn: "room B L n = B" and BM: "B \<le> M"
    using T(2) top by (auto simp: room_def split: if_splits)
  have all: "room_left B L n = T"
    using T by (simp add: room_left_def min_def)
  define w where "w = (if B > f + 1 then B - f else 1)"
  have small: "B < 2 ^ 63" "f < 2 ^ 63"
    using BM assms(6,11) by simp_all
  have w: "wanted_size (int f) (room B L n) True = w"
    using wanted_size_first [OF small] by (simp add: Bn w_def)
  have w1: "1 \<le> w" "w \<le> B" "B \<le> w + f" "w + f \<le> M"
    using B1 BM assms(6) by (auto simp: w_def)
  define d where "d = l + (f + w - B)"
  have P: "0 < P" "P + f + l = T" "2 \<le> P"
    using assms(4,5) by (simp_all add: T_def)
  have start: "B = (if n < L then B + 1 else B)" "0 < n"
    using T(2) assms(4) by auto
  obtain m where m: "n = Suc m" "1 \<le> m"
    using assms(4) by (cases n) auto
  have before: "room_left B L m + B = T"
    using all room_left_Suc [of B L m] Bn by (simp add: m)
  show ?thesis
  proof (cases "n = 2")
    case False
    have "d + 2 \<le> room_left B L 2"
    proof -
      have "2 * M + 1 \<le> 3 * B + min 2 L"
        using assms(4,6,9) False T BM by (intro room_for_reductions [where n = n]) auto
      moreover have "d + 1 \<le> 2 * M - B" "w = 1 \<or> d = l"
        using w1 assms(6,7) by (auto simp: d_def w_def)
      ultimately show ?thesis
        using w1 assms(6,7) BM by (auto simp: room_left_def d_def w_def split: if_splits)
    qed
    note d2 = this
    have "2 * B \<le> m * B" "min 2 L \<le> min m L"
      using False assms(4) m by auto
    then have mono: "room_left B L 2 \<le> room_left B L m"
      unfolding room_left_def by (rule add_mono)
    have rest: "P - w + d = room_left B L m" "w < P"
      using before P(2) w1 d2 mono by (auto simp: d_def)
    have "w = taken_size n P w"
      using False rest(2) by (simp add: taken_size_def)
    then have "split_loop (int f) L n B P True = map_option (Cons w) (split_loop (int f) L m B (P - w) False)"
      using split_loop_round [OF P(1) start(2,1), of w "int f" True] w Bn m by simp
    moreover obtain xs where "split_loop (int f) L m B (P - w) False = Some xs" "length xs = m" "sum_list xs = P - w"
      "\<forall>x\<in>set xs. 1 \<le> x \<and> x \<le> room B L 1" "last xs = 1 \<or> last xs + d \<le> room B L 1"
      using split_loop_rest [of m "P - w" d B L B "int f"] rest(1) d2 B1 False assms(4) m T(2) by auto
    ultimately show ?thesis
      using w1 rest(2) top m assms(7) BM by (intro exI [of _ "w # xs"]) (force simp: d_def)
  next
    case two: True
    then have m1: "m = 1" "room_left B L m = room B L 1"
      using m room_left_one by simp_all
    define c where "c = taken_size n P w"
    have step: "split_loop (int f) L n B P True = map_option (Cons c) (split_loop (int f) L 1 B (P - c) False)"
      using split_loop_round [OF P(1) start(2,1), of c "int f" True] w Bn m m1 by (simp add: c_def)
    have c: "1 \<le> c" "c \<le> w" "c < P" and rest: "P - c = 1 \<or> c = w"
      using two w1 P(3) by (auto simp: c_def taken_size_def Let_def)
    have lastr: "P - c \<le> room B L 1" "P - c + l \<le> M"
      using rest before P(2) w1 m1 top B1 assms(7) by (auto simp: room_def)
    have "split_loop (int f) L 1 B (P - c) False = Some [P - c]"
      using split_loop_last [of "P - c" B L B "int f"] c(3) lastr(1) two T(2) by auto
    with step c w1 lastr top m m1 show ?thesis
      by (intro exI [of _ "[c, P - c]"]) auto
  qed
qed


definition limits_of :: "nat \<Rightarrow> nat \<Rightarrow> nat \<Rightarrow> nat \<Rightarrow> payload_size_limits" where
  "limits_of M f l s = \<lparr>max_payload_size = M, first_packet_reduction_size = int f,
     last_packet_reduction_size = int l, single_packet_reduction_size = int s\<rparr>"

lemma size_arith:
  "x + y < 2 ^ 64 \<Longrightarrow> size_plus x (int y) = x + y" "y \<le> x \<Longrightarrow> x < 2 ^ 64 \<Longrightarrow> size_minus x (int y) = x - y"
  using size_of_int_small [of "x + y"] size_of_int_small [of "x - y"]
  by (simp_all add: size_plus_def size_minus_def of_nat_diff)

lemma packets_needed:
  fixes T M P f l :: nat
  assumes "f < M" "l < M" "2 \<le> P" "T = P + f + l" "k = (T + (M - 1)) div M" "n = (if k = 1 then k + 1 else k)"
  shows "2 \<le> n" "n \<le> P" "T \<le> n * M" "n = 2 \<or> (n - 1) * M + 1 \<le> T"
proof -
  have M: "0 < M"
    using assms(1) by simp
  have "M \<le> T + (M - 1)"
    using assms(3,4) by simp
  then have k1: "1 \<le> k"
    using M by (simp add: assms(5) Suc_le_eq div_greater_zero_iff)
  then show n2: "2 \<le> n"
    by (simp add: assms(6))
  have split: "T + (M - 1) = k * M + (T + (M - 1)) mod M" "(T + (M - 1)) mod M < M"
    using M by (simp_all add: assms(5))
  have Tk: "T \<le> k * M" "k * M + 1 \<le> T + M"
    using split M by linarith+
  have "k * M \<le> n * M"
    by (simp add: assms(6))
  with Tk(1) show "T \<le> n * M"
    by linarith
  have "2 * (M - 1) \<le> P * (M - 1)"
    using assms(3) by (rule mult_le_mono1)
  moreover have "P * M = P * (M - 1) + P"
    using M by (cases M) simp_all
  ultimately have "T \<le> P * M"
    using assms(1,2,4) by linarith
  then have "k * M < (P + 1) * M"
    using Tk(2) by (simp add: algebra_simps)
  then have "k < P + 1"
    using mult_less_cancel2 by blast
  then have "k \<le> P"
    by simp
  with assms(3) show "n \<le> P"
    by (simp add: assms(6))
  show "n = 2 \<or> (n - 1) * M + 1 \<le> T"
  proof (cases "k = 1")
    case False
    then have "n = k" "k = (k - 1) + 1"
      using k1 by (simp_all add: assms(6))
    then have "k * M = (k - 1) * M + M"
      by (metis add_mult_distrib mult_1)
    with Tk(2) \<open>n = k\<close> show ?thesis
      by simp
  qed (simp add: assms(6))
qed

lemma split_about_equally_sizes:
  fixes M f l s P :: nat
  assumes "f < M" "l < M" "0 < P" "P + s < 2 ^ 61" "M < 2 ^ 60"
  shows "\<exists>xs. split_about_equally P (limits_of M f l s) = Some xs \<and>
    (if P + s \<le> M then xs = [P]
     else if P = 1 then xs = []
     else 2 \<le> length xs \<and> sum_list xs = P \<and> (\<forall>x\<in>set xs. 1 \<le> x \<and> x \<le> M) \<and> hd xs + f \<le> M \<and> last xs + l \<le> M)"
proof (cases "P + s \<le> M")
  case True
  then show ?thesis
    using assms size_arith(1) [of P s] by (simp add: split_about_equally_def limits_of_def)
next
  case False
  define T where "T = P + f + l"
  define k where "k = (T + (M - 1)) div M"
  define n where "n = (if k = 1 then k + 1 else k)"
  have sizes: "size_plus P (int s) = P + s" "size_minus M (int f) = M - f" "size_minus M (int l) = M - l"
    "size_plus (size_plus P (int f)) (int l) = T" "size_minus M 1 = M - 1" "size_plus T (int (M - 1)) = T + (M - 1)"
    using assms size_arith(1) [of P s] size_arith(2) [of f M] size_arith(2) [of l M] size_arith(1) [of P f] size_arith(1) [of "P + f" l]
      size_arith(2) [of 1 M] size_arith(1) [of T "M - 1"] by (simp_all add: T_def)
  have k: "1 \<le> k"
    using assms(1,3) by (simp add: k_def T_def Suc_le_eq div_greater_zero_iff)
  have eq: "split_about_equally P (limits_of M f l s) =
      (if P < n then Some [] else split_loop (int f) (T mod n) n (T div n) P True)"
    using False assms k sizes by (simp add: split_about_equally_def limits_of_def k_def n_def Let_def)
  show ?thesis
  proof (cases "P = 1")
    case True
    then have "P < n"
      using k by (simp add: n_def)
    with eq True False show ?thesis
      by simp
  next
    case False
    then have P: "2 \<le> P"
      using assms(3) by simp
    note n = packets_needed [OF assms(1,2) P T_def k_def n_def]
    have "T < 2 ^ 62" "M < 2 ^ 62"
      using assms by (simp_all add: T_def)
    with split_loop_all [of n P f M l] n assms(1,2) eq \<open>\<not> P + s \<le> M\<close> False show ?thesis
      by (fastforce simp: T_def)
  qed
qed

text \<open>C17.
  What \<^verbatim>\<open>SplitAboutEqually\<close> returns, for reductions below the maximal size and without overflow: one packet
  when the payload and the reduction for a single packet fit, none when the payload is a byte that does not fit, and
  otherwise at least two sizes with the size of the payload as their sum. Each is between one and the maximal size,
  and the first and the last one leave room for their reductions.
\<close>

theorem split_about_equally_bounds:
  fixes M f l s P :: nat
  assumes "f < M" "l < M" "0 < P" "P + s < 2 ^ 61" "M < 2 ^ 60"
  shows "\<exists>xs. split_about_equally P (limits_of M f l s) = Some xs \<and>
    (if P + s \<le> M then xs = [P]
     else if P = 1 then xs = []
     else 2 \<le> length xs \<and> sum_list xs = P \<and> (\<forall>x\<in>set xs. 1 \<le> x \<and> x \<le> M) \<and> hd xs + f \<le> M \<and> last xs + l \<le> M)"
  using assms by (rule split_about_equally_sizes)

theorem split_about_equally_bounds_witness:
  "\<exists>xs. split_about_equally 12 (limits_of 10 0 9 9) = Some xs \<and> sum_list xs = 12 \<and> 2 \<le> length xs \<and> last xs + 9 \<le> 10"
  using split_about_equally_bounds [of 0 10 9 12 9] by auto

end
