(* ===== verification/H264Packetizer.thy ===== *)
theory H264Packetizer
  imports PayloadSplit RtpBuild H264Nalu
begin

text \<open>
  The H.264 packetizer (\<^verbatim>\<open>rtp_rtcp/rtp/packetizer/rtp_packetizer_h264.cpp\<close>): a frame is cut into units by
  \<^verbatim>\<open>FindNaluIndices\<close>, small units are aggregated, large ones are fragmented, and every call of \<^verbatim>\<open>NextPacket\<close> writes
  one payload into an RTP packet. An assertion that fails, a null pointer that is written through and an access to an empty
  queue are \<open>None\<close>. The lemmas relate the payloads to the RTP packets of \<^verbatim>\<open>RtpBuild\<close> and to what a receiver
  reassembles.
\<close>

section \<open>The packetizer\<close>

datatype packetization_mode = NON_INTERLEAVED | SINGLE_NAL_UNIT

record packet_unit =
  fragment_data :: "byte list"
  first_fragment :: bool
  last_fragment :: bool
  aggregated :: bool
  unit_header :: byte

record packetizer =
  num_packets_left :: nat
  input_fragments :: "byte list list"
  packet_units :: "packet_unit list"

definition kNaluHeaderSize :: nat where "kNaluHeaderSize = 1"
definition kFuAHeaderSize :: nat where "kFuAHeaderSize = 2"
definition kLengthFieldSize :: nat where "kLengthFieldSize = 2"

definition kFBit :: byte where "kFBit = 0x80"
definition kNriMask :: byte where "kNriMask = 0x60"
definition kTypeMask :: byte where "kTypeMask = 0x1F"
definition kSBit :: byte where "kSBit = 0x80"
definition kEBit :: byte where "kEBit = 0x40"
definition kRBit :: byte where "kRBit = 0x20"

definition nalu_type_STAP_A :: byte where "nalu_type_STAP_A = 24"
definition nalu_type_FU_A :: byte where "nalu_type_FU_A = 28"

definition packetizer_reset :: "packetizer \<Rightarrow> packetizer" where
  "packetizer_reset z = z\<lparr>packet_units := [], input_fragments := [], num_packets_left := 0\<rparr>"

definition subview :: "byte list \<Rightarrow> nat \<Rightarrow> nat \<Rightarrow> byte list" where
  "subview xs off n = (if off < length xs then take (min n (length xs - off)) (drop off xs) else [])"

text \<open>
  The reduction of the packet with a fragment: the only, the first or the last one.
\<close>

definition packetize_single_nalu :: "nat \<Rightarrow> payload_size_limits \<Rightarrow> packetizer \<Rightarrow> (bool \<times> packetizer) option" where
  "packetize_single_nalu i limits z =
     (let fs = input_fragments z;
          payload_size_left =
            (if length fs = 1 then size_minus (max_payload_size limits) (single_packet_reduction_size limits)
             else if i = 0 then size_minus (max_payload_size limits) (first_packet_reduction_size limits)
             else if i + 1 = length fs then size_minus (max_payload_size limits) (last_packet_reduction_size limits)
             else max_payload_size limits);
          fragment = fs ! i
      in if payload_size_left < length fragment then Some (False, z)
         else do {
           h \<leftarrow> rd fragment 0;
           Some (True, z\<lparr>packet_units := packet_units z @
               [\<lparr>fragment_data = fragment, first_fragment = True, last_fragment = True, aggregated = False, unit_header = h\<rparr>],
             num_packets_left := num_packets_left z + 1\<rparr>) })"

fun fu_a_units :: "byte list \<Rightarrow> byte \<Rightarrow> nat \<Rightarrow> bool \<Rightarrow> nat list \<Rightarrow> packet_unit list" where
  "fu_a_units fragment h off first [] = []"
| "fu_a_units fragment h off first (n # ns) =
     \<lparr>fragment_data = subview fragment off n, first_fragment = first, last_fragment = (ns = []), aggregated = False,
      unit_header = h\<rparr> # fu_a_units fragment h (off + n) False ns"

definition fu_a_limits :: "nat \<Rightarrow> nat \<Rightarrow> payload_size_limits \<Rightarrow> payload_size_limits" where
  "fu_a_limits i count limits =
     (let l1 = limits\<lparr>max_payload_size := size_minus (max_payload_size limits) (int kFuAHeaderSize)\<rparr>;
          l2 = (if count \<noteq> 1 then
                  if i = count - 1 then l1\<lparr>single_packet_reduction_size := last_packet_reduction_size limits\<rparr>
                  else if i = 0 then l1\<lparr>single_packet_reduction_size := first_packet_reduction_size limits\<rparr>
                  else l1\<lparr>single_packet_reduction_size := 0\<rparr>
                else l1);
          l3 = (if i \<noteq> 0 then l2\<lparr>first_packet_reduction_size := 0\<rparr> else l2)
      in if i \<noteq> count - 1 then l3\<lparr>last_packet_reduction_size := 0\<rparr> else l3)"

definition packetize_fu_a :: "nat \<Rightarrow> payload_size_limits \<Rightarrow> packetizer \<Rightarrow> (bool \<times> packetizer) option" where
  "packetize_fu_a i limits z =
     (let fs = input_fragments z;
          fragment = fs ! i;
          new_limits = fu_a_limits i (length fs) limits;
          psize = size_minus (length fragment) (int kNaluHeaderSize)
      in do {
        ns \<leftarrow> split_about_equally psize new_limits;
        if ns = [] then Some (False, z)
        else do {
          h \<leftarrow> rd fragment 0;
          if sum_list ns = psize
          then Some (True, z\<lparr>packet_units := packet_units z @ fu_a_units fragment h kNaluHeaderSize True ns,
                 num_packets_left := num_packets_left z + length ns\<rparr>)
          else None } })"

definition payload_size_need :: "byte list list \<Rightarrow> payload_size_limits \<Rightarrow> nat \<Rightarrow> nat \<Rightarrow> nat" where
  "payload_size_need fs limits i fragment_headers_size =
     (let fragment_size = length (fs ! i) + fragment_headers_size in
      if length fs = 1 then fragment_size
      else if i = length fs - 1 then size_plus fragment_size (last_packet_reduction_size limits)
      else fragment_size)"

function stap_a_loop ::
    "byte list list \<Rightarrow> payload_size_limits \<Rightarrow> nat \<Rightarrow> nat \<Rightarrow> nat \<Rightarrow> nat \<Rightarrow> packet_unit list \<Rightarrow> (nat \<times> nat \<times> packet_unit list) option" where
  "stap_a_loop fs limits i payload_size_left fragment_headers_size aggregated_fragments_count units =
     (if i < length fs \<and> payload_size_left \<ge> payload_size_need fs limits i fragment_headers_size then do {
        h \<leftarrow> rd (fs ! i) 0;
        stap_a_loop fs limits (i + 1)
          (size_minus (size_minus payload_size_left (int (length (fs ! i)))) (int fragment_headers_size))
          (if aggregated_fragments_count = 0 then kLengthFieldSize + kNaluHeaderSize + kLengthFieldSize else kLengthFieldSize)
          (aggregated_fragments_count + 1)
          (units @ [\<lparr>fragment_data = fs ! i, first_fragment = (aggregated_fragments_count = 0), last_fragment = False,
                    aggregated = True, unit_header = h\<rparr>]) }
      else Some (i, aggregated_fragments_count, units))"
  by pat_completeness auto
termination
  by (relation "measure (\<lambda>(fs, _, i, _). length fs - i)") auto

declare stap_a_loop.simps [simp del]

definition packetize_stap_a :: "nat \<Rightarrow> payload_size_limits \<Rightarrow> packetizer \<Rightarrow> (nat \<times> packetizer) option" where
  "packetize_stap_a i limits z =
     (let fs = input_fragments z;
          psize = (if length fs = 1 then size_minus (max_payload_size limits) (single_packet_reduction_size limits)
                   else if i = 0 then size_minus (max_payload_size limits) (first_packet_reduction_size limits)
                   else max_payload_size limits)
      in do {
        (j, count, units) \<leftarrow> stap_a_loop fs limits i psize 0 0 (packet_units z);
        if count > 0
        then Some (j, z\<lparr>num_packets_left := num_packets_left z + 1,
               packet_units := butlast units @ [(last units)\<lparr>last_fragment := True\<rparr>]\<rparr>)
        else None })"

text \<open>The conversion to a 32-bit signed integer.\<close>

definition int_of :: "int \<Rightarrow> int" where
  "int_of x = (x + 2 ^ 31) mod 2 ^ 32 - 2 ^ 31"

text \<open>
  The loop over the fragments. In the second mode \<^verbatim>\<open>PacketizeStapA\<close> returns a larger index or aborts, so
  the number of fragments after the index bounds the loop.
\<close>

fun generate_packets :: "nat \<Rightarrow> nat \<Rightarrow> payload_size_limits \<Rightarrow> packetization_mode \<Rightarrow> packetizer \<Rightarrow> (bool \<times> packetizer) option" where
  "generate_packets bound i limits mode z =
     (if i < length (input_fragments z) then
        case bound of
          0 \<Rightarrow> None
        | Suc bound \<Rightarrow>
            (case mode of
               SINGLE_NAL_UNIT \<Rightarrow> do {
                 (ok, z) \<leftarrow> packetize_single_nalu i limits z;
                 if \<not> ok then Some (False, z) else generate_packets bound (i + 1) limits mode z }
             | NON_INTERLEAVED \<Rightarrow>
                 let fragment_size = int_of (int (length (input_fragments z ! i)));
                     single_packet_capacity = int_of (int_of (int (max_payload_size limits)) -
                       (if length (input_fragments z) = 1 then single_packet_reduction_size limits
                        else if i = 0 then first_packet_reduction_size limits
                        else if i + 1 = length (input_fragments z) then last_packet_reduction_size limits
                        else 0))
                 in if fragment_size > single_packet_capacity then do {
                      (ok, z) \<leftarrow> packetize_fu_a i limits z;
                      if \<not> ok then Some (False, z) else generate_packets bound (i + 1) limits mode z }
                    else do {
                      (j, z) \<leftarrow> packetize_stap_a i limits z;
                      generate_packets bound j limits mode z })
      else Some (True, z))"

definition packetize :: "byte list \<Rightarrow> payload_size_limits \<Rightarrow> packetization_mode \<Rightarrow> packetizer \<Rightarrow> packetizer option" where
  "packetize frame limits mode z = do {
     z \<leftarrow> Some (packetizer_reset z);
     let nalu_indices = find_nalu_indices frame SHORT_START_SEQUENCE;
     z \<leftarrow> Some (z\<lparr>input_fragments := map (\<lambda>x. subview frame (payload_start_offset x) (payload_size x)) nalu_indices\<rparr>);
     (ok, z) \<leftarrow> generate_packets (length (input_fragments z)) 0 limits mode z;
     Some (if ok then z else packetizer_reset z) }"

section \<open>The next packet\<close>

definition free_capacity :: "rtp_packet \<Rightarrow> nat" where
  "free_capacity p = rp_capacity p - rp_size p"

definition next_single_packet :: "packetizer \<Rightarrow> rtp_packet \<Rightarrow> (packetizer \<times> rtp_packet) option" where
  "next_single_packet z p = do {
     let u = hd (packet_units z);
     (ptr, p) \<leftarrow> allocate_payload (length (fragment_data u)) p;
     off \<leftarrow> ptr;
     p \<leftarrow> write_at off (fragment_data u) p;
     Some (z\<lparr>packet_units := tl (packet_units z), input_fragments := tl (input_fragments z)\<rparr>, p) }"

definition fu_indicator :: "byte \<Rightarrow> byte" where
  "fu_indicator h = (h AND NOT kTypeMask AND (kFBit OR kNriMask)) OR nalu_type_FU_A"

definition fu_header :: "packet_unit \<Rightarrow> byte" where
  "fu_header u = (if first_fragment u then kSBit else 0) OR (if last_fragment u then kEBit else 0) OR (unit_header u AND kTypeMask)"

definition next_fu_a_packet :: "packetizer \<Rightarrow> rtp_packet \<Rightarrow> (packetizer \<times> rtp_packet) option" where
  "next_fu_a_packet z p = do {
     let u = hd (packet_units z);
     (ptr, p) \<leftarrow> allocate_payload (kFuAHeaderSize + length (fragment_data u)) p;
     off \<leftarrow> ptr;
     p \<leftarrow> write_at off [fu_indicator (unit_header u)] p;
     p \<leftarrow> write_at (off + 1) [fu_header u] p;
     p \<leftarrow> write_at (off + kFuAHeaderSize) (fragment_data u) p;
     Some (z\<lparr>packet_units := tl (packet_units z),
            input_fragments := (if last_fragment u then tl (input_fragments z) else input_fragments z)\<rparr>, p) }"

text \<open>
  The aggregation: the units up to the one marked as last are copied. The loop stops at a unit that is not aggregated,
  which passes the assertion after it only when that unit is marked as last; no unit left is an access to an empty queue.
\<close>

fun stap_a_copy :: "nat \<Rightarrow> nat \<Rightarrow> nat \<Rightarrow> packetizer \<Rightarrow> packet_unit list \<Rightarrow> rtp_packet \<Rightarrow> (nat \<times> packetizer \<times> rtp_packet) option" where
  "stap_a_copy off payload_capacity index z [] p = None"
| "stap_a_copy off payload_capacity index z (u # us) p =
     (if aggregated u then
        if index + kLengthFieldSize + length (fragment_data u) \<le> payload_capacity then do {
          p \<leftarrow> write_at (off + index) (be16 (of_nat (length (fragment_data u)))) p;
          p \<leftarrow> write_at (off + index + kLengthFieldSize) (fragment_data u) p;
          let index = index + kLengthFieldSize + length (fragment_data u);
          let z = z\<lparr>packet_units := us, input_fragments := tl (input_fragments z)\<rparr>;
          if last_fragment u then Some (index, z, p) else stap_a_copy off payload_capacity index z us p }
        else None
      else if last_fragment u then Some (index, z, p)
      else None)"

definition next_stap_a_packet :: "packetizer \<Rightarrow> rtp_packet \<Rightarrow> (packetizer \<times> rtp_packet) option" where
  "next_stap_a_packet z p = do {
     let payload_capacity = free_capacity p;
     if payload_capacity \<ge> kNaluHeaderSize then do {
       (ptr, p) \<leftarrow> allocate_payload payload_capacity p;
       off \<leftarrow> ptr;
       let u = hd (packet_units z);
       if first_fragment u then do {
         p \<leftarrow> write_at off [(unit_header u AND NOT kTypeMask AND (kRBit OR kNriMask)) OR nalu_type_STAP_A] p;
         (index, z, p) \<leftarrow> stap_a_copy off payload_capacity kNaluHeaderSize z (packet_units z) p;
         (_, p) \<leftarrow> set_payload_size index p;
         Some (z, p) }
       else None }
     else None }"

definition h264_next_packet :: "packetizer \<Rightarrow> rtp_packet \<Rightarrow> (bool \<times> packetizer \<times> rtp_packet) option" where
  "h264_next_packet z p =
     (if packet_units z = [] then Some (False, z, p)
      else do {
        let u = hd (packet_units z);
        (z, p) \<leftarrow>
          (if first_fragment u \<and> last_fragment u then next_single_packet z p
           else if aggregated u then next_stap_a_packet z p
           else next_fu_a_packet z p);
        p \<leftarrow> set_marker (packet_units z = []) p;
        Some (True, z\<lparr>num_packets_left := num_packets_left z - 1\<rparr>, p) })"


section \<open>Payloads in the RTP packet\<close>

lemma payload_image:
  assumes "bare a"
  shows "wire_image (a\<lparr>d_payload := xs\<rparr>) = header_image a @ xs" "header_image (a\<lparr>d_payload := xs\<rparr>) = header_image a"
  using assms by (simp_all add: bare_def wire_image_def padding_bytes_def header_image_def fixed_header_def)

text \<open>A packet whose payload has any bytes, when the payload is resized and when a part of it is written.\<close>

lemma resize_payload_refines:
  assumes "represents p (a\<lparr>d_payload := xs\<rparr>)" "bare a" "length (header_image a) + n \<le> rp_capacity p"
    "length (header_image a) < rp_capacity p" "rp_capacity p \<le> kIpPacketSize"
  shows "\<exists>q. set_payload_size n p = Some (Some (length (header_image a)), q) \<and>
    represents q (a\<lparr>d_payload := take n xs @ replicate (n - length xs) 0\<rparr>) \<and>
    rp_capacity q = rp_capacity p \<and> rp_extension_map q = rp_extension_map p"
proof -
  let ?H = "header_image a" and ?xs = "take n xs @ replicate (n - length xs) 0"
  let ?b = "a\<lparr>d_payload := ?xs\<rparr>"
  define q where "q = rp_resize (length ?H + n) (p\<lparr>rp_payload_size := n\<rparr>)"
  have rep: "v_ok (rp_buf p)" "v_elems (rp_buf p) = ?H @ xs" "fields_match p (a\<lparr>d_payload := xs\<rparr>)" "well_described (a\<lparr>d_payload := xs\<rparr>)"
    using assms(1) payload_image [OF assms(2)] by (simp_all add: represents_def holds_image_def)
  have "v_size (rp_buf p) = length ?H + length xs"
    using v_elems_simps(1) [OF rep(1)] rep(2) by simp
  then have q: "v_ok (rp_buf q)" "v_elems (rp_buf q) = ?H @ ?xs" "rp_capacity q = rp_capacity p"
    using rp_resize_buf [of "p\<lparr>rp_payload_size := n\<rparr>" "length ?H + n"] rep(1,2) assms(3)
    by (simp_all add: rp_capacity_def q_def)
  have match: "rp_payload_offset p = length ?H" "rp_padding_size p = 0"
    using rep(3) assms(2) payload_image(2) [OF assms(2)] by (simp_all add: fields_match_def bare_def)
  have "set_payload_size n p = Some (Some (length ?H), q)"
    using match assms(3,4) q(3) by (simp add: set_payload_size_def q_def)
  moreover have "length ?xs = n"
    by simp
  then have "fields_match q ?b"
    using rep(3) payload_image(2) [OF assms(2)] by (simp add: q_def fields_match_def extensions_start_def)
  moreover have "well_described ?b"
    using rep(4) assms(3,5) payload_image(1) [OF assms(2)] by (simp add: well_described_def)
  ultimately show ?thesis
    using q payload_image(1) [OF assms(2)] by (auto simp: represents_def holds_image_def q_def)
qed

lemma write_payload_refines:
  assumes "represents p (a\<lparr>d_payload := xs @ ys @ zs\<rparr>)" "bare a" "length ys = length bs" "bs \<noteq> []"
    "off = length (header_image a) + length xs"
  shows "refines_to p (write_at off bs p) (a\<lparr>d_payload := xs @ bs @ zs\<rparr>)"
proof -
  let ?H = "header_image a" and ?b = "a\<lparr>d_payload := xs @ bs @ zs\<rparr>" and ?a = "a\<lparr>d_payload := xs @ ys @ zs\<rparr>"
  have rep: "v_ok (rp_buf p)" "v_elems (rp_buf p) = (?H @ xs) @ ys @ zs" "fields_match p ?a" "well_described ?a"
    using assms(1) payload_image [OF assms(2)] by (simp_all add: represents_def holds_image_def)
  have "fields_match p ?b"
    using rep(3) assms(3) payload_image(2) [OF assms(2)] by (simp add: fields_match_def extensions_start_def)
  moreover have "well_described ?b"
    using rep(4) assms(3) payload_image(1) [OF assms(2)] by (simp add: well_described_def)
  ultimately show ?thesis
    using write_at_elems [OF rep(1,2) assms(3) _ assms(4), of off] assms(5) payload_image(1) [OF assms(2)]
    by (auto simp: refines_to_def represents_def holds_image_def rp_capacity_def)
qed

lemma allocate_payload_refines:
  assumes "represents p a" "bare a" "length (header_image a) + n \<le> rp_capacity p"
    "length (header_image a) < rp_capacity p" "rp_capacity p \<le> kIpPacketSize"
  shows "\<exists>q. allocate_payload n p = Some (Some (length (header_image a)), q) \<and>
    represents q (a\<lparr>d_payload := replicate n 0\<rparr>) \<and> rp_capacity q = rp_capacity p \<and> rp_extension_map q = rp_extension_map p"
proof -
  have a: "a = a\<lparr>d_payload := []\<rparr>"
    using assms(2) by (simp add: bare_def)
  obtain q where q: "set_payload_size 0 p = Some (Some (length (header_image a)), q)" "represents q (a\<lparr>d_payload := []\<rparr>)"
    "rp_capacity q = rp_capacity p" "rp_extension_map q = rp_extension_map p"
    using resize_payload_refines [where p = p and a = a and xs = "[]" and n = 0] assms a by auto
  then show ?thesis
    using resize_payload_refines [where p = q and a = a and xs = "[]" and n = n] assms by (auto simp: allocate_payload_def)
qed

section \<open>The payload of a packet\<close>

fun stap_units :: "bool \<Rightarrow> byte list list \<Rightarrow> packet_unit list" where
  "stap_units first [] = []"
| "stap_units first (d # ds) =
     \<lparr>fragment_data = d, first_fragment = first, last_fragment = (ds = []), aggregated = True, unit_header = hd d\<rparr> #
     stap_units False ds"

definition length_prefixed :: "byte list \<Rightarrow> byte list" where
  "length_prefixed d = be16 (of_nat (length d)) @ d"

definition stap_header :: "byte \<Rightarrow> byte" where
  "stap_header h = (h AND NOT kTypeMask AND (kRBit OR kNriMask)) OR nalu_type_STAP_A"

definition stap_payload :: "byte list list \<Rightarrow> byte list" where
  "stap_payload ds =
     (case ds of [d] \<Rightarrow> d | _ \<Rightarrow> stap_header (hd (hd ds)) # concat (map length_prefixed ds))"

definition fu_payload :: "packet_unit \<Rightarrow> byte list" where
  "fu_payload u = [fu_indicator (unit_header u), fu_header u] @ fragment_data u"

text \<open>The packets of one fragment that is split, or the packet of several fragments.\<close>

datatype packet_group = Stap "byte list list" | FuA "byte list" "nat list"

fun group_units :: "packet_group \<Rightarrow> packet_unit list" where
  "group_units (Stap ds) = stap_units True ds"
| "group_units (FuA d ns) = fu_a_units d (hd d) 1 True ns"

fun group_payloads :: "packet_group \<Rightarrow> byte list list" where
  "group_payloads (Stap ds) = [stap_payload ds]"
| "group_payloads (FuA d ns) = map fu_payload (fu_a_units d (hd d) 1 True ns)"

fun group_fragments :: "packet_group \<Rightarrow> byte list list" where
  "group_fragments (Stap ds) = ds"
| "group_fragments (FuA d ns) = [d]"

fun group_ok :: "packet_group \<Rightarrow> bool" where
  "group_ok (Stap ds) \<longleftrightarrow> ds \<noteq> [] \<and> list_all (\<lambda>d. d \<noteq> []) ds"
| "group_ok (FuA d ns) \<longleftrightarrow> d \<noteq> [] \<and> 2 \<le> length ns \<and> sum_list ns = length d - 1 \<and> list_all (\<lambda>n. 0 < n) ns"

lemma stap_a_copy_refines:
  assumes "represents p (a\<lparr>d_payload := xs @ zs\<rparr>)" "bare a" "off = length (header_image a)" "index = length xs"
    "length (concat (map length_prefixed ds)) \<le> length zs" "cap = length xs + length zs" "ds \<noteq> []" "list_all (\<lambda>d. d \<noteq> []) ds"
  shows "\<exists>q rest. stap_a_copy off cap index z (stap_units first ds @ us) p =
      Some (index + length (concat (map length_prefixed ds)),
        z\<lparr>packet_units := us, input_fragments := drop (length ds) (input_fragments z)\<rparr>, q) \<and>
    represents q (a\<lparr>d_payload := xs @ concat (map length_prefixed ds) @ rest\<rparr>) \<and>
    rp_capacity q = rp_capacity p \<and> rp_extension_map q = rp_extension_map p"
  using assms
proof (induction ds arbitrary: p xs zs index z first)
  case (Cons d ds)
  let ?len = "be16 (of_nat (length d))"
  define z1 where "z1 = take 2 zs"
  define z2 where "z2 = take (length d) (drop 2 zs)"
  define z3 where "z3 = drop (2 + length d) zs"
  have len: "2 + length d \<le> length zs"
    using Cons.prems(5) by (simp add: length_prefixed_def)
  have zs: "zs = z1 @ z2 @ z3"
    by (metis add.commute append_take_drop_id drop_drop z1_def z2_def z3_def)
  have sizes: "length z1 = 2" "length z2 = length d" "length z3 = length zs - (2 + length d)"
    using len by (simp_all add: z1_def z2_def z3_def)
  have ne: "d \<noteq> []" "?len \<noteq> []" "length z1 = length ?len"
    using Cons.prems(8) sizes by (simp_all add: be16_def)
  have rep: "represents p (a\<lparr>d_payload := xs @ z1 @ (z2 @ z3)\<rparr>)"
    using Cons.prems(1) zs by simp
  obtain p1 where p1: "write_at (off + index) ?len p = Some p1" "represents p1 (a\<lparr>d_payload := xs @ ?len @ (z2 @ z3)\<rparr>)"
    "rp_capacity p1 = rp_capacity p" "rp_extension_map p1 = rp_extension_map p"
    using write_payload_refines [OF rep Cons.prems(2) ne(3,2), of "off + index"] Cons.prems(3,4) by (auto elim: refines_toE)
  have rep1: "represents p1 (a\<lparr>d_payload := (xs @ ?len) @ z2 @ z3\<rparr>)"
    using p1(2) by simp
  obtain p2 where p2: "write_at (off + index + 2) d p1 = Some p2" "represents p2 (a\<lparr>d_payload := (xs @ ?len) @ d @ z3\<rparr>)"
    "rp_capacity p2 = rp_capacity p1" "rp_extension_map p2 = rp_extension_map p1"
    using write_payload_refines [OF rep1 Cons.prems(2) sizes(2) ne(1), of "off + index + 2"] Cons.prems(3,4) by (auto elim: refines_toE)
  define z' where "z' = z\<lparr>packet_units := stap_units False ds @ us, input_fragments := tl (input_fragments z)\<rparr>"
  have step: "stap_a_copy off cap index z (stap_units first (d # ds) @ us) p =
      (if ds = [] then Some (index + 2 + length d, z\<lparr>packet_units := us, input_fragments := tl (input_fragments z)\<rparr>, p2)
       else stap_a_copy off cap (index + 2 + length d) z' (stap_units False ds @ us) p2)"
    using p1(1) p2(1) Cons.prems(4,6) len by (simp add: kLengthFieldSize_def z'_def)
  show ?case
  proof (cases "ds = []")
    case True
    with step p2 p1 show ?thesis
      by (auto simp: length_prefixed_def drop_Suc add.assoc)
  next
    case False
    have "represents p2 (a\<lparr>d_payload := (xs @ length_prefixed d) @ z3\<rparr>)"
      using p2(2) by (simp add: length_prefixed_def)
    moreover have "length (length_prefixed d) = 2 + length d"
      by (simp add: length_prefixed_def)
    then have "index + 2 + length d = length (xs @ length_prefixed d)" "length (concat (map length_prefixed ds)) \<le> length z3"
      "cap = length (xs @ length_prefixed d) + length z3" "list_all (\<lambda>d. d \<noteq> []) ds"
      using Cons.prems(4-6,8) sizes(3) len by simp_all
    ultimately obtain q rest where q:
      "stap_a_copy off cap (index + 2 + length d) z' (stap_units False ds @ us) p2 =
        Some (index + 2 + length d + length (concat (map length_prefixed ds)),
          z'\<lparr>packet_units := us, input_fragments := drop (length ds) (input_fragments z')\<rparr>, q)"
      "represents q (a\<lparr>d_payload := (xs @ length_prefixed d) @ concat (map length_prefixed ds) @ rest\<rparr>)"
      "rp_capacity q = rp_capacity p2" "rp_extension_map q = rp_extension_map p2"
      using Cons.IH [where p = p2 and z = z' and first = False] Cons.prems(2,3) False by blast
    have "stap_a_copy off cap index z (stap_units first (d # ds) @ us) p =
        Some (index + length (concat (map length_prefixed (d # ds))),
          z\<lparr>packet_units := us, input_fragments := drop (length (d # ds)) (input_fragments z)\<rparr>, q)"
      unfolding step using False q(1) by (simp add: z'_def length_prefixed_def drop_Suc add.assoc)
    with q(2-4) p1(3,4) p2(3,4) show ?thesis
      by (intro exI [of _ q] exI [of _ rest]) simp
  qed
qed simp


definition ready :: "nat \<Rightarrow> rtp_packet \<Rightarrow> rtp_description \<Rightarrow> bool" where
  "ready M p a \<longleftrightarrow> represents p a \<and> bare a \<and> 0 < M \<and> length (header_image a) + M \<le> rp_capacity p \<and> rp_capacity p \<le> kIpPacketSize"

lemma readyD:
  assumes "ready M p a" "n \<le> M"
  shows "represents p a" "bare a" "length (header_image a) + n \<le> rp_capacity p" "length (header_image a) < rp_capacity p"
    "rp_capacity p \<le> kIpPacketSize"
  using assms by (auto simp: ready_def)

lemma set_marker_payload:
  assumes "represents p (a\<lparr>d_payload := xs\<rparr>)"
  obtains q where "set_marker m p = Some q" "represents q (a\<lparr>d_payload := xs, d_marker := m\<rparr>)" "rp_extension_map q = rp_extension_map p"
  using set_marker_refines [OF assms, of m] that by (auto elim!: refines_toE)

text \<open>Filling a part of the payload that was allocated.\<close>

lemma fill_payload:
  assumes "represents p (a\<lparr>d_payload := xs @ replicate (length bs + k) 0\<rparr>)" "bare a" "bs \<noteq> []"
    "off = length (header_image a) + length xs"
  obtains q where "write_at off bs p = Some q" "represents q (a\<lparr>d_payload := xs @ bs @ replicate k 0\<rparr>)"
    "rp_capacity q = rp_capacity p" "rp_extension_map q = rp_extension_map p"
proof -
  have "represents p (a\<lparr>d_payload := xs @ replicate (length bs) 0 @ replicate k 0\<rparr>)"
    using assms(1) by (simp add: replicate_add)
  from write_payload_refines [OF this assms(2) _ assms(3,4)] that show thesis
    by (auto elim!: refines_toE)
qed

definition after_packet :: "packetizer \<Rightarrow> packet_unit list \<Rightarrow> byte list list \<Rightarrow> packetizer" where
  "after_packet z us fs = z\<lparr>packet_units := us, input_fragments := fs, num_packets_left := num_packets_left z - 1\<rparr>"

lemma next_fu_a:
  assumes "ready M p a" "packet_units z = u # us" "\<not> (first_fragment u \<and> last_fragment u)" "\<not> aggregated u"
    "fragment_data u \<noteq> []" "length (fu_payload u) \<le> M"
  shows "\<exists>q fs. h264_next_packet z p = Some (True, after_packet z us fs, q) \<and>
    represents q (a\<lparr>d_payload := fu_payload u, d_marker := (us = [])\<rparr>) \<and> rp_extension_map q = rp_extension_map p"
proof -
  let ?d = "fragment_data u" and ?H = "length (header_image a)" and ?h = "[fu_indicator (unit_header u)]" and ?g = "[fu_header u]"
  have len: "2 + length ?d \<le> M"
    using assms(6) by (simp add: fu_payload_def)
  note r = readyD [OF assms(1) len]
  obtain p0 where p0: "allocate_payload (2 + length ?d) p = Some (Some ?H, p0)" "represents p0 (a\<lparr>d_payload := replicate (2 + length ?d) 0\<rparr>)"
    "rp_extension_map p0 = rp_extension_map p"
    using allocate_payload_refines [OF r] by auto
  have "represents p0 (a\<lparr>d_payload := [] @ replicate (length ?h + (1 + length ?d)) 0\<rparr>)"
    using p0(2) by simp
  then obtain p1 where p1: "write_at ?H ?h p0 = Some p1" "represents p1 (a\<lparr>d_payload := [] @ ?h @ replicate (1 + length ?d) 0\<rparr>)"
    "rp_extension_map p1 = rp_extension_map p0"
    by (rule fill_payload [OF _ r(2)]) simp_all
  have "represents p1 (a\<lparr>d_payload := ?h @ replicate (length ?g + length ?d) 0\<rparr>)"
    using p1(2) by simp
  then obtain p2 where p2: "write_at (?H + 1) ?g p1 = Some p2" "represents p2 (a\<lparr>d_payload := ?h @ ?g @ replicate (length ?d) 0\<rparr>)"
    "rp_extension_map p2 = rp_extension_map p1"
    by (rule fill_payload [OF _ r(2)]) simp_all
  have "represents p2 (a\<lparr>d_payload := (?h @ ?g) @ replicate (length ?d + 0) 0\<rparr>)"
    using p2(2) by simp
  then obtain p3 where p3: "write_at (?H + 2) ?d p2 = Some p3" "represents p3 (a\<lparr>d_payload := (?h @ ?g) @ ?d @ replicate 0 0\<rparr>)"
    "rp_extension_map p3 = rp_extension_map p2"
    by (rule fill_payload [OF _ r(2) assms(5)]) simp_all
  then have "represents p3 (a\<lparr>d_payload := fu_payload u\<rparr>)"
    by (simp add: fu_payload_def)
  then obtain q where q: "set_marker (us = []) p3 = Some q" "represents q (a\<lparr>d_payload := fu_payload u, d_marker := (us = [])\<rparr>)"
    "rp_extension_map q = rp_extension_map p3"
    by (rule set_marker_payload)
  let ?fs = "if last_fragment u then tl (input_fragments z) else input_fragments z"
  have "next_fu_a_packet z p = Some (z\<lparr>packet_units := us, input_fragments := ?fs\<rparr>, p3)"
    using assms(2) p0(1) p1(1) p2(1) p3(1) by (simp add: next_fu_a_packet_def kFuAHeaderSize_def)
  then have "h264_next_packet z p = Some (True, after_packet z us ?fs, q)"
    using assms(2-4) q(1) by (auto simp: h264_next_packet_def after_packet_def)
  with q p3(3) p2(3) p1(3) p0(3) show ?thesis
    by auto
qed

lemma next_single:
  assumes "ready M p a" "packet_units z = u # us" "first_fragment u" "last_fragment u" "fragment_data u \<noteq> []" "length (fragment_data u) \<le> M"
  shows "\<exists>q fs. h264_next_packet z p = Some (True, after_packet z us fs, q) \<and>
    represents q (a\<lparr>d_payload := fragment_data u, d_marker := (us = [])\<rparr>) \<and> rp_extension_map q = rp_extension_map p"
proof -
  let ?d = "fragment_data u" and ?H = "length (header_image a)"
  note r = readyD [OF assms(1,6)]
  obtain p0 where p0: "allocate_payload (length ?d) p = Some (Some ?H, p0)" "represents p0 (a\<lparr>d_payload := replicate (length ?d) 0\<rparr>)"
    "rp_extension_map p0 = rp_extension_map p"
    using allocate_payload_refines [OF r] by auto
  have "represents p0 (a\<lparr>d_payload := [] @ replicate (length ?d + 0) 0\<rparr>)"
    using p0(2) by simp
  then obtain p1 where p1: "write_at ?H ?d p0 = Some p1" "represents p1 (a\<lparr>d_payload := [] @ ?d @ replicate 0 0\<rparr>)"
    "rp_extension_map p1 = rp_extension_map p0"
    by (rule fill_payload [OF _ r(2) assms(5)]) simp_all
  then have "represents p1 (a\<lparr>d_payload := ?d\<rparr>)"
    by simp
  then obtain q where q: "set_marker (us = []) p1 = Some q" "represents q (a\<lparr>d_payload := ?d, d_marker := (us = [])\<rparr>)"
    "rp_extension_map q = rp_extension_map p1"
    by (rule set_marker_payload)
  have "h264_next_packet z p = Some (True, after_packet z us (tl (input_fragments z)), q)"
    using assms(2-4) p0(1) p1(1) q(1) by (simp add: h264_next_packet_def next_single_packet_def after_packet_def)
  with q p1(3) p0(3) show ?thesis
    by auto
qed

lemma next_stap_a:
  assumes "ready M p a" "packet_units z = stap_units True ds @ us" "2 \<le> length ds" "list_all (\<lambda>d. d \<noteq> []) ds"
    "length (stap_payload ds) \<le> M"
  shows "\<exists>q fs. h264_next_packet z p = Some (True, after_packet z us fs, q) \<and>
    represents q (a\<lparr>d_payload := stap_payload ds, d_marker := (us = [])\<rparr>) \<and> rp_extension_map q = rp_extension_map p"
proof -
  obtain d1 d2 ds' where ds: "ds = d1 # d2 # ds'"
    using assms(3) by (cases ds; cases "tl ds") auto
  let ?H = "length (header_image a)" and ?h = "[stap_header (hd d1)]" and ?body = "concat (map length_prefixed ds)"
  have pay: "stap_payload ds = ?h @ ?body"
    by (simp add: stap_payload_def ds)
  note r = readyD [OF assms(1,5)]
  have size: "rp_size p = ?H"
    using r(1,2) by (simp add: represents_def fields_match_def rp_size_def bare_def)
  define cap where "cap = free_capacity p"
  have cap: "cap = rp_capacity p - ?H" "length (stap_payload ds) \<le> cap" "?H + cap \<le> rp_capacity p" "1 \<le> cap"
    using r(3,4) size by (simp_all add: cap_def free_capacity_def)
  obtain p0 where p0: "allocate_payload cap p = Some (Some ?H, p0)" "represents p0 (a\<lparr>d_payload := replicate cap 0\<rparr>)"
    "rp_capacity p0 = rp_capacity p" "rp_extension_map p0 = rp_extension_map p"
    using allocate_payload_refines [OF r(1,2) cap(3) r(4,5)] by auto
  have "represents p0 (a\<lparr>d_payload := [] @ replicate (length ?h + (cap - 1)) 0\<rparr>)"
    using p0(2) cap(4) by simp
  then obtain p1 where p1: "write_at ?H ?h p0 = Some p1" "represents p1 (a\<lparr>d_payload := [] @ ?h @ replicate (cap - 1) 0\<rparr>)"
    "rp_capacity p1 = rp_capacity p0" "rp_extension_map p1 = rp_extension_map p0"
    by (rule fill_payload [OF _ r(2)]) simp_all
  have rep1: "represents p1 (a\<lparr>d_payload := ?h @ replicate (cap - 1) 0\<rparr>)"
    using p1(2) by simp
  have room: "length ?body \<le> length (replicate (cap - 1) (0 :: byte))" "cap = length ?h + length (replicate (cap - 1) (0 :: byte))"
    using cap(2,4) pay by simp_all
  obtain p2 rest where p2: "stap_a_copy ?H cap 1 z (stap_units True ds @ us) p1 =
      Some (1 + length ?body, z\<lparr>packet_units := us, input_fragments := drop (length ds) (input_fragments z)\<rparr>, p2)"
    "represents p2 (a\<lparr>d_payload := ?h @ ?body @ rest\<rparr>)" "rp_capacity p2 = rp_capacity p1" "rp_extension_map p2 = rp_extension_map p1"
    using stap_a_copy_refines [OF rep1 r(2) refl _ room _ assms(4), of 1 z True us] ds by auto
  have "?H + (1 + length ?body) \<le> rp_capacity p2" "?H < rp_capacity p2" "rp_capacity p2 \<le> kIpPacketSize"
    using r p0(3) p1(3) p2(3) pay by simp_all
  then obtain p3 where p3: "set_payload_size (1 + length ?body) p2 = Some (Some ?H, p3)"
    "represents p3 (a\<lparr>d_payload := take (1 + length ?body) (?h @ ?body @ rest) @ replicate (1 + length ?body - length (?h @ ?body @ rest)) 0\<rparr>)"
    "rp_extension_map p3 = rp_extension_map p2"
    using resize_payload_refines [OF p2(2) r(2)] by blast
  then have "represents p3 (a\<lparr>d_payload := stap_payload ds\<rparr>)"
    by (simp add: pay)
  then obtain q where q: "set_marker (us = []) p3 = Some q" "represents q (a\<lparr>d_payload := stap_payload ds, d_marker := (us = [])\<rparr>)"
    "rp_extension_map q = rp_extension_map p3"
    by (rule set_marker_payload)
  let ?z = "z\<lparr>packet_units := us, input_fragments := drop (length ds) (input_fragments z)\<rparr>"
  have first: "hd (packet_units z) = \<lparr>fragment_data = d1, first_fragment = True, last_fragment = False, aggregated = True, unit_header = hd d1\<rparr>"
    "packet_units z \<noteq> []"
    using assms(2) by (simp_all add: ds)
  have "next_stap_a_packet z p = Some (?z, p3)"
    unfolding next_stap_a_packet_def using cap_def cap(4) p0(1) p1(1) p2(1) p3(1) first assms(2)
    by (simp add: kNaluHeaderSize_def stap_header_def Let_def del: stap_units.simps stap_a_copy.simps)
  then have "h264_next_packet z p = Some (True, after_packet z us (drop (length ds) (input_fragments z)), q)"
    using q(1) first by (simp add: h264_next_packet_def after_packet_def)
  with q p3(3) p2(4) p1(4) p0(4) show ?thesis
    by auto
qed


section \<open>Sending all packets\<close>

text \<open>The units one call of \<^verbatim>\<open>NextPacket\<close> consumes, with the payload it writes.\<close>

fun group_chunks :: "packet_group \<Rightarrow> (packet_unit list \<times> byte list) list" where
  "group_chunks (Stap ds) = [(stap_units True ds, stap_payload ds)]"
| "group_chunks (FuA d ns) = map (\<lambda>u. ([u], fu_payload u)) (fu_a_units d (hd d) 1 True ns)"

lemma group_chunks_parts:
  "concat (map fst (group_chunks g)) = group_units g" "map snd (group_chunks g) = group_payloads g"
  by (cases g; simp add: comp_def)+

definition chunk_ok :: "packet_unit list \<times> byte list \<Rightarrow> bool" where
  "chunk_ok c \<longleftrightarrow> (\<exists>u. c = ([u], fu_payload u) \<and> \<not> (first_fragment u \<and> last_fragment u) \<and> \<not> aggregated u \<and> fragment_data u \<noteq> []) \<or>
     (\<exists>ds. c = (stap_units True ds, stap_payload ds) \<and> ds \<noteq> [] \<and> list_all (\<lambda>d. d \<noteq> []) ds)"

lemma subview_full: "off + n \<le> length xs \<Longrightarrow> subview xs off n = take n (drop off xs)"
  by (auto simp: subview_def)

lemma fu_a_units_data:
  assumes "off + sum_list ns \<le> length d"
  shows "concat (map fragment_data (fu_a_units d h off first ns)) = take (sum_list ns) (drop off d)"
    and "map (\<lambda>u. length (fragment_data u)) (fu_a_units d h off first ns) = ns"
  using assms by (induction ns arbitrary: off first) (simp_all add: subview_full take_add add.assoc, simp add: add.commute)

lemma fu_a_units_flags:
  assumes "u \<in> set (fu_a_units d h off first ns)" "first \<longrightarrow> 2 \<le> length ns"
  shows "\<not> aggregated u" "unit_header u = h" "\<not> (first_fragment u \<and> last_fragment u)"
proof -
  have later: "\<not> first_fragment u" if "u \<in> set (fu_a_units d h off False ns)" for off ns
    using that by (induction ns arbitrary: off) auto
  show "\<not> aggregated u" "unit_header u = h"
    using assms(1) by (induction ns arbitrary: off first) auto
  show "\<not> (first_fragment u \<and> last_fragment u)"
    using assms later by (cases ns; cases first) auto
qed

lemma group_chunks_ok:
  assumes "group_ok g" "c \<in> set (group_chunks g)"
  shows "chunk_ok c"
proof (cases g)
  case (Stap ds)
  with assms show ?thesis
    by (auto simp: chunk_ok_def)
next
  case (FuA d ns)
  with assms obtain u where c: "c = ([u], fu_payload u)" and u: "u \<in> set (fu_a_units d (hd d) 1 True ns)"
    by auto
  have ok: "2 \<le> length ns" "1 + sum_list ns \<le> length d" "list_all (\<lambda>n. 0 < n) ns"
    using assms(1) FuA by (auto simp: Suc_le_eq)
  have "length (fragment_data u) \<in> set (map (\<lambda>u. length (fragment_data u)) (fu_a_units d (hd d) 1 True ns))"
    using u by simp
  then have "length (fragment_data u) \<in> set ns"
    by (simp only: fu_a_units_data(2) [OF ok(2)])
  then have "0 < length (fragment_data u)"
    using ok(3) by (auto simp: list_all_iff)
  with fu_a_units_flags [OF u] ok(1) c show ?thesis
    by (auto simp: chunk_ok_def)
qed

lemma next_chunk:
  assumes "chunk_ok c" "length (snd c) \<le> M" "ready M p a" "packet_units z = fst c @ us"
  shows "\<exists>q fs. h264_next_packet z p = Some (True, after_packet z us fs, q) \<and>
    represents q (a\<lparr>d_payload := snd c, d_marker := (us = [])\<rparr>) \<and> rp_extension_map q = rp_extension_map p"
  using assms(1) unfolding chunk_ok_def
proof (elim disjE exE conjE)
  fix u assume "c = ([u], fu_payload u)" "\<not> (first_fragment u \<and> last_fragment u)" "\<not> aggregated u" "fragment_data u \<noteq> []"
  with next_fu_a [OF assms(3)] assms(2,4) show ?thesis
    by simp
next
  fix ds assume ds: "c = (stap_units True ds, stap_payload ds)" "ds \<noteq> []" "list_all (\<lambda>d. d \<noteq> []) ds"
  show ?thesis
  proof (cases "2 \<le> length ds")
    case True
    with next_stap_a [OF assms(3)] ds assms(2,4) show ?thesis
      by simp
  next
    case False
    then obtain d where d: "ds = [d]"
      using ds(2) by (cases ds; cases "tl ds") auto
    with next_single [OF assms(3), of z _ us] ds assms(2,4) show ?thesis
      by (simp add: stap_payload_def)
  qed
qed

fun send_all :: "packetizer \<Rightarrow> rtp_packet list \<Rightarrow> (rtp_packet list \<times> packetizer) option" where
  "send_all z [] = Some ([], z)"
| "send_all z (p # ps) = do {
     (ok, z, q) \<leftarrow> h264_next_packet z p;
     if ok then do { (qs, z) \<leftarrow> send_all z ps; Some (q # qs, z) } else None }"

text \<open>The packet of a description with its payload, marked when it is the last one.\<close>

fun carries :: "rtp_packet list \<Rightarrow> rtp_description list \<Rightarrow> byte list list \<Rightarrow> bool" where
  "carries (q # qs) (a # as) (x # xs) \<longleftrightarrow> represents q (a\<lparr>d_payload := x, d_marker := (xs = [])\<rparr>) \<and> carries qs as xs"
| "carries qs as xs \<longleftrightarrow> qs = [] \<and> as = [] \<and> xs = []"

lemma chunk_units_nonempty: "chunk_ok c \<Longrightarrow> fst c \<noteq> []"
proof -
  have "stap_units True ds \<noteq> []" if "ds \<noteq> []" for ds
    using that by (cases ds) auto
  then show "chunk_ok c \<Longrightarrow> fst c \<noteq> []"
    by (auto simp: chunk_ok_def)
qed

lemma send_chunks:
  assumes "packet_units z = concat (map fst cs)" "num_packets_left z = length cs" "\<forall>c\<in>set cs. chunk_ok c \<and> length (snd c) \<le> M"
    "list_all2 (ready M) ps as" "length ps = length cs"
  shows "\<exists>qs z'. send_all z ps = Some (qs, z') \<and> packet_units z' = [] \<and> num_packets_left z' = 0 \<and> carries qs as (map snd cs)"
  using assms
proof (induction cs arbitrary: z ps as)
  case Nil
  then show ?case
    by simp
next
  case (Cons c cs)
  obtain p ps' a as' where ps: "ps = p # ps'" "as = a # as'" "ready M p a" "list_all2 (ready M) ps' as'" "length ps' = length cs"
    using Cons.prems(4,5) by (cases ps; cases as) auto
  let ?us = "concat (map fst cs)"
  have c: "chunk_ok c" "length (snd c) \<le> M"
    using Cons.prems(3) by simp_all
  obtain q fs where q: "h264_next_packet z p = Some (True, after_packet z ?us fs, q)" "represents q (a\<lparr>d_payload := snd c, d_marker := (?us = [])\<rparr>)"
    using next_chunk [OF c ps(3), of z ?us] Cons.prems(1) by auto
  have "\<forall>c\<in>set cs. fst c \<noteq> []"
    using Cons.prems(3) chunk_units_nonempty by auto
  then have last: "(?us = []) = (map snd cs = [])"
    by (cases cs) auto
  obtain qs z' where "send_all (after_packet z ?us fs) ps' = Some (qs, z')" "packet_units z' = []" "num_packets_left z' = 0"
    "carries qs as' (map snd cs)"
    using Cons.IH [of "after_packet z ?us fs" ps' as'] Cons.prems(2,3) ps(4,5) by (auto simp: after_packet_def)
  with q ps(1,2) last show ?case
    by auto
qed


section \<open>The groups of a frame\<close>

fun open_units :: "bool \<Rightarrow> byte list list \<Rightarrow> packet_unit list" where
  "open_units first [] = []"
| "open_units first (d # ds) =
     \<lparr>fragment_data = d, first_fragment = first, last_fragment = False, aggregated = True, unit_header = hd d\<rparr> #
     open_units False ds"

lemma open_units_append: "open_units first (ds @ es) = open_units first ds @ open_units (first \<and> ds = []) es"
  by (induction ds arbitrary: first) auto

lemma close_open_units:
  "ds \<noteq> [] \<Longrightarrow> butlast (us @ open_units first ds) @ [(last (us @ open_units first ds))\<lparr>last_fragment := True\<rparr>] = us @ stap_units first ds"
proof (induction ds arbitrary: first us)
  case (Cons d ds)
  show ?case
  proof (cases "ds = []")
    case False
    let ?u = "\<lparr>fragment_data = d, first_fragment = first, last_fragment = False, aggregated = True, unit_header = hd d\<rparr>"
    show ?thesis
      using Cons.IH [OF False, of "us @ [?u]" False] False by simp
  qed simp
qed simp

definition stap_used :: "byte list list \<Rightarrow> nat" where
  "stap_used ds = (if ds = [] then 0 else length (stap_payload ds))"

definition stap_headers :: "byte list list \<Rightarrow> nat" where
  "stap_headers ds = (if ds = [] then 0 else if length ds = 1 then 5 else 2)"

lemma stap_used_snoc: "stap_used (ds @ [d]) = stap_used ds + (length d + stap_headers ds)"
proof -
  consider "ds = []" | e where "ds = [e]" | e e' es where "ds = e # e' # es"
    by (cases ds rule: remdups_adj.cases) auto
  then show ?thesis
    by cases (simp_all add: stap_used_def stap_headers_def stap_payload_def length_prefixed_def)
qed

lemma rd_hd: "d \<noteq> [] \<Longrightarrow> rd d 0 = Some (hd d)"
  by (simp add: rd_def hd_conv_nth)

lemma stap_a_loop_groups:
  fixes M f l s psize :: nat
  assumes "list_all (\<lambda>d. d \<noteq> [] \<and> length d < 2 ^ 60) fs" "psize < 2 ^ 60" "l < 2 ^ 60" "i \<le> length fs"
    "stap_used ds \<le> psize"
  shows "\<exists>es. stap_a_loop fs (limits_of M f l s) i (psize - stap_used ds) (stap_headers ds) (length ds) us =
      Some (i + length es, length ds + length es, us @ open_units (ds = []) es) \<and>
    take (length es) (drop i fs) = es \<and> stap_used (ds @ es) \<le> psize \<and>
    (es \<noteq> [] \<and> i + length es = length fs \<and> length fs \<noteq> 1 \<longrightarrow> stap_used (ds @ es) + l \<le> psize) \<and>
    (i < length fs \<and> psize - stap_used ds \<ge> payload_size_need fs (limits_of M f l s) i (stap_headers ds) \<longrightarrow> es \<noteq> [])"
  using assms(4,5)
proof (induction "length fs - i" arbitrary: i ds us)
  case 0
  then show ?case
    by (intro exI [of _ "[]"]) (subst stap_a_loop.simps, simp)
next
  case (Suc n)
  let ?L = "limits_of M f l s"
  have i: "i < length fs"
    using Suc.hyps(2) by simp
  define d where "d = fs ! i"
  have d: "d \<noteq> []" "length d < 2 ^ 60"
    using assms(1) i by (auto simp: list_all_length d_def)
  have hdrs: "stap_headers ds \<le> 5"
    by (simp add: stap_headers_def)
  have need: "payload_size_need fs ?L i (stap_headers ds) =
      length d + stap_headers ds + (if length fs \<noteq> 1 \<and> i = length fs - 1 then l else 0)"
    using d(2) assms(3) hdrs size_arith(1) [of "length d + stap_headers ds" l]
    by (auto simp: payload_size_need_def limits_of_def d_def Let_def)
  show ?case
  proof (cases "psize - stap_used ds \<ge> payload_size_need fs ?L i (stap_headers ds)")
    case False
    then show ?thesis
      using Suc.prems i by (intro exI [of _ "[]"]) (subst stap_a_loop.simps, simp)
  next
    case True
    let ?u = "\<lparr>fragment_data = d, first_fragment = (length ds = 0), last_fragment = False, aggregated = True, unit_header = hd d\<rparr>"
    have used: "stap_used (ds @ [d]) \<le> psize"
      using True need Suc.prems(2) by (simp add: stap_used_snoc)
    have left: "size_minus (size_minus (psize - stap_used ds) (int (length d))) (int (stap_headers ds)) = psize - stap_used (ds @ [d])"
      using True need assms(2) size_arith(2) [of "length d" "psize - stap_used ds"]
        size_arith(2) [of "stap_headers ds" "psize - stap_used ds - length d"] by (simp add: stap_used_snoc)
    have headers: "(if length ds = 0 then kLengthFieldSize + kNaluHeaderSize + kLengthFieldSize else kLengthFieldSize) = stap_headers (ds @ [d])"
      by (simp add: stap_headers_def kLengthFieldSize_def kNaluHeaderSize_def)
    have step: "stap_a_loop fs ?L i (psize - stap_used ds) (stap_headers ds) (length ds) us =
        stap_a_loop fs ?L (i + 1) (psize - stap_used (ds @ [d])) (stap_headers (ds @ [d])) (length (ds @ [d])) (us @ [?u])"
      using True i rd_hd [OF d(1)] left headers by (subst stap_a_loop.simps) (simp add: d_def)
    have "n = length fs - (i + 1)" "i + 1 \<le> length fs"
      using Suc.hyps(2) i by simp_all
    note after = this
    obtain es where es: "stap_a_loop fs ?L (i + 1) (psize - stap_used (ds @ [d])) (stap_headers (ds @ [d])) (length (ds @ [d])) (us @ [?u]) =
        Some (i + 1 + length es, length (ds @ [d]) + length es, (us @ [?u]) @ open_units (ds @ [d] = []) es)"
      "take (length es) (drop (i + 1) fs) = es" "stap_used ((ds @ [d]) @ es) \<le> psize"
      "es \<noteq> [] \<and> i + 1 + length es = length fs \<and> length fs \<noteq> 1 \<longrightarrow> stap_used ((ds @ [d]) @ es) + l \<le> psize"
      using Suc.hyps(1) [OF after used, of "us @ [?u]"] by blast
    have "drop i fs = d # drop (i + 1) fs"
      using i by (simp add: d_def Cons_nth_drop_Suc)
    moreover have "stap_used (ds @ [d]) + l \<le> psize" if "i + 1 = length fs" "length fs \<noteq> 1"
    proof -
      have "i = length fs - 1"
        using that(1) by simp
      with True need that(2) Suc.prems(2) show ?thesis
        by (simp add: stap_used_snoc)
    qed
    ultimately show ?thesis
      using step es by (intro exI [of _ "d # es"]) (cases "es = []"; simp)
  qed
qed


text \<open>
  What a group that starts at fragment \<open>i\<close> and stops before fragment \<open>j\<close> keeps of the limits. A frame of one
  fragment that fits is one packet with the reduction for it.
\<close>

definition one_packet :: "byte list list \<Rightarrow> nat \<Rightarrow> nat \<Rightarrow> bool" where
  "one_packet fs M s \<longleftrightarrow> length fs = 1 \<and> length (fs ! 0) + s \<le> M"

definition keeps_limits :: "byte list list \<Rightarrow> nat \<Rightarrow> nat \<Rightarrow> nat \<Rightarrow> nat \<Rightarrow> bool \<Rightarrow> bool \<Rightarrow> byte list list \<Rightarrow> bool" where
  "keeps_limits fs M f l s starts stops ps \<longleftrightarrow> list_all (\<lambda>x. length x \<le> M) ps \<and>
     (one_packet fs M s \<or> ps = [] \<or>
       (starts \<longrightarrow> length (hd ps) + f \<le> M) \<and> (stops \<longrightarrow> length (last ps) + l \<le> M))"

definition reduction :: "byte list list \<Rightarrow> nat \<Rightarrow> nat \<Rightarrow> nat \<Rightarrow> nat \<Rightarrow> nat" where
  "reduction fs f l s i = (if length fs = 1 then s else if i = 0 then f else if i + 1 = length fs then l else 0)"

lemma fu_a_limits_of:
  assumes "2 < M" "M < 2 ^ 60" "i < n"
  shows "fu_a_limits i n (limits_of M f l s) =
    limits_of (M - 2) (if i = 0 then f else 0) (if i = n - 1 then l else 0)
      (if n = 1 then s else if i = n - 1 then l else if i = 0 then f else 0)"
  using size_arith(2) [of 2 M] assms by (auto simp: fu_a_limits_def limits_of_def kFuAHeaderSize_def Let_def)

lemma hd_last_map: "xs \<noteq> [] \<Longrightarrow> hd (map g xs) = g (hd xs)" "xs \<noteq> [] \<Longrightarrow> last (map g xs) = g (last xs)"
  by (simp_all add: hd_map last_map)

lemma packetize_fu_a_group:
  fixes M f l s :: nat
  assumes "f + 2 < M" "l + 2 < M" "s + 2 < M" "M < 2 ^ 60" "i < length fs" "fs = input_fragments z" "d = fs ! i"
    "d \<noteq> []" "length d < 2 ^ 60" "M < length d + reduction fs f l s i"
  shows "\<exists>ns. packetize_fu_a i (limits_of M f l s) z =
      Some (True, z\<lparr>packet_units := packet_units z @ group_units (FuA d ns), num_packets_left := num_packets_left z + length ns\<rparr>) \<and>
    group_ok (FuA d ns) \<and> keeps_limits fs M f l s (i = 0) (i + 1 = length fs) (group_payloads (FuA d ns))"
proof -
  let ?n = "length fs"
  let ?f = "if i = 0 then f else 0" and ?l = "if i = ?n - 1 then l else 0"
  let ?s = "if ?n = 1 then s else if i = ?n - 1 then l else if i = 0 then f else 0"
  have red: "reduction fs f l s i = ?s"
    using assms(5) by (auto simp: reduction_def)
  define P where "P = length d - 1"
  have P: "2 \<le> P" "\<not> P + ?s \<le> M - 2" "P + ?s < 2 ^ 61"
    using assms(1-4,9,10) red by (auto simp: P_def split: if_splits)
  have "2 < M" "?f < M - 2" "?l < M - 2" "M - 2 < 2 ^ 60" "0 < P"
    using assms(1-4) P by auto
  then obtain ns where ns: "split_about_equally P (limits_of (M - 2) ?f ?l ?s) = Some ns" "2 \<le> length ns" "sum_list ns = P"
    "\<forall>x\<in>set ns. 1 \<le> x \<and> x \<le> M - 2" "hd ns + ?f \<le> M - 2" "last ns + ?l \<le> M - 2"
    using split_about_equally_sizes [of ?f "M - 2" ?l P ?s] P by auto
  have size: "size_minus (length d) (int kNaluHeaderSize) = P"
    using size_arith(2) [of 1 "length d"] assms(8,9) by (simp add: P_def kNaluHeaderSize_def Suc_le_eq)
  have ne: "ns \<noteq> []"
    using ns(2) by auto
  have run: "packetize_fu_a i (limits_of M f l s) z =
      Some (True, z\<lparr>packet_units := packet_units z @ group_units (FuA d ns), num_packets_left := num_packets_left z + length ns\<rparr>)"
    using ns(1,3) ne size fu_a_limits_of [OF \<open>2 < M\<close> assms(4,5), of f l s] rd_hd [OF assms(8)] assms(6,7)
    by (simp add: packetize_fu_a_def kNaluHeaderSize_def Let_def)
  have ok: "group_ok (FuA d ns)"
    using ns(2-4) assms(8) by (auto simp: P_def list_all_iff Suc_le_eq)
  let ?us = "fu_a_units d (hd d) 1 True ns"
  have "1 + sum_list ns \<le> length d"
    using ns(3) assms(8) by (simp add: P_def Suc_le_eq)
  then have sizes: "map (\<lambda>u. length (fragment_data u)) ?us = ns"
    by (rule fu_a_units_data)
  then have lens: "map length (map fu_payload ?us) = map (\<lambda>n. n + 2) ns"
    by (simp add: fu_payload_def comp_def) (metis (no_types, lifting) list.map_comp comp_def map_eq_conv)
  have "?us \<noteq> []"
    using sizes ne by auto
  then have ends: "length (hd (map fu_payload ?us)) = hd ns + 2" "length (last (map fu_payload ?us)) = last ns + 2"
    using arg_cong [OF lens, of hd] arg_cong [OF lens, of last] ne by (simp_all only: hd_last_map map_is_Nil_conv not_False_eq_True)
  have "length x \<in> set (map length (map fu_payload ?us))" if "x \<in> set (map fu_payload ?us)" for x
    using that by (simp only: set_map image_eqI)
  then have "length x \<le> M" if "x \<in> set (map fu_payload ?us)" for x
    using that ns(4) \<open>2 < M\<close> unfolding lens by fastforce
  moreover have "last ns + 2 + l \<le> M" if "i + 1 = ?n"
  proof -
    have "i = ?n - 1"
      using that by simp
    with ns(6) \<open>2 < M\<close> show ?thesis
      by simp
  qed
  ultimately have "keeps_limits fs M f l s (i = 0) (i + 1 = ?n) (group_payloads (FuA d ns))"
    using ends ns(5) \<open>2 < M\<close> by (auto simp: keeps_limits_def list_all_iff)
  with run ok show ?thesis
    by blast
qed

lemma packetize_stap_a_group:
  fixes M f l s :: nat
  assumes "f + 2 < M" "l + 2 < M" "s + 2 < M" "M < 2 ^ 60" "i < length fs" "fs = input_fragments z"
    "list_all (\<lambda>d. d \<noteq> [] \<and> length d < 2 ^ 60) fs" "length (fs ! i) + reduction fs f l s i \<le> M"
  shows "\<exists>ds. packetize_stap_a i (limits_of M f l s) z =
      Some (i + length ds, z\<lparr>packet_units := packet_units z @ group_units (Stap ds), num_packets_left := num_packets_left z + 1\<rparr>) \<and>
    take (length ds) (drop i fs) = ds \<and> group_ok (Stap ds) \<and>
    keeps_limits fs M f l s (i = 0) (i + length ds = length fs) (group_payloads (Stap ds))"
proof -
  let ?L = "limits_of M f l s"
  define psize where "psize = (if length fs = 1 then M - s else if i = 0 then M - f else M)"
  have code: "(if length fs = 1 then size_minus (max_payload_size ?L) (single_packet_reduction_size ?L)
       else if i = 0 then size_minus (max_payload_size ?L) (first_packet_reduction_size ?L) else max_payload_size ?L) = psize"
    using size_arith(2) [of s M] size_arith(2) [of f M] assms(1,3,4) by (simp add: limits_of_def psize_def)
  have small: "psize < 2 ^ 60" "l < 2 ^ 60"
    using assms(2,4) by (auto simp: psize_def)
  have "payload_size_need fs ?L i 0 = length (fs ! i) + (if length fs \<noteq> 1 \<and> i = length fs - 1 then l else 0)"
    using assms(5,7) small(2) size_arith(1) [of "length (fs ! i)" l]
    by (auto simp: payload_size_need_def limits_of_def Let_def list_all_length)
  then have enough: "psize \<ge> payload_size_need fs ?L i 0"
    using assms(1-3,5,8) by (auto simp: psize_def reduction_def split: if_splits)
  have none: "stap_used [] = 0" "stap_headers [] = 0"
    by (simp_all add: stap_used_def stap_headers_def)
  obtain ds where raw: "stap_a_loop fs ?L i (psize - stap_used []) (stap_headers []) (length ([] :: byte list list)) (packet_units z) =
      Some (i + length ds, length ([] :: byte list list) + length ds, packet_units z @ open_units True ds)"
    "take (length ds) (drop i fs) = ds" "stap_used ([] @ ds) \<le> psize"
    "ds \<noteq> [] \<and> i + length ds = length fs \<and> length fs \<noteq> 1 \<longrightarrow> stap_used ([] @ ds) + l \<le> psize"
    "i < length fs \<and> psize - stap_used [] \<ge> payload_size_need fs ?L i (stap_headers []) \<longrightarrow> ds \<noteq> []"
    using stap_a_loop_groups [OF assms(7) small, of i "[]" M f s "packet_units z"] assms(5) none by auto
  then have ds: "stap_a_loop fs ?L i psize 0 0 (packet_units z) = Some (i + length ds, length ds, packet_units z @ open_units True ds)"
    "take (length ds) (drop i fs) = ds" "stap_used ds \<le> psize" "ds \<noteq> []"
    "i + length ds = length fs \<and> length fs \<noteq> 1 \<longrightarrow> stap_used ds + l \<le> psize"
    using assms(5) enough none by simp_all
  have run: "packetize_stap_a i ?L z =
      Some (i + length ds, z\<lparr>packet_units := packet_units z @ group_units (Stap ds), num_packets_left := num_packets_left z + 1\<rparr>)"
  proof -
    have "packetize_stap_a i ?L z = Some (i + length ds, z\<lparr>num_packets_left := num_packets_left z + 1,
        packet_units := packet_units z @ stap_units True ds\<rparr>)"
      unfolding packetize_stap_a_def Let_def assms(6) [symmetric] code using ds(1,4) close_open_units [OF ds(4), of "packet_units z" True] by simp
    then show ?thesis
      by simp
  qed
  have "set ds \<subseteq> set fs"
    using ds(2) by (metis set_drop_subset set_take_subset subset_trans)
  then have ok: "group_ok (Stap ds)"
    using assms(7) ds(4) by (auto simp: list_all_iff)
  have used: "stap_used ds = length (stap_payload ds)"
    using ds(4) by (simp add: stap_used_def)
  have "one_packet fs M s" if "length fs = 1"
    using that assms(5,8) by (simp add: one_packet_def reduction_def)
  then have "keeps_limits fs M f l s (i = 0) (i + length ds = length fs) (group_payloads (Stap ds))"
    using ds(3,5) used assms(1) by (auto simp: keeps_limits_def psize_def split: if_splits)
  with run ds(2) ok show ?thesis
    by blast
qed


lemma group_payloads_nonempty: "group_ok g \<Longrightarrow> group_payloads g \<noteq> []"
proof (cases g)
  case (FuA d ns)
  then show "group_ok g \<Longrightarrow> group_payloads g \<noteq> []"
    by (cases ns) auto
qed simp

lemma group_ok_fragments: "group_ok g \<Longrightarrow> group_fragments g \<noteq> []"
  by (cases g) simp_all

lemma keeps_limits_append:
  assumes "keeps_limits fs M f l s starts (qs = []) ps" "keeps_limits fs M f l s False True qs" "ps \<noteq> []"
  shows "keeps_limits fs M f l s starts True (ps @ qs)"
  using assms by (cases "qs = []") (auto simp: keeps_limits_def)

declare generate_packets.simps [simp del] group_units.simps [simp del] group_payloads.simps [simp del]

lemma group_payloads_count:
  "length (group_payloads (Stap ds)) = 1" "length (group_payloads (FuA d ns)) = length ns"
proof -
  show "length (group_payloads (Stap ds)) = 1"
    by (simp add: group_payloads.simps)
  have "length (fu_a_units d h off first ns) = length ns" for h off first
    by (induction ns arbitrary: off first) auto
  then show "length (group_payloads (FuA d ns)) = length ns"
    by (simp add: group_payloads.simps)
qed

lemma int_of_small: "- (2 ^ 31) \<le> x \<Longrightarrow> x < 2 ^ 31 \<Longrightarrow> int_of x = x"
  by (simp add: int_of_def)

lemma generate_packets_groups:
  fixes M f l s :: nat
  assumes "f + 2 < M" "l + 2 < M" "s + 2 < M" "M < 2 ^ 31" "list_all (\<lambda>d. d \<noteq> [] \<and> length d < 2 ^ 31) fs"
    "fs = input_fragments z" "length fs - i \<le> bound" "i \<le> length fs"
  shows "\<exists>gs z'. generate_packets bound i (limits_of M f l s) NON_INTERLEAVED z = Some (True, z') \<and>
    packet_units z' = packet_units z @ concat (map group_units gs) \<and> input_fragments z' = fs \<and>
    num_packets_left z' = num_packets_left z + length (concat (map group_payloads gs)) \<and>
    concat (map group_fragments gs) = drop i fs \<and> list_all group_ok gs \<and>
    keeps_limits fs M f l s (i = 0) True (concat (map group_payloads gs))"
  using assms(6-8)
proof (induction bound arbitrary: i z)
  case 0
  then show ?case
    by (intro exI [of _ "[]"] exI [of _ z]) (simp add: generate_packets.simps keeps_limits_def)
next
  case (Suc bound)
  let ?L = "limits_of M f l s"
  show ?case
  proof (cases "i < length fs")
    case False
    then show ?thesis
      using Suc.prems by (intro exI [of _ "[]"] exI [of _ z]) (simp add: generate_packets.simps keeps_limits_def)
  next
    case True
    let ?d = "fs ! i"
    have d: "?d \<noteq> []" "length ?d < 2 ^ 31"
      using assms(5) True by (auto simp: list_all_length)
    then have d60: "length ?d < 2 ^ 60" and M60: "M < 2 ^ 60"
      using assms(4) by simp_all
    have fs60: "list_all (\<lambda>d. d \<noteq> [] \<and> length d < 2 ^ 60) fs"
      using assms(5) by (auto simp: list_all_iff)
    have cap: "int_of (int (length ?d)) > int_of (int_of (int (max_payload_size ?L)) - (if length fs = 1 then single_packet_reduction_size ?L
          else if i = 0 then first_packet_reduction_size ?L else if i + 1 = length fs then last_packet_reduction_size ?L else 0)) \<longleftrightarrow>
        M < length ?d + reduction fs f l s i"
    proof -
      have "int_of (int M - int r) = int M - int r" if "r < M" for r
        using that assms(4) by (intro int_of_small) simp_all
      moreover have "int_of (int (length ?d)) = int (length ?d)" "int_of (int M) = int M"
        using d(2) assms(4) by (simp_all add: int_of_small)
      ultimately show ?thesis
        using assms(1-3) by (auto simp: limits_of_def reduction_def)
    qed
    have unfold: "generate_packets (Suc bound) i ?L NON_INTERLEAVED z =
      (if M < length ?d + reduction fs f l s i then do {
         (ok, z) \<leftarrow> packetize_fu_a i ?L z;
         if \<not> ok then Some (False, z) else generate_packets bound (i + 1) ?L NON_INTERLEAVED z }
       else do { (j, z) \<leftarrow> packetize_stap_a i ?L z; generate_packets bound j ?L NON_INTERLEAVED z })"
      unfolding generate_packets.simps [of "Suc bound" i ?L NON_INTERLEAVED z] Suc.prems(1) [symmetric] Let_def cap
      using True by simp
    obtain g j z1 where g: "generate_packets (Suc bound) i ?L NON_INTERLEAVED z = generate_packets bound j ?L NON_INTERLEAVED z1"
      "packet_units z1 = packet_units z @ group_units g" "input_fragments z1 = fs"
      "num_packets_left z1 = num_packets_left z + length (group_payloads g)" "group_fragments g @ drop j fs = drop i fs"
      "i < j" "j \<le> length fs" "group_ok g" "keeps_limits fs M f l s (i = 0) (j = length fs) (group_payloads g)"
    proof (cases "M < length ?d + reduction fs f l s i")
      case large: True
      obtain ns where ns: "packetize_fu_a i ?L z =
          Some (True, z\<lparr>packet_units := packet_units z @ group_units (FuA ?d ns), num_packets_left := num_packets_left z + length ns\<rparr>)"
        "group_ok (FuA ?d ns)" "keeps_limits fs M f l s (i = 0) (i + 1 = length fs) (group_payloads (FuA ?d ns))"
        using packetize_fu_a_group [OF assms(1-3) M60 True Suc.prems(1) refl d(1) d60 large] by blast
      let ?z = "z\<lparr>packet_units := packet_units z @ group_units (FuA ?d ns), num_packets_left := num_packets_left z + length ns\<rparr>"
      have "generate_packets (Suc bound) i ?L NON_INTERLEAVED z = generate_packets bound (i + 1) ?L NON_INTERLEAVED ?z"
        using unfold ns(1) large by simp
      with ns(2,3) True Suc.prems(1) that [of "i + 1" ?z "FuA ?d ns"] show thesis
        by (simp add: group_payloads_count Cons_nth_drop_Suc)
    next
      case False
      then have small: "length ?d + reduction fs f l s i \<le> M"
        by simp
      obtain ds where ds: "packetize_stap_a i ?L z =
          Some (i + length ds, z\<lparr>packet_units := packet_units z @ group_units (Stap ds), num_packets_left := num_packets_left z + 1\<rparr>)"
        "take (length ds) (drop i fs) = ds" "group_ok (Stap ds)"
        "keeps_limits fs M f l s (i = 0) (i + length ds = length fs) (group_payloads (Stap ds))"
        using packetize_stap_a_group [OF assms(1-3) M60 True Suc.prems(1) fs60 small] by blast
      have "length ds \<le> length fs - i"
        using arg_cong [OF ds(2), of length] by simp
      moreover have "ds @ drop (i + length ds) fs = drop i fs"
        using ds(2) append_take_drop_id [of "length ds" "drop i fs"] by (simp add: add.commute)
      moreover let ?z = "z\<lparr>packet_units := packet_units z @ group_units (Stap ds), num_packets_left := num_packets_left z + 1\<rparr>"
      have "generate_packets (Suc bound) i ?L NON_INTERLEAVED z = generate_packets bound (i + length ds) ?L NON_INTERLEAVED ?z"
        using unfold ds(1) False by simp
      moreover have "ds \<noteq> []"
        using ds(3) by simp
      ultimately show thesis
        using ds(3,4) True Suc.prems(1) that [of "i + length ds" ?z "Stap ds"] by (simp add: group_payloads_count)
    qed
    have after: "fs = input_fragments z1" "length fs - j \<le> bound"
      using g(3,6) Suc.prems(2) by simp_all
    obtain gs z' where gs: "generate_packets bound j ?L NON_INTERLEAVED z1 = Some (True, z')"
      "packet_units z' = packet_units z1 @ concat (map group_units gs)" "input_fragments z' = fs"
      "num_packets_left z' = num_packets_left z1 + length (concat (map group_payloads gs))"
      "concat (map group_fragments gs) = drop j fs" "list_all group_ok gs"
      "keeps_limits fs M f l s (j = 0) True (concat (map group_payloads gs))"
      using Suc.IH [OF after g(7)] by blast
    have "(j = length fs) = (gs = [])"
      using gs(5,6) g(7) by (cases gs) (auto split: packet_group.splits simp: group_ok_fragments)
    then have "(j = length fs) = (concat (map group_payloads gs) = [])"
      using gs(6) group_payloads_nonempty by (cases gs) auto
    then have "keeps_limits fs M f l s (i = 0) True (concat (map group_payloads (g # gs)))"
      using keeps_limits_append [of fs M f l s "i = 0" "concat (map group_payloads gs)" "group_payloads g"] g(6,8,9) gs(7)
        group_payloads_nonempty [OF g(8)] by simp
    then show ?thesis
      using g gs by (intro exI [of _ "g # gs"] exI [of _ z']) simp
  qed
qed


section \<open>The receiver\<close>

text \<open>
  How a receiver reads the payloads (RFC 6184, 5.6 to 5.8): a type of 24 is an aggregation of units with a
  length field, a type of 28 a part of a unit, with a start and a stop bit, and any other type a unit.
\<close>

function split_prefixed :: "byte list \<Rightarrow> byte list list" where
  "split_prefixed xs =
     (case read_be16 xs 0 of
        None \<Rightarrow> []
      | Some n \<Rightarrow> take (unat n) (drop 2 xs) # split_prefixed (drop (2 + unat n) xs))"
  by pat_completeness auto
termination
proof (relation "measure length")
  show "(drop (2 + unat n) xs, xs) \<in> measure length" if "read_be16 xs 0 = Some n" for xs n
    using that by (cases xs) (auto simp: read_be16_def rd_def)
qed simp

declare split_prefixed.simps [simp del]

fun reassemble :: "byte list \<Rightarrow> byte list list \<Rightarrow> byte list list" where
  "reassemble part [] = []"
| "reassemble part (x # xs) =
     (if hd x AND 0x1F = 28 then
        let part = (if x ! 1 AND 0x80 \<noteq> 0 then [(x ! 0 AND 0xE0) OR (x ! 1 AND 0x1F)] else part) @ drop 2 x
        in if x ! 1 AND 0x40 \<noteq> 0 then part # reassemble [] xs else reassemble part xs
      else if hd x AND 0x1F = 24 then split_prefixed (tl x) @ reassemble part xs
      else x # reassemble part xs)"

definition plain_unit :: "byte list \<Rightarrow> bool" where
  "plain_unit d \<longleftrightarrow> d \<noteq> [] \<and> hd d AND 0x1F \<noteq> 28 \<and> hd d AND 0x1F \<noteq> 24"

lemma byte_eq_bits: "a = b \<longleftrightarrow> list_all (\<lambda>k. bit a k = bit b k) [0, 1, 2, 3, 4, 5, 6, 7]" for a b :: byte
proof -
  have "[0, 1, 2, 3, 4, 5, 6, 7] = [0..<8 :: nat]"
    by code_simp
  then show ?thesis
    by (auto simp: list_all_iff intro: byte_eqI)
qed

lemmas byte_bits = byte_eq_bits bit_and_iff bit_or_iff bit_not_iff_eq bit_0_eq

lemma fu_indicator_bits: "fu_indicator h AND 0x1F = 28" "fu_indicator h AND 0xE0 = h AND 0xE0"
  by (simp_all add: fu_indicator_def kTypeMask_def kFBit_def kNriMask_def nalu_type_FU_A_def byte_bits)

lemma fu_header_bits:
  "fu_header u AND 0x1F = unit_header u AND 0x1F" "fu_header u AND 0x80 \<noteq> 0 \<longleftrightarrow> first_fragment u"
  "fu_header u AND 0x40 \<noteq> 0 \<longleftrightarrow> last_fragment u"
  by (simp_all add: fu_header_def kTypeMask_def kSBit_def kEBit_def byte_bits)

lemma stap_header_type: "stap_header h AND 0x1F = 24"
  by (simp add: stap_header_def kTypeMask_def kRBit_def kNriMask_def nalu_type_STAP_A_def byte_bits)

lemma header_parts: "(h AND 0xE0) OR (h AND 0x1F) = h" for h :: byte
  by (simp add: byte_bits)

lemma split_prefixed_units:
  assumes "list_all (\<lambda>d. length d < 2 ^ 16) ds"
  shows "split_prefixed (concat (map length_prefixed ds)) = ds"
  using assms
proof (induction ds)
  case Nil
  then show ?case
    by (simp add: split_prefixed.simps read_be16_def rd_def)
next
  case (Cons d ds)
  have "unat (of_nat (length d) :: u16) = length d"
    using Cons.prems by (simp add: unat_of_nat)
  with Cons show ?case
    by (subst split_prefixed.simps) (simp add: length_prefixed_def [of d] read_here)
qed

lemma reassemble_stap:
  assumes "list_all (\<lambda>d. length d < 2 ^ 16 \<and> plain_unit d) ds" "ds \<noteq> []"
  shows "reassemble part (stap_payload ds # xs) = ds @ reassemble part xs"
proof (cases "length ds = 1")
  case True
  then obtain d where "ds = [d]"
    by (cases ds) auto
  with assms show ?thesis
    by (simp add: stap_payload_def plain_unit_def)
next
  case False
  have "list_all (\<lambda>d. length d < 2 ^ 16) ds"
    using assms(1) by (auto simp: list_all_iff)
  moreover have "stap_payload ds = stap_header (hd (hd ds)) # concat (map length_prefixed ds)"
    using False assms(2) by (auto simp: stap_payload_def split: list.split)
  ultimately show ?thesis
    by (simp add: stap_header_type split_prefixed_units)
qed

lemma fu_payload_parts: "hd (fu_payload u) = fu_indicator (unit_header u)" "fu_payload u ! 0 = fu_indicator (unit_header u)"
  "fu_payload u ! 1 = fu_header u" "drop 2 (fu_payload u) = fragment_data u"
  by (simp_all add: fu_payload_def)

lemma reassemble_parts:
  "ns \<noteq> [] \<Longrightarrow> reassemble part (map fu_payload (fu_a_units d h off first ns) @ xs) =
    ((if first then [h] else part) @ concat (map fragment_data (fu_a_units d h off first ns))) # reassemble [] xs"
proof (induction ns arbitrary: part off first)
  case (Cons n ns)
  then show ?case
    by (cases "ns = []") (simp_all add: fu_payload_parts fu_indicator_bits fu_header_bits header_parts Let_def del: numeral_1_eq_Suc_0 One_nat_def)
qed simp

lemma reassemble_group:
  assumes "group_ok g" "list_all plain_unit (group_fragments g)" "list_all (\<lambda>x. length x < 2 ^ 16) (group_payloads g)"
  shows "reassemble part (group_payloads g @ xs) = group_fragments g @ reassemble (if \<exists>ds. g = Stap ds then part else []) xs"
proof (cases g)
  case (Stap ds)
  have "length d \<le> length (concat (map length_prefixed ds))" if "d \<in> set ds" for d
    using that by (induction ds) (auto simp: length_prefixed_def)
  then have "length d \<le> length (stap_payload ds)" if "d \<in> set ds" for d
    using that by (fastforce simp: stap_payload_def split: list.split)
  then have "list_all (\<lambda>d. length d < 2 ^ 16 \<and> plain_unit d) ds"
    using assms Stap by (fastforce simp: list_all_iff group_payloads.simps)
  then show ?thesis
    using reassemble_stap assms(1) Stap by (simp add: group_payloads.simps)
next
  case (FuA d ns)
  have "ns \<noteq> []" "1 + sum_list ns = length d"
    using assms(1) FuA by (auto simp: Suc_le_eq)
  moreover have "hd d # take (sum_list ns) (drop 1 d) = d"
    using assms(1) FuA by (cases d) auto
  ultimately show ?thesis
    using FuA fu_a_units_data(1) [of 1 ns d] by (simp add: group_payloads.simps reassemble_parts)
qed

lemma reassemble_groups:
  assumes "list_all group_ok gs" "list_all plain_unit (concat (map group_fragments gs))"
    "list_all (\<lambda>x. length x < 2 ^ 16) (concat (map group_payloads gs))"
  shows "reassemble part (concat (map group_payloads gs)) = concat (map group_fragments gs)"
  using assms by (induction gs arbitrary: part) (simp_all add: reassemble_group)

section \<open>A frame in RTP packets\<close>

text \<open>C4.
  Packetizing an H.264 frame and sending it. The frame is a byte stream of units with short or long start codes. No
  unit has a start code in it, stops with a zero byte or has the type of an aggregation or of a part. Then
  \<^verbatim>\<open>Packetize\<close> succeeds: there is a list of payloads, as many as \<^verbatim>\<open>NumberOfPackets\<close> says, each at
  most the maximal size, the first and the last one with room for their reductions (a frame that is one packet with
  the reduction for it), from which a receiver reassembles the units of the frame. With a packet with enough room for
  each payload, \<^verbatim>\<open>NextPacket\<close> writes every payload, in order, marks the last packet and only the last one, and
  changes nothing else of the packets.
\<close>

theorem packetize_sends_frame:
  fixes M f l s :: nat
  assumes "f + 2 < M" "l + 2 < M" "s + 2 < M" "M < 2 ^ 16"
    "list_all (\<lambda>(long, n). well_formed_unit n \<and> plain_unit n \<and> length n < 2 ^ 31) ns"
  shows "\<exists>z ps. packetize (byte_stream ns) (limits_of M f l s) NON_INTERLEAVED z0 = Some z \<and>
    num_packets_left z = length ps \<and> keeps_limits (map snd ns) M f l s True True ps \<and> reassemble [] ps = map snd ns \<and>
    (\<forall>qs as. length qs = length ps \<and> list_all2 (ready M) qs as \<longrightarrow>
      (\<exists>rs z'. send_all z qs = Some (rs, z') \<and> carries rs as ps \<and> packet_units z' = [] \<and> num_packets_left z' = 0))"
proof -
  let ?L = "limits_of M f l s" and ?S = "byte_stream ns"
  have ok: "list_all (well_formed_unit \<circ> snd) ns" "list_all plain_unit (map snd ns)"
    "list_all (\<lambda>d. d \<noteq> [] \<and> length d < 2 ^ 31) (map snd ns)"
    using assms(5) by (auto simp: list_all_iff well_formed_unit_def)
  have "subview ?S (payload_start_offset x) (payload_size x) = cut ?S x" for x
    by (auto simp: subview_def cut_def min_def)
  then have fs: "map (\<lambda>x. subview ?S (payload_start_offset x) (payload_size x)) (find_nalu_indices ?S SHORT_START_SEQUENCE) = map snd ns"
    using find_byte_stream [OF ok(1)] by simp
  define z1 where "z1 = (packetizer_reset z0)\<lparr>input_fragments := map snd ns\<rparr>"
  have z1: "map snd ns = input_fragments z1" "packet_units z1 = []" "num_packets_left z1 = 0"
    by (simp_all add: z1_def packetizer_reset_def)
  have M: "M < 2 ^ 31"
    using assms(4) by simp
  obtain gs z where gs: "generate_packets (length (map snd ns)) 0 ?L NON_INTERLEAVED z1 = Some (True, z)"
    "packet_units z = packet_units z1 @ concat (map group_units gs)"
    "num_packets_left z = num_packets_left z1 + length (concat (map group_payloads gs))"
    "concat (map group_fragments gs) = drop 0 (map snd ns)" "list_all group_ok gs"
    "keeps_limits (map snd ns) M f l s (0 = (0 :: nat)) True (concat (map group_payloads gs))"
    using generate_packets_groups [OF assms(1-3) M ok(3) z1(1), of 0 "length (map snd ns)"] by auto
  let ?ps = "concat (map group_payloads gs)" and ?cs = "concat (map group_chunks gs)"
  have "length (find_nalu_indices ?S SHORT_START_SEQUENCE) = length ns"
    using arg_cong [OF fs, of length] by simp
  then have run: "packetize ?S ?L NON_INTERLEAVED z0 = Some z"
    using gs(1) by (simp add: packetize_def fs z1_def)
  have sizes: "list_all (\<lambda>x. length x \<le> M) ?ps"
    using gs(6) by (simp add: keeps_limits_def)
  have "list_all (\<lambda>x. length x < 2 ^ 16) ?ps"
    using sizes assms(4) by (auto simp: list_all_iff intro: le_less_trans)
  then have all: "reassemble [] ?ps = map snd ns"
    using reassemble_groups [OF gs(5)] gs(4) ok(2) by simp
  have parts: "concat (map fst ?cs) = concat (map group_units gs)" "map snd ?cs = ?ps"
    by (induction gs) (simp_all add: group_chunks_parts)
  have chunks: "\<forall>c\<in>set ?cs. chunk_ok c \<and> length (snd c) \<le> M"
  proof
    fix c assume "c \<in> set ?cs"
    then obtain g where g: "g \<in> set gs" "c \<in> set (group_chunks g)"
      by auto
    then have "snd c \<in> set ?ps"
      by (metis (no_types, lifting) group_chunks_parts(2) UN_iff image_eqI set_concat set_map)
    with g gs(5) sizes group_chunks_ok [of g c] show "chunk_ok c \<and> length (snd c) \<le> M"
      by (auto simp: list_all_iff)
  qed
  have send: "\<exists>rs z'. send_all z qs = Some (rs, z') \<and> carries rs as ?ps \<and> packet_units z' = [] \<and> num_packets_left z' = 0"
    if "length qs = length ?ps" "list_all2 (ready M) qs as" for qs as
  proof -
    have "length ?cs = length ?ps"
      by (metis length_map parts(2))
    with send_chunks [of z ?cs M qs as] chunks parts gs(2,3) z1 that show ?thesis
      by auto
  qed
  then show ?thesis
    using run gs(3,6) z1(3) all by (intro exI [of _ z] exI [of _ ?ps]) auto
qed

lemma ready_new:
  assumes "12 + M \<le> cap" "0 < M" "cap \<le> kIpPacketSize"
  shows "\<exists>p. rp_new junk (Some em) cap = Some p \<and> ready M p empty_description"
proof -
  have "bare empty_description" "length (header_image empty_description) = 12"
    by (simp_all add: bare_def empty_description_def header_image_def fixed_header_def extension_block_def)
  with rp_new_represents [of cap junk em] assms show ?thesis
    by (auto simp: ready_def)
qed

theorem packetize_sends_frame_witness:
  "\<exists>p z ps rs z'. rp_new False (Some (em_new False)) 100 = Some p \<and>
     packetize [0, 0, 0, 1, 0x67, 5, 0, 0, 1, 0x68, 6, 0, 0, 1, 0x65, 1, 2, 3, 4, 5, 6, 7, 8, 9, 10, 11]
       (limits_of 10 0 1 0) NON_INTERLEAVED \<lparr>num_packets_left = 0, input_fragments = [], packet_units = []\<rparr> = Some z \<and>
     reassemble [] ps = [[0x67, 5], [0x68, 6], [0x65, 1, 2, 3, 4, 5, 6, 7, 8, 9, 10, 11]] \<and>
     send_all z (replicate (length ps) p) = Some (rs, z') \<and> carries rs (replicate (length ps) empty_description) ps"
proof -
  let ?ns = "[(True, [0x67, 5]), (False, [0x68, 6]), (False, [0x65, 1, 2, 3, 4, 5, 6, 7, 8, 9, 10, 11])] :: (bool \<times> byte list) list"
  let ?z = "\<lparr>num_packets_left = 0, input_fragments = [], packet_units = []\<rparr>"
  obtain p where p: "rp_new False (Some (em_new False)) 100 = Some p" "ready 10 p empty_description"
    using ready_new [of 10 100 False "em_new False"] by (auto simp: kIpPacketSize_def)
  have "list_all (\<lambda>(long, n). well_formed_unit n \<and> plain_unit n \<and> length n < 2 ^ 31) ?ns"
    by (simp add: well_formed_unit_def plain_unit_def byte_bits)
  then obtain z ps where z: "packetize (byte_stream ?ns) (limits_of 10 0 1 0) NON_INTERLEAVED ?z = Some z"
    "reassemble [] ps = map snd ?ns"
    "\<forall>qs as. length qs = length ps \<and> list_all2 (ready 10) qs as \<longrightarrow>
      (\<exists>rs z'. send_all z qs = Some (rs, z') \<and> carries rs as ps \<and> packet_units z' = [] \<and> num_packets_left z' = 0)"
    using packetize_sends_frame [of 0 10 1 0 ?ns ?z] by auto
  have "length (replicate (length ps) p) = length ps \<and>
      list_all2 (ready 10) (replicate (length ps) p) (replicate (length ps) empty_description)"
    using p(2) by (simp add: list_all2_conv_all_nth)
  then obtain rs z' where "send_all z (replicate (length ps) p) = Some (rs, z')" "carries rs (replicate (length ps) empty_description) ps"
    using z(3) by blast
  moreover have "byte_stream ?ns = [0, 0, 0, 1, 0x67, 5, 0, 0, 1, 0x68, 6, 0, 0, 1, 0x65, 1, 2, 3, 4, 5, 6, 7, 8, 9, 10, 11]"
    by (simp add: byte_stream_def start_code_def)
  ultimately show ?thesis
    using p(1) z(1,2) by (intro exI [of _ p] exI [of _ z] exI [of _ ps] exI [of _ rs] exI [of _ z']) simp
qed

end
