(* ===== verification/Spec2Isabelle.thy ===== *)
theory Spec2Isabelle
  imports Prelude SeqNum ByteIO RtcpBase RtcpReports RtcpFeedback RtcpTmmb RtcpNack RtcpSdes RtcpXr
    RtcpCompound LastChunk TransportFeedback DecodedFrames ArrivalMap NackModule BitIO PacketBuffer
    CowBuffer RtpExtensions RtpPacket RtpBuild H264Nalu H264Packetizer
begin

text \<open>
  \<^bold>\<open>A verification library for the protocol core of naivertc.\<close>

  naivertc is a WebRTC library in C++: a peer connection on top of third-party transports, and its
  own implementation of RTP and RTCP, of the receiver's loss handling and of the congestion
  control. This library models the parts that are the program's own logic on integers, bytes and
  containers; all paths are relative to \<^verbatim>\<open>src/src/rtc/\<close>.

  \<^bold>\<open>Conventions.\<close> Machine integers are words of their width where the code can wrap, and \<open>int\<close> or
  \<open>nat\<close> where a stated bound keeps them in range. A buffer is a list of bytes and a pointer an
  offset into it. The result \<open>None\<close> is a failed assertion, a read or write outside a buffer, or
  another step that C++ leaves undefined; a function that reports errors itself returns them as
  values (\<open>reject\<close> and \<open>accept\<close> for parsers). Objects are records, methods are functions that
  return the new record, and the clock and the delivery callback are arguments or part of the
  result.

  \<^bold>\<open>Theories and sources.\<close>
  \<^item> \<open>Prelude\<close>: machine types, checked reads and writes, shared lemmas.
  \<^item> \<open>SeqNum\<close>: \<^verbatim>\<open>base/numerics/modulo_operator.hpp\<close>, \<^verbatim>\<open>rtp_rtcp/components/wrap_around_utils.hpp\<close>,
    \<^verbatim>\<open>wrap_around_checker.hpp\<close>, \<^verbatim>\<open>num_unwrapper.hpp\<close>, \<^verbatim>\<open>num_unwrapper_base.hpp\<close>. The locale
    \<open>key_order\<close> states what the ordered containers need of a comparator; it is interpreted on
    \<open>older_than\<close> for the keys of one window.
  \<^item> \<open>ByteIO\<close>: \<^verbatim>\<open>base/memory/byte_io.hpp\<close> (readers and writers of both byte orders).
  \<^item> \<open>RtcpBase\<close>: \<^verbatim>\<open>rtp_rtcp/rtcp/rtcp_packet.cpp\<close>, \<^verbatim>\<open>packets/common_header.cpp\<close>, the feedback
    bases. Its locales are the interfaces of all packets: \<open>rtcp_image\<close> (a packer writes one image
    at the index), \<open>rtcp_codec\<close> (that image parses back), \<open>safe_parser\<close> (no input makes the parser
    leave its buffer). Every packet theory interprets them on its own functions.
  \<^item> \<open>RtcpReports\<close>, \<open>RtcpFeedback\<close>, \<open>RtcpTmmb\<close>, \<open>RtcpNack\<close>, \<open>RtcpSdes\<close>, \<open>RtcpXr\<close>: the packets of
    \<^verbatim>\<open>rtp_rtcp/rtcp/packets/\<close>. Round trips through the wire format, the splitting of long NACKs
    over several packets, and the behaviour without room in the buffer.
  \<^item> \<open>LastChunk\<close>, \<open>TransportFeedback\<close>: \<^verbatim>\<open>packets/transport_feedback.cpp\<close>, the chunk encoder and
    the packet: recording keeps the object consistent, arrival times are accurate to half a tick,
    the wire format round trips and its parser is safe.
  \<^item> \<open>RtcpCompound\<close> and this theory: \<^verbatim>\<open>packets/compound_packet.cpp\<close> over the packet classes.
  \<^item> \<open>DecodedFrames\<close>: \<^verbatim>\<open>rtp_rtcp/rtp/receiver/video/jitter/decoded_frames_history.cpp\<close>, a cyclic
    buffer that refines the set of inserted frames.
  \<^item> \<open>ArrivalMap\<close>: \<^verbatim>\<open>congestion_control/receive_side/packet_arrival_time_map.cpp\<close>, a deque that
    refines a map from packet ids to times, over all reachable states.
  \<^item> \<open>BitIO\<close>: \<^verbatim>\<open>base/memory/bit_io.cpp\<close>, \<^verbatim>\<open>bit_io_reader.hpp\<close>, \<^verbatim>\<open>bit_io_reader.cpp\<close>,
    \<^verbatim>\<open>bit_io_writer.cpp\<close>: the writer replaces and the reader returns slices of the bit stream of
    the buffer; Exp-Golomb codes round trip.
  \<^item> \<open>PacketBuffer\<close>: \<^verbatim>\<open>rtp_rtcp/rtp/receiver/video/jitter/packet_buffer.cpp\<close>: frames are assembled
    whatever the order of arrival (of H.264, with its search for the first packet, its key frames
    and its gate on missing packets, and of other codecs), the slots keep their invariant in all
    reachable states, the tracking of missing packets ends, and when growing the buffer loses a packet.
  \<^item> \<open>NackModule\<close>: \<^verbatim>\<open>rtp_rtcp/rtp/receiver/nack_module_impl.cpp\<close>, the list of missing packets:
    its invariant in all reachable states, the exact contents after a gap, the overflow, and that
    retransmission requests end.
  \<^item> \<open>CowBuffer\<close>: \<^verbatim>\<open>base/copy_on_write_buffer.cpp\<close> over a store of vectors with owners. The locale
    \<open>isolated_update\<close> is the contract of an operation on one object (it acts as on a private buffer
    and keeps every other object); programs of operations refine programs on private values
    as long as no \<^verbatim>\<open>Swap\<close> gets an argument whose vector a third object shares; what it does then
    has a theorem of its own.
  \<^item> \<open>RtpExtensions\<close>: \<^verbatim>\<open>rtp_rtcp/rtp/packets/rtp_header_extensions.cpp\<close> and
    \<^verbatim>\<open>rtp_header_extension_map.cpp\<close>: the values round trip, the map of identifiers stays injective and
    refines a partial map.
  \<^item> \<open>RtpPacket\<close>: \<^verbatim>\<open>rtp_rtcp/rtp/packets/rtp_packet.cpp\<close>, the packet with its setters, its extension
    block and its parser. The parser stays inside the bytes it is given and agrees with a decoder of
    lists; three theorems say where the code departs from what it means to do.
  \<^item> \<open>RtpBuild\<close>: the wire image of a packet as one list, the simulation of every setter on it, and the
    round trip of a packet from a sender to a receiver.
  \<^item> \<open>H264Nalu\<close>: \<^verbatim>\<open>media/video/codecs/h264/nalunit_auxiliaries.cpp\<close>: the scan for start codes misses
    no unit and cuts each one exactly, and emulation bytes written are removed again.
  \<^item> \<open>PayloadSplit\<close>: \<^verbatim>\<open>rtp_rtcp/rtp/packetizer/rtp_packetizer.cpp\<close>: the sizes of a split payload add up
    and keep the limits.
  \<^item> \<open>H264Packetizer\<close>: \<^verbatim>\<open>rtp_rtcp/rtp/packetizer/rtp_packetizer_h264.cpp\<close>: from the bytes of a frame over
    single, aggregated and fragmented payloads to RTP packets, from which a receiver reassembles the units.

  \<^bold>\<open>How the parts interact.\<close> The RTCP sender builds the packets of \<open>RtcpReports\<close> to \<open>TransportFeedback\<close>
  and packs them with \<open>RtcpCompound\<close> into datagrams; the receiver splits a datagram by the common
  header of \<open>RtcpBase\<close> and hands each part to its parser. \<open>NackModule\<close> produces the lists that
  \<open>RtcpNack\<close> packs, \<open>ArrivalMap\<close> the arrival times that \<open>TransportFeedback\<close> records; both
  rest on the wrap-around order of \<open>SeqNum\<close>. A media packet is an \<open>RtpPacket\<close>, whose bytes are a
  buffer of \<open>CowBuffer\<close> and whose extensions are found through the map of \<open>RtpExtensions\<close>.
  A sender of video hands each frame to \<open>H264Packetizer\<close>, which finds the units with \<open>H264Nalu\<close>, splits
  large ones with \<open>PayloadSplit\<close> and writes the payloads into packets as \<open>RtpBuild\<close> describes them.

  \<^bold>\<open>Bounds.\<close> Every loop is structural recursion or a \<open>function\<close> with a measure. One definition takes
  a bound: \<open>generate_packets\<close>, whose index only grows; \<open>packetize\<close> gives it the number of units, and
  \<open>packetize_sends_frame\<close> shows that this is enough. In \<open>split_loop\<close>, \<open>None\<close> is a counter of packets that
  would wrap below zero, which \<open>split_about_equally_bounds\<close> excludes. Where a loop of the code can spin forever (the flush loop of extended reports) the
  model makes that a value and a theorem says when it happens.

  \<^bold>\<open>Not modelled.\<close> The transports (ICE, DTLS, SRTP, SCTP), SDP and signalling are glue around
  libraries that are not part of the repository. Task queues and clocks are the platform's. The
  trend line, AIMD and loss-based estimators, the jitter estimation and the pacing budgets compute
  in floating point, for which there is no faithful model here. The senders and receivers of RTP and
  RTCP are orchestration of the modelled parts over clocks and callbacks.
\<close>

section \<open>Compound packets\<close>

text \<open>
  The packet classes a compound is made of, and the two virtual functions of each: all classes that
  pack as one unit. Left out are \<^verbatim>\<open>Nack\<close>, which splits itself over several datagrams, and
  \<^verbatim>\<open>ExtendedReports\<close>, which fails when a buffer has to be flushed for it; both have theorems of their own.
\<close>

datatype any_packet =
    SR sender_report | RR receiver_report | SDES sdes | BYE bye | PLI pli | FIR fir | REMB remb
  | TMMBR tmmb | TMMBN tmmb | LNTF loss_notification | TransportCC transport_feedback

fun packet_of :: "any_packet \<Rightarrow> rtcp_packet" where
  "packet_of (SR p) = (sr_packet_size p, sender_report_pack_into p)"
| "packet_of (RR p) = (rr_packet_size p, receiver_report_pack_into p)"
| "packet_of (SDES p) = (sdes_packet_size p, sdes_pack_into p)"
| "packet_of (BYE p) = (bye_packet_size p, bye_pack_into p)"
| "packet_of (PLI p) = (pli_packet_size p, pli_pack_into p)"
| "packet_of (FIR p) = (fir_packet_size p, fir_pack_into p)"
| "packet_of (REMB p) = (remb_packet_size p, remb_pack_into p)"
| "packet_of (TMMBR p) = (tmmb_packet_size p, tmmbr_pack_into p)"
| "packet_of (TMMBN p) = (tmmb_packet_size p, tmmbn_pack_into p)"
| "packet_of (LNTF p) = (ln_packet_size p, ln_pack_into p)"
| "packet_of (TransportCC p) = (tf_packet_size p, tf_pack_into p)"

fun valid_packet :: "any_packet \<Rightarrow> bool" where
  "valid_packet (SR p) = sr_valid p"
| "valid_packet (RR p) = rr_valid p"
| "valid_packet (SDES p) = sdes_valid p"
| "valid_packet (BYE p) = bye_valid p"
| "valid_packet (PLI p) = True"
| "valid_packet (FIR p) = fir_valid p"
| "valid_packet (REMB p) = remb_valid p"
| "valid_packet (TMMBR p) = (tmmb_valid p \<and> tmmb_items p \<noteq> [])"
| "valid_packet (TMMBN p) = tmmb_valid p"
| "valid_packet (LNTF p) = ln_valid p"
| "valid_packet (TransportCC p) = tf_packable p"

fun wire_of :: "any_packet \<Rightarrow> byte list" where
  "wire_of (SR p) = sr_wire p"
| "wire_of (RR p) = rr_wire p"
| "wire_of (SDES p) = sdes_wire p"
| "wire_of (BYE p) = bye_wire p"
| "wire_of (PLI p) = pli_wire p"
| "wire_of (FIR p) = fir_wire p"
| "wire_of (REMB p) = remb_wire p"
| "wire_of (TMMBR p) = tmmb_wire 3 p"
| "wire_of (TMMBN p) = tmmb_wire 4 p"
| "wire_of (LNTF p) = ln_wire p"
| "wire_of (TransportCC p) = tf_image p"

lemma valid_packs: "valid_packet p \<Longrightarrow> packs (packet_of p) (wire_of p)"
  by (cases p) (auto simp: packs_def sr.length_wire sr.pack_is_wire rr.length_wire rr.pack_is_wire sdes.length_wire
      sdes.pack_is_wire bye.length_wire bye.pack_is_wire pli.length_wire pli.pack_is_wire fir.length_wire
      fir.pack_is_wire remb.length_wire remb.pack_is_wire tmmbr.length_wire tmmbr.pack_is_wire tmmbn.length_wire
      tmmbn.pack_is_wire ln.length_wire ln.pack_is_wire tf_packable_image)

lemma valid_packs_list: "\<forall>p\<in>set ps. valid_packet p \<Longrightarrow> list_all2 packs (map packet_of ps) (map wire_of ps)"
  by (induction ps) (auto intro: valid_packs)

lemma packet_nonempty: "valid_packet p \<Longrightarrow> 0 < fst (packet_of p)"
  by (cases p) (simp_all add: sr.not_empty rr.not_empty sdes.not_empty bye.not_empty pli.not_empty fir.not_empty
      remb.not_empty tmmbr.not_empty tmmbn.not_empty ln.not_empty tf_packable_image(3))

lemma wire_nonempty: "valid_packet p \<Longrightarrow> wire_of p \<noteq> []"
  using valid_packs [of p] packet_nonempty [of p] by (auto simp: packs_def)

lemma build_exact_wire: "valid_packet p \<Longrightarrow> build_exact (packet_of p) = Some (wire_of p)"
  using valid_packs [of p] by (simp add: build_exact_def packs_def pack_wire_fresh)

text \<open>
  C10. Building a compound of any number of reports, descriptions, goodbyes and feedback packets (NACK
  and extended reports apart), each of which is valid and fits the limit, delivers
  datagrams within the limit whose concatenation is the concatenation of the packets built alone:
  flushing full buffers neither loses, splits nor reorders anything.
\<close>

theorem compound_build_conserves:
  assumes "ps \<noteq> []" "\<forall>p\<in>set ps. valid_packet p \<and> fst (packet_of p) \<le> max_size"
    "max_size \<le> kIpPacketSize" "length stack = kIpPacketSize"
  shows "\<exists>ds. build (compound_pack_into (map packet_of ps)) max_size True stack = Some (True, ds) \<and>
    concat ds = concat (map (\<lambda>p. the (build_exact (packet_of p))) ps) \<and> (\<forall>d\<in>set ds. length d \<le> max_size)"
proof -
  have fits: "\<forall>w\<in>set (map wire_of ps). length w \<le> max_size"
    using assms(2) valid_packs by (auto simp: packs_def)
  let ?s = "\<lparr>pk_buffer = stack, pk_index = 0, pk_ready = []\<rparr>"
  obtain t where t: "compound_pack_into (map packet_of ps) max_size True ?s = Some (True, t)"
    "packed t = packed ?s @ concat (map wire_of ps)" "pk_index t \<le> max_size"
    "length (pk_buffer t) = length stack" "\<forall>p\<in>set (pk_ready t). length p \<le> max_size" "0 < pk_index t"
    using compound_appends [OF valid_packs_list fits, of ?s] assms wire_nonempty by auto
  have single: "map (\<lambda>p. the (build_exact (packet_of p))) ps = map wire_of ps"
    using assms(2) by (simp add: build_exact_wire)
  show ?thesis
    unfolding single using t assms(3,4)
    by (auto simp: build_def on_buffer_full_def packed_def)
qed


definition example_goodbye :: bye where
  "example_goodbye = \<lparr>bye_sender_ssrc = 1, bye_csrcs = [2], bye_reason = [104, 105]\<rparr>"

theorem compound_build_conserves_witness:
  "\<exists>ds. build (compound_pack_into (map packet_of
        [SR example_sr, SDES sdes_new, LNTF \<lparr>ln_sender_ssrc = 1, ln_media_ssrc = 2, ln_last_decoded = 3, ln_last_received = 5,
           ln_decodability_flag = True\<rparr>, BYE example_goodbye])) 80 True
      (replicate 1500 0) = Some (True, ds) \<and>
    concat ds = concat (map (\<lambda>p. the (build_exact (packet_of p)))
      [SR example_sr, SDES sdes_new, LNTF \<lparr>ln_sender_ssrc = 1, ln_media_ssrc = 2, ln_last_decoded = 3, ln_last_received = 5,
           ln_decodability_flag = True\<rparr>, BYE example_goodbye]) \<and>
    (\<forall>d\<in>set ds. length d \<le> 80)"
  by (rule compound_build_conserves)
    (simp_all add: kIpPacketSize_def sr_valid_def rb_valid_def example_sr_def example_block_def sr_packet_size_def
      report_defs bye_valid_def example_goodbye_def bye_packet_size_def sdes_packet_size_def sdes_new_def sdes_valid_def
      ln_valid_def ln_packet_size_def kCommonFeedbackSize_def kLossNotificationPayloadSize_def)

text \<open>
  C24. The compound a sender emits when it leaves, a sender report, its description and a goodbye,
  is built into a buffer of exactly the predicted size, and a receiver that parses header after
  header gets the three packets back and stops at the end.
\<close>

theorem compound_report_roundtrip:
  assumes "sr_valid r" "sdes_valid d" "bye_valid b"
  shows "\<exists>bytes hr hd hb. build_exact (compound_packet_size (map packet_of [SR r, SDES d, BYE b]),
        compound_pack_into (map packet_of [SR r, SDES d, BYE b])) = Some bytes \<and>
    common_header_parse bytes (length bytes) = accept hr \<and> sender_report_parse hr = accept r \<and>
    common_header_parse (next_packet hr) (length (next_packet hr)) = accept hd \<and> sdes_parse hd = accept d \<and>
    common_header_parse (next_packet hd) (length (next_packet hd)) = accept hb \<and> bye_parse hb = accept b \<and>
    next_packet hb = []"
proof -
  let ?bytes = "sr_wire r @ sdes_wire d @ bye_wire b"
  have "build_exact (compound_packet_size (map packet_of [SR r, SDES d, BYE b]),
        compound_pack_into (map packet_of [SR r, SDES d, BYE b])) = Some ?bytes"
    using compound_packs_fit [OF valid_packs_list, of "[SR r, SDES d, BYE b]"] assms by simp
  moreover obtain hr where "common_header_parse ?bytes (length ?bytes) = accept hr" "sender_report_parse hr = accept r"
      "next_packet hr = sdes_wire d @ bye_wire b"
    using sr.parse_of_wire [OF assms(1), of "sdes_wire d @ bye_wire b"] by auto
  moreover obtain hd where "common_header_parse (sdes_wire d @ bye_wire b) (length (sdes_wire d @ bye_wire b)) = accept hd"
      "sdes_parse hd = accept d" "next_packet hd = bye_wire b"
    using sdes.parse_of_wire [OF assms(2), of "bye_wire b"] by auto
  moreover obtain hb where "common_header_parse (bye_wire b) (length (bye_wire b)) = accept hb" "bye_parse hb = accept b"
      "next_packet hb = []"
    using bye.parse_of_wire [OF assms(3), of "[]"] by auto
  ultimately show ?thesis by metis
qed

theorem compound_report_roundtrip_witness:
  "\<exists>bytes hr hd hb. build_exact (compound_packet_size (map packet_of [SR example_sr, SDES sdes_new, BYE example_goodbye]),
        compound_pack_into (map packet_of [SR example_sr, SDES sdes_new, BYE example_goodbye])) = Some bytes \<and>
    common_header_parse bytes (length bytes) = accept hr \<and> sender_report_parse hr = accept example_sr \<and>
    common_header_parse (next_packet hr) (length (next_packet hr)) = accept hd \<and> sdes_parse hd = accept sdes_new \<and>
    common_header_parse (next_packet hd) (length (next_packet hd)) = accept hb \<and>
    bye_parse hb = accept example_goodbye \<and> next_packet hb = []"
  by (rule compound_report_roundtrip)
    (simp_all add: sr_valid_def rb_valid_def example_sr_def example_block_def report_defs bye_valid_def example_goodbye_def)

section \<open>Received packets\<close>

text \<open>
  C15. Whatever arrives: no sequence of bytes makes the parser of any RTCP packet class read outside
  the received buffer or fail an assertion. (A loss notification is only handed to its parser after
  the receiver has looked at the type and the format, which its assertions require.)
\<close>

theorem rtcp_parsers_safe:
  assumes "sz \<le> length buffer"
  shows "parse_received sender_report_parse buffer sz \<noteq> None \<and> parse_received receiver_report_parse buffer sz \<noteq> None \<and>
    parse_received sdes_parse buffer sz \<noteq> None \<and> parse_received bye_parse buffer sz \<noteq> None \<and>
    parse_received pli_parse buffer sz \<noteq> None \<and> parse_received fir_parse buffer sz \<noteq> None \<and>
    parse_received remb_parse buffer sz \<noteq> None \<and> parse_received tmmbr_parse buffer sz \<noteq> None \<and>
    parse_received tmmbn_parse buffer sz \<noteq> None \<and> parse_received nack_parse buffer sz \<noteq> None \<and>
    parse_received xr_parse buffer sz \<noteq> None \<and>
    parse_received (\<lambda>h. if packet_type h = 206 \<and> count_or_fmt h = 15 then ln_parse h else reject) buffer sz \<noteq> None"
  using assms
  by (intro conjI sr_safe.received_safe rr_safe.received_safe sdes_safe.received_safe bye_safe.received_safe
      pli_safe.received_safe fir_safe.received_safe remb_safe.received_safe tmmbr_safe.received_safe
      tmmbn_safe.received_safe nack_safe.received_safe xr_safe.received_safe ln_safe.received_safe)

theorem rtcp_parsers_safe_witness:
  "parse_received sdes_parse (replicate 9 0x81) 7 \<noteq> None \<and> parse_received xr_parse (replicate 9 0x81) 7 \<noteq> None"
  using rtcp_parsers_safe [of 7 "replicate 9 0x81"] by (simp del: not_None_eq)

end
